(* ===== verification/Prelude.thy ===== *)
theory Prelude
  imports Main "HOL-Library.Word" "HOL-Library.Monad_Syntax"
begin

text \<open>
  Shared vocabulary of the development: the machine integers of the 64-bit Apple targets the
  pods are built for, byte-addressed little-endian memory with typed loads and stores, and the
  generic lemmas on bytes, words and options that the component theories use.

  A computation whose C counterpart would leave its defined behaviour (a read past the end of an
  input buffer, a write past the end of an output buffer, a call through a null function pointer,
  a free of a block that is not live) or that exceeds its recursion bound has the value
  \<^const>\<open>None\<close>; a C function that returns is \<^const>\<open>Some\<close>.
\<close>

unbundle bit_operations_syntax

named_theorems mem_simps \<open>loads after stores\<close>
named_theorems word_nat \<open>unat of word operations, and back\<close>

section \<open>Machine types\<close>

type_synonym byte = "8 word"
type_synonym u16 = "16 word"
type_synonym u32 = "32 word"
type_synonym u64 = "64 word"
type_synonym addr = "64 word"
type_synonym size_t = "64 word"
type_synonym mem = "addr \<Rightarrow> byte"

abbreviation (input) NULL :: addr where "NULL \<equiv> 0"

section \<open>Calls that return a success flag\<close>

text \<open>The C idiom \<^verbatim>\<open>if (!f(...)) return false; ...\<close>: the rest runs on the state that a successful
  call leaves.\<close>

definition and_then :: "(bool \<times> 'a) option \<Rightarrow> ('a \<Rightarrow> (bool \<times> 'a) option) \<Rightarrow> (bool \<times> 'a) option" where
  "and_then r k = (case r of
      None \<Rightarrow> None
    | Some (ok, s) \<Rightarrow> if ok then k s else Some (False, s))"

lemma and_then_simps [simp]:
  "and_then None k = None"
  "and_then (Some (True, s)) k = k s"
  "and_then (Some (False, s)) k = Some (False, s)"
  by (simp_all add: and_then_def)

lemma and_then_assoc: "and_then (and_then r k) l = and_then r (\<lambda>s. and_then (k s) l)"
  by (auto simp: and_then_def split: option.split prod.split)

lemma and_then_eq_Some_True:
  "and_then r k = Some (True, t) \<longleftrightarrow> (\<exists>s. r = Some (True, s) \<and> k s = Some (True, t))"
  by (auto simp: and_then_def split: option.splits prod.splits if_splits)

lemma and_then_cong [fundef_cong]:
  "r = r' \<Longrightarrow> (\<And>s. r' = Some (True, s) \<Longrightarrow> k s = k' s) \<Longrightarrow> and_then r k = and_then r' k'"
  by (auto simp: and_then_def split: option.splits)

section \<open>Words and natural numbers\<close>

lemma unat_of_nat_small [word_nat]:
  "n < 2 ^ LENGTH('a) \<Longrightarrow> unat (of_nat n :: 'a::len word) = n"
  by (simp add: unat_of_nat)

lemma unat_less_64: "unat (x :: 64 word) < 18446744073709551616"
  using unsigned_less [of x, where ?'a = nat] by simp

lemma unat_add_small [word_nat]:
  "unat (x :: 64 word) + n < 18446744073709551616 \<Longrightarrow> unat (x + of_nat n) = unat x + n"
  by (simp add: unat_word_ariths unat_of_nat mod_add_right_eq)

lemma unat_drop_bit [word_nat]: "unat (drop_bit n (w :: 'a::len word)) = unat w div 2 ^ n"
  unfolding unat_drop_bit_eq by (simp add: drop_bit_eq_div)

lemma unat_ucast_up [simp]:
  "LENGTH('a) \<le> LENGTH('b) \<Longrightarrow> unat (ucast (x :: 'a::len word) :: 'b::len word) = unat x"
proof -
  assume up: "LENGTH('a) \<le> LENGTH('b)"
  have "unat x < 2 ^ LENGTH('a)" by (rule unsigned_less)
  also have "\<dots> \<le> 2 ^ LENGTH('b)" using up by simp
  finally show ?thesis by (simp add: unsigned_ucast_eq take_bit_nat_eq_self_iff)
qed

lemma unat_minus_1_64 [simp]: "unat (-1 :: 64 word) = 18446744073709551615"
  by (simp add: unsigned_minus_1_eq_mask mask_eq_exp_minus_1)

lemma unat_less_32: "unat (x :: 32 word) < 4294967296"
  using unsigned_less [of x, where ?'a = nat] by simp

lemma not_above_max_32 [simp]: "\<not> (4294967295 :: 32 word) < x"
  using unat_less_32 [of x] by (simp add: word_less_nat_alt)

lemma bit_80 [bit_simps]: "bit (0x80 :: 'a::len word) n \<longleftrightarrow> n = 7 \<and> 7 < LENGTH('a)"
proof -
  have "(128 :: 'a word) = 2 ^ 7" by simp
  then show ?thesis by (simp only: bit_exp_iff) auto
qed

lemma bit_80_int [bit_simps]: "bit (0x80 :: int) n \<longleftrightarrow> n = 7"
proof -
  have "(128 :: int) = 2 ^ 7" by simp
  then show ?thesis by (simp only: bit_exp_iff) auto
qed

lemma and_7F [simp]: "(v :: 'a::len word) AND 0x7F = take_bit 7 v"
  by (simp add: take_bit_eq_mask mask_eq_exp_minus_1)

text \<open>A bounded quantifier as a loop, for evaluation.\<close>

lemma all_upto: "list_all P [0..<n] \<longleftrightarrow> (\<forall>i < n. P i)"
  by (auto simp: list_all_iff)

lemma concat_take_le: "length (concat (take i xss)) \<le> length (concat xss)"
  by (metis append_take_drop_id concat_append le_add1 length_append)

lemma fold_appends: "(\<And>x d. f x d = d @ g x) \<Longrightarrow> fold f xs d = d @ concat (map g xs)"
  by (induction xs arbitrary: d) simp_all

lemma drop_split: "n \<le> k \<Longrightarrow> drop n xs = drop n (take k xs) @ drop k xs"
  by (cases "k \<le> length xs") (simp_all add: drop_take, metis append_take_drop_id drop_drop le_add_diff_inverse2)

lemma append_cut:
  assumes "p @ q = xs @ ys"
  obtains (inside) z where "xs = p @ z" "z \<noteq> []" "q = z @ ys" | (behind) z where "p = xs @ z" "ys = z @ q"
  using assms by (auto simp: append_eq_append_conv2) metis+

section \<open>Little-endian bytes of a word\<close>

fun bytes_of_word :: "nat \<Rightarrow> 'a::len word \<Rightarrow> byte list" where
  "bytes_of_word 0 w = []"
| "bytes_of_word (Suc n) w = ucast w # bytes_of_word n (drop_bit 8 w)"

fun word_of_bytes :: "byte list \<Rightarrow> 'a::len word" where
  "word_of_bytes [] = 0"
| "word_of_bytes (b # bs) = ucast b OR push_bit 8 (word_of_bytes bs)"

lemma length_bytes_of_word [simp]: "length (bytes_of_word n w) = n"
  by (induction n arbitrary: w) auto

lemma nth_bytes_of_word: "i < n \<Longrightarrow> bytes_of_word n w ! i = ucast (drop_bit (8 * i) w)"
proof (induction n arbitrary: w i)
  case (Suc n)
  then show ?case by (cases i) (simp_all add: add.commute)
qed simp

lemma word_of_bytes_of_word_take:
  "(word_of_bytes (bytes_of_word n (w :: 'a::len word)) :: 'a word) = take_bit (8 * n) w"
proof (induction n arbitrary: w)
  case (Suc n)
  show ?case
    by (rule bit_word_eqI) (auto simp: Suc bit_simps)
qed simp

lemma word_of_bytes_of_word [simp]:
  "LENGTH('a) \<le> 8 * n \<Longrightarrow> (word_of_bytes (bytes_of_word n (w :: 'a::len word)) :: 'a word) = w"
  by (simp add: word_of_bytes_of_word_take take_bit_word_eq_self)

lemma bit_word_of_bytesD: "bit (word_of_bytes bs :: 'a::len word) n \<Longrightarrow> n < 8 * length bs"
proof (induction bs arbitrary: n)
  case (Cons b bs)
  then have "bit b n \<or> 8 \<le> n \<and> bit (word_of_bytes bs :: 'a word) (n - 8)"
    by (auto simp: bit_simps)
  then show ?case
    using Cons.IH [of "n - 8"] by (auto dest: bit_imp_le_length)
qed simp

lemma bytes_of_word_of_bytes:
  "8 * length bs \<le> LENGTH('a) \<Longrightarrow> bytes_of_word (length bs) (word_of_bytes bs :: 'a::len word) = bs"
proof (induction bs)
  case (Cons b bs)
  let ?w = "word_of_bytes bs :: 'a word"
  have "(ucast (ucast b OR push_bit 8 ?w) :: byte) = b"
    using Cons.prems by (intro bit_word_eqI) (auto simp: bit_simps)
  moreover have "drop_bit 8 (ucast b OR push_bit 8 ?w) = ?w"
    using Cons.prems
    by (intro bit_word_eqI) (auto simp: bit_simps dest: bit_imp_le_length bit_word_of_bytesD)
  ultimately show ?case
    using Cons by simp
qed simp

lemma ucast_and_FF [simp]: "(ucast (x AND 0xFF :: 'a::len word) :: byte) = ucast x"
proof -
  have "x AND 0xFF = take_bit 8 x"
    by (simp add: take_bit_eq_mask mask_eq_exp_minus_1)
  then show ?thesis
    by (intro bit_word_eqI) (auto simp: bit_simps)
qed

lemma bytes_of_word_4:
  "bytes_of_word 4 w = [ucast w, ucast (drop_bit 8 w), ucast (drop_bit 16 w), ucast (drop_bit 24 w)]"
proof -
  have "(4 :: nat) = Suc (Suc (Suc (Suc 0)))" by simp
  then show ?thesis by (simp only: bytes_of_word.simps) simp
qed

lemma bytes_of_word_add:
  "bytes_of_word (i + j) w = bytes_of_word i w @ bytes_of_word j (drop_bit (8 * i) w)"
  by (induction i arbitrary: w) (simp_all add: algebra_simps)

lemma bytes_of_word_8:
  "bytes_of_word 8 w = [ucast w, ucast (drop_bit 8 w), ucast (drop_bit 16 w), ucast (drop_bit 24 w),
     ucast (drop_bit 32 w), ucast (drop_bit 40 w), ucast (drop_bit 48 w), ucast (drop_bit 56 w)]"
  using bytes_of_word_add [of 4 4 w] by (simp add: bytes_of_word_4)

section \<open>Memory\<close>

fun load_bytes :: "mem \<Rightarrow> addr \<Rightarrow> nat \<Rightarrow> byte list" where
  "load_bytes m a 0 = []"
| "load_bytes m a (Suc n) = m a # load_bytes m (a + 1) n"

fun store_bytes :: "mem \<Rightarrow> addr \<Rightarrow> byte list \<Rightarrow> mem" where
  "store_bytes m a [] = m"
| "store_bytes m a (b # bs) = store_bytes (m(a := b)) (a + 1) bs"

text \<open>The addresses \<open>a, a + 1, \<dots>, a + n - 1\<close> of an object of \<open>n\<close> bytes.\<close>

fun span :: "addr \<Rightarrow> nat \<Rightarrow> addr set" where
  "span a 0 = {}"
| "span a (Suc n) = insert a (span (a + 1) n)"

definition load8 :: "mem \<Rightarrow> addr \<Rightarrow> byte" where "load8 m a = m a"
definition load16 :: "mem \<Rightarrow> addr \<Rightarrow> u16" where "load16 m a = word_of_bytes (load_bytes m a 2)"
definition load32 :: "mem \<Rightarrow> addr \<Rightarrow> u32" where "load32 m a = word_of_bytes (load_bytes m a 4)"
definition load64 :: "mem \<Rightarrow> addr \<Rightarrow> u64" where "load64 m a = word_of_bytes (load_bytes m a 8)"
definition load_bool :: "mem \<Rightarrow> addr \<Rightarrow> bool" where "load_bool m a \<longleftrightarrow> m a \<noteq> 0"

definition store8 :: "mem \<Rightarrow> addr \<Rightarrow> byte \<Rightarrow> mem" where "store8 m a v = m(a := v)"
definition store16 :: "mem \<Rightarrow> addr \<Rightarrow> u16 \<Rightarrow> mem" where
  "store16 m a v = store_bytes m a (bytes_of_word 2 v)"
definition store32 :: "mem \<Rightarrow> addr \<Rightarrow> u32 \<Rightarrow> mem" where
  "store32 m a v = store_bytes m a (bytes_of_word 4 v)"
definition store64 :: "mem \<Rightarrow> addr \<Rightarrow> u64 \<Rightarrow> mem" where
  "store64 m a v = store_bytes m a (bytes_of_word 8 v)"
definition store_bool :: "mem \<Rightarrow> addr \<Rightarrow> bool \<Rightarrow> mem" where
  "store_bool m a v = m(a := (if v then 1 else 0))"

lemma length_load_bytes [simp]: "length (load_bytes m a n) = n"
  by (induction n arbitrary: a) auto

lemma span_iff: "x \<in> span a n \<longleftrightarrow> (\<exists>i < n. x = a + of_nat i)"
proof (induction n arbitrary: a)
  case (Suc n)
  show ?case
  proof
    assume "x \<in> span a (Suc n)"
    then consider "x = a" | i where "i < n" "x = a + 1 + of_nat i"
      using Suc by auto
    then show "\<exists>i < Suc n. x = a + of_nat i"
    proof cases
      case 1
      then show ?thesis by (intro exI [of _ 0]) simp
    next
      case 2
      then show ?thesis by (intro exI [of _ "Suc i"]) simp
    qed
  next
    assume "\<exists>i < Suc n. x = a + of_nat i"
    then obtain i where i: "i < Suc n" "x = a + of_nat i" by blast
    show "x \<in> span a (Suc n)"
    proof (cases i)
      case 0
      with i show ?thesis by simp
    next
      case (Suc j)
      with i have "j < n" "x = a + 1 + of_nat j" by simp_all
      then have "x \<in> span (a + 1) n" using Suc.IH by blast
      then show ?thesis by simp
    qed
  qed
qed simp

lemma not_in_span_Suc: "int n < 2 ^ 64 \<Longrightarrow> a \<notin> span (a + 1) n"
proof
  assume n: "int n < 2 ^ 64" and "a \<in> span (a + 1) n"
  then obtain i where i: "i < n" "a = a + 1 + of_nat i"
    by (auto simp: span_iff)
  then have "(of_nat (Suc i) :: 64 word) = 0"
    by (simp add: add.assoc)
  moreover from i n have "int (Suc i) < 2 ^ 64" by linarith
  then have "unat (of_nat (Suc i) :: 64 word) = Suc i"
    by (intro unat_of_nat_small) simp
  ultimately show False
    by simp
qed

lemma store_bytes_outside [mem_simps]:
  "x \<notin> span a (length bs) \<Longrightarrow> store_bytes m a bs x = m x"
  by (induction bs arbitrary: m a) auto

lemma load_store_bytes [mem_simps]:
  "int (length bs) < 2 ^ 64 \<Longrightarrow> load_bytes (store_bytes m a bs) a (length bs) = bs"
proof (induction bs arbitrary: m a)
  case (Cons b bs)
  have "a \<notin> span (a + 1) (length bs)"
    using Cons.prems by (intro not_in_span_Suc) simp
  with Cons show ?case by (simp add: store_bytes_outside)
qed simp

lemma load_bytes_cong:
  "(\<And>x. x \<in> span a n \<Longrightarrow> m x = m' x) \<Longrightarrow> load_bytes m a n = load_bytes m' a n"
  by (induction n arbitrary: a) auto

lemma load_store_disjoint [mem_simps]:
  "span a n \<inter> span b (length bs) = {} \<Longrightarrow>
   load_bytes (store_bytes m b bs) a n = load_bytes m a n"
  by (rule load_bytes_cong) (auto intro!: store_bytes_outside)

lemma bytes_of_load32 [simp]: "bytes_of_word 4 (load32 m a) = load_bytes m a 4"
  using bytes_of_word_of_bytes [of "load_bytes m a 4", where ?'a = 32] by (simp add: load32_def)

lemma bytes_of_load64 [simp]: "bytes_of_word 8 (load64 m a) = load_bytes m a 8"
  using bytes_of_word_of_bytes [of "load_bytes m a 8", where ?'a = 64] by (simp add: load64_def)

lemma load8_store8 [mem_simps]: "load8 (store8 m a v) a = v"
  by (simp add: load8_def store8_def)

lemma load16_store16 [mem_simps]: "load16 (store16 m a v) a = v"
  using load_store_bytes [of "bytes_of_word 2 v" m a] by (simp add: load16_def store16_def)

lemma load32_store32 [mem_simps]: "load32 (store32 m a v) a = v"
  using load_store_bytes [of "bytes_of_word 4 v" m a] by (simp add: load32_def store32_def)

lemma load64_store64 [mem_simps]: "load64 (store64 m a v) a = v"
  using load_store_bytes [of "bytes_of_word 8 v" m a] by (simp add: load64_def store64_def)

end
