(* ===== verification/Pb_Header.thy ===== *)
theory Pb_Header
  imports Prelude
begin

text \<open>
  The data model of nanopb, \<^verbatim>\<open>src/ios/Pods/nanopb/pb.h\<close>, in the configuration of the pod's
  build settings (\<^verbatim>\<open>PB_FIELD_32BIT\<close>, \<^verbatim>\<open>PB_NO_PACKED_STRUCTS\<close>,
  \<^verbatim>\<open>PB_ENABLE_MALLOC\<close>, error messages on, 64-bit integers on): field types, field descriptors,
  wire types, the extension and callback structures that live in message memory, and the macros
  from which generated code builds descriptor tables.

  A descriptor table \<^verbatim>\<open>const pb_field_t fields[]\<close> is the list of its descriptors, with or without
  the terminating \<^verbatim>\<open>PB_LAST_FIELD\<close>; \<open>field_at\<close> reads past the end of the list as the
  terminator. The member \<^verbatim>\<open>const void *ptr\<close> of a descriptor stays an address: the table it points
  to, when it is cast to \<^verbatim>\<open>const pb_field_t *\<close>, is looked up in the environment of the encoder
  and the decoder, so tables may refer to each other in a cycle.
\<close>

section \<open>Field types\<close>

type_synonym pb_type_t = "8 word"
type_synonym pb_size_t = "32 word"

text \<open>\<open>pb_ssize_t\<close> is the same width, read as two's complement.\<close>

type_synonym pb_ssize_t = "32 word"

abbreviation (input) PB_LTYPE_VARINT :: pb_type_t where "PB_LTYPE_VARINT \<equiv> 0x00"
abbreviation (input) PB_LTYPE_UVARINT :: pb_type_t where "PB_LTYPE_UVARINT \<equiv> 0x01"
abbreviation (input) PB_LTYPE_SVARINT :: pb_type_t where "PB_LTYPE_SVARINT \<equiv> 0x02"
abbreviation (input) PB_LTYPE_FIXED32 :: pb_type_t where "PB_LTYPE_FIXED32 \<equiv> 0x03"
abbreviation (input) PB_LTYPE_FIXED64 :: pb_type_t where "PB_LTYPE_FIXED64 \<equiv> 0x04"
abbreviation (input) PB_LTYPE_LAST_PACKABLE :: pb_type_t where "PB_LTYPE_LAST_PACKABLE \<equiv> 0x04"
abbreviation (input) PB_LTYPE_BYTES :: pb_type_t where "PB_LTYPE_BYTES \<equiv> 0x05"
abbreviation (input) PB_LTYPE_STRING :: pb_type_t where "PB_LTYPE_STRING \<equiv> 0x06"
abbreviation (input) PB_LTYPE_SUBMESSAGE :: pb_type_t where "PB_LTYPE_SUBMESSAGE \<equiv> 0x07"
abbreviation (input) PB_LTYPE_EXTENSION :: pb_type_t where "PB_LTYPE_EXTENSION \<equiv> 0x08"
abbreviation (input) PB_LTYPE_FIXED_LENGTH_BYTES :: pb_type_t where "PB_LTYPE_FIXED_LENGTH_BYTES \<equiv> 0x09"
abbreviation (input) PB_LTYPE_MASK :: pb_type_t where "PB_LTYPE_MASK \<equiv> 0x0F"

abbreviation (input) PB_HTYPE_REQUIRED :: pb_type_t where "PB_HTYPE_REQUIRED \<equiv> 0x00"
abbreviation (input) PB_HTYPE_OPTIONAL :: pb_type_t where "PB_HTYPE_OPTIONAL \<equiv> 0x10"
abbreviation (input) PB_HTYPE_REPEATED :: pb_type_t where "PB_HTYPE_REPEATED \<equiv> 0x20"
abbreviation (input) PB_HTYPE_ONEOF :: pb_type_t where "PB_HTYPE_ONEOF \<equiv> 0x30"
abbreviation (input) PB_HTYPE_MASK :: pb_type_t where "PB_HTYPE_MASK \<equiv> 0x30"

abbreviation (input) PB_ATYPE_STATIC :: pb_type_t where "PB_ATYPE_STATIC \<equiv> 0x00"
abbreviation (input) PB_ATYPE_POINTER :: pb_type_t where "PB_ATYPE_POINTER \<equiv> 0x80"
abbreviation (input) PB_ATYPE_CALLBACK :: pb_type_t where "PB_ATYPE_CALLBACK \<equiv> 0x40"
abbreviation (input) PB_ATYPE_MASK :: pb_type_t where "PB_ATYPE_MASK \<equiv> 0xC0"

definition PB_ATYPE :: "pb_type_t \<Rightarrow> pb_type_t" where "PB_ATYPE x = x AND PB_ATYPE_MASK"
definition PB_HTYPE :: "pb_type_t \<Rightarrow> pb_type_t" where "PB_HTYPE x = x AND PB_HTYPE_MASK"
definition PB_LTYPE :: "pb_type_t \<Rightarrow> pb_type_t" where "PB_LTYPE x = x AND PB_LTYPE_MASK"

abbreviation (input) PB_SIZE_MAX :: pb_size_t where "PB_SIZE_MAX \<equiv> 0xFFFFFFFF"
abbreviation (input) PB_MAX_REQUIRED_FIELDS :: u32 where "PB_MAX_REQUIRED_FIELDS \<equiv> 64"

section \<open>Field descriptors\<close>

record pb_field_t =
  f_tag :: pb_size_t
  f_type :: pb_type_t
  f_data_offset :: pb_size_t
  f_size_offset :: pb_ssize_t
  f_data_size :: pb_size_t
  f_array_size :: pb_size_t
  f_ptr :: addr

definition PB_LAST_FIELD :: pb_field_t where
  "PB_LAST_FIELD = \<lparr>f_tag = 0, f_type = 0, f_data_offset = 0, f_size_offset = 0,
     f_data_size = 0, f_array_size = 0, f_ptr = 0\<rparr>"

definition field_at :: "pb_field_t list \<Rightarrow> nat \<Rightarrow> pb_field_t" where
  "field_at fs i = (if i < length fs then fs ! i else PB_LAST_FIELD)"

text \<open>The number of fields before the terminator.\<close>

definition nfields :: "pb_field_t list \<Rightarrow> nat" where
  "nfields fs = length (takeWhile (\<lambda>f. f_tag f \<noteq> 0) fs)"

abbreviation ltype :: "pb_field_t \<Rightarrow> pb_type_t" where "ltype f \<equiv> PB_LTYPE (f_type f)"
abbreviation htype :: "pb_field_t \<Rightarrow> pb_type_t" where "htype f \<equiv> PB_HTYPE (f_type f)"
abbreviation atype :: "pb_field_t \<Rightarrow> pb_type_t" where "atype f \<equiv> PB_ATYPE (f_type f)"

section \<open>Wire types\<close>

text \<open>The decoder casts any three-bit value to \<^verbatim>\<open>pb_wire_type_t\<close>, so the type holds more values
  than the enumerators.\<close>

type_synonym pb_wire_type_t = u32

abbreviation (input) PB_WT_VARINT :: pb_wire_type_t where "PB_WT_VARINT \<equiv> 0"
abbreviation (input) PB_WT_64BIT :: pb_wire_type_t where "PB_WT_64BIT \<equiv> 1"
abbreviation (input) PB_WT_STRING :: pb_wire_type_t where "PB_WT_STRING \<equiv> 2"
abbreviation (input) PB_WT_32BIT :: pb_wire_type_t where "PB_WT_32BIT \<equiv> 5"

section \<open>Structures in message memory\<close>

text \<open>\<^verbatim>\<open>pb_bytes_array_t\<close>: the size, then the bytes.\<close>

definition bytes_array_size :: "mem \<Rightarrow> addr \<Rightarrow> pb_size_t" where
  "bytes_array_size m p = load32 m p"

abbreviation (input) bytes_array_bytes :: "addr \<Rightarrow> addr" where "bytes_array_bytes p \<equiv> p + 4"

definition PB_BYTES_ARRAY_T_ALLOCSIZE :: "size_t \<Rightarrow> size_t" where
  "PB_BYTES_ARRAY_T_ALLOCSIZE n = n + 4"

text \<open>\<^verbatim>\<open>pb_callback_t\<close>: a function pointer (of the union \<^verbatim>\<open>funcs\<close>), then \<^verbatim>\<open>arg\<close>.\<close>

definition callback_func :: "mem \<Rightarrow> addr \<Rightarrow> addr" where "callback_func m p = load64 m p"
abbreviation (input) callback_arg :: "addr \<Rightarrow> addr" where "callback_arg p \<equiv> p + 8"

text \<open>\<^verbatim>\<open>pb_extension_type_t\<close> is constant data; \<^verbatim>\<open>arg\<close> of the default handlers is the field
  descriptor of the extension.\<close>

record pb_extension_type_t =
  et_decode :: addr
  et_encode :: addr
  et_arg :: pb_field_t

text \<open>\<^verbatim>\<open>pb_extension_t\<close>: the members \<^verbatim>\<open>type\<close>, \<^verbatim>\<open>dest\<close>, \<^verbatim>\<open>next\<close> and
  \<^verbatim>\<open>found\<close> at offsets 0, 8, 16 and 24.\<close>

definition ext_type :: "mem \<Rightarrow> addr \<Rightarrow> addr" where "ext_type m e = load64 m e"
definition ext_dest :: "mem \<Rightarrow> addr \<Rightarrow> addr" where "ext_dest m e = load64 m (e + 8)"
definition ext_next :: "mem \<Rightarrow> addr \<Rightarrow> addr" where "ext_next m e = load64 m (e + 16)"
abbreviation (input) ext_dest_addr :: "addr \<Rightarrow> addr" where "ext_dest_addr e \<equiv> e + 8"
abbreviation (input) ext_found_addr :: "addr \<Rightarrow> addr" where "ext_found_addr e \<equiv> e + 24"

section \<open>Error messages\<close>

text \<open>\<^verbatim>\<open>PB_SET_ERROR\<close> keeps the first message.\<close>

definition PB_SET_ERROR :: "string option \<Rightarrow> string \<Rightarrow> string option" where
  "PB_SET_ERROR old msg = (case old of None \<Rightarrow> Some msg | Some e \<Rightarrow> Some e)"

definition PB_GET_ERROR :: "string option \<Rightarrow> string" where
  "PB_GET_ERROR errmsg = (case errmsg of None \<Rightarrow> ''(none)'' | Some e \<Rightarrow> e)"

lemma PB_SET_ERROR_simps [simp]:
  "PB_SET_ERROR None msg = Some msg" "PB_SET_ERROR (Some e) msg = Some e"
  by (simp_all add: PB_SET_ERROR_def)

section \<open>The macros that build descriptors\<close>

text \<open>
  A member \<^verbatim>\<open>m\<close> of a C struct \<^verbatim>\<open>st\<close>, as the macros see it: \<^verbatim>\<open>offsetof(st, m)\<close>,
  \<^verbatim>\<open>pb_membersize(st, m)\<close>, \<^verbatim>\<open>pb_membersize(st, m[0])\<close>, and the offset of the companion
  member (\<^verbatim>\<open>has_m\<close>, \<^verbatim>\<open>m_count\<close> or \<^verbatim>\<open>which_u\<close>).
\<close>

record pb_member =
  mb_offset :: size_t
  mb_size :: size_t
  mb_elem_size :: size_t
  mb_info_offset :: size_t

definition pb_arraysize :: "pb_member \<Rightarrow> size_t" where
  "pb_arraysize m = mb_size m div mb_elem_size m"

definition pb_delta :: "size_t \<Rightarrow> size_t \<Rightarrow> pb_ssize_t" where
  "pb_delta off1 off2 = ucast off1 - ucast off2"

datatype pb_placement = FIRST | OTHER | UNION

fun PB_DATAOFFSET :: "pb_placement \<Rightarrow> pb_member \<Rightarrow> pb_member \<Rightarrow> pb_size_t" where
  "PB_DATAOFFSET FIRST m1 m2 = ucast (mb_offset m1)"
| "PB_DATAOFFSET OTHER m1 m2 = ucast (mb_offset m1 - mb_offset m2 - mb_size m2)"
| "PB_DATAOFFSET UNION m1 m2 = PB_SIZE_MAX"

datatype pb_rules = REQUIRED | OPTIONAL | SINGULAR | REPEATED | OPTEXT
datatype pb_allocation = STATIC | POINTER | CALLBACK

text \<open>One equation per \<^verbatim>\<open>PB_<rules>_<allocation>\<close> macro.\<close>

fun pb_rules_alloc :: "pb_rules \<Rightarrow> pb_allocation \<Rightarrow> pb_size_t \<Rightarrow> pb_member \<Rightarrow> pb_size_t \<Rightarrow> pb_type_t
    \<Rightarrow> addr \<Rightarrow> pb_field_t" where
  "pb_rules_alloc REQUIRED STATIC tag m fd lt p =
     \<lparr>f_tag = tag, f_type = PB_ATYPE_STATIC OR PB_HTYPE_REQUIRED OR lt, f_data_offset = fd,
      f_size_offset = 0, f_data_size = ucast (mb_size m), f_array_size = 0, f_ptr = p\<rparr>"
| "pb_rules_alloc OPTIONAL STATIC tag m fd lt p =
     \<lparr>f_tag = tag, f_type = PB_ATYPE_STATIC OR PB_HTYPE_OPTIONAL OR lt, f_data_offset = fd,
      f_size_offset = pb_delta (mb_info_offset m) (mb_offset m),
      f_data_size = ucast (mb_size m), f_array_size = 0, f_ptr = p\<rparr>"
| "pb_rules_alloc SINGULAR STATIC tag m fd lt p =
     \<lparr>f_tag = tag, f_type = PB_ATYPE_STATIC OR PB_HTYPE_OPTIONAL OR lt, f_data_offset = fd,
      f_size_offset = 0, f_data_size = ucast (mb_size m), f_array_size = 0, f_ptr = p\<rparr>"
| "pb_rules_alloc REPEATED STATIC tag m fd lt p =
     \<lparr>f_tag = tag, f_type = PB_ATYPE_STATIC OR PB_HTYPE_REPEATED OR lt, f_data_offset = fd,
      f_size_offset = pb_delta (mb_info_offset m) (mb_offset m),
      f_data_size = ucast (mb_elem_size m), f_array_size = ucast (pb_arraysize m), f_ptr = p\<rparr>"
| "pb_rules_alloc REQUIRED POINTER tag m fd lt p =
     \<lparr>f_tag = tag, f_type = PB_ATYPE_POINTER OR PB_HTYPE_REQUIRED OR lt, f_data_offset = fd,
      f_size_offset = 0, f_data_size = ucast (mb_elem_size m), f_array_size = 0, f_ptr = p\<rparr>"
| "pb_rules_alloc OPTIONAL POINTER tag m fd lt p =
     \<lparr>f_tag = tag, f_type = PB_ATYPE_POINTER OR PB_HTYPE_OPTIONAL OR lt, f_data_offset = fd,
      f_size_offset = 0, f_data_size = ucast (mb_elem_size m), f_array_size = 0, f_ptr = p\<rparr>"
| "pb_rules_alloc SINGULAR POINTER tag m fd lt p =
     \<lparr>f_tag = tag, f_type = PB_ATYPE_POINTER OR PB_HTYPE_OPTIONAL OR lt, f_data_offset = fd,
      f_size_offset = 0, f_data_size = ucast (mb_elem_size m), f_array_size = 0, f_ptr = p\<rparr>"
| "pb_rules_alloc REPEATED POINTER tag m fd lt p =
     \<lparr>f_tag = tag, f_type = PB_ATYPE_POINTER OR PB_HTYPE_REPEATED OR lt, f_data_offset = fd,
      f_size_offset = pb_delta (mb_info_offset m) (mb_offset m),
      f_data_size = ucast (mb_elem_size m), f_array_size = 0, f_ptr = p\<rparr>"
| "pb_rules_alloc REQUIRED CALLBACK tag m fd lt p =
     \<lparr>f_tag = tag, f_type = PB_ATYPE_CALLBACK OR PB_HTYPE_REQUIRED OR lt, f_data_offset = fd,
      f_size_offset = 0, f_data_size = ucast (mb_size m), f_array_size = 0, f_ptr = p\<rparr>"
| "pb_rules_alloc OPTIONAL CALLBACK tag m fd lt p =
     \<lparr>f_tag = tag, f_type = PB_ATYPE_CALLBACK OR PB_HTYPE_OPTIONAL OR lt, f_data_offset = fd,
      f_size_offset = 0, f_data_size = ucast (mb_size m), f_array_size = 0, f_ptr = p\<rparr>"
| "pb_rules_alloc SINGULAR CALLBACK tag m fd lt p =
     \<lparr>f_tag = tag, f_type = PB_ATYPE_CALLBACK OR PB_HTYPE_OPTIONAL OR lt, f_data_offset = fd,
      f_size_offset = 0, f_data_size = ucast (mb_size m), f_array_size = 0, f_ptr = p\<rparr>"
| "pb_rules_alloc REPEATED CALLBACK tag m fd lt p =
     \<lparr>f_tag = tag, f_type = PB_ATYPE_CALLBACK OR PB_HTYPE_REPEATED OR lt, f_data_offset = fd,
      f_size_offset = 0, f_data_size = ucast (mb_size m), f_array_size = 0, f_ptr = p\<rparr>"
| "pb_rules_alloc OPTEXT STATIC tag m fd lt p =
     \<lparr>f_tag = tag, f_type = PB_ATYPE_STATIC OR PB_HTYPE_REQUIRED OR lt, f_data_offset = 0,
      f_size_offset = 0, f_data_size = ucast (mb_size m), f_array_size = 0, f_ptr = p\<rparr>"
| "pb_rules_alloc OPTEXT POINTER tag m fd lt p =
     \<lparr>f_tag = tag, f_type = PB_ATYPE_POINTER OR PB_HTYPE_OPTIONAL OR lt, f_data_offset = fd,
      f_size_offset = 0, f_data_size = ucast (mb_elem_size m), f_array_size = 0, f_ptr = p\<rparr>"
| "pb_rules_alloc OPTEXT CALLBACK tag m fd lt p =
     \<lparr>f_tag = tag, f_type = PB_ATYPE_CALLBACK OR PB_HTYPE_OPTIONAL OR lt, f_data_offset = fd,
      f_size_offset = 0, f_data_size = ucast (mb_size m), f_array_size = 0, f_ptr = p\<rparr>"

datatype pb_proto_type = T_BOOL | T_BYTES | T_DOUBLE | T_ENUM | T_UENUM | T_FIXED32 | T_FIXED64
  | T_FLOAT | T_INT32 | T_INT64 | T_MESSAGE | T_SFIXED32 | T_SFIXED64 | T_SINT32 | T_SINT64
  | T_STRING | T_UINT32 | T_UINT64 | T_EXTENSION | T_FIXED_LENGTH_BYTES

fun PB_LTYPE_MAP :: "pb_proto_type \<Rightarrow> pb_type_t" where
  "PB_LTYPE_MAP T_BOOL = PB_LTYPE_VARINT"
| "PB_LTYPE_MAP T_BYTES = PB_LTYPE_BYTES"
| "PB_LTYPE_MAP T_DOUBLE = PB_LTYPE_FIXED64"
| "PB_LTYPE_MAP T_ENUM = PB_LTYPE_VARINT"
| "PB_LTYPE_MAP T_UENUM = PB_LTYPE_UVARINT"
| "PB_LTYPE_MAP T_FIXED32 = PB_LTYPE_FIXED32"
| "PB_LTYPE_MAP T_FIXED64 = PB_LTYPE_FIXED64"
| "PB_LTYPE_MAP T_FLOAT = PB_LTYPE_FIXED32"
| "PB_LTYPE_MAP T_INT32 = PB_LTYPE_VARINT"
| "PB_LTYPE_MAP T_INT64 = PB_LTYPE_VARINT"
| "PB_LTYPE_MAP T_MESSAGE = PB_LTYPE_SUBMESSAGE"
| "PB_LTYPE_MAP T_SFIXED32 = PB_LTYPE_FIXED32"
| "PB_LTYPE_MAP T_SFIXED64 = PB_LTYPE_FIXED64"
| "PB_LTYPE_MAP T_SINT32 = PB_LTYPE_SVARINT"
| "PB_LTYPE_MAP T_SINT64 = PB_LTYPE_SVARINT"
| "PB_LTYPE_MAP T_STRING = PB_LTYPE_STRING"
| "PB_LTYPE_MAP T_UINT32 = PB_LTYPE_UVARINT"
| "PB_LTYPE_MAP T_UINT64 = PB_LTYPE_UVARINT"
| "PB_LTYPE_MAP T_EXTENSION = PB_LTYPE_EXTENSION"
| "PB_LTYPE_MAP T_FIXED_LENGTH_BYTES = PB_LTYPE_FIXED_LENGTH_BYTES"

definition PB_FIELD :: "pb_size_t \<Rightarrow> pb_proto_type \<Rightarrow> pb_rules \<Rightarrow> pb_allocation \<Rightarrow> pb_placement
    \<Rightarrow> pb_member \<Rightarrow> pb_member \<Rightarrow> addr \<Rightarrow> pb_field_t" where
  "PB_FIELD tag ty rules allocation placement field prevfield p =
     pb_rules_alloc rules allocation tag field (PB_DATAOFFSET placement field prevfield)
       (PB_LTYPE_MAP ty) p"

definition PB_REPEATED_FIXED_COUNT :: "pb_size_t \<Rightarrow> pb_proto_type \<Rightarrow> pb_placement
    \<Rightarrow> pb_member \<Rightarrow> pb_member \<Rightarrow> addr \<Rightarrow> pb_field_t" where
  "PB_REPEATED_FIXED_COUNT tag ty placement field prevfield p =
     \<lparr>f_tag = tag, f_type = PB_ATYPE_STATIC OR PB_HTYPE_REPEATED OR PB_LTYPE_MAP ty,
      f_data_offset = PB_DATAOFFSET placement field prevfield, f_size_offset = 0,
      f_data_size = ucast (mb_elem_size field), f_array_size = ucast (pb_arraysize field),
      f_ptr = p\<rparr>"

definition PB_ONEOF_STATIC :: "pb_size_t \<Rightarrow> pb_member \<Rightarrow> pb_size_t \<Rightarrow> pb_type_t \<Rightarrow> addr \<Rightarrow> pb_field_t" where
  "PB_ONEOF_STATIC tag m fd lt p =
     \<lparr>f_tag = tag, f_type = PB_ATYPE_STATIC OR PB_HTYPE_ONEOF OR lt, f_data_offset = fd,
      f_size_offset = pb_delta (mb_info_offset m) (mb_offset m),
      f_data_size = ucast (mb_size m), f_array_size = 0, f_ptr = p\<rparr>"

definition PB_ONEOF_POINTER :: "pb_size_t \<Rightarrow> pb_member \<Rightarrow> pb_size_t \<Rightarrow> pb_type_t \<Rightarrow> addr \<Rightarrow> pb_field_t" where
  "PB_ONEOF_POINTER tag m fd lt p =
     \<lparr>f_tag = tag, f_type = PB_ATYPE_POINTER OR PB_HTYPE_ONEOF OR lt, f_data_offset = fd,
      f_size_offset = pb_delta (mb_info_offset m) (mb_offset m),
      f_data_size = ucast (mb_elem_size m), f_array_size = 0, f_ptr = p\<rparr>"

text \<open>\<^verbatim>\<open>PB_ONEOF_FIELD\<close> and \<^verbatim>\<open>PB_ANONYMOUS_ONEOF_FIELD\<close> differ only in how the member is named;
  there is no \<^verbatim>\<open>PB_ONEOF_CALLBACK\<close> macro, so that combination does not compile.\<close>

fun PB_ONEOF_FIELD :: "pb_size_t \<Rightarrow> pb_proto_type \<Rightarrow> pb_allocation \<Rightarrow> pb_placement
    \<Rightarrow> pb_member \<Rightarrow> pb_member \<Rightarrow> addr \<Rightarrow> pb_field_t option" where
  "PB_ONEOF_FIELD tag ty STATIC placement field prevfield p =
     Some (PB_ONEOF_STATIC tag field (PB_DATAOFFSET placement field prevfield) (PB_LTYPE_MAP ty) p)"
| "PB_ONEOF_FIELD tag ty POINTER placement field prevfield p =
     Some (PB_ONEOF_POINTER tag field (PB_DATAOFFSET placement field prevfield) (PB_LTYPE_MAP ty) p)"
| "PB_ONEOF_FIELD tag ty CALLBACK placement field prevfield p = None"

section \<open>Lemmas on field types\<close>

lemma field_at_beyond [simp]: "length fs \<le> i \<Longrightarrow> field_at fs i = PB_LAST_FIELD"
  by (simp add: field_at_def)

lemma PB_LAST_FIELD_simps [simp]:
  "f_tag PB_LAST_FIELD = 0" "f_type PB_LAST_FIELD = 0" "f_data_size PB_LAST_FIELD = 0"
  by (simp_all add: PB_LAST_FIELD_def)

lemma nfields_le: "nfields fs \<le> length fs"
  by (simp add: nfields_def length_takeWhile_le)

lemma field_at_tag_nonzero: "i < nfields fs \<Longrightarrow> f_tag (field_at fs i) \<noteq> 0"
  using nfields_le [of fs] nth_mem [of i "takeWhile (\<lambda>f. f_tag f \<noteq> 0) fs"]
  by (auto simp: nfields_def field_at_def takeWhile_nth dest: set_takeWhileD)

lemma field_at_nfields: "f_tag (field_at fs (nfields fs)) = 0"
  using nth_length_takeWhile [of "\<lambda>f. f_tag f \<noteq> 0" fs]
  by (auto simp: nfields_def field_at_def)

lemma tag_zero_iff: "i \<le> nfields fs \<Longrightarrow> f_tag (field_at fs i) = 0 \<longleftrightarrow> i = nfields fs"
  using field_at_tag_nonzero field_at_nfields by (metis le_neq_implies_less)

end
