(* ===== verification/Pb_Common.thy ===== *)
theory Pb_Common
  imports Pb_Header
begin

text \<open>
  The field iterator of \<^verbatim>\<open>src/ios/Pods/nanopb/pb_common.c\<close>, shared by the encoder and the
  decoder. The iterator walks a descriptor table and keeps the address of the current field's data
  (\<^verbatim>\<open>pData\<close>) and of its companion count, presence flag or union selector (\<^verbatim>\<open>pSize\<close>) by adding up
  relative offsets; the main result is that its state is a function of its position.
\<close>

section \<open>The iterator\<close>

text \<open>The decoder redirects \<^verbatim>\<open>pSize\<close> to a local variable, \<^verbatim>\<open>&fixed_count_size\<close>.\<close>

datatype pb_psize = PSizeAt addr | PSizeFixedCount

record pb_field_iter_t =
  it_start :: "pb_field_t list"
  it_pos :: nat
  it_required_field_index :: u32
  it_dest_struct :: addr
  it_pData :: addr
  it_pSize :: pb_psize

definition it_field :: "pb_field_iter_t \<Rightarrow> pb_field_t" where
  "it_field it = field_at (it_start it) (it_pos it)"

definition pb_field_iter_begin :: "pb_field_t list \<Rightarrow> addr \<Rightarrow> bool \<times> pb_field_iter_t" where
  "pb_field_iter_begin fs dest_struct =
     (let f = field_at fs 0;
          pData = dest_struct + ucast (f_data_offset f)
      in (f_tag f \<noteq> 0,
          \<lparr>it_start = fs, it_pos = 0, it_required_field_index = 0,
           it_dest_struct = dest_struct, it_pData = pData,
           it_pSize = PSizeAt (pData + scast (f_size_offset f))\<rparr>))"

definition iter_prev_size :: "pb_field_t \<Rightarrow> size_t" where
  "iter_prev_size prev_field =
     (if atype prev_field = PB_ATYPE_STATIC \<and> htype prev_field = PB_HTYPE_REPEATED
      then ucast (f_data_size prev_field) * ucast (f_array_size prev_field)
      else if atype prev_field = PB_ATYPE_POINTER then 8
      else ucast (f_data_size prev_field))"

definition in_union :: "pb_field_t \<Rightarrow> pb_field_t \<Rightarrow> bool" where
  "in_union prev_field f \<longleftrightarrow> htype prev_field = PB_HTYPE_ONEOF \<and> htype f = PB_HTYPE_ONEOF
     \<and> f_data_offset f = PB_SIZE_MAX"

definition pb_field_iter_next :: "pb_field_iter_t \<Rightarrow> bool \<times> pb_field_iter_t" where
  "pb_field_iter_next it =
     (let prev_field = it_field it in
      if f_tag prev_field = 0 then (False, it)
      else
        let it1 = it\<lparr>it_pos := Suc (it_pos it)\<rparr>; f = it_field it1 in
        if f_tag f = 0
        then (False, snd (pb_field_iter_begin (it_start it) (it_dest_struct it)))
        else if in_union prev_field f then (True, it1)
        else
          let pData = it_pData it + iter_prev_size prev_field + ucast (f_data_offset f) in
          (True, it1\<lparr>it_required_field_index := it_required_field_index it
                       + (if htype prev_field = PB_HTYPE_REQUIRED then 1 else 0),
                     it_pData := pData,
                     it_pSize := PSizeAt (pData + scast (f_size_offset f))\<rparr>))"

text \<open>The loop \<^verbatim>\<open>do { if (...) return true; pb_field_iter_next(iter); } while (iter->pos != start)\<close>
  of \<^verbatim>\<open>pb_field_iter_find\<close>, which \<^verbatim>\<open>find_extension_field\<close> repeats for another test. It runs until
  the iterator is back where it started; a table has at most \<^verbatim>\<open>length fs\<close> positions, which bounds
  the number of rounds.\<close>

fun iter_find_loop :: "nat \<Rightarrow> nat \<Rightarrow> (pb_field_t \<Rightarrow> bool) \<Rightarrow> pb_field_iter_t \<Rightarrow> (bool \<times> pb_field_iter_t) option" where
  "iter_find_loop 0 start wanted it = None"
| "iter_find_loop (Suc n) start wanted it =
     (if wanted (it_field it) then Some (True, it)
      else let it' = snd (pb_field_iter_next it) in
           if it_pos it' \<noteq> start then iter_find_loop n start wanted it' else Some (False, it'))"

definition has_tag :: "u32 \<Rightarrow> pb_field_t \<Rightarrow> bool" where
  "has_tag tag f \<longleftrightarrow> f_tag f = tag \<and> ltype f \<noteq> PB_LTYPE_EXTENSION"

definition pb_field_iter_find :: "pb_field_iter_t \<Rightarrow> u32 \<Rightarrow> (bool \<times> pb_field_iter_t) option" where
  "pb_field_iter_find it tag = iter_find_loop (Suc (length (it_start it))) (it_pos it) (has_tag tag) it"

lemma next_True_pos:
  "pb_field_iter_next it = (True, it') \<Longrightarrow>
   it_pos it' = Suc (it_pos it) \<and> it_pos it' < length (it_start it) \<and> it_start it' = it_start it"
  by (auto simp: pb_field_iter_next_def Let_def it_field_def field_at_def split: if_splits)

text \<open>The statement \<^verbatim>\<open>do body; while (pb_field_iter_next(&iter));\<close>, left when the body returns
  false.\<close>

function iter_loop :: "(pb_field_iter_t \<Rightarrow> 's \<Rightarrow> (bool \<times> 's) option) \<Rightarrow> pb_field_iter_t \<Rightarrow> 's
    \<Rightarrow> (bool \<times> 's) option" where
  "iter_loop body it s =
     (case body it s of
        None \<Rightarrow> None
      | Some (False, s') \<Rightarrow> Some (False, s')
      | Some (True, s') \<Rightarrow>
          (case pb_field_iter_next it of
             (True, it') \<Rightarrow> iter_loop body it' s'
           | (False, it') \<Rightarrow> Some (True, s')))"
  by pat_completeness auto
termination
  by (relation "measure (\<lambda>(body, it, s). length (it_start it) - it_pos it)")
    (auto dest!: sym [of "(True, _)"] next_True_pos)

declare iter_loop.simps [simp del]

section \<open>The state of the iterator as a function of its position\<close>

text \<open>Offsets of the data and of the companion of field \<open>i\<close>, and the number of required fields
  before it.\<close>

fun data_off :: "pb_field_t list \<Rightarrow> nat \<Rightarrow> addr" where
  "data_off fs 0 = ucast (f_data_offset (field_at fs 0))"
| "data_off fs (Suc i) =
     (if in_union (field_at fs i) (field_at fs (Suc i)) then data_off fs i
      else data_off fs i + iter_prev_size (field_at fs i)
             + ucast (f_data_offset (field_at fs (Suc i))))"

fun size_off :: "pb_field_t list \<Rightarrow> nat \<Rightarrow> addr" where
  "size_off fs 0 = data_off fs 0 + scast (f_size_offset (field_at fs 0))"
| "size_off fs (Suc i) =
     (if in_union (field_at fs i) (field_at fs (Suc i)) then size_off fs i
      else data_off fs (Suc i) + scast (f_size_offset (field_at fs (Suc i))))"

definition required_before :: "pb_field_t list \<Rightarrow> nat \<Rightarrow> nat" where
  "required_before fs i = length (filter (\<lambda>f. htype f = PB_HTYPE_REQUIRED) (take i fs))"

definition iter_nth :: "pb_field_t list \<Rightarrow> addr \<Rightarrow> nat \<Rightarrow> pb_field_iter_t" where
  "iter_nth fs dest i =
     \<lparr>it_start = fs, it_pos = i, it_required_field_index = of_nat (required_before fs i),
      it_dest_struct = dest, it_pData = dest + data_off fs i,
      it_pSize = PSizeAt (dest + size_off fs i)\<rparr>"

lemma iter_nth_simps [simp]:
  "it_start (iter_nth fs dest i) = fs" "it_pos (iter_nth fs dest i) = i"
  "it_dest_struct (iter_nth fs dest i) = dest"
  "it_pData (iter_nth fs dest i) = dest + data_off fs i"
  "it_pSize (iter_nth fs dest i) = PSizeAt (dest + size_off fs i)"
  "it_required_field_index (iter_nth fs dest i) = of_nat (required_before fs i)"
  "it_field (iter_nth fs dest i) = field_at fs i"
  by (simp_all add: iter_nth_def it_field_def)

lemma iter_begin: "pb_field_iter_begin fs dest = (nfields fs \<noteq> 0, iter_nth fs dest 0)"
proof -
  have "f_tag (field_at fs 0) \<noteq> 0 \<longleftrightarrow> nfields fs \<noteq> 0"
    using tag_zero_iff [of 0 fs] by simp
  then show ?thesis
    by (simp add: pb_field_iter_begin_def iter_nth_def Let_def required_before_def add.assoc)
qed

lemma required_before_Suc:
  "i < length fs \<Longrightarrow> required_before fs (Suc i)
     = required_before fs i + (if htype (field_at fs i) = PB_HTYPE_REQUIRED then 1 else 0)"
  by (simp add: required_before_def field_at_def take_Suc_conv_app_nth)

lemma iter_next_Suc:
  assumes "Suc i < nfields fs"
  shows "pb_field_iter_next (iter_nth fs dest i) = (True, iter_nth fs dest (Suc i))"
proof -
  have "f_tag (field_at fs i) \<noteq> 0" "f_tag (field_at fs (Suc i)) \<noteq> 0"
    using assms by (auto simp: field_at_tag_nonzero)
  moreover have "i < length fs"
    using assms nfields_le [of fs] by simp
  ultimately show ?thesis
    by (auto simp: pb_field_iter_next_def iter_nth_def Let_def it_field_def required_before_Suc
        in_union_def add.assoc)
qed

lemma iter_next_last:
  assumes "Suc i = nfields fs"
  shows "pb_field_iter_next (iter_nth fs dest i) = (False, iter_nth fs dest 0)"
proof -
  have "f_tag (field_at fs i) \<noteq> 0" "f_tag (field_at fs (Suc i)) = 0"
    using assms by (auto simp: field_at_tag_nonzero field_at_nfields)
  then show ?thesis
    by (simp add: pb_field_iter_next_def Let_def it_field_def iter_begin)
qed

lemma iter_next_empty:
  "nfields fs = 0 \<Longrightarrow> pb_field_iter_next (iter_nth fs dest 0) = (False, iter_nth fs dest 0)"
  using field_at_nfields [of fs] by (simp add: pb_field_iter_next_def)

section \<open>Loops over a whole table\<close>

text \<open>What \<open>iter_loop\<close> does, without the iterator: the body at the positions of a list, in order,
  until it returns false.\<close>

fun run_fields :: "(nat \<Rightarrow> 's \<Rightarrow> (bool \<times> 's) option) \<Rightarrow> nat list \<Rightarrow> 's \<Rightarrow> (bool \<times> 's) option" where
  "run_fields f [] s = Some (True, s)"
| "run_fields f (i # is) s =
     (case f i s of
        None \<Rightarrow> None
      | Some (False, s') \<Rightarrow> Some (False, s')
      | Some (True, s') \<Rightarrow> run_fields f is s')"

lemma iter_loop_run_fields:
  assumes "i < nfields fs"
  shows "iter_loop body (iter_nth fs dest i) s
    = run_fields (\<lambda>j. body (iter_nth fs dest j)) [i..<nfields fs] s"
  using assms
proof (induction "nfields fs - i" arbitrary: i s)
  case (Suc k)
  show ?case
  proof (cases "Suc i < nfields fs")
    case True
    with Suc show ?thesis
      by (subst iter_loop.simps) (auto simp: iter_next_Suc upt_conv_Cons split: option.split bool.split)
  next
    case False
    with Suc.prems have last: "Suc i = nfields fs" by simp
    then have "[i..<nfields fs] = [i]"
      using Suc.prems by (simp add: upt_conv_Cons)
    with last show ?thesis
      by (subst iter_loop.simps) (auto simp: iter_next_last split: option.split bool.split)
  qed
qed simp

lemma iter_loop_all:
  assumes "nfields fs \<noteq> 0"
  shows "iter_loop body (iter_nth fs dest 0) s
    = run_fields (\<lambda>j. body (iter_nth fs dest j)) [0..<nfields fs] s"
  using assms by (intro iter_loop_run_fields) simp

section \<open>Finding a field\<close>

text \<open>What a run of the loop that has \<open>visited\<close> still ahead of it may return.\<close>

definition find_result :: "pb_field_t list \<Rightarrow> addr \<Rightarrow> (pb_field_t \<Rightarrow> bool) \<Rightarrow> nat \<Rightarrow> nat set
    \<Rightarrow> (bool \<times> pb_field_iter_t) option \<Rightarrow> bool" where
  "find_result fs dest wanted start visited r \<longleftrightarrow>
     (\<exists>j < nfields fs. wanted (field_at fs j) \<and> j \<in> visited \<and> r = Some (True, iter_nth fs dest j))
     \<or> ((\<forall>j \<in> visited. \<not> wanted (field_at fs j)) \<and> r = Some (False, iter_nth fs dest start))"

lemma find_loop_below:
  assumes "start < nfields fs" "i < start" "start - i \<le> k"
  shows "find_result fs dest wanted start {i..<start} (iter_find_loop k start wanted (iter_nth fs dest i))"
  using assms
proof (induction "start - i" arbitrary: i k)
  case (Suc d)
  then obtain k' where k: "k = Suc k'" by (cases k) auto
  have nx: "pb_field_iter_next (iter_nth fs dest i) = (True, iter_nth fs dest (Suc i))"
    using Suc.prems by (intro iter_next_Suc) simp
  show ?case
  proof (cases "wanted (field_at fs i)")
    case True
    then show ?thesis
      using Suc.prems by (auto simp: k find_result_def intro!: exI [of _ i])
  next
    case no: False
    show ?thesis
    proof (cases "Suc i = start")
      case True
      with no nx show ?thesis
        by (auto simp: k find_result_def less_Suc_eq)
    next
      case False
      with Suc.prems k have "find_result fs dest wanted start {Suc i..<start}
          (iter_find_loop k' start wanted (iter_nth fs dest (Suc i)))"
        by (intro Suc.hyps(1)) (use Suc.hyps(2) in auto)
      moreover have "{i..<start} = insert i {Suc i..<start}"
        using Suc.prems by auto
      ultimately show ?thesis
        using no nx False unfolding k by (auto simp: find_result_def)
    qed
  qed
qed simp

lemma find_loop_above:
  assumes "start \<le> i" "i < nfields fs" "nfields fs - i + start \<le> k"
  shows "find_result fs dest wanted start ({i..<nfields fs} \<union> {0..<start})
    (iter_find_loop k start wanted (iter_nth fs dest i))"
  using assms
proof (induction "nfields fs - i" arbitrary: i k)
  case (Suc d)
  then obtain k' where k: "k = Suc k'" by (cases k) auto
  show ?case
  proof (cases "wanted (field_at fs i)")
    case True
    then show ?thesis
      using Suc.prems by (auto simp: k find_result_def intro!: exI [of _ i])
  next
    case no: False
    show ?thesis
    proof (cases "Suc i = nfields fs")
      case True
      then have nx: "pb_field_iter_next (iter_nth fs dest i) = (False, iter_nth fs dest 0)"
        by (rule iter_next_last)
      have range: "{i..<nfields fs} = {i}" using True by auto
      show ?thesis
      proof (cases "start = 0")
        case True
        with no nx range show ?thesis
          by (auto simp: k find_result_def)
      next
        case False
        then have "find_result fs dest wanted start {0..<start}
            (iter_find_loop k' start wanted (iter_nth fs dest 0))"
          using Suc.prems k by (intro find_loop_below) auto
        with no nx range False show ?thesis
          by (auto simp: k find_result_def)
      qed
    next
      case False
      then have nx: "pb_field_iter_next (iter_nth fs dest i) = (True, iter_nth fs dest (Suc i))"
        using Suc.prems by (intro iter_next_Suc) simp
      have "find_result fs dest wanted start ({Suc i..<nfields fs} \<union> {0..<start})
          (iter_find_loop k' start wanted (iter_nth fs dest (Suc i)))"
        using Suc.prems Suc.hyps(2) False k by (intro Suc.hyps(1)) auto
      moreover have "{i..<nfields fs} = insert i {Suc i..<nfields fs}"
        using Suc.prems by auto
      ultimately show ?thesis
        using no nx Suc.prems by (auto simp: k find_result_def)
    qed
  qed
qed simp

lemma find_loop_all:
  assumes "i < nfields fs"
  shows "find_result fs dest wanted i {0..<nfields fs}
    (iter_find_loop (Suc (length fs)) i wanted (iter_nth fs dest i))"
proof -
  have "{i..<nfields fs} \<union> {0..<i} = {0..<nfields fs}"
    using assms by auto
  then show ?thesis
    using find_loop_above [of i i fs "Suc (length fs)" dest wanted] assms nfields_le [of fs] by simp
qed

text \<open>C38: from any position of a non-empty table, \<^verbatim>\<open>pb_field_iter_find\<close> terminates, finds a field with
  the wanted tag exactly when the table has one that is not the extension placeholder, leaves the
  iterator on it with the pointers of that position, and otherwise leaves the iterator where it
  was.\<close>

theorem pb_field_iter_find_correct:
  assumes "i < nfields fs"
  shows "\<exists>b j. pb_field_iter_find (iter_nth fs dest i) tag = Some (b, iter_nth fs dest j)
    \<and> j < nfields fs
    \<and> (b \<longleftrightarrow> (\<exists>l < nfields fs. has_tag tag (field_at fs l)))
    \<and> (if b then has_tag tag (field_at fs j) else j = i)"
proof -
  have "find_result fs dest (has_tag tag) i {0..<nfields fs} (pb_field_iter_find (iter_nth fs dest i) tag)"
    using find_loop_all [OF assms] by (simp add: pb_field_iter_find_def)
  then show ?thesis
    using assms by (auto simp: find_result_def)
qed

theorem pb_field_iter_find_witness:
  "\<exists>b j. pb_field_iter_find (iter_nth [PB_LAST_FIELD\<lparr>f_tag := 3\<rparr>] 0 0) 3
     = Some (b, iter_nth [PB_LAST_FIELD\<lparr>f_tag := 3\<rparr>] 0 j) \<and> j < 1 \<and> b"
  using pb_field_iter_find_correct [of 0 "[PB_LAST_FIELD\<lparr>f_tag := 3\<rparr>]" 0 3]
  by (auto simp: nfields_def has_tag_def field_at_def PB_LTYPE_def)

end
