(* ===== verification/Varint.thy ===== *)
theory Varint
  imports Prelude
begin

text \<open>
  The variable-length encoding of integers that the protocol-buffer runtime and the storage engine
  share, as a reference: seven bits a byte, least significant first, the top bit set on all bytes but
  the last. The components' own encoders and decoders are proved equal to it.
\<close>

lemma drop_bit_7_less: "(v :: 64 word) \<noteq> 0 \<Longrightarrow> unat (drop_bit 7 v) < unat v"
  by (simp add: unat_drop_bit unat_gt_0)

function varint_bytes :: "u64 \<Rightarrow> byte list" where
  "varint_bytes v =
     (if v < 128 then [ucast v] else (ucast (take_bit 7 v) OR 0x80) # varint_bytes (drop_bit 7 v))"
  by pat_completeness auto
termination
proof (relation "measure unat", goal_cases)
  case (2 v)
  then have "v \<noteq> 0" by auto
  then show ?case using drop_bit_7_less by simp
qed simp

declare varint_bytes.simps [simp del]

section \<open>Facts on the bytes of a varint\<close>

lemma drop_bit_7_eq_0: "drop_bit 7 (v :: u64) = 0 \<longleftrightarrow> v < 128"
proof -
  have "drop_bit 7 v = 0 \<longleftrightarrow> unat (drop_bit 7 v) = 0"
    by (simp add: unat_eq_0)
  also have "\<dots> \<longleftrightarrow> unat v < 128"
    by (simp only: unat_drop_bit) (simp add: div_eq_0_iff)
  finally show ?thesis
    by (simp add: word_less_nat_alt)
qed

lemma take_bit_7_small: "(v :: u64) < 128 \<Longrightarrow> take_bit 7 v = v"
  by (simp add: take_bit_eq_mod mod_word_less)

lemma length_varint_bytes_le:
  "unat v < 128 ^ Suc k \<Longrightarrow> length (varint_bytes v) \<le> Suc k"
proof (induction k arbitrary: v)
  case 0
  then have "v < 128" by (simp add: word_less_nat_alt)
  then show ?case by (simp add: varint_bytes.simps)
next
  case (Suc k)
  show ?case
  proof (cases "v < 128")
    case False
    have "unat (drop_bit 7 v) < 128 ^ Suc k"
      using Suc.prems by (simp only: unat_drop_bit) (simp add: div_less_iff_less_mult mult.commute)
    then show ?thesis
      using Suc.IH [of "drop_bit 7 v"] False by (subst varint_bytes.simps) simp
  qed (simp add: varint_bytes.simps)
qed

lemma length_varint_bytes: "length (varint_bytes v) \<le> 10"
proof -
  have "unat v < 128 ^ Suc 9"
    using unat_less_64 [of v] by (rule less_le_trans) simp
  then show ?thesis
    using length_varint_bytes_le [of v 9] by simp
qed

lemma varint_bytes_nonempty [simp]: "varint_bytes v \<noteq> []"
  by (subst varint_bytes.simps) simp

lemma varint_more:
  "(ucast (take_bit 7 (v :: u64)) OR 0x80 :: byte) AND 0x80 \<noteq> 0"
  "(ucast ((ucast (take_bit 7 v) OR 0x80 :: byte) AND 0x7F) :: 'a::len word) = ucast (take_bit 7 v)"
proof -
  have "bit ((ucast (take_bit 7 v) OR 0x80 :: byte) AND 0x80) 7"
    by (simp add: bit_simps)
  then show "(ucast (take_bit 7 v) OR 0x80 :: byte) AND 0x80 \<noteq> 0"
    by force
  show "(ucast ((ucast (take_bit 7 v) OR 0x80 :: byte) AND 0x7F) :: 'a::len word) = ucast (take_bit 7 v)"
    by (rule bit_word_eqI) (auto simp: bit_simps)
qed

lemma varint_last:
  assumes "(v :: u64) < 128"
  shows "(ucast v :: byte) AND 0x80 = 0" "(ucast ((ucast v :: byte) AND 0x7F) :: 'a::len word) = ucast v"
proof -
  have v: "v = take_bit 7 v" using assms by (simp add: take_bit_7_small)
  have "(ucast (take_bit 7 v) :: byte) AND 0x80 = 0"
    by (rule bit_word_eqI) (auto simp: bit_simps)
  with v show "(ucast v :: byte) AND 0x80 = 0" by simp
  have "(ucast ((ucast (take_bit 7 v) :: byte) AND 0x7F) :: 'a::len word) = ucast (take_bit 7 v)"
    by (rule bit_word_eqI) (auto simp: bit_simps)
  with v show "(ucast ((ucast v :: byte) AND 0x7F) :: 'a::len word) = ucast v" by simp
qed

lemma varint_bytes_cases:
  obtains (last) "v < 128" "varint_bytes v = [ucast v]"
  | (more) "\<not> v < 128" "varint_bytes v = (ucast (take_bit 7 v) OR 0x80) # varint_bytes (drop_bit 7 v)"
  using varint_bytes.simps [of v] by (cases "v < 128") auto

lemma push_split: "push_bit p (take_bit 7 v) OR push_bit (p + 7) (drop_bit 7 v) = push_bit p (v :: 'a::len word)"
proof (rule bit_word_eqI)
  fix n
  assume "n < LENGTH('a)"
  moreover have "\<not> n - p < 7 \<Longrightarrow> 7 + (n - (p + 7)) = n - p" by simp
  ultimately show "bit (push_bit p (take_bit 7 v) OR push_bit (p + 7) (drop_bit 7 v)) n \<longleftrightarrow> bit (push_bit p v) n"
    by (cases "n - p < 7") (auto simp: bit_simps)
qed

lemma push_split_ucast:
  "push_bit p (ucast (take_bit 7 (v :: u64))) OR push_bit (p + 7) (ucast (drop_bit 7 v)) = push_bit p (ucast v :: u32)"
proof (rule bit_word_eqI)
  fix n
  assume "n < LENGTH(32)"
  moreover have "\<not> n - p < 7 \<Longrightarrow> 7 + (n - (p + 7)) = n - p" by simp
  ultimately show "bit (push_bit p (ucast (take_bit 7 v)) OR push_bit (p + 7) (ucast (drop_bit 7 v)) :: u32) n
      \<longleftrightarrow> bit (push_bit p (ucast v :: u32)) n"
    by (cases "n - p < 7") (auto simp: bit_simps)
qed

lemma ucast_ucast_32: "(ucast (ucast (v :: u32) :: u64) :: u32) = v"
  by (rule bit_word_eqI) (auto simp: bit_simps)

lemma length_varint_bytes_32: "length (varint_bytes (ucast (v :: u32))) \<le> 5"
proof -
  have "unat (ucast v :: u64) < 128 ^ Suc 4"
    using unat_less_32 [of v] by simp
  then show ?thesis
    using length_varint_bytes_le [of "ucast v" 4] by simp
qed

end
