(* ===== verification/Pb_Encode.thy ===== *)
theory Pb_Encode
  imports Pb_Common Varint
begin

text \<open>
  The encoder, \<^verbatim>\<open>src/ios/Pods/nanopb/pb_encode.c\<close> and \<^verbatim>\<open>pb_encode.h\<close>.

  The message structure is \<^verbatim>\<open>const\<close> for the encoder, so the memory that holds it is an argument
  of every operation and never changes; the destination of the output is the state of the stream's
  callback. The callback and its state are kept together as a sink; a stream without a sink is the
  sizing stream, whose \<^verbatim>\<open>callback\<close> is null.

  The recursion of the C code through sub-messages is bounded by a depth: \<open>pb_encode n\<close> may nest
  \<open>n\<close> messages and walk extension lists of \<open>n\<close> elements, and is \<^const>\<open>None\<close> beyond. The
  operations that call the encoder recursively take it as an argument, \<open>enc\<close>.
\<close>

section \<open>Output streams\<close>

text \<open>A stream callback stores bytes and updates its own state.\<close>

type_synonym 's pb_sink = "('s \<Rightarrow> byte list \<Rightarrow> (bool \<times> 's) option) \<times> 's"

record 's pb_ostream_t =
  os_sink :: "'s pb_sink option"
  os_max_size :: size_t
  os_bytes_written :: size_t
  os_errmsg :: "string option"

definition os_error :: "'s pb_ostream_t \<Rightarrow> string \<Rightarrow> (bool \<times> 's pb_ostream_t) option" where
  "os_error stream msg = Some (False, stream\<lparr>os_errmsg := PB_SET_ERROR (os_errmsg stream) msg\<rparr>)"

definition PB_OSTREAM_SIZING :: "'s pb_ostream_t" where
  "PB_OSTREAM_SIZING =
     \<lparr>os_sink = None, os_max_size = 0, os_bytes_written = 0, os_errmsg = None\<rparr>"

text \<open>The memory buffer of \<^verbatim>\<open>pb_ostream_from_buffer\<close> and the position \<^verbatim>\<open>stream->state\<close> in it.\<close>

record pb_obuf =
  ob_data :: "byte list"
  ob_pos :: nat

fun copy_bytes :: "byte list \<Rightarrow> nat \<Rightarrow> byte list \<Rightarrow> byte list option" where
  "copy_bytes dest i [] = Some dest"
| "copy_bytes dest i (b # bs) =
     (if i < length dest then copy_bytes (dest[i := b]) (Suc i) bs else None)"

definition buf_write :: "pb_obuf \<Rightarrow> byte list \<Rightarrow> (bool \<times> pb_obuf) option" where
  "buf_write st buf =
     (case copy_bytes (ob_data st) (ob_pos st) buf of
        None \<Rightarrow> None
      | Some d \<Rightarrow> Some (True, \<lparr>ob_data = d, ob_pos = ob_pos st + length buf\<rparr>))"

definition pb_ostream_from_buffer :: "byte list \<Rightarrow> size_t \<Rightarrow> pb_obuf pb_ostream_t" where
  "pb_ostream_from_buffer buf bufsize =
     \<lparr>os_sink = Some (buf_write, \<lparr>ob_data = buf, ob_pos = 0\<rparr>), os_max_size = bufsize,
      os_bytes_written = 0, os_errmsg = None\<rparr>"

text \<open>\<^verbatim>\<open>buf\<close> may be shorter than \<^verbatim>\<open>count\<close> (it is null) only on a sizing stream.\<close>

definition pb_write :: "'s pb_ostream_t \<Rightarrow> byte list \<Rightarrow> size_t \<Rightarrow> (bool \<times> 's pb_ostream_t) option" where
  "pb_write stream buf count =
     (case os_sink stream of
        Some (cb, st) \<Rightarrow>
          if os_bytes_written stream + count > os_max_size stream
          then os_error stream ''stream full''
          else if length buf < unat count then None
          else (case cb st (take (unat count) buf) of
              None \<Rightarrow> None
            | Some (ok, st') \<Rightarrow>
                let stream = stream\<lparr>os_sink := Some (cb, st')\<rparr> in
                if \<not> ok then os_error stream ''io error''
                else Some (True, stream\<lparr>os_bytes_written := os_bytes_written stream + count\<rparr>))
      | None \<Rightarrow> Some (True, stream\<lparr>os_bytes_written := os_bytes_written stream + count\<rparr>))"

abbreviation write_list :: "'s pb_ostream_t \<Rightarrow> byte list \<Rightarrow> (bool \<times> 's pb_ostream_t) option" where
  "write_list stream buf \<equiv> pb_write stream buf (of_nat (length buf))"

section \<open>Encoding of numbers and byte strings\<close>

text \<open>The loop of \<^verbatim>\<open>pb_encode_varint\<close>: the bytes it stores into \<^verbatim>\<open>buffer\<close>.\<close>

function varint_loop :: "u64 \<Rightarrow> byte list" where
  "varint_loop value =
     (if value = 0 then []
      else ucast ((value AND 0x7F) OR 0x80) # varint_loop (drop_bit 7 value))"
  by pat_completeness auto
termination
  by (relation "measure unat") (auto simp: drop_bit_7_less)

declare varint_loop.simps [simp del]

definition pb_encode_varint :: "'s pb_ostream_t \<Rightarrow> u64 \<Rightarrow> (bool \<times> 's pb_ostream_t) option" where
  "pb_encode_varint stream value =
     (if value \<le> 0x7F then write_list stream [ucast value]
      else let buffer = varint_loop value; i = length buffer in
           write_list stream (buffer[i - 1 := (buffer ! (i - 1)) AND 0x7F]))"

definition pb_encode_svarint :: "'s pb_ostream_t \<Rightarrow> u64 \<Rightarrow> (bool \<times> 's pb_ostream_t) option" where
  "pb_encode_svarint stream value =
     pb_encode_varint stream
       (if sint value < 0 then NOT (push_bit 1 value) else push_bit 1 value)"

definition pb_encode_fixed32 :: "mem \<Rightarrow> 's pb_ostream_t \<Rightarrow> addr \<Rightarrow> (bool \<times> 's pb_ostream_t) option" where
  "pb_encode_fixed32 m stream value =
     (let val = load32 m value in
      write_list stream
        [ucast (val AND 0xFF), ucast (drop_bit 8 val AND 0xFF),
         ucast (drop_bit 16 val AND 0xFF), ucast (drop_bit 24 val AND 0xFF)])"

definition pb_encode_fixed64 :: "mem \<Rightarrow> 's pb_ostream_t \<Rightarrow> addr \<Rightarrow> (bool \<times> 's pb_ostream_t) option" where
  "pb_encode_fixed64 m stream value =
     (let val = load64 m value in
      write_list stream
        [ucast (val AND 0xFF), ucast (drop_bit 8 val AND 0xFF),
         ucast (drop_bit 16 val AND 0xFF), ucast (drop_bit 24 val AND 0xFF),
         ucast (drop_bit 32 val AND 0xFF), ucast (drop_bit 40 val AND 0xFF),
         ucast (drop_bit 48 val AND 0xFF), ucast (drop_bit 56 val AND 0xFF)])"

definition pb_encode_tag :: "'s pb_ostream_t \<Rightarrow> pb_wire_type_t \<Rightarrow> u32 \<Rightarrow> (bool \<times> 's pb_ostream_t) option" where
  "pb_encode_tag stream wiretype field_number =
     pb_encode_varint stream (push_bit 3 (ucast field_number) OR ucast wiretype)"

definition wire_type_for :: "pb_type_t \<Rightarrow> pb_wire_type_t option" where
  "wire_type_for lt =
     (if lt = PB_LTYPE_VARINT \<or> lt = PB_LTYPE_UVARINT \<or> lt = PB_LTYPE_SVARINT then Some PB_WT_VARINT
      else if lt = PB_LTYPE_FIXED32 then Some PB_WT_32BIT
      else if lt = PB_LTYPE_FIXED64 then Some PB_WT_64BIT
      else if lt = PB_LTYPE_BYTES \<or> lt = PB_LTYPE_STRING \<or> lt = PB_LTYPE_SUBMESSAGE
            \<or> lt = PB_LTYPE_FIXED_LENGTH_BYTES then Some PB_WT_STRING
      else None)"

definition pb_encode_tag_for_field :: "'s pb_ostream_t \<Rightarrow> pb_field_t \<Rightarrow> (bool \<times> 's pb_ostream_t) option" where
  "pb_encode_tag_for_field stream field =
     (case wire_type_for (ltype field) of
        None \<Rightarrow> os_error stream ''invalid field type''
      | Some wiretype \<Rightarrow> pb_encode_tag stream wiretype (f_tag field))"

definition pb_encode_string :: "'s pb_ostream_t \<Rightarrow> byte list \<Rightarrow> size_t \<Rightarrow> (bool \<times> 's pb_ostream_t) option" where
  "pb_encode_string stream buffer sz =
     and_then (pb_encode_varint stream sz) (\<lambda>stream. pb_write stream buffer sz)"

section \<open>Field encoders\<close>

text \<open>\<^verbatim>\<open>pb_encoder_t\<close>\<close>

type_synonym 's pb_encoder_t = "'s pb_ostream_t \<Rightarrow> pb_field_t \<Rightarrow> addr \<Rightarrow> (bool \<times> 's pb_ostream_t) option"

text \<open>The signed and unsigned values of a field by its \<^verbatim>\<open>data_size\<close>; other sizes are an error.\<close>

definition read_signed :: "mem \<Rightarrow> pb_size_t \<Rightarrow> addr \<Rightarrow> u64 option" where
  "read_signed m data_size src =
     (if data_size = 1 then Some (scast (load8 m src))
      else if data_size = 2 then Some (scast (load16 m src))
      else if data_size = 4 then Some (scast (load32 m src))
      else if data_size = 8 then Some (load64 m src)
      else None)"

definition read_unsigned :: "mem \<Rightarrow> pb_size_t \<Rightarrow> addr \<Rightarrow> u64 option" where
  "read_unsigned m data_size src =
     (if data_size = 1 then Some (ucast (load8 m src))
      else if data_size = 2 then Some (ucast (load16 m src))
      else if data_size = 4 then Some (ucast (load32 m src))
      else if data_size = 8 then Some (load64 m src)
      else None)"

definition pb_enc_varint :: "mem \<Rightarrow> 's pb_encoder_t" where
  "pb_enc_varint m stream field src =
     (case read_signed m (f_data_size field) src of
        None \<Rightarrow> os_error stream ''invalid data_size''
      | Some value \<Rightarrow> pb_encode_varint stream value)"

definition pb_enc_uvarint :: "mem \<Rightarrow> 's pb_encoder_t" where
  "pb_enc_uvarint m stream field src =
     (case read_unsigned m (f_data_size field) src of
        None \<Rightarrow> os_error stream ''invalid data_size''
      | Some value \<Rightarrow> pb_encode_varint stream value)"

definition pb_enc_svarint :: "mem \<Rightarrow> 's pb_encoder_t" where
  "pb_enc_svarint m stream field src =
     (case read_signed m (f_data_size field) src of
        None \<Rightarrow> os_error stream ''invalid data_size''
      | Some value \<Rightarrow> pb_encode_svarint stream value)"

definition pb_enc_fixed64 :: "mem \<Rightarrow> 's pb_encoder_t" where
  "pb_enc_fixed64 m stream field src = pb_encode_fixed64 m stream src"

definition pb_enc_fixed32 :: "mem \<Rightarrow> 's pb_encoder_t" where
  "pb_enc_fixed32 m stream field src = pb_encode_fixed32 m stream src"

definition pb_enc_bytes :: "mem \<Rightarrow> 's pb_encoder_t" where
  "pb_enc_bytes m stream field src =
     (if src = NULL then pb_encode_string stream [] 0
      else let sz = bytes_array_size m src in
        if atype field = PB_ATYPE_STATIC
           \<and> PB_BYTES_ARRAY_T_ALLOCSIZE (ucast sz) > ucast (f_data_size field)
        then os_error stream ''bytes size exceeded''
        else pb_encode_string stream (load_bytes m (bytes_array_bytes src) (unat sz)) (ucast sz))"

text \<open>The loop that stands in for \<^verbatim>\<open>strnlen\<close>.\<close>

function strnlen_loop :: "mem \<Rightarrow> addr \<Rightarrow> size_t \<Rightarrow> size_t \<Rightarrow> size_t" where
  "strnlen_loop m p sz max_size =
     (if sz < max_size \<and> m p \<noteq> 0 then strnlen_loop m (p + 1) (sz + 1) max_size else sz)"
  by pat_completeness auto
termination
proof (relation "measure (\<lambda>(m, p, sz, max_size). unat max_size - unat sz)", goal_cases)
  case (2 m p sz max_size)
  then have "unat sz < unat max_size"
    by (simp add: word_less_nat_alt)
  moreover from this have "unat (sz + 1) = unat sz + 1"
    using unat_add_small [of sz 1] unat_less_64 [of max_size] by simp
  ultimately show ?case by simp
qed simp

declare strnlen_loop.simps [simp del]

definition pb_enc_string :: "mem \<Rightarrow> 's pb_encoder_t" where
  "pb_enc_string m stream field src =
     (let max_size = (if atype field = PB_ATYPE_POINTER then -1 else ucast (f_data_size field));
          sz = (if src = NULL then 0 else strnlen_loop m src 0 max_size)
      in pb_encode_string stream (load_bytes m src (unat sz)) sz)"

definition pb_enc_fixed_length_bytes :: "mem \<Rightarrow> 's pb_encoder_t" where
  "pb_enc_fixed_length_bytes m stream field src =
     pb_encode_string stream (load_bytes m src (unat (f_data_size field))) (ucast (f_data_size field))"

section \<open>Messages\<close>

text \<open>
  What the encoder is given besides the message: the descriptor tables, the extension types, and
  the user's functions behind the callback pointers of \<^verbatim>\<open>pb_callback_t\<close> and
  \<^verbatim>\<open>pb_extension_type_t\<close>.
\<close>

record 's pb_enc_env =
  ee_fields_at :: "addr \<Rightarrow> pb_field_t list"
  ee_ext_type_at :: "addr \<Rightarrow> pb_extension_type_t"
  ee_callback :: "addr \<Rightarrow> mem \<Rightarrow> 's pb_ostream_t \<Rightarrow> pb_field_t \<Rightarrow> addr \<Rightarrow> (bool \<times> 's pb_ostream_t) option"
  ee_ext_callback :: "addr \<Rightarrow> mem \<Rightarrow> 's pb_ostream_t \<Rightarrow> addr \<Rightarrow> (bool \<times> 's pb_ostream_t) option"

text \<open>The encoder of whole messages, as the operations that nest messages call it.\<close>

type_synonym 's pb_msg_encoder = "'s pb_ostream_t \<Rightarrow> pb_field_t list \<Rightarrow> addr \<Rightarrow> (bool \<times> 's pb_ostream_t) option"

definition pb_encode_submessage :: "'s pb_msg_encoder \<Rightarrow> 's pb_ostream_t \<Rightarrow> pb_field_t list \<Rightarrow> addr
    \<Rightarrow> (bool \<times> 's pb_ostream_t) option" where
  "pb_encode_submessage enc stream fs src_struct =
     (case enc PB_OSTREAM_SIZING fs src_struct of
        None \<Rightarrow> None
      | Some (False, substream) \<Rightarrow> Some (False, stream\<lparr>os_errmsg := os_errmsg substream\<rparr>)
      | Some (True, substream) \<Rightarrow>
          let sz = os_bytes_written substream in
          and_then (pb_encode_varint stream sz) (\<lambda>stream.
            if os_sink stream = None then pb_write stream [] sz
            else if os_bytes_written stream + sz > os_max_size stream
            then os_error stream ''stream full''
            else
              let substream = \<lparr>os_sink = os_sink stream, os_max_size = sz,
                                os_bytes_written = 0, os_errmsg = None\<rparr> in
              case enc substream fs src_struct of
                None \<Rightarrow> None
              | Some (status, substream) \<Rightarrow>
                  let stream = stream\<lparr>os_bytes_written := os_bytes_written stream
                                          + os_bytes_written substream,
                                      os_sink := os_sink substream,
                                      os_errmsg := os_errmsg substream\<rparr> in
                  if os_bytes_written substream \<noteq> sz
                  then os_error stream ''submsg size changed''
                  else Some (status, stream)))"

definition pb_enc_submessage :: "'s pb_enc_env \<Rightarrow> 's pb_msg_encoder \<Rightarrow> 's pb_encoder_t" where
  "pb_enc_submessage env enc stream field src =
     (if f_ptr field = NULL then os_error stream ''invalid field descriptor''
      else pb_encode_submessage enc stream (ee_fields_at env (f_ptr field)) src)"

text \<open>\<^verbatim>\<open>PB_ENCODERS[ltype]\<close>; \<^const>\<open>None\<close> is the null entry for extensions and what lies beyond the
  table.\<close>

definition PB_ENCODERS :: "'s pb_enc_env \<Rightarrow> mem \<Rightarrow> 's pb_msg_encoder \<Rightarrow> pb_type_t \<Rightarrow> 's pb_encoder_t option" where
  "PB_ENCODERS env m enc lt =
     (if lt = PB_LTYPE_VARINT then Some (pb_enc_varint m)
      else if lt = PB_LTYPE_UVARINT then Some (pb_enc_uvarint m)
      else if lt = PB_LTYPE_SVARINT then Some (pb_enc_svarint m)
      else if lt = PB_LTYPE_FIXED32 then Some (pb_enc_fixed32 m)
      else if lt = PB_LTYPE_FIXED64 then Some (pb_enc_fixed64 m)
      else if lt = PB_LTYPE_BYTES then Some (pb_enc_bytes m)
      else if lt = PB_LTYPE_STRING then Some (pb_enc_string m)
      else if lt = PB_LTYPE_SUBMESSAGE then Some (pb_enc_submessage env enc)
      else if lt = PB_LTYPE_FIXED_LENGTH_BYTES then Some (pb_enc_fixed_length_bytes m)
      else None)"

text \<open>A call through the function pointer.\<close>

definition call_encoder :: "'s pb_encoder_t option \<Rightarrow> 's pb_encoder_t" where
  "call_encoder func stream field src =
     (case func of None \<Rightarrow> None | Some f \<Rightarrow> f stream field src)"

text \<open>The two loops over the items of an array: packed items, and items with a tag each.\<close>

fun encode_packed_items :: "'s pb_encoder_t option \<Rightarrow> pb_field_t \<Rightarrow> nat \<Rightarrow> addr \<Rightarrow> 's pb_ostream_t
    \<Rightarrow> (bool \<times> 's pb_ostream_t) option" where
  "encode_packed_items func field 0 p stream = Some (True, stream)"
| "encode_packed_items func field (Suc k) p stream =
     and_then (call_encoder func stream field p)
       (encode_packed_items func field k (p + ucast (f_data_size field)))"

definition item_is_pointer :: "pb_field_t \<Rightarrow> bool" where
  "item_is_pointer field \<longleftrightarrow> atype field = PB_ATYPE_POINTER
     \<and> (ltype field = PB_LTYPE_STRING \<or> ltype field = PB_LTYPE_BYTES)"

fun encode_tagged_items :: "mem \<Rightarrow> 's pb_encoder_t option \<Rightarrow> pb_field_t \<Rightarrow> nat \<Rightarrow> addr \<Rightarrow> 's pb_ostream_t
    \<Rightarrow> (bool \<times> 's pb_ostream_t) option" where
  "encode_tagged_items m func field 0 p stream = Some (True, stream)"
| "encode_tagged_items m func field (Suc k) p stream =
     and_then (pb_encode_tag_for_field stream field) (\<lambda>stream.
     and_then (call_encoder func stream field (if item_is_pointer field then load64 m p else p))
       (encode_tagged_items m func field k (p + ucast (f_data_size field))))"

definition packed_size :: "'s pb_encoder_t option \<Rightarrow> pb_field_t \<Rightarrow> addr \<Rightarrow> size_t
    \<Rightarrow> (bool \<times> size_t) option" where
  "packed_size func field pData count =
     (if ltype field = PB_LTYPE_FIXED32 then Some (True, 4 * count)
      else if ltype field = PB_LTYPE_FIXED64 then Some (True, 8 * count)
      else case encode_packed_items func field (unat count) pData PB_OSTREAM_SIZING of
          None \<Rightarrow> None
        | Some (ok, sizestream) \<Rightarrow> Some (ok, os_bytes_written sizestream))"

definition encode_array :: "mem \<Rightarrow> 's pb_ostream_t \<Rightarrow> pb_field_t \<Rightarrow> addr \<Rightarrow> size_t
    \<Rightarrow> 's pb_encoder_t option \<Rightarrow> (bool \<times> 's pb_ostream_t) option" where
  "encode_array m stream field pData count func =
     (if count = 0 then Some (True, stream)
      else if atype field \<noteq> PB_ATYPE_POINTER \<and> count > ucast (f_array_size field)
      then os_error stream ''array max size exceeded''
      else if ltype field \<le> PB_LTYPE_LAST_PACKABLE
      then and_then (pb_encode_tag stream PB_WT_STRING (f_tag field)) (\<lambda>stream.
             case packed_size func field pData count of
               None \<Rightarrow> None
             | Some (False, _) \<Rightarrow> Some (False, stream)
             | Some (True, sz) \<Rightarrow>
                 and_then (pb_encode_varint stream sz) (\<lambda>stream.
                   if os_sink stream = None then pb_write stream [] sz
                   else encode_packed_items func field (unat count) pData stream))
      else encode_tagged_items m func field (unat count) pData stream)"

text \<open>\<^verbatim>\<open>pb_check_proto3_default_value\<close>; a sub-message recurses, the other cases do not.\<close>

fun pb_check_proto3_default_value :: "nat \<Rightarrow> 's pb_enc_env \<Rightarrow> mem \<Rightarrow> pb_field_t \<Rightarrow> addr \<Rightarrow> bool option" where
  "pb_check_proto3_default_value 0 env m field pData = None"
| "pb_check_proto3_default_value (Suc n) env m field pData =
     (let pSize = pData + scast (f_size_offset field) in
      if htype field = PB_HTYPE_REQUIRED then Some False
      else if htype field = PB_HTYPE_REPEATED then Some (load32 m pSize = 0)
      else if htype field = PB_HTYPE_ONEOF then Some (load32 m pSize = 0)
      else if htype field = PB_HTYPE_OPTIONAL \<and> f_size_offset field \<noteq> 0
      then Some (\<not> load_bool m pSize)
      else if atype field = PB_ATYPE_STATIC \<and> ltype field = PB_LTYPE_BYTES
      then Some (bytes_array_size m pData = 0)
      else if atype field = PB_ATYPE_STATIC \<and> ltype field = PB_LTYPE_STRING
      then Some (load8 m pData = 0)
      else if atype field = PB_ATYPE_STATIC \<and> ltype field = PB_LTYPE_FIXED_LENGTH_BYTES
      then Some (f_data_size field = 0)
      else if atype field = PB_ATYPE_STATIC \<and> ltype field = PB_LTYPE_SUBMESSAGE
      then if f_ptr field = NULL then None
           else case pb_field_iter_begin (ee_fields_at env (f_ptr field)) pData of
               (False, iter) \<Rightarrow> Some True
             | (True, iter) \<Rightarrow>
                 map_option fst (iter_loop (\<lambda>it s.
                     map_option (\<lambda>b. (b, s))
                       (pb_check_proto3_default_value n env m (it_field it) (it_pData it)))
                   iter ())
      else Some (list_all (\<lambda>b. b = 0) (load_bytes m pData (unat (f_data_size field)))))"

definition encode_basic_field :: "nat \<Rightarrow> 's pb_enc_env \<Rightarrow> mem \<Rightarrow> 's pb_msg_encoder \<Rightarrow> 's pb_encoder_t" where
  "encode_basic_field n env m enc stream field pData =
     (let func = PB_ENCODERS env m enc (ltype field);
          pSize = pData + scast (f_size_offset field);
          ptr = atype field = PB_ATYPE_POINTER;
          item = (if ptr then load64 m pData else pData)
      in
      case (if f_size_offset field \<noteq> 0 then Some True
            else if htype field = PB_HTYPE_OPTIONAL
            then map_option Not (pb_check_proto3_default_value (Suc n) env m field pData)
            else Some True) of
        None \<Rightarrow> None
      | Some has \<Rightarrow>
        let implicit_has = (if ptr then item \<noteq> NULL else has) in
        if htype field = PB_HTYPE_REQUIRED
        then if item = NULL then os_error stream ''missing required field''
             else and_then (pb_encode_tag_for_field stream field)
                    (\<lambda>stream. call_encoder func stream field item)
        else if htype field = PB_HTYPE_OPTIONAL
        then if (if f_size_offset field \<noteq> 0 then load_bool m pSize else implicit_has)
             then and_then (pb_encode_tag_for_field stream field)
                    (\<lambda>stream. call_encoder func stream field item)
             else Some (True, stream)
        else if htype field = PB_HTYPE_REPEATED
        then encode_array m stream field item
               (ucast (if f_size_offset field \<noteq> 0 then load32 m pSize else f_array_size field)) func
        else if f_size_offset field = 0 then None
        else if load32 m pSize = f_tag field
        then and_then (pb_encode_tag_for_field stream field)
               (\<lambda>stream. call_encoder func stream field item)
        else Some (True, stream))"

definition encode_callback_field :: "'s pb_enc_env \<Rightarrow> mem \<Rightarrow> 's pb_encoder_t" where
  "encode_callback_field env m stream field pData =
     (let encode = callback_func m pData in
      if encode = NULL then Some (True, stream)
      else case ee_callback env encode m stream field (callback_arg pData) of
          None \<Rightarrow> None
        | Some (ok, stream) \<Rightarrow>
            if ok then Some (True, stream) else os_error stream ''callback error'')"

definition encode_field :: "nat \<Rightarrow> 's pb_enc_env \<Rightarrow> mem \<Rightarrow> 's pb_msg_encoder \<Rightarrow> 's pb_encoder_t" where
  "encode_field n env m enc stream field pData =
     (if atype field = PB_ATYPE_STATIC \<or> atype field = PB_ATYPE_POINTER
      then encode_basic_field n env m enc stream field pData
      else if atype field = PB_ATYPE_CALLBACK then encode_callback_field env m stream field pData
      else os_error stream ''invalid field type'')"

definition default_extension_encoder :: "nat \<Rightarrow> 's pb_enc_env \<Rightarrow> mem \<Rightarrow> 's pb_msg_encoder
    \<Rightarrow> 's pb_ostream_t \<Rightarrow> addr \<Rightarrow> (bool \<times> 's pb_ostream_t) option" where
  "default_extension_encoder n env m enc stream extension =
     (let field = et_arg (ee_ext_type_at env (ext_type m extension)) in
      if atype field = PB_ATYPE_POINTER
      then encode_field n env m enc stream field (ext_dest_addr extension)
      else encode_field n env m enc stream field (ext_dest m extension))"

fun encode_extension_loop :: "nat \<Rightarrow> ('s pb_ostream_t \<Rightarrow> addr \<Rightarrow> (bool \<times> 's pb_ostream_t) option)
    \<Rightarrow> mem \<Rightarrow> addr \<Rightarrow> 's pb_ostream_t \<Rightarrow> (bool \<times> 's pb_ostream_t) option" where
  "encode_extension_loop 0 f m extension stream =
     (if extension = NULL then Some (True, stream) else None)"
| "encode_extension_loop (Suc k) f m extension stream =
     (if extension = NULL then Some (True, stream)
      else and_then (f stream extension) (encode_extension_loop k f m (ext_next m extension)))"

definition encode_extension_field :: "nat \<Rightarrow> 's pb_enc_env \<Rightarrow> mem \<Rightarrow> 's pb_msg_encoder \<Rightarrow> 's pb_encoder_t" where
  "encode_extension_field n env m enc stream field pData =
     encode_extension_loop n (\<lambda>stream extension.
       let encode = et_encode (ee_ext_type_at env (ext_type m extension)) in
       if encode \<noteq> NULL then ee_ext_callback env encode m stream extension
       else default_extension_encoder n env m enc stream extension)
     m (load64 m pData) stream"

fun pb_encode :: "nat \<Rightarrow> 's pb_enc_env \<Rightarrow> mem \<Rightarrow> 's pb_msg_encoder" where
  "pb_encode 0 env m stream fs src_struct = None"
| "pb_encode (Suc n) env m stream fs src_struct =
     (case pb_field_iter_begin fs src_struct of
        (False, iter) \<Rightarrow> Some (True, stream)
      | (True, iter) \<Rightarrow>
          iter_loop (\<lambda>it stream.
              if ltype (it_field it) = PB_LTYPE_EXTENSION
              then encode_extension_field n env m (pb_encode n env m) stream (it_field it) (it_pData it)
              else encode_field n env m (pb_encode n env m) stream (it_field it) (it_pData it))
            iter stream)"

definition pb_encode_delimited :: "nat \<Rightarrow> 's pb_enc_env \<Rightarrow> mem \<Rightarrow> 's pb_msg_encoder" where
  "pb_encode_delimited n env m stream fs src_struct =
     pb_encode_submessage (pb_encode n env m) stream fs src_struct"

definition pb_encode_nullterminated :: "nat \<Rightarrow> 's pb_enc_env \<Rightarrow> mem \<Rightarrow> 's pb_msg_encoder" where
  "pb_encode_nullterminated n env m stream fs src_struct =
     and_then (pb_encode n env m stream fs src_struct) (\<lambda>stream. write_list stream [0])"

text \<open>The inner option is the returned flag: \<^verbatim>\<open>*size\<close> is assigned on success only.\<close>

definition pb_get_encoded_size :: "nat \<Rightarrow> 's pb_enc_env \<Rightarrow> mem \<Rightarrow> pb_field_t list \<Rightarrow> addr
    \<Rightarrow> size_t option option" where
  "pb_get_encoded_size n env m fs src_struct =
     (case pb_encode n env m PB_OSTREAM_SIZING fs src_struct of
        None \<Rightarrow> None
      | Some (False, stream) \<Rightarrow> Some None
      | Some (True, stream) \<Rightarrow> Some (Some (os_bytes_written stream)))"

end
