(* ===== verification/Pb_Wire.thy ===== *)
theory Pb_Wire
  imports Pb_Encode
begin

text \<open>
  The wire format as a specification of the encoder: the bytes of a varint, of a field and of a
  message, as functions of the message in memory alone, with no stream, no size limit and no
  two-pass sizing. \<open>msg_bytes\<close> is \<^const>\<open>None\<close> where the message cannot be encoded (a required
  pointer is null, an array count exceeds its array, a descriptor is invalid) and where the encoding
  is up to user code (callbacks, extensions).
\<close>

section \<open>Scalars and length-delimited payloads\<close>

definition zigzag :: "u64 \<Rightarrow> u64" where
  "zigzag v = (if sint v < 0 then NOT (push_bit 1 v) else push_bit 1 v)"

definition delimited :: "byte list \<Rightarrow> byte list" where
  "delimited bs = varint_bytes (of_nat (length bs)) @ bs"

definition tag_bytes :: "pb_wire_type_t \<Rightarrow> u32 \<Rightarrow> byte list" where
  "tag_bytes wt tag = varint_bytes (push_bit 3 (ucast tag) OR ucast wt)"

section \<open>Fields\<close>

text \<open>The bytes of a C string of at most a number of characters.\<close>

fun c_string :: "mem \<Rightarrow> addr \<Rightarrow> nat \<Rightarrow> byte list" where
  "c_string m p 0 = []"
| "c_string m p (Suc k) = (if m p \<noteq> 0 then m p # c_string m (p + 1) k else [])"

text \<open>The payload of one item.\<close>

definition item_bytes :: "'s pb_enc_env \<Rightarrow> mem \<Rightarrow> (pb_field_t list \<Rightarrow> addr \<Rightarrow> byte list option)
    \<Rightarrow> pb_field_t \<Rightarrow> addr \<Rightarrow> byte list option" where
  "item_bytes env m msg field src =
     (let lt = ltype field in
      if lt = PB_LTYPE_VARINT then map_option varint_bytes (read_signed m (f_data_size field) src)
      else if lt = PB_LTYPE_UVARINT then map_option varint_bytes (read_unsigned m (f_data_size field) src)
      else if lt = PB_LTYPE_SVARINT
      then map_option (varint_bytes \<circ> zigzag) (read_signed m (f_data_size field) src)
      else if lt = PB_LTYPE_FIXED32 then Some (load_bytes m src 4)
      else if lt = PB_LTYPE_FIXED64 then Some (load_bytes m src 8)
      else if lt = PB_LTYPE_BYTES
      then if src = NULL then Some (delimited [])
           else if atype field = PB_ATYPE_STATIC
             \<and> unat (f_data_size field) < unat (bytes_array_size m src) + 4 then None
           else Some (delimited (load_bytes m (bytes_array_bytes src) (unat (bytes_array_size m src))))
      else if lt = PB_LTYPE_STRING
      then if src = NULL then Some (delimited [])
           else Some (delimited (c_string m src
             (if atype field = PB_ATYPE_POINTER then 2 ^ 64 - 1 else unat (f_data_size field))))
      else if lt = PB_LTYPE_SUBMESSAGE
      then if f_ptr field = NULL then None
           else map_option delimited (msg (ee_fields_at env (f_ptr field)) src)
      else if lt = PB_LTYPE_FIXED_LENGTH_BYTES
      then Some (delimited (load_bytes m src (unat (f_data_size field))))
      else None)"

definition tagged :: "pb_field_t \<Rightarrow> byte list option \<Rightarrow> byte list option" where
  "tagged field payload =
     (case wire_type_for (ltype field) of
        None \<Rightarrow> None
      | Some wt \<Rightarrow> map_option (\<lambda>bs. tag_bytes wt (f_tag field) @ bs) payload)"

fun packed_bytes :: "(addr \<Rightarrow> byte list option) \<Rightarrow> addr \<Rightarrow> nat \<Rightarrow> addr \<Rightarrow> byte list option" where
  "packed_bytes item step 0 p = Some []"
| "packed_bytes item step (Suc k) p =
     (case item p of
        None \<Rightarrow> None
      | Some bs \<Rightarrow> map_option ((@) bs) (packed_bytes item step k (p + step)))"

text \<open>A repeated field: packed where the type allows it, one tagged item after the other otherwise.\<close>

definition array_bytes :: "mem \<Rightarrow> (addr \<Rightarrow> byte list option) \<Rightarrow> pb_field_t \<Rightarrow> addr \<Rightarrow> nat
    \<Rightarrow> byte list option" where
  "array_bytes m item field pData count =
     (if count = 0 then Some []
      else if atype field \<noteq> PB_ATYPE_POINTER \<and> unat (f_array_size field) < count then None
      else if ltype field \<le> PB_LTYPE_LAST_PACKABLE
      then map_option (\<lambda>bs. tag_bytes PB_WT_STRING (f_tag field) @ delimited bs)
             (packed_bytes item (ucast (f_data_size field)) count pData)
      else packed_bytes (\<lambda>p. tagged field (item (if item_is_pointer field then load64 m p else p)))
             (ucast (f_data_size field)) count pData)"

definition field_bytes :: "nat \<Rightarrow> 's pb_enc_env \<Rightarrow> mem \<Rightarrow> (pb_field_t list \<Rightarrow> addr \<Rightarrow> byte list option)
    \<Rightarrow> pb_field_t \<Rightarrow> addr \<Rightarrow> byte list option" where
  "field_bytes n env m msg field pData =
     (let item = item_bytes env m msg field;
          info = pData + scast (f_size_offset field);
          ptr = atype field = PB_ATYPE_POINTER;
          data = (if ptr then load64 m pData else pData);
          explicit = f_size_offset field \<noteq> 0
      in
      if atype field = PB_ATYPE_CALLBACK
      then if callback_func m pData = NULL then Some [] else None
      else if atype field \<noteq> PB_ATYPE_STATIC \<and> \<not> ptr then None
      else if htype field = PB_HTYPE_REQUIRED
      then if data = NULL then None else tagged field (item data)
      else if htype field = PB_HTYPE_OPTIONAL
      then (case (if explicit then Some (load_bool m info)
                  else map_option (\<lambda>d. if ptr then data \<noteq> NULL else \<not> d)
                         (pb_check_proto3_default_value (Suc n) env m field pData)) of
              None \<Rightarrow> None
            | Some present \<Rightarrow> if present then tagged field (item data) else Some [])
      else if htype field = PB_HTYPE_REPEATED
      then array_bytes m item field data
             (unat (if explicit then load32 m info else f_array_size field))
      else if \<not> explicit then None
      else if load32 m info = f_tag field then tagged field (item data) else Some [])"

section \<open>Messages\<close>

fun msg_bytes :: "nat \<Rightarrow> 's pb_enc_env \<Rightarrow> mem \<Rightarrow> pb_field_t list \<Rightarrow> addr \<Rightarrow> byte list option" where
  "msg_bytes 0 env m fs src = None"
| "msg_bytes (Suc n) env m fs src =
     map_option concat (those (map (\<lambda>i.
       if ltype (field_at fs i) = PB_LTYPE_EXTENSION
       then if load64 m (src + data_off fs i) = NULL then Some [] else None
       else field_bytes n env m (msg_bytes n env m) (field_at fs i) (src + data_off fs i))
     [0..<nfields fs]))"

section \<open>The varint loop of the encoder\<close>

lemma ucast_or_80:
  "(ucast ((v AND 0x7F) OR 0x80 :: u64) :: byte) = ucast (take_bit 7 v) OR 0x80"
  by (rule bit_word_eqI) (auto simp: bit_simps)

lemma varint_loop_nonempty: "v \<noteq> 0 \<Longrightarrow> varint_loop v \<noteq> []"
  by (subst varint_loop.simps) simp

text \<open>Clearing the top bit of the last byte of the buffer gives the reference encoding.\<close>

lemma varint_loop_bytes:
  "v \<noteq> 0 \<Longrightarrow>
   (let buffer = varint_loop v; i = length buffer in buffer[i - 1 := (buffer ! (i - 1)) AND 0x7F])
   = varint_bytes v"
proof (induction v rule: varint_bytes.induct)
  case (1 v)
  show ?case
  proof (cases "v < 128")
    case True
    then have "drop_bit 7 v = 0" by (simp only: drop_bit_7_eq_0)
    then have loop: "varint_loop v = [ucast ((v AND 0x7F) OR 0x80)]"
      using 1 by (subst varint_loop.simps) (simp add: varint_loop.simps)
    have "ucast ((v AND 0x7F) OR 0x80) AND (0x7F :: byte) = ucast (take_bit 7 v)"
      by (rule bit_word_eqI) (auto simp: bit_simps)
    with loop True show ?thesis
      by (subst varint_bytes.simps) (simp add: take_bit_7_small)
  next
    case False
    then have nz: "drop_bit 7 v \<noteq> 0" by (simp only: drop_bit_7_eq_0) simp
    with False 1 have IH: "(let buffer = varint_loop (drop_bit 7 v); i = length buffer
        in buffer[i - 1 := (buffer ! (i - 1)) AND 0x7F]) = varint_bytes (drop_bit 7 v)"
      by simp
    have "varint_loop (drop_bit 7 v) \<noteq> []"
      using nz by (rule varint_loop_nonempty)
    then obtain k where len: "length (varint_loop (drop_bit 7 v)) = Suc k"
      by (cases "varint_loop (drop_bit 7 v)") auto
    have "varint_loop v = ucast ((v AND 0x7F) OR 0x80) # varint_loop (drop_bit 7 v)"
      using 1 by (subst varint_loop.simps) simp
    then show ?thesis
      using False IH len by (subst varint_bytes.simps) (simp only: Let_def ucast_or_80, simp)
  qed
qed

end
