(* ===== verification/Pb_Encode_Correct.thy ===== *)
theory Pb_Encode_Correct
  imports Pb_Wire
begin

text \<open>
  The encoder refines the wire format. The client of a stream callback relies on one law, stated in
  the locale \<open>byte_sink\<close>: a sink with room for the bytes takes them all. Inside the locale,
  \<open>emits f bs\<close> says everything about an operation that produces the bytes \<open>bs\<close>: on a sizing
  stream it counts them; on a writing stream it writes exactly them when they fit below
  \<^verbatim>\<open>max_size\<close>, and otherwise fails with \<^verbatim>\<open>stream full\<close> after writing a prefix. Every operation of
  the encoder is shown to emit the bytes of the specification, up to whole messages.
\<close>

section \<open>The contract of an output stream\<close>

locale byte_sink =
  fixes cb :: "'s \<Rightarrow> byte list \<Rightarrow> (bool \<times> 's) option"
    and content :: "'s \<Rightarrow> byte list"
    and room :: "'s \<Rightarrow> nat \<Rightarrow> bool"
  assumes sink_write: "room st n \<Longrightarrow> length bs \<le> n \<Longrightarrow>
    \<exists>st'. cb st bs = Some (True, st') \<and> content st' = content st @ bs \<and> room st' (n - length bs)"
begin

definition advance :: "'s pb_ostream_t \<Rightarrow> nat \<Rightarrow> 's pb_ostream_t" where
  "advance s k = s\<lparr>os_bytes_written := os_bytes_written s + of_nat k\<rparr>"

definition ready :: "'s pb_ostream_t \<Rightarrow> 's \<Rightarrow> nat \<Rightarrow> nat \<Rightarrow> bool" where
  "ready s st n k \<longleftrightarrow> os_errmsg s = None \<and> os_sink s = Some (cb, st)
     \<and> os_bytes_written s \<le> os_max_size s \<and> unat (os_max_size s) + k < 2 ^ 64
     \<and> unat (os_max_size s) - unat (os_bytes_written s) \<le> n \<and> room st n"

definition fits :: "'s pb_ostream_t \<Rightarrow> nat \<Rightarrow> bool" where
  "fits s k \<longleftrightarrow> unat (os_bytes_written s) + k \<le> unat (os_max_size s)"

definition wrote :: "'s \<Rightarrow> nat \<Rightarrow> byte list \<Rightarrow> 's \<Rightarrow> bool" where
  "wrote st n bs st' \<longleftrightarrow> content st' = content st @ bs \<and> length bs \<le> n \<and> room st' (n - length bs)"

definition emits :: "('s pb_ostream_t \<Rightarrow> (bool \<times> 's pb_ostream_t) option) \<Rightarrow> byte list \<Rightarrow> bool" where
  "emits f bs \<longleftrightarrow>
     (\<forall>s. os_errmsg s = None \<and> os_sink s = None \<longrightarrow> f s = Some (True, advance s (length bs)))
     \<and> (\<forall>s st n. ready s st n (length bs) \<longrightarrow>
          (if fits s (length bs)
           then \<exists>st'. wrote st n bs st'
             \<and> f s = Some (True, (advance s (length bs))\<lparr>os_sink := Some (cb, st')\<rparr>)
           else \<exists>st' s' k. wrote st n (take k bs) st' \<and> os_sink s' = Some (cb, st')
             \<and> os_errmsg s' = Some ''stream full'' \<and> f s = Some (False, s')))"

lemma emitsI:
  assumes "\<And>s. os_errmsg s = None \<Longrightarrow> os_sink s = None \<Longrightarrow> f s = Some (True, advance s (length bs))"
    and "\<And>s st n. ready s st n (length bs) \<Longrightarrow> fits s (length bs) \<Longrightarrow>
      \<exists>st'. wrote st n bs st' \<and> f s = Some (True, (advance s (length bs))\<lparr>os_sink := Some (cb, st')\<rparr>)"
    and "\<And>s st n. ready s st n (length bs) \<Longrightarrow> \<not> fits s (length bs) \<Longrightarrow>
      \<exists>st' s' k. wrote st n (take k bs) st' \<and> os_sink s' = Some (cb, st')
        \<and> os_errmsg s' = Some ''stream full'' \<and> f s = Some (False, s')"
  shows "emits f bs"
  using assms unfolding emits_def by auto

lemma emits_sizing:
  "emits f bs \<Longrightarrow> os_errmsg s = None \<Longrightarrow> os_sink s = None \<Longrightarrow> f s = Some (True, advance s (length bs))"
  by (simp add: emits_def)

lemma emits_fits:
  assumes "emits f bs" "ready s st n (length bs)" "fits s (length bs)"
  obtains st' where "wrote st n bs st'"
    "f s = Some (True, (advance s (length bs))\<lparr>os_sink := Some (cb, st')\<rparr>)"
  using assms unfolding emits_def by meson

lemma emits_full:
  assumes "emits f bs" "ready s st n (length bs)" "\<not> fits s (length bs)"
  obtains st' s' k where "wrote st n (take k bs) st'" "os_sink s' = Some (cb, st')"
    "os_errmsg s' = Some ''stream full''" "f s = Some (False, s')"
  using assms unfolding emits_def by meson

lemma emits_cong: "emits f bs \<Longrightarrow> (\<And>s. g s = f s) \<Longrightarrow> emits g bs"
proof -
  assume "emits f bs" and "\<And>s. g s = f s"
  moreover from this(2) have "g = f" by auto
  ultimately show ?thesis by simp
qed

section \<open>Sequencing\<close>

lemma advance_simps [simp]:
  "os_errmsg (advance s k) = os_errmsg s" "os_sink (advance s k) = os_sink s"
  "os_max_size (advance s k) = os_max_size s"
  "advance (advance s j) k = advance s (j + k)" "advance s 0 = s"
  "advance (s\<lparr>os_sink := x\<rparr>) k = (advance s k)\<lparr>os_sink := x\<rparr>"
  by (simp_all add: advance_def add.assoc)

lemma unat_advance:
  "ready s st n k \<Longrightarrow> fits s j \<Longrightarrow> j \<le> k \<Longrightarrow>
   unat (os_bytes_written (advance s j)) = unat (os_bytes_written s) + j"
  unfolding advance_def by (simp add: ready_def fits_def) (rule unat_add_small, simp)

lemma ready_after:
  assumes "ready s st n (j + k)" "fits s j" "wrote st n bs st'" "length bs = j"
  shows "ready ((advance s j)\<lparr>os_sink := Some (cb, st')\<rparr>) st' (n - j) k"
proof -
  have "unat (os_bytes_written (advance s j)) = unat (os_bytes_written s) + j"
    using assms by (intro unat_advance) auto
  then show ?thesis
    using assms by (auto simp: ready_def fits_def wrote_def word_le_nat_alt)
qed

lemma fits_after:
  "ready s st n (j + k) \<Longrightarrow> fits s j \<Longrightarrow>
   fits ((advance s j)\<lparr>os_sink := x\<rparr>) k \<longleftrightarrow> fits s (j + k)"
  using unat_advance [of s st n "j + k" j] by (auto simp: fits_def)

lemma wrote_append:
  "wrote st n as st' \<Longrightarrow> wrote st' (n - length as) bs st'' \<Longrightarrow> wrote st n (as @ bs) st''"
  by (auto simp: wrote_def)

lemma emits_skip [intro]: "emits (\<lambda>s. Some (True, s)) []"
proof (rule emitsI)
  fix s :: "'s pb_ostream_t" and st n
  assume "ready s st n (length [])" "fits s (length [])"
  then show "\<exists>st'. wrote st n [] st'
      \<and> Some (True, s) = Some (True, (advance s (length []))\<lparr>os_sink := Some (cb, st')\<rparr>)"
    by (intro exI [of _ st]) (simp add: wrote_def ready_def)
qed (auto simp: ready_def fits_def word_le_nat_alt)

lemma emits_and_then [intro]:
  assumes f: "emits f as" and g: "emits g bs"
  shows "emits (\<lambda>s. and_then (f s) g) (as @ bs)"
proof (rule emitsI)
  fix s :: "'s pb_ostream_t"
  assume "os_errmsg s = None" "os_sink s = None"
  then show "and_then (f s) g = Some (True, advance s (length (as @ bs)))"
    by (simp add: emits_sizing [OF f] emits_sizing [OF g])
next
  fix s :: "'s pb_ostream_t" and st n
  assume r: "ready s st n (length (as @ bs))" and fit: "fits s (length (as @ bs))"
  then have ra: "ready s st n (length as)" and fa: "fits s (length as)"
    by (auto simp: ready_def fits_def)
  from f ra fa obtain st' where st': "wrote st n as st'"
    "f s = Some (True, (advance s (length as))\<lparr>os_sink := Some (cb, st')\<rparr>)" by (rule emits_fits)
  let ?s = "(advance s (length as))\<lparr>os_sink := Some (cb, st')\<rparr>"
  have rb: "ready ?s st' (n - length as) (length bs)"
    using r fa st' by (intro ready_after) auto
  have fb: "fits ?s (length bs)"
    using r fa fit fits_after by auto
  from g rb fb obtain st'' where st'': "wrote st' (n - length as) bs st''"
    "g ?s = Some (True, (advance ?s (length bs))\<lparr>os_sink := Some (cb, st'')\<rparr>)" by (rule emits_fits)
  show "\<exists>st'. wrote st n (as @ bs) st' \<and> and_then (f s) g
      = Some (True, (advance s (length (as @ bs)))\<lparr>os_sink := Some (cb, st')\<rparr>)"
    using st' st'' wrote_append by (intro exI [of _ st'']) auto
next
  fix s :: "'s pb_ostream_t" and st n
  assume r: "ready s st n (length (as @ bs))" and nofit: "\<not> fits s (length (as @ bs))"
  then have ra: "ready s st n (length as)"
    by (auto simp: ready_def fits_def)
  show "\<exists>st' s' k. wrote st n (take k (as @ bs)) st' \<and> os_sink s' = Some (cb, st')
      \<and> os_errmsg s' = Some ''stream full'' \<and> and_then (f s) g = Some (False, s')"
  proof (cases "fits s (length as)")
    case False
    from f ra this obtain st' s' k where fail: "wrote st n (take k as) st'" "os_sink s' = Some (cb, st')"
      "os_errmsg s' = Some ''stream full''" "f s = Some (False, s')" by (rule emits_full)
    moreover have "take k as = take (min k (length as)) (as @ bs)"
      by (cases "k \<le> length as") simp_all
    ultimately show ?thesis
      by (metis and_then_simps(3))
  next
    case fa: True
    from f ra fa obtain st' where st': "wrote st n as st'"
      "f s = Some (True, (advance s (length as))\<lparr>os_sink := Some (cb, st')\<rparr>)" by (rule emits_fits)
    let ?s = "(advance s (length as))\<lparr>os_sink := Some (cb, st')\<rparr>"
    have rb: "ready ?s st' (n - length as) (length bs)"
      using r fa st' by (intro ready_after) auto
    have fb: "\<not> fits ?s (length bs)"
      using r fa nofit fits_after by auto
    from g rb fb obtain st'' s'' k where fail: "wrote st' (n - length as) (take k bs) st''"
      "os_sink s'' = Some (cb, st'')" "os_errmsg s'' = Some ''stream full''" "g ?s = Some (False, s'')"
      by (rule emits_full)
    have "take (length as + k) (as @ bs) = as @ take k bs" by simp
    with st' fail show ?thesis
      using wrote_append [OF st'(1) fail(1)] by (metis and_then_simps(2))
  qed
qed

section \<open>Writing bytes\<close>

lemma emits_write:
  assumes "length bs < 2 ^ 64"
  shows "emits (\<lambda>s. pb_write s bs (of_nat (length bs))) bs"
proof (rule emitsI)
  fix s :: "'s pb_ostream_t"
  assume "os_sink s = None"
  then show "pb_write s bs (of_nat (length bs)) = Some (True, advance s (length bs))"
    by (simp add: pb_write_def advance_def)
next
  fix s :: "'s pb_ostream_t" and st n
  assume r: "ready s st n (length bs)" and fit: "fits s (length bs)"
  then have "unat (os_bytes_written s + of_nat (length bs)) = unat (os_bytes_written s) + length bs"
    using unat_advance [OF r fit] by (simp add: advance_def)
  with fit have guard: "\<not> os_bytes_written s + of_nat (length bs) > os_max_size s"
    by (simp add: fits_def word_less_nat_alt)
  have len: "unat (of_nat (length bs) :: 64 word) = length bs"
    using assms by (intro unat_of_nat_small) simp
  from r fit have "room st n" "length bs \<le> n" "os_sink s = Some (cb, st)"
    by (auto simp: ready_def fits_def)
  with sink_write [of st n bs] obtain st' where
    "cb st bs = Some (True, st')" "content st' = content st @ bs" "room st' (n - length bs)" by blast
  then show "\<exists>st'. wrote st n bs st' \<and> pb_write s bs (of_nat (length bs))
      = Some (True, (advance s (length bs))\<lparr>os_sink := Some (cb, st')\<rparr>)"
    using guard len \<open>os_sink s = _\<close> \<open>length bs \<le> n\<close>
    by (intro exI [of _ st']) (simp add: pb_write_def wrote_def advance_def Let_def)
next
  fix s :: "'s pb_ostream_t" and st n
  assume r: "ready s st n (length bs)" and nofit: "\<not> fits s (length bs)"
  then have "unat (os_bytes_written s + of_nat (length bs)) = unat (os_bytes_written s) + length bs"
    by (intro unat_add_small) (auto simp: ready_def word_le_nat_alt)
  with nofit have "os_bytes_written s + of_nat (length bs) > os_max_size s"
    by (simp add: fits_def word_less_nat_alt)
  moreover have "os_sink s = Some (cb, st)" "room st n" "os_errmsg s = None"
    using r by (auto simp: ready_def)
  ultimately show "\<exists>st' s' k. wrote st n (take k bs) st' \<and> os_sink s' = Some (cb, st')
      \<and> os_errmsg s' = Some ''stream full'' \<and> pb_write s bs (of_nat (length bs)) = Some (False, s')"
    by (intro exI [of _ st] exI [of _ "s\<lparr>os_errmsg := Some ''stream full''\<rparr>"] exI [of _ 0])
      (simp add: wrote_def pb_write_def os_error_def)
qed

lemma emits_sized:
  assumes "emits f bs" "length bs < 2 ^ 64"
  shows "emits (\<lambda>s. if os_sink s = None then pb_write s [] (of_nat (length bs)) else f s) bs"
proof (rule emitsI)
  fix s :: "'s pb_ostream_t"
  assume "os_sink s = None"
  then show "(if os_sink s = None then pb_write s [] (of_nat (length bs)) else f s)
      = Some (True, advance s (length bs))"
    by (simp add: pb_write_def advance_def)
next
  fix s :: "'s pb_ostream_t" and st n
  assume r: "ready s st n (length bs)" and "fits s (length bs)"
  with assms(1) obtain st' where "wrote st n bs st'"
    "f s = Some (True, (advance s (length bs))\<lparr>os_sink := Some (cb, st')\<rparr>)" by (rule emits_fits)
  with r show "\<exists>st'. wrote st n bs st' \<and>
      (if os_sink s = None then pb_write s [] (of_nat (length bs)) else f s)
      = Some (True, (advance s (length bs))\<lparr>os_sink := Some (cb, st')\<rparr>)"
    by (auto simp: ready_def)
next
  fix s :: "'s pb_ostream_t" and st n
  assume r: "ready s st n (length bs)" and "\<not> fits s (length bs)"
  with assms(1) obtain st' s' k where "wrote st n (take k bs) st'" "os_sink s' = Some (cb, st')"
    "os_errmsg s' = Some ''stream full''" "f s = Some (False, s')" by (rule emits_full)
  with r show "\<exists>st' s' k. wrote st n (take k bs) st' \<and> os_sink s' = Some (cb, st')
      \<and> os_errmsg s' = Some ''stream full''
      \<and> (if os_sink s = None then pb_write s [] (of_nat (length bs)) else f s) = Some (False, s')"
    by (auto simp: ready_def)
qed

end

section \<open>Facts on the wire format\<close>

lemma encode_varint_write: "pb_encode_varint s v = write_list s (varint_bytes v)"
proof (cases "v \<le> 0x7F")
  case True
  then have "v < 128"
    by (simp add: word_le_nat_alt word_less_nat_alt)
  with True show ?thesis
    by (simp add: pb_encode_varint_def varint_bytes.simps)
next
  case False
  then have "v \<noteq> 0" by auto
  with False show ?thesis
    using varint_loop_bytes [of v] length_list_update
    by (metis (no_types, lifting) pb_encode_varint_def)
qed

lemma load_bytes_c_string: "load_bytes m p (length (c_string m p k)) = c_string m p k"
  by (induction k arbitrary: p) auto

lemma length_c_string: "length (c_string m p k) \<le> k"
  by (induction k arbitrary: p) auto

lemma strnlen_loop_c_string:
  "sz \<le> max_size \<Longrightarrow> strnlen_loop m p sz max_size
     = sz + of_nat (length (c_string m p (unat max_size - unat sz)))"
proof (induction m p sz max_size rule: strnlen_loop.induct)
  case (1 m p sz max_size)
  show ?case
  proof (cases "sz < max_size \<and> m p \<noteq> 0")
    case True
    then have lt: "unat sz < unat max_size" by (simp add: word_less_nat_alt)
    then have sz': "unat (sz + 1) = unat sz + 1"
      using unat_add_small [of sz 1] unat_less_64 [of max_size] by simp
    then have "sz + 1 \<le> max_size" using lt by (simp add: word_le_nat_alt)
    with True 1 have "strnlen_loop m (p + 1) (sz + 1) max_size
        = sz + 1 + of_nat (length (c_string m (p + 1) (unat max_size - unat (sz + 1))))" by blast
    moreover have "unat max_size - unat sz = Suc (unat max_size - unat (sz + 1))"
      using lt sz' by simp
    ultimately show ?thesis
      using True by (subst strnlen_loop.simps) (simp add: add.assoc)
  next
    case False
    then have "unat max_size - unat sz = 0 \<or> m p = 0"
      using 1 by (auto simp: word_less_nat_alt word_le_nat_alt)
    then have "c_string m p (unat max_size - unat sz) = []"
      by (cases "unat max_size - unat sz") auto
    with False show ?thesis
      by (subst strnlen_loop.simps) auto
  qed
qed

section \<open>The operations of the encoder emit the wire format\<close>

context byte_sink
begin

lemma emits_varint: "emits (\<lambda>s. pb_encode_varint s v) (varint_bytes v)"
proof -
  have "length (varint_bytes v) < 2 ^ 64"
    using length_varint_bytes [of v] by simp
  then show ?thesis
    unfolding encode_varint_write by (rule emits_write)
qed

lemma emits_svarint: "emits (\<lambda>s. pb_encode_svarint s v) (varint_bytes (zigzag v))"
  unfolding pb_encode_svarint_def zigzag_def by (rule emits_varint)

lemma emits_fixed32: "emits (\<lambda>s. pb_encode_fixed32 m s p) (load_bytes m p 4)"
  using emits_write [of "load_bytes m p 4"] bytes_of_word_4 [of "load32 m p"]
  by (simp add: pb_encode_fixed32_def Let_def)

lemma emits_fixed64: "emits (\<lambda>s. pb_encode_fixed64 m s p) (load_bytes m p 8)"
  using emits_write [of "load_bytes m p 8"] bytes_of_word_8 [of "load64 m p"]
  by (simp add: pb_encode_fixed64_def Let_def)

lemma emits_tag: "emits (\<lambda>s. pb_encode_tag s wt tag) (tag_bytes wt tag)"
  unfolding pb_encode_tag_def tag_bytes_def by (rule emits_varint)

lemma emits_tag_for_field:
  "wire_type_for (ltype field) = Some wt \<Longrightarrow>
   emits (\<lambda>s. pb_encode_tag_for_field s field) (tag_bytes wt (f_tag field))"
  by (simp add: pb_encode_tag_for_field_def emits_tag)

lemma emits_string:
  "length bs < 2 ^ 64 \<Longrightarrow> emits (\<lambda>s. pb_encode_string s bs (of_nat (length bs))) (delimited bs)"
  unfolding pb_encode_string_def delimited_def by (intro emits_and_then emits_varint emits_write)

text \<open>A string whose length is held in another variable.\<close>

lemma emits_string_len:
  "length bs < 2 ^ 64 \<Longrightarrow> sz = of_nat (length bs) \<Longrightarrow> emits (\<lambda>s. pb_encode_string s bs sz) (delimited bs)"
  by (simp add: emits_string)

text \<open>The two passes over a sub-message agree, so the check for a changed size does not fire.\<close>

lemma emits_submessage:
  assumes enc: "emits (\<lambda>s. enc s fs src) bs" and len: "length bs < 2 ^ 63"
  shows "emits (\<lambda>s. pb_encode_submessage enc s fs src) (delimited bs)"
proof -
  define body where "body = (\<lambda>stream.
      if os_sink stream = None then pb_write stream [] (of_nat (length bs))
      else if os_bytes_written stream + of_nat (length bs) > os_max_size stream
      then os_error stream ''stream full''
      else
        let substream = \<lparr>os_sink = os_sink stream, os_max_size = of_nat (length bs),
                          os_bytes_written = 0, os_errmsg = None\<rparr> in
        case enc substream fs src of
          None \<Rightarrow> None
        | Some (status, substream) \<Rightarrow>
            let stream = stream\<lparr>os_bytes_written := os_bytes_written stream
                                    + os_bytes_written substream,
                                os_sink := os_sink substream,
                                os_errmsg := os_errmsg substream\<rparr> in
            if os_bytes_written substream \<noteq> of_nat (length bs)
            then os_error stream ''submsg size changed''
            else Some (status, stream))"
  have size: "enc PB_OSTREAM_SIZING fs src = Some (True, advance PB_OSTREAM_SIZING (length bs))"
    using emits_sizing [OF enc] by (simp add: PB_OSTREAM_SIZING_def)
  have sz: "os_bytes_written (advance PB_OSTREAM_SIZING (length bs)) = of_nat (length bs)"
    by (simp add: advance_def PB_OSTREAM_SIZING_def)
  have unfold: "pb_encode_submessage enc s fs src
      = and_then (pb_encode_varint s (of_nat (length bs))) body" for s
    unfolding pb_encode_submessage_def body_def size
    by (simp only: option.case prod.case bool.case sz Let_def)
  have len64: "unat (of_nat (length bs) :: 64 word) = length bs"
    using len by (intro unat_of_nat_small) simp
  have "emits body bs"
  proof (rule emitsI)
    fix s :: "'s pb_ostream_t"
    assume "os_sink s = None"
    then show "body s = Some (True, advance s (length bs))"
      by (simp add: body_def pb_write_def advance_def)
  next
    fix s :: "'s pb_ostream_t" and st n
    assume r: "ready s st n (length bs)" and fit: "fits s (length bs)"
    have "unat (os_bytes_written s + of_nat (length bs)) = unat (os_bytes_written s) + length bs"
      using unat_advance [OF r fit] by (simp add: advance_def)
    with fit have guard: "\<not> os_bytes_written s + of_nat (length bs) > os_max_size s"
      by (simp add: fits_def word_less_nat_alt)
    let ?sub = "\<lparr>os_sink = os_sink s, os_max_size = of_nat (length bs),
                 os_bytes_written = 0, os_errmsg = None\<rparr>"
    have rs: "ready ?sub st n (length bs)" and fs: "fits ?sub (length bs)"
      using r fit len64 len by (auto simp: ready_def fits_def)
    from enc rs fs obtain st' where st': "wrote st n bs st'"
      "enc ?sub fs src = Some (True, (advance ?sub (length bs))\<lparr>os_sink := Some (cb, st')\<rparr>)"
      by (rule emits_fits)
    then show "\<exists>st'. wrote st n bs st' \<and>
        body s = Some (True, (advance s (length bs))\<lparr>os_sink := Some (cb, st')\<rparr>)"
      using r guard by (intro exI [of _ st']) (auto simp: body_def ready_def Let_def advance_def)
  next
    fix s :: "'s pb_ostream_t" and st n
    assume r: "ready s st n (length bs)" and nofit: "\<not> fits s (length bs)"
    then have "unat (os_bytes_written s + of_nat (length bs)) = unat (os_bytes_written s) + length bs"
      by (intro unat_add_small) (auto simp: ready_def word_le_nat_alt)
    with nofit have "os_bytes_written s + of_nat (length bs) > os_max_size s"
      by (simp add: fits_def word_less_nat_alt)
    with r show "\<exists>st' s' k. wrote st n (take k bs) st' \<and> os_sink s' = Some (cb, st')
        \<and> os_errmsg s' = Some ''stream full'' \<and> body s = Some (False, s')"
      by (intro exI [of _ st] exI [of _ "s\<lparr>os_errmsg := Some ''stream full''\<rparr>"] exI [of _ 0])
        (auto simp: body_def ready_def wrote_def os_error_def)
  qed
  then show ?thesis
    unfolding delimited_def unfold by (intro emits_and_then emits_varint)
qed

lemma length_delimited: "length bs \<le> length (delimited bs)"
  by (simp add: delimited_def)

lemma ltype_cases:
  assumes "item_bytes env m msg field src = Some bs"
  obtains "ltype field = PB_LTYPE_VARINT" | "ltype field = PB_LTYPE_UVARINT"
    | "ltype field = PB_LTYPE_SVARINT" | "ltype field = PB_LTYPE_FIXED32"
    | "ltype field = PB_LTYPE_FIXED64" | "ltype field = PB_LTYPE_BYTES"
    | "ltype field = PB_LTYPE_STRING" | "ltype field = PB_LTYPE_SUBMESSAGE"
    | "ltype field = PB_LTYPE_FIXED_LENGTH_BYTES"
  using assms unfolding item_bytes_def Let_def by (auto split: if_splits)

lemma emits_bytes:
  assumes "src \<noteq> NULL" "atype field = PB_ATYPE_STATIC \<Longrightarrow>
      unat (bytes_array_size m src) + 4 \<le> unat (f_data_size field)"
  shows "emits (\<lambda>s. pb_enc_bytes m s field src)
    (delimited (load_bytes m (bytes_array_bytes src) (unat (bytes_array_size m src))))"
proof -
  let ?sz = "bytes_array_size m src"
  let ?bs = "load_bytes m (bytes_array_bytes src) (unat ?sz)"
  have lt: "unat ?sz < 2 ^ 32"
    using unat_less_32 [of ?sz] by simp
  then have "unat (ucast ?sz + 4 :: 64 word) = unat ?sz + 4"
    using unat_add_small [of "ucast ?sz" 4] by simp
  then have "\<not> (atype field = PB_ATYPE_STATIC \<and>
      PB_BYTES_ARRAY_T_ALLOCSIZE (ucast ?sz) > ucast (f_data_size field))"
    using assms(2) by (auto simp: PB_BYTES_ARRAY_T_ALLOCSIZE_def word_less_nat_alt)
  then have "pb_enc_bytes m s field src = pb_encode_string s ?bs (ucast ?sz)" for s :: "'s pb_ostream_t"
    using assms(1) unfolding pb_enc_bytes_def Let_def by (simp only: if_False)
  moreover have "emits (\<lambda>s. pb_encode_string s ?bs (ucast ?sz)) (delimited ?bs)"
    using lt by (intro emits_string_len) auto
  ultimately show ?thesis
    by (auto intro: emits_cong)
qed

lemma emits_cstring:
  "emits (\<lambda>s. pb_enc_string m s field src)
    (delimited (if src = NULL then [] else c_string m src
      (if atype field = PB_ATYPE_POINTER then 2 ^ 64 - 1 else unat (f_data_size field))))"
proof -
  define max_size :: size_t where
    "max_size = (if atype field = PB_ATYPE_POINTER then -1 else ucast (f_data_size field))"
  have max: "unat max_size = (if atype field = PB_ATYPE_POINTER then 2 ^ 64 - 1 else unat (f_data_size field))"
    by (simp add: max_size_def)
  define bs where "bs = (if src = NULL then [] else c_string m src (unat max_size))"
  have "length bs \<le> unat max_size"
    by (simp add: bs_def length_c_string)
  then have lt: "length bs < 2 ^ 64"
    using unat_less_64 [of max_size] by simp
  have sz: "(if src = NULL then 0 else strnlen_loop m src 0 max_size) = of_nat (length bs)"
    by (simp add: bs_def strnlen_loop_c_string)
  have len: "unat (of_nat (length bs) :: 64 word) = length bs"
    using lt by (intro unat_of_nat_small) simp
  have "load_bytes m src (length bs) = bs"
    by (simp add: bs_def load_bytes_c_string)
  then have "pb_enc_string m s field src = pb_encode_string s bs (of_nat (length bs))"
    for s :: "'s pb_ostream_t"
    unfolding pb_enc_string_def max_size_def [symmetric] Let_def sz len by simp
  with emits_string [OF lt] have "emits (\<lambda>s. pb_enc_string m s field src) (delimited bs)"
    by (rule emits_cong)
  then show ?thesis
    by (simp only: bs_def max)
qed

lemma emits_item:
  assumes msg: "\<And>fs src bs. msg fs src = Some bs \<Longrightarrow> length bs < 2 ^ 63 \<Longrightarrow> emits (\<lambda>s. enc s fs src) bs"
    and item: "item_bytes env m msg field src = Some bs" and len: "length bs < 2 ^ 63"
  shows "emits (\<lambda>s. call_encoder (PB_ENCODERS env m enc (ltype field)) s field src) bs"
  using item
proof (rule ltype_cases)
  assume lt: "ltype field = PB_LTYPE_VARINT"
  then show ?thesis using item
    by (auto simp: item_bytes_def call_encoder_def PB_ENCODERS_def pb_enc_varint_def emits_varint)
next
  assume lt: "ltype field = PB_LTYPE_UVARINT"
  then show ?thesis using item
    by (auto simp: item_bytes_def call_encoder_def PB_ENCODERS_def pb_enc_uvarint_def emits_varint)
next
  assume lt: "ltype field = PB_LTYPE_SVARINT"
  then show ?thesis using item
    by (auto simp: item_bytes_def call_encoder_def PB_ENCODERS_def pb_enc_svarint_def emits_svarint)
next
  assume lt: "ltype field = PB_LTYPE_FIXED32"
  then show ?thesis using item
    by (auto simp: item_bytes_def call_encoder_def PB_ENCODERS_def pb_enc_fixed32_def emits_fixed32)
next
  assume lt: "ltype field = PB_LTYPE_FIXED64"
  then show ?thesis using item
    by (auto simp: item_bytes_def call_encoder_def PB_ENCODERS_def pb_enc_fixed64_def emits_fixed64)
next
  assume lt: "ltype field = PB_LTYPE_BYTES"
  show ?thesis
  proof (cases "src = NULL")
    case True
    with lt item have "bs = delimited []" by (simp add: item_bytes_def)
    with lt True show ?thesis
      using emits_string [of "[]"] by (simp add: call_encoder_def PB_ENCODERS_def pb_enc_bytes_def)
  next
    case False
    with lt item have "atype field = PB_ATYPE_STATIC \<Longrightarrow>
        unat (bytes_array_size m src) + 4 \<le> unat (f_data_size field)"
      and "bs = delimited (load_bytes m (bytes_array_bytes src) (unat (bytes_array_size m src)))"
      by (auto simp: item_bytes_def split: if_splits)
    with lt False show ?thesis
      using emits_bytes [of src field m] by (simp add: call_encoder_def PB_ENCODERS_def)
  qed
next
  assume lt: "ltype field = PB_LTYPE_STRING"
  then have "bs = delimited (if src = NULL then [] else c_string m src
      (if atype field = PB_ATYPE_POINTER then 2 ^ 64 - 1 else unat (f_data_size field)))"
    using item by (auto simp: item_bytes_def split: if_splits)
  with lt show ?thesis
    using emits_cstring [of m field src] by (simp only: call_encoder_def PB_ENCODERS_def) simp
next
  assume lt: "ltype field = PB_LTYPE_SUBMESSAGE"
  with item obtain bs' where sub: "f_ptr field \<noteq> NULL"
    "msg (ee_fields_at env (f_ptr field)) src = Some bs'" "bs = delimited bs'"
    by (auto simp: item_bytes_def split: if_splits)
  moreover from this len have "length bs' < 2 ^ 63"
    using length_delimited [of bs'] by simp
  ultimately show ?thesis
    using lt emits_submessage [OF msg]
    by (simp add: call_encoder_def PB_ENCODERS_def pb_enc_submessage_def)
next
  assume lt: "ltype field = PB_LTYPE_FIXED_LENGTH_BYTES"
  have "unat (f_data_size field) < 2 ^ 32"
    using unat_less_32 [of "f_data_size field"] by simp
  then have "emits (\<lambda>s. pb_enc_fixed_length_bytes m s field src)
      (delimited (load_bytes m src (unat (f_data_size field))))"
    unfolding pb_enc_fixed_length_bytes_def by (intro emits_string_len) auto
  then show ?thesis
    using lt item by (simp add: item_bytes_def call_encoder_def PB_ENCODERS_def)
qed

lemma emits_packed_items:
  assumes item: "\<And>p bs. item p = Some bs \<Longrightarrow> length bs < 2 ^ 63 \<Longrightarrow> emits (\<lambda>s. call_encoder func s field p) bs"
  shows "packed_bytes item (ucast (f_data_size field)) k p = Some bs \<Longrightarrow> length bs < 2 ^ 63 \<Longrightarrow>
    emits (encode_packed_items func field k p) bs"
proof (induction k arbitrary: p bs)
  case 0
  then have "bs = []" by simp
  then show ?case by (simp add: emits_skip)
next
  case (Suc k)
  then obtain b rest where b: "item p = Some b" "bs = b @ rest"
    "packed_bytes item (ucast (f_data_size field)) k (p + ucast (f_data_size field)) = Some rest"
    by (auto split: option.splits)
  with Suc.prems have "emits (\<lambda>s. call_encoder func s field p) b"
    and "emits (encode_packed_items func field k (p + ucast (f_data_size field))) rest"
    by (auto intro!: item Suc.IH)
  then have "emits (\<lambda>s. and_then (call_encoder func s field p)
      (encode_packed_items func field k (p + ucast (f_data_size field)))) (b @ rest)"
    by (rule emits_and_then)
  with b(2) show ?case
    by (auto intro: emits_cong)
qed

lemma emits_tagged:
  assumes "tagged field payload = Some bs" "length bs < 2 ^ 63"
    and "\<And>b. payload = Some b \<Longrightarrow> length b < 2 ^ 63 \<Longrightarrow> emits f b"
  shows "emits (\<lambda>s. and_then (pb_encode_tag_for_field s field) f) bs"
proof -
  from assms(1) obtain wt b where "wire_type_for (ltype field) = Some wt" "payload = Some b"
    "bs = tag_bytes wt (f_tag field) @ b"
    by (auto simp: tagged_def split: option.splits)
  with assms show ?thesis
    by (auto intro: emits_tag_for_field)
qed

lemma emits_tagged_items:
  assumes item: "\<And>p bs. item p = Some bs \<Longrightarrow> length bs < 2 ^ 63 \<Longrightarrow> emits (\<lambda>s. call_encoder func s field p) bs"
  shows "packed_bytes (\<lambda>p. tagged field (item (if item_is_pointer field then load64 m p else p)))
      (ucast (f_data_size field)) k p = Some bs \<Longrightarrow> length bs < 2 ^ 63 \<Longrightarrow>
    emits (encode_tagged_items m func field k p) bs"
proof (induction k arbitrary: p bs)
  case 0
  then have "bs = []" by simp
  then show ?case by (simp add: emits_skip)
next
  case (Suc k)
  let ?p = "if item_is_pointer field then load64 m p else p"
  let ?next = "p + ucast (f_data_size field)"
  from Suc.prems(1) obtain b rest where b: "tagged field (item ?p) = Some b" "bs = b @ rest"
    "packed_bytes (\<lambda>p. tagged field (item (if item_is_pointer field then load64 m p else p)))
      (ucast (f_data_size field)) k ?next = Some rest"
    by (auto split: option.splits)
  with Suc.prems have "emits (\<lambda>s. and_then (pb_encode_tag_for_field s field) (\<lambda>s. call_encoder func s field ?p)) b"
    and "emits (encode_tagged_items m func field k ?next) rest"
    by (auto intro!: emits_tagged item Suc.IH)
  then have "emits (\<lambda>s. and_then (and_then (pb_encode_tag_for_field s field) (\<lambda>s. call_encoder func s field ?p))
      (encode_tagged_items m func field k ?next)) (b @ rest)"
    by (rule emits_and_then)
  with b(2) show ?case
    by (auto intro: emits_cong simp: and_then_assoc)
qed

end

lemma length_packed_bytes:
  "(\<And>p bs. item p = Some bs \<Longrightarrow> length bs = w) \<Longrightarrow> packed_bytes item step k p = Some bs \<Longrightarrow>
   length bs = k * w"
  by (induction k arbitrary: p bs) (fastforce split: option.splits)+

lemma length_item_fixed:
  "ltype field = PB_LTYPE_FIXED32 \<Longrightarrow> item_bytes env m msg field p = Some bs \<Longrightarrow> length bs = 4"
  "ltype field = PB_LTYPE_FIXED64 \<Longrightarrow> item_bytes env m msg field p = Some bs \<Longrightarrow> length bs = 8"
  by (auto simp: item_bytes_def)

context byte_sink
begin

lemma packed_size_correct:
  assumes msg: "\<And>fs src bs. msg fs src = Some bs \<Longrightarrow> length bs < 2 ^ 63 \<Longrightarrow> emits (\<lambda>s. enc s fs src) bs"
    and items: "packed_bytes (item_bytes env m msg field) (ucast (f_data_size field)) (unat count) pData = Some bs"
    and len: "length bs < 2 ^ 63"
  shows "packed_size (PB_ENCODERS env m enc (ltype field)) field pData count
    = Some (True, of_nat (length bs))"
proof (cases "ltype field = PB_LTYPE_FIXED32 \<or> ltype field = PB_LTYPE_FIXED64")
  case True
  then show ?thesis
  proof
    assume f: "ltype field = PB_LTYPE_FIXED32"
    with items have "length bs = unat count * 4"
      by (intro length_packed_bytes) (auto intro: length_item_fixed)
    with f show ?thesis by (simp add: packed_size_def mult.commute)
  next
    assume f: "ltype field = PB_LTYPE_FIXED64"
    with items have "length bs = unat count * 8"
      by (intro length_packed_bytes) (auto intro: length_item_fixed)
    with f show ?thesis by (simp add: packed_size_def mult.commute)
  qed
next
  case False
  have "emits (encode_packed_items (PB_ENCODERS env m enc (ltype field)) field (unat count) pData) bs"
    using items len by (rule emits_packed_items [rotated]) (auto intro: emits_item [OF msg])
  from emits_sizing [OF this, of PB_OSTREAM_SIZING] False show ?thesis
    unfolding packed_size_def by (simp add: PB_OSTREAM_SIZING_def advance_def)
qed

lemma emits_array:
  assumes msg: "\<And>fs src bs. msg fs src = Some bs \<Longrightarrow> length bs < 2 ^ 63 \<Longrightarrow> emits (\<lambda>s. enc s fs src) bs"
    and bytes: "array_bytes m (item_bytes env m msg field) field pData (unat count) = Some bs"
    and len: "length bs < 2 ^ 63"
  shows "emits (\<lambda>s. encode_array m s field pData count (PB_ENCODERS env m enc (ltype field))) bs"
proof (cases "count = 0")
  case True
  with bytes have "bs = []" by (simp add: array_bytes_def)
  with True show ?thesis by (simp add: encode_array_def emits_skip)
next
  case nz: False
  let ?func = "PB_ENCODERS env m enc (ltype field)"
  from bytes nz have max: "\<not> (atype field \<noteq> PB_ATYPE_POINTER \<and> count > ucast (f_array_size field))"
    by (auto simp: array_bytes_def unat_eq_0 word_less_nat_alt split: if_splits)
  show ?thesis
  proof (cases "ltype field \<le> PB_LTYPE_LAST_PACKABLE")
    case True
    with bytes nz max obtain b where b: "bs = tag_bytes PB_WT_STRING (f_tag field) @ delimited b"
      "packed_bytes (item_bytes env m msg field) (ucast (f_data_size field)) (unat count) pData = Some b"
      by (auto simp: array_bytes_def unat_eq_0 split: if_splits)
    with len have lb: "length b < 2 ^ 63"
      using length_delimited [of b] by simp
    have sz: "packed_size ?func field pData count = Some (True, of_nat (length b))"
      using b(2) lb by (rule packed_size_correct [rotated]) (rule msg)
    have "emits (encode_packed_items ?func field (unat count) pData) b"
      using b(2) lb by (rule emits_packed_items [rotated]) (auto intro: emits_item [OF msg])
    then have "emits (\<lambda>s. if os_sink s = None then pb_write s [] (of_nat (length b))
        else encode_packed_items ?func field (unat count) pData s) b"
      using lb by (intro emits_sized) simp_all
    then have "emits (\<lambda>s. and_then (pb_encode_tag s PB_WT_STRING (f_tag field)) (\<lambda>s.
        and_then (pb_encode_varint s (of_nat (length b))) (\<lambda>s.
          if os_sink s = None then pb_write s [] (of_nat (length b))
          else encode_packed_items ?func field (unat count) pData s))) bs"
      unfolding b(1) delimited_def by (intro emits_and_then emits_tag emits_varint)
    then show ?thesis
      by (rule emits_cong) (use nz max True in \<open>simp only: encode_array_def sz option.case prod.case bool.case if_False if_True\<close>)
  next
    case False
    with bytes nz max have
      "packed_bytes (\<lambda>p. tagged field (item_bytes env m msg field (if item_is_pointer field then load64 m p else p)))
        (ucast (f_data_size field)) (unat count) pData = Some bs"
      by (auto simp: array_bytes_def unat_eq_0 split: if_splits)
    then have "emits (encode_tagged_items m ?func field (unat count) pData) bs"
      using len by (rule emits_tagged_items [rotated]) (auto intro: emits_item [OF msg])
    then show ?thesis
      by (rule emits_cong) (use nz max False in \<open>simp only: encode_array_def if_False\<close>)
  qed
qed

lemma emits_present:
  assumes msg: "\<And>fs src bs. msg fs src = Some bs \<Longrightarrow> length bs < 2 ^ 63 \<Longrightarrow> emits (\<lambda>s. enc s fs src) bs"
    and "tagged field (item_bytes env m msg field src) = Some bs" "length bs < 2 ^ 63"
  shows "emits (\<lambda>s. and_then (pb_encode_tag_for_field s field)
    (\<lambda>s. call_encoder (PB_ENCODERS env m enc (ltype field)) s field src)) bs"
  using assms(2,3) by (rule emits_tagged) (auto intro: emits_item [OF msg])

text \<open>Each kind of field in turn; the presence test does not depend on the stream.\<close>

lemma emits_basic_field:
  assumes msg: "\<And>fs src bs. msg fs src = Some bs \<Longrightarrow> length bs < 2 ^ 63 \<Longrightarrow> emits (\<lambda>s. enc s fs src) bs"
    and bytes: "field_bytes n env m msg field pData = Some bs" and len: "length bs < 2 ^ 63"
    and alloc: "atype field \<noteq> PB_ATYPE_CALLBACK"
  shows "emits (\<lambda>s. encode_basic_field n env m enc s field pData) bs"
proof -
  let ?data = "if atype field = PB_ATYPE_POINTER then load64 m pData else pData"
  let ?info = "pData + scast (f_size_offset field)"
  let ?func = "PB_ENCODERS env m enc (ltype field)"
  let ?put = "\<lambda>s. and_then (pb_encode_tag_for_field s field) (\<lambda>s. call_encoder ?func s field ?data)"
  have put: "emits ?put bs" if "tagged field (item_bytes env m msg field ?data) = Some bs"
    using that len by (rule emits_present [rotated]) (rule msg)
  note spec = bytes [unfolded field_bytes_def Let_def] and code = encode_basic_field_def [unfolded Let_def]
  consider (required) "htype field = PB_HTYPE_REQUIRED" | (optional) "htype field = PB_HTYPE_OPTIONAL"
    | (repeated) "htype field = PB_HTYPE_REPEATED"
    | (oneof) "htype field \<noteq> PB_HTYPE_REQUIRED" "htype field \<noteq> PB_HTYPE_OPTIONAL" "htype field \<noteq> PB_HTYPE_REPEATED"
    by blast
  then show ?thesis
  proof cases
    case required
    with spec alloc have "?data \<noteq> NULL" "tagged field (item_bytes env m msg field ?data) = Some bs"
      by (auto split: if_splits)
    moreover from this(1) required have "encode_basic_field n env m enc s field pData = ?put s" for s
      unfolding code by simp
    ultimately show ?thesis
      using put by (auto intro: emits_cong)
  next
    case optional
    define present where "present = (if f_size_offset field \<noteq> 0 then Some (load_bool m ?info)
        else map_option (\<lambda>d. if atype field = PB_ATYPE_POINTER then ?data \<noteq> NULL else \<not> d)
          (pb_check_proto3_default_value (Suc n) env m field pData))"
    from optional spec alloc obtain b where b: "present = Some b"
      "(if b then tagged field (item_bytes env m msg field ?data) else Some []) = Some bs"
      unfolding present_def by (auto split: if_splits option.splits)
    have run: "encode_basic_field n env m enc s field pData = (if b then ?put s else Some (True, s))" for s
    proof (cases "f_size_offset field = 0")
      case True
      with b(1) obtain d where "pb_check_proto3_default_value (Suc n) env m field pData = Some d"
        "b = (if atype field = PB_ATYPE_POINTER then ?data \<noteq> NULL else \<not> d)"
        unfolding present_def by (cases "pb_check_proto3_default_value (Suc n) env m field pData") simp_all
      with True optional show ?thesis unfolding code by simp
    next
      case False
      with b(1) optional show ?thesis unfolding code present_def by simp
    qed
    show ?thesis
    proof (cases b)
      case True
      with b put run show ?thesis by (auto intro: emits_cong)
    next
      case False
      with b run show ?thesis by (simp add: emits_skip)
    qed
  next
    case repeated
    let ?count = "if f_size_offset field \<noteq> 0 then load32 m ?info else f_array_size field"
    from repeated spec alloc have "array_bytes m (item_bytes env m msg field) field ?data
        (unat (ucast ?count :: size_t)) = Some bs"
      by (auto split: if_splits)
    then have "emits (\<lambda>s. encode_array m s field ?data (ucast ?count) ?func) bs"
      using len by (rule emits_array [rotated]) (rule msg)
    moreover from repeated have "encode_basic_field n env m enc s field pData
        = encode_array m s field ?data (ucast ?count) ?func" for s
      unfolding code by simp
    ultimately show ?thesis
      by (rule emits_cong)
  next
    case oneof
    with spec alloc have so: "f_size_offset field \<noteq> 0"
      and sel: "(if load32 m ?info = f_tag field then tagged field (item_bytes env m msg field ?data)
        else Some []) = Some bs"
      by (auto split: if_splits)
    have run: "encode_basic_field n env m enc s field pData
        = (if load32 m ?info = f_tag field then ?put s else Some (True, s))" for s
      using so oneof unfolding code by simp
    show ?thesis
    proof (cases "load32 m ?info = f_tag field")
      case True
      with sel put run show ?thesis by (auto intro: emits_cong)
    next
      case False
      with sel run show ?thesis by (simp add: emits_skip)
    qed
  qed
qed

lemma emits_field:
  assumes msg: "\<And>fs src bs. msg fs src = Some bs \<Longrightarrow> length bs < 2 ^ 63 \<Longrightarrow> emits (\<lambda>s. enc s fs src) bs"
    and bytes: "field_bytes n env m msg field pData = Some bs" and len: "length bs < 2 ^ 63"
  shows "emits (\<lambda>s. encode_field n env m enc s field pData) bs"
proof (cases "atype field = PB_ATYPE_CALLBACK")
  case True
  with bytes have "callback_func m pData = NULL" "bs = []"
    by (auto simp: field_bytes_def split: if_splits)
  with True show ?thesis
    by (simp add: encode_field_def encode_callback_field_def emits_skip)
next
  case False
  with bytes have "atype field = PB_ATYPE_STATIC \<or> atype field = PB_ATYPE_POINTER"
    by (auto simp: field_bytes_def Let_def split: if_splits)
  moreover have "emits (\<lambda>s. encode_basic_field n env m enc s field pData) bs"
    using bytes len False by (rule emits_basic_field [rotated]) (rule msg)
  ultimately show ?thesis
    by (simp add: encode_field_def)
qed

lemma emits_extension_none:
  "load64 m pData = NULL \<Longrightarrow> emits (\<lambda>s. encode_extension_field n env m enc s field pData) []"
  by (cases n) (simp_all add: encode_extension_field_def emits_skip)

lemma emits_run_fields:
  "those (map spec is) = Some bss \<Longrightarrow> length (concat bss) < 2 ^ 63 \<Longrightarrow>
   (\<And>i bs. i \<in> set is \<Longrightarrow> spec i = Some bs \<Longrightarrow> length bs < 2 ^ 63 \<Longrightarrow> emits (f i) bs) \<Longrightarrow>
   emits (run_fields f is) (concat bss)"
proof (induction "is" arbitrary: bss)
  case Nil
  then show ?case by (simp add: emits_skip)
next
  case (Cons i "is")
  from Cons.prems(1) obtain b rest where b: "spec i = Some b" "those (map spec is) = Some rest"
    "bss = b # rest"
    by (auto split: option.splits)
  with Cons have "emits (f i) b" "emits (run_fields f is) (concat rest)"
    by auto
  then have "emits (\<lambda>s. and_then (f i s) (run_fields f is)) (b @ concat rest)"
    by (rule emits_and_then)
  then have "emits (run_fields f (i # is)) (b @ concat rest)"
    by (rule emits_cong) (simp add: and_then_def split: option.split prod.split bool.split)
  with b(3) show ?case by (simp only: concat.simps)
qed

lemma emits_pb_encode:
  "msg_bytes n env m fs src = Some bs \<Longrightarrow> length bs < 2 ^ 63 \<Longrightarrow>
   emits (\<lambda>s. pb_encode n env m s fs src) bs"
proof (induction n arbitrary: fs src bs)
  case (Suc n)
  let ?spec = "\<lambda>i. if ltype (field_at fs i) = PB_LTYPE_EXTENSION
       then if load64 m (src + data_off fs i) = NULL then Some [] else None
       else field_bytes n env m (msg_bytes n env m) (field_at fs i) (src + data_off fs i)"
  let ?body = "\<lambda>it stream. if ltype (it_field it) = PB_LTYPE_EXTENSION
       then encode_extension_field n env m (pb_encode n env m) stream (it_field it) (it_pData it)
       else encode_field n env m (pb_encode n env m) stream (it_field it) (it_pData it)"
  from Suc.prems(1) obtain bss where bss: "those (map ?spec [0..<nfields fs]) = Some bss" "bs = concat bss"
    by auto
  have step: "emits (?body (iter_nth fs src i)) b" if "?spec i = Some b" "length b < 2 ^ 63" for i b
  proof (cases "ltype (field_at fs i) = PB_LTYPE_EXTENSION")
    case True
    with that show ?thesis by (auto intro: emits_extension_none split: if_splits)
  next
    case False
    then have "emits (\<lambda>s. encode_field n env m (pb_encode n env m) s (field_at fs i) (src + data_off fs i)) b"
      using that by (intro emits_field [of "msg_bytes n env m"] Suc.IH) simp_all
    with False show ?thesis by simp
  qed
  have "emits (run_fields (\<lambda>i. ?body (iter_nth fs src i)) [0..<nfields fs]) (concat bss)"
    using bss Suc.prems(2) by (intro emits_run_fields [OF bss(1)] step) auto
  moreover have "pb_encode (Suc n) env m s fs src
      = run_fields (\<lambda>i. ?body (iter_nth fs src i)) [0..<nfields fs] s" for s
    by (cases "nfields fs = 0") (simp_all add: iter_begin iter_loop_all)
  ultimately show ?case
    using bss(2) by (auto intro: emits_cong)
qed simp

lemma emits_pb_encode_delimited:
  "msg_bytes n env m fs src = Some bs \<Longrightarrow> length bs < 2 ^ 63 \<Longrightarrow>
   emits (\<lambda>s. pb_encode_delimited n env m s fs src) (delimited bs)"
  unfolding pb_encode_delimited_def by (intro emits_submessage emits_pb_encode)

lemma emits_pb_encode_nullterminated:
  "msg_bytes n env m fs src = Some bs \<Longrightarrow> length bs < 2 ^ 63 \<Longrightarrow>
   emits (\<lambda>s. pb_encode_nullterminated n env m s fs src) (bs @ [0])"
  unfolding pb_encode_nullterminated_def by (intro emits_and_then emits_pb_encode emits_write) simp_all

end

section \<open>The memory buffer is a byte sink\<close>

text \<open>A buffer that started as \<open>buf0\<close>, has been filled up to \<^verbatim>\<open>stream->state\<close> and is untouched from
  there on.\<close>

definition buf_content :: "pb_obuf \<Rightarrow> byte list" where
  "buf_content st = take (ob_pos st) (ob_data st)"

definition buf_room :: "byte list \<Rightarrow> pb_obuf \<Rightarrow> nat \<Rightarrow> bool" where
  "buf_room buf0 st n \<longleftrightarrow> length (ob_data st) = length buf0 \<and> ob_pos st + n \<le> length buf0
     \<and> drop (ob_pos st) (ob_data st) = drop (ob_pos st) buf0"

lemma copy_bytes_fits:
  "i + length bs \<le> length dest \<Longrightarrow>
   copy_bytes dest i bs = Some (take i dest @ bs @ drop (i + length bs) dest)"
proof (induction bs arbitrary: dest i)
  case (Cons b bs)
  then have "copy_bytes dest i (b # bs)
      = Some (take (Suc i) (dest[i := b]) @ bs @ drop (Suc i + length bs) (dest[i := b]))"
    by simp
  also have "take (Suc i) (dest[i := b]) = take i dest @ [b]"
    using Cons.prems by (simp add: take_Suc_conv_app_nth)
  finally show ?case by simp
qed simp

lemma copy_bytes_overflow: "i \<le> length dest \<Longrightarrow> length dest < i + length bs \<Longrightarrow> copy_bytes dest i bs = None"
  by (induction bs arbitrary: dest i) auto

interpretation buf: byte_sink buf_write buf_content "buf_room buf0" for buf0
proof
  fix st :: pb_obuf and n and bs :: "byte list"
  assume r: "buf_room buf0 st n" and len: "length bs \<le> n"
  let ?d = "take (ob_pos st) (ob_data st) @ bs @ drop (ob_pos st + length bs) (ob_data st)"
  let ?st = "\<lparr>ob_data = ?d, ob_pos = ob_pos st + length bs\<rparr>"
  have "drop (ob_pos st + length bs) (ob_data st) = drop (length bs) (drop (ob_pos st) (ob_data st))"
    by (simp add: add.commute)
  also have "\<dots> = drop (ob_pos st + length bs) buf0"
    using r by (simp add: buf_room_def add.commute)
  finally have "buf_room buf0 ?st (n - length bs)"
    using r len by (simp add: buf_room_def)
  moreover have "buf_content ?st = buf_content st @ bs"
    using r len by (simp add: buf_room_def buf_content_def)
  moreover have "buf_write st bs = Some (True, ?st)"
    using r len by (simp add: buf_write_def copy_bytes_fits buf_room_def)
  ultimately show "\<exists>st'. buf_write st bs = Some (True, st') \<and> buf_content st' = buf_content st @ bs
      \<and> buf_room buf0 st' (n - length bs)"
    by blast
qed

text \<open>What the contract says about a fresh buffer.\<close>

lemma buf_room_content:
  assumes "buf_room buf0 st n" "buf_content st = bs"
  shows "st = \<lparr>ob_data = bs @ drop (length bs) buf0, ob_pos = length bs\<rparr>"
proof -
  have "length bs = ob_pos st"
    using assms by (auto simp: buf_room_def buf_content_def)
  moreover from this assms have "ob_data st = bs @ drop (length bs) buf0"
    using append_take_drop_id [of "ob_pos st" "ob_data st"] by (simp add: buf_room_def buf_content_def)
  ultimately show ?thesis by simp
qed

lemma buffer_ready:
  assumes "length buf + k < 2 ^ 64"
  shows "buf.ready buf (pb_ostream_from_buffer buf (of_nat (length buf)))
    \<lparr>ob_data = buf, ob_pos = 0\<rparr> (length buf) k"
proof -
  have "unat (of_nat (length buf) :: 64 word) = length buf"
    using assms by (intro unat_of_nat_small) simp
  with assms show ?thesis
    by (simp add: buf.ready_def pb_ostream_from_buffer_def buf_room_def)
qed

text \<open>An operation that emits \<open>bs\<close>, run on a fresh memory buffer.\<close>

definition buffer_result :: "byte list \<Rightarrow> byte list \<Rightarrow> (bool \<times> pb_obuf pb_ostream_t) option \<Rightarrow> bool" where
  "buffer_result buf bs r \<longleftrightarrow>
     (if length bs \<le> length buf
      then r = Some (True, \<lparr>os_sink = Some (buf_write,
                 \<lparr>ob_data = bs @ drop (length bs) buf, ob_pos = length bs\<rparr>),
               os_max_size = of_nat (length buf), os_bytes_written = of_nat (length bs), os_errmsg = None\<rparr>)
      else \<exists>s k. r = Some (False, s) \<and> os_errmsg s = Some ''stream full'' \<and> k \<le> length buf
             \<and> os_sink s = Some (buf_write, \<lparr>ob_data = take k bs @ drop k buf, ob_pos = k\<rparr>))"

lemma emits_buffer:
  assumes f: "buf.emits buf f bs" and len: "length buf + length bs < 2 ^ 64"
  shows "buffer_result buf bs (f (pb_ostream_from_buffer buf (of_nat (length buf))))"
proof (cases "length bs \<le> length buf")
  case fit: True
  let ?s = "pb_ostream_from_buffer buf (of_nat (length buf))"
  have sz: "unat (of_nat (length buf) :: 64 word) = length buf"
    using len by (intro unat_of_nat_small) simp
  have "buf.fits ?s (length bs)"
    using fit sz by (simp add: buf.fits_def pb_ostream_from_buffer_def)
  with f buffer_ready [OF len] obtain st' where
    st': "buf.wrote buf \<lparr>ob_data = buf, ob_pos = 0\<rparr> (length buf) bs st'"
    "f ?s = Some (True, (buf.advance ?s (length bs))\<lparr>os_sink := Some (buf_write, st')\<rparr>)"
    by (rule buf.emits_fits)
  from st'(1) have "st' = \<lparr>ob_data = bs @ drop (length bs) buf, ob_pos = length bs\<rparr>"
    by (intro buf_room_content) (auto simp: buf.wrote_def buf_content_def)
  with st'(2) fit show ?thesis
    by (simp add: buffer_result_def buf.advance_def pb_ostream_from_buffer_def)
next
  case nofit: False
  let ?s = "pb_ostream_from_buffer buf (of_nat (length buf))"
  have sz: "unat (of_nat (length buf) :: 64 word) = length buf"
    using len by (intro unat_of_nat_small) simp
  have "\<not> buf.fits ?s (length bs)"
    using nofit sz by (simp add: buf.fits_def pb_ostream_from_buffer_def)
  with f buffer_ready [OF len] obtain st' s' k where
    st': "buf.wrote buf \<lparr>ob_data = buf, ob_pos = 0\<rparr> (length buf) (take k bs) st'"
    and s': "os_sink s' = Some (buf_write, st')" "os_errmsg s' = Some ''stream full''" "f ?s = Some (False, s')"
    by (rule buf.emits_full)
  have "st' = \<lparr>ob_data = take k bs @ drop (length (take k bs)) buf, ob_pos = length (take k bs)\<rparr>"
    using st' by (intro buf_room_content) (auto simp: buf.wrote_def buf_content_def)
  moreover have "length (take k bs) \<le> length buf"
    using st' by (simp add: buf.wrote_def)
  moreover have "take k bs = take (length (take k bs)) bs"
    by (simp add: min_def)
  ultimately show ?thesis
    using s' nofit by (auto simp: buffer_result_def intro!: exI [of _ "length (take k bs)"])
qed

end
