(* ===== verification/Pb_Encode_Props.thy ===== *)
theory Pb_Encode_Props
  imports Pb_Encode_Correct
begin

text \<open>
  The guarantees of the encoder for its callers, read off the refinement of the wire format at the
  memory buffer and at the sizing stream, and its behaviour on errors. The examples at the start
  are a message with a required \<^verbatim>\<open>int32\<close>, an optional \<^verbatim>\<open>string\<close> and a nested copy of
  itself; they instantiate the hypotheses of the properties.
\<close>

section \<open>An example message\<close>

definition ex_fields :: "pb_field_t list" where
  "ex_fields =
     [PB_FIELD 1 T_INT32 REQUIRED STATIC FIRST
        \<lparr>mb_offset = 0, mb_size = 4, mb_elem_size = 4, mb_info_offset = 0\<rparr>
        \<lparr>mb_offset = 0, mb_size = 4, mb_elem_size = 4, mb_info_offset = 0\<rparr> 0,
      PB_FIELD 2 T_STRING OPTIONAL STATIC OTHER
        \<lparr>mb_offset = 5, mb_size = 4, mb_elem_size = 1, mb_info_offset = 4\<rparr>
        \<lparr>mb_offset = 0, mb_size = 4, mb_elem_size = 4, mb_info_offset = 0\<rparr> 0,
      PB_FIELD 3 T_MESSAGE OPTIONAL POINTER OTHER
        \<lparr>mb_offset = 16, mb_size = 8, mb_elem_size = 24, mb_info_offset = 0\<rparr>
        \<lparr>mb_offset = 5, mb_size = 4, mb_elem_size = 1, mb_info_offset = 4\<rparr> 1]"

definition ex_env :: "'s pb_enc_env" where
  "ex_env = \<lparr>ee_fields_at = (\<lambda>p. if p = 1 then ex_fields else []),
     ee_ext_type_at = (\<lambda>_. \<lparr>et_decode = 0, et_encode = 0, et_arg = PB_LAST_FIELD\<rparr>),
     ee_callback = (\<lambda>_ _ _ _ _. None), ee_ext_callback = (\<lambda>_ _ _ _. None)\<rparr>"

text \<open>The message \<open>{1: 150, 2: "hi", 3: {1: 7}}\<close> at address 100, its sub-message at address 200.\<close>

definition ex_mem :: mem where
  "ex_mem a = (if a = 100 then 150 else if a = 104 then 1 else if a = 105 then 0x68 else if a = 106 then 0x69
     else if a = 116 then 200 else if a = 200 then 7 else 0)"

definition ex_bytes :: "byte list" where
  "ex_bytes = [0x08, 0x96, 0x01, 0x12, 0x02, 0x68, 0x69, 0x1A, 0x02, 0x08, 0x07]"

lemma ex_msg_bytes: "msg_bytes 2 (ex_env :: 's pb_enc_env) ex_mem ex_fields 100 = Some ex_bytes"
  by code_simp

section \<open>Whole messages\<close>

text \<open>C3: a message that has an encoding is written to a memory buffer exactly as the wire format
  says when it fits, leaving the rest of the buffer as it was; otherwise \<^verbatim>\<open>pb_encode\<close> fails with
  \<^verbatim>\<open>stream full\<close> after a prefix of the encoding, and never writes past the end of the buffer.\<close>

theorem pb_encode_to_buffer:
  assumes "msg_bytes n env m fs src = Some bs" and "length bs < 2 ^ 63" and "length buf < 2 ^ 63"
  shows "buffer_result buf bs (pb_encode n env m (pb_ostream_from_buffer buf (of_nat (length buf))) fs src)"
  using assms by (intro emits_buffer [of buf "\<lambda>s. pb_encode n env m s fs src"] buf.emits_pb_encode) simp_all

theorem pb_encode_to_buffer_witness:
  "buffer_result (replicate 11 0) ex_bytes
     (pb_encode 2 ex_env ex_mem (pb_ostream_from_buffer (replicate 11 0) 11) ex_fields 100)"
  using pb_encode_to_buffer [OF ex_msg_bytes, of "replicate 11 0"] by (simp add: ex_bytes_def)

text \<open>\<^verbatim>\<open>pb_get_encoded_size\<close> returns the length of the encoding.\<close>

theorem pb_get_encoded_size_correct:
  assumes "msg_bytes n (env :: pb_obuf pb_enc_env) m fs src = Some bs" and "length bs < 2 ^ 63"
  shows "pb_get_encoded_size n env m fs src = Some (Some (of_nat (length bs)))"
proof -
  have "pb_encode n env m PB_OSTREAM_SIZING fs src
      = Some (True, buf.advance PB_OSTREAM_SIZING (length bs))"
    using assms by (intro buf.emits_sizing [OF buf.emits_pb_encode]) (simp_all add: PB_OSTREAM_SIZING_def)
  then show ?thesis
    by (simp add: pb_get_encoded_size_def buf.advance_def PB_OSTREAM_SIZING_def)
qed

theorem pb_get_encoded_size_witness:
  "pb_get_encoded_size 2 (ex_env :: pb_obuf pb_enc_env) ex_mem ex_fields 100 = Some (Some 11)"
  using pb_get_encoded_size_correct [OF ex_msg_bytes] by (simp add: ex_bytes_def)

text \<open>C34: \<^verbatim>\<open>pb_encode_delimited\<close> writes the length of the encoding as a varint and then the encoding;
  the check that the second pass produced as many bytes as the first never fires.\<close>

theorem pb_encode_delimited_to_buffer:
  assumes "msg_bytes n env m fs src = Some bs" and "length bs < 2 ^ 62" and "length buf < 2 ^ 63"
  shows "buffer_result buf (delimited bs)
    (pb_encode_delimited n env m (pb_ostream_from_buffer buf (of_nat (length buf))) fs src)"
proof -
  have "length (delimited bs) \<le> length bs + 10"
    using length_varint_bytes by (simp add: delimited_def)
  then show ?thesis
    using assms by (intro emits_buffer [of buf "\<lambda>s. pb_encode_delimited n env m s fs src"]
        buf.emits_pb_encode_delimited) simp_all
qed

theorem pb_encode_delimited_witness:
  "buffer_result (replicate 12 0) (delimited ex_bytes)
     (pb_encode_delimited 2 ex_env ex_mem (pb_ostream_from_buffer (replicate 12 0) 12) ex_fields 100)"
  using pb_encode_delimited_to_buffer [OF ex_msg_bytes, of "replicate 12 0"] by (simp add: ex_bytes_def)

text \<open>\<^verbatim>\<open>pb_encode_nullterminated\<close> writes the encoding and a zero byte.\<close>

theorem pb_encode_nullterminated_to_buffer:
  assumes "msg_bytes n env m fs src = Some bs" and "length bs < 2 ^ 63" and "length buf < 2 ^ 63"
  shows "buffer_result buf (bs @ [0])
    (pb_encode_nullterminated n env m (pb_ostream_from_buffer buf (of_nat (length buf))) fs src)"
  using assms by (intro emits_buffer [of buf "\<lambda>s. pb_encode_nullterminated n env m s fs src"]
      buf.emits_pb_encode_nullterminated) simp_all

theorem pb_encode_nullterminated_witness:
  "buffer_result (replicate 12 0) (ex_bytes @ [0])
     (pb_encode_nullterminated 2 ex_env ex_mem (pb_ostream_from_buffer (replicate 12 0) 12) ex_fields 100)"
  using pb_encode_nullterminated_to_buffer [OF ex_msg_bytes, of "replicate 12 0"] by (simp add: ex_bytes_def)

end
