(* ===== verification/Pb_Istream.thy ===== *)
theory Pb_Istream
  imports Pb_Header
begin

text \<open>
  Input streams and the decoding of numbers, tags and raw fields, from
  \<^verbatim>\<open>src/ios/Pods/nanopb/pb_decode.c\<close> (the functions up to \<^verbatim>\<open>pb_close_string_substream\<close>, and
  \<^verbatim>\<open>pb_decode_svarint\<close>) and \<^verbatim>\<open>pb_decode.h\<close>.

  A function with an out-parameter returns the value it stores there: \<open>Some (Some v, s)\<close> when the C
  function returns true with \<open>v\<close>, \<open>Some (None, s)\<close> when it returns false, and \<^const>\<open>None\<close> where the
  C code would read outside the input buffer. The counters \<^verbatim>\<open>bitpos\<close> keep their eight bits
  (\<^verbatim>\<open>uint_fast8_t\<close> is \<^verbatim>\<open>uint8_t\<close> on the targets of the pod).
\<close>

section \<open>Streams\<close>

text \<open>
  The callback of a stream and its state. The built-in callback \<^verbatim>\<open>buf_read\<close> reads from memory; its
  state is what is left of the buffer. A user callback takes the number of bytes wanted and returns
  its success, the bytes it stored and its new state.
\<close>

datatype 's pb_source =
    Buf "byte list"
  | User "'s \<Rightarrow> size_t \<Rightarrow> (bool \<times> byte list \<times> 's) option" 's

record 's pb_istream_t =
  is_source :: "'s pb_source"
  is_bytes_left :: size_t
  is_errmsg :: "string option"

definition is_fail :: "'s pb_istream_t \<Rightarrow> string \<Rightarrow> 's pb_istream_t" where
  "is_fail stream msg = stream\<lparr>is_errmsg := PB_SET_ERROR (is_errmsg stream) msg\<rparr>"

definition is_error :: "'s pb_istream_t \<Rightarrow> string \<Rightarrow> ('v option \<times> 's pb_istream_t) option" where
  "is_error stream msg = Some (None, is_fail stream msg)"

text \<open>\<^verbatim>\<open>if (!f(stream, &v)) return false;\<close> followed by the rest.\<close>

definition rd_then :: "('v option \<times> 's) option \<Rightarrow> ('v \<Rightarrow> 's \<Rightarrow> ('w option \<times> 's) option)
    \<Rightarrow> ('w option \<times> 's) option" where
  "rd_then r k = (case r of
      None \<Rightarrow> None
    | Some (None, s) \<Rightarrow> Some (None, s)
    | Some (Some v, s) \<Rightarrow> k v s)"

lemma rd_then_simps [simp]:
  "rd_then None k = None"
  "rd_then (Some (None, s)) k = Some (None, s)"
  "rd_then (Some (Some v, s)) k = k v s"
  by (simp_all add: rd_then_def)

lemma rd_then_cong [fundef_cong]:
  "r = r' \<Longrightarrow> (\<And>v s. r' = Some (Some v, s) \<Longrightarrow> k v s = k' v s) \<Longrightarrow> rd_then r k = rd_then r' k'"
  by (auto simp: rd_then_def split: option.splits)

lemma rd_then_eq_Some:
  "rd_then r k = Some (Some v, t) \<longleftrightarrow> (\<exists>u s. r = Some (Some u, s) \<and> k u s = Some (Some v, t))"
  by (auto simp: rd_then_def split: option.splits prod.splits)

text \<open>The call \<^verbatim>\<open>stream->callback(stream, buf, count)\<close>. A user callback that reports success without
  having stored the bytes, or stores more than there is room for, breaks its contract.\<close>

definition call_source :: "'s pb_source \<Rightarrow> size_t \<Rightarrow> (bool \<times> byte list \<times> 's pb_source) option" where
  "call_source src count =
     (case src of
        Buf bs \<Rightarrow> if length bs < unat count then None
                  else Some (True, take (unat count) bs, Buf (drop (unat count) bs))
      | User cb st \<Rightarrow>
          (case cb st count of
             None \<Rightarrow> None
           | Some (ok, bs, st') \<Rightarrow>
               if length bs > unat count \<or> ok \<and> length bs \<noteq> unat count then None
               else Some (ok, bs, User cb st')))"

text \<open>\<^verbatim>\<open>pb_read\<close> past the special case for skipping.\<close>

definition read_chunk :: "'s pb_istream_t \<Rightarrow> size_t \<Rightarrow> (bool \<times> byte list \<times> 's pb_istream_t) option" where
  "read_chunk stream count =
     (if is_bytes_left stream < count then Some (False, [], is_fail stream ''end-of-stream'')
      else case call_source (is_source stream) count of
          None \<Rightarrow> None
        | Some (ok, bs, src) \<Rightarrow>
            let stream = stream\<lparr>is_source := src\<rparr> in
            if \<not> ok then Some (False, bs, is_fail stream ''io error'')
            else Some (True, bs, stream\<lparr>is_bytes_left := is_bytes_left stream - count\<rparr>))"

text \<open>Skipping on a user stream: chunks of at most 16 bytes through \<^verbatim>\<open>tmp\<close>.\<close>

function skip_chunks :: "'s pb_istream_t \<Rightarrow> size_t \<Rightarrow> (bool \<times> byte list \<times> 's pb_istream_t) option" where
  "skip_chunks stream count =
     (if count > 16
      then case read_chunk stream 16 of
          None \<Rightarrow> None
        | Some (False, bs, stream) \<Rightarrow> Some (False, bs, stream)
        | Some (True, bs, stream) \<Rightarrow> skip_chunks stream (count - 16)
      else read_chunk stream count)"
  by pat_completeness auto
termination
proof (relation "measure (\<lambda>(stream, count). unat count)", goal_cases)
  case (2 stream count x a b ba)
  then have "16 < unat count" by (simp add: word_less_nat_alt)
  moreover from 2 have "unat (count - 16) = unat count - 16"
    by (subst unat_sub) (auto simp: word_le_nat_alt word_less_nat_alt)
  ultimately show ?case by simp
qed simp

declare skip_chunks.simps [simp del]

text \<open>\<open>skip\<close> is \<^verbatim>\<open>buf == NULL\<close>.\<close>

definition pb_read :: "'s pb_istream_t \<Rightarrow> bool \<Rightarrow> size_t \<Rightarrow> (bool \<times> byte list \<times> 's pb_istream_t) option" where
  "pb_read stream skip count =
     (case is_source stream of
        User cb st \<Rightarrow> if skip then skip_chunks stream count else read_chunk stream count
      | Buf bs \<Rightarrow> read_chunk stream count)"

text \<open>A read whose bytes are not wanted, and one into a local array.\<close>

definition pb_skip :: "'s pb_istream_t \<Rightarrow> size_t \<Rightarrow> (unit option \<times> 's pb_istream_t) option" where
  "pb_skip stream count =
     (case pb_read stream True count of
        None \<Rightarrow> None
      | Some (ok, bs, stream) \<Rightarrow> Some (if ok then Some () else None, stream))"

definition pb_read_bytes :: "'s pb_istream_t \<Rightarrow> size_t \<Rightarrow> (byte list option \<times> 's pb_istream_t) option" where
  "pb_read_bytes stream count =
     (case pb_read stream False count of
        None \<Rightarrow> None
      | Some (ok, bs, stream) \<Rightarrow> Some (if ok then Some bs else None, stream))"

definition pb_readbyte :: "'s pb_istream_t \<Rightarrow> (byte option \<times> 's pb_istream_t) option" where
  "pb_readbyte stream =
     (if is_bytes_left stream = 0 then is_error stream ''end-of-stream''
      else case call_source (is_source stream) 1 of
          None \<Rightarrow> None
        | Some (ok, bs, src) \<Rightarrow>
            let stream = stream\<lparr>is_source := src\<rparr> in
            if \<not> ok then is_error stream ''io error''
            else Some (Some (hd bs), stream\<lparr>is_bytes_left := is_bytes_left stream - 1\<rparr>))"

definition pb_istream_from_buffer :: "byte list \<Rightarrow> size_t \<Rightarrow> 's pb_istream_t" where
  "pb_istream_from_buffer buf bufsize =
     \<lparr>is_source = Buf buf, is_bytes_left = bufsize, is_errmsg = None\<rparr>"

lemma unat_minus_one_less: "(x :: 64 word) \<noteq> 0 \<Longrightarrow> unat (x - 1) < unat x"
  by (simp add: unat_minus_one unat_gt_0)

lemma readbyte_decreases:
  "pb_readbyte s = Some (Some b, s') \<Longrightarrow> unat (is_bytes_left s') < unat (is_bytes_left s)"
  by (auto simp: pb_readbyte_def is_error_def Let_def unat_minus_one_less
      split: if_splits option.splits)

lemma read_bytes_decreases:
  "pb_read_bytes s count = Some (Some bs, s') \<Longrightarrow> count \<noteq> 0 \<Longrightarrow>
   unat (is_bytes_left s') < unat (is_bytes_left s)"
proof -
  assume r: "pb_read_bytes s count = Some (Some bs, s')" and nz: "count \<noteq> 0"
  then have "\<not> is_bytes_left s < count" "is_bytes_left s' = is_bytes_left s - count"
    by (auto simp: pb_read_bytes_def pb_read_def read_chunk_def Let_def
        split: if_splits option.splits pb_source.splits)
  moreover from nz have "0 < unat count" by (simp add: unat_gt_0)
  ultimately show ?thesis
    by (simp add: unat_sub word_le_nat_alt word_less_nat_alt)
qed

section \<open>Varints\<close>

text \<open>The do-while loop of \<^verbatim>\<open>pb_decode_varint32_eof\<close>, with the final \<^verbatim>\<open>bitpos\<close>, \<^verbatim>\<open>byte\<close> and
  \<^verbatim>\<open>result\<close>.\<close>

function varint32_loop :: "'s pb_istream_t \<Rightarrow> 8 word \<Rightarrow> u32
    \<Rightarrow> ((8 word \<times> byte \<times> u32) option \<times> 's pb_istream_t) option" where
  "varint32_loop stream bitpos result =
     rd_then (pb_readbyte stream) (\<lambda>b stream.
       let sign_extension = (if bitpos < 63 then 0xFF else 0x01 :: byte) in
       if bitpos \<ge> 32 \<and> b AND 0x7F \<noteq> 0 \<and> (drop_bit 31 result = 0 \<or> b \<noteq> sign_extension)
       then is_error stream ''varint overflow''
       else
         let result = (if bitpos \<ge> 32 then result
                       else result OR push_bit (unat bitpos) (ucast (b AND 0x7F)));
             bitpos = bitpos + 7
         in if b AND 0x80 \<noteq> 0 then varint32_loop stream bitpos result
            else Some (Some (bitpos, b, result), stream))"
  by pat_completeness auto
termination
  by (relation "measure (\<lambda>(stream, bitpos, result). unat (is_bytes_left stream))")
    (auto dest: readbyte_decreases)

declare varint32_loop.simps [simp del]

text \<open>The outcome of \<^verbatim>\<open>pb_decode_varint32_eof\<close>: \<open>Inl eof\<close> is a return of false with what is stored
  to \<^verbatim>\<open>*eof\<close>, if anything is.\<close>

definition pb_decode_varint32_eof :: "'s pb_istream_t \<Rightarrow> ((bool + u32) \<times> 's pb_istream_t) option" where
  "pb_decode_varint32_eof stream =
     (case pb_readbyte stream of
        None \<Rightarrow> None
      | Some (None, stream) \<Rightarrow> Some (Inl (is_bytes_left stream = 0), stream)
      | Some (Some b, stream) \<Rightarrow>
          if b AND 0x80 = 0 then Some (Inr (ucast b), stream)
          else (case varint32_loop stream 7 (ucast (b AND 0x7F)) of
              None \<Rightarrow> None
            | Some (None, stream) \<Rightarrow> Some (Inl False, stream)
            | Some (Some (bitpos, b, result), stream) \<Rightarrow>
                if bitpos = 35 \<and> b AND 0x70 \<noteq> 0
                then Some (Inl False, is_fail stream ''varint overflow'')
                else Some (Inr result, stream)))"

definition pb_decode_varint32 :: "'s pb_istream_t \<Rightarrow> (u32 option \<times> 's pb_istream_t) option" where
  "pb_decode_varint32 stream =
     (case pb_decode_varint32_eof stream of
        None \<Rightarrow> None
      | Some (Inl _, stream) \<Rightarrow> Some (None, stream)
      | Some (Inr v, stream) \<Rightarrow> Some (Some v, stream))"

function varint_decode_loop :: "'s pb_istream_t \<Rightarrow> 8 word \<Rightarrow> u64 \<Rightarrow> (u64 option \<times> 's pb_istream_t) option" where
  "varint_decode_loop stream bitpos result =
     (if bitpos \<ge> 64 then is_error stream ''varint overflow''
      else rd_then (pb_readbyte stream) (\<lambda>b stream.
        let result = result OR push_bit (unat bitpos) (ucast (b AND 0x7F)); bitpos = bitpos + 7 in
        if b AND 0x80 \<noteq> 0 then varint_decode_loop stream bitpos result
        else Some (Some result, stream)))"
  by pat_completeness auto
termination
  by (relation "measure (\<lambda>(stream, bitpos, result). unat (is_bytes_left stream))")
    (auto dest: readbyte_decreases)

declare varint_decode_loop.simps [simp del]

definition pb_decode_varint :: "'s pb_istream_t \<Rightarrow> (u64 option \<times> 's pb_istream_t) option" where
  "pb_decode_varint stream = varint_decode_loop stream 0 0"

definition pb_decode_svarint :: "'s pb_istream_t \<Rightarrow> (u64 option \<times> 's pb_istream_t) option" where
  "pb_decode_svarint stream =
     rd_then (pb_decode_varint stream) (\<lambda>value stream.
       Some (Some (if value AND 1 \<noteq> 0 then NOT (drop_bit 1 value) else drop_bit 1 value), stream))"

section \<open>Skipping, tags and substreams\<close>

function pb_skip_varint :: "'s pb_istream_t \<Rightarrow> (unit option \<times> 's pb_istream_t) option" where
  "pb_skip_varint stream =
     rd_then (pb_read_bytes stream 1) (\<lambda>bs stream.
       if hd bs AND 0x80 \<noteq> 0 then pb_skip_varint stream else Some (Some (), stream))"
  by pat_completeness auto
termination
  by (relation "measure (\<lambda>stream. unat (is_bytes_left stream))") (auto dest: read_bytes_decreases)

declare pb_skip_varint.simps [simp del]

definition pb_skip_string :: "'s pb_istream_t \<Rightarrow> (unit option \<times> 's pb_istream_t) option" where
  "pb_skip_string stream =
     rd_then (pb_decode_varint32 stream) (\<lambda>len stream. pb_skip stream (ucast len))"

text \<open>\<^verbatim>\<open>pb_decode_tag\<close>: \<open>Inr (wire_type, tag)\<close> on success, \<open>Inl eof\<close> otherwise.\<close>

definition pb_decode_tag :: "'s pb_istream_t \<Rightarrow> ((bool + pb_wire_type_t \<times> u32) \<times> 's pb_istream_t) option" where
  "pb_decode_tag stream =
     (case pb_decode_varint32_eof stream of
        None \<Rightarrow> None
      | Some (Inl eof, stream) \<Rightarrow> Some (Inl eof, stream)
      | Some (Inr temp, stream) \<Rightarrow>
          if temp = 0 then Some (Inl True, stream)
          else Some (Inr (temp AND 7, drop_bit 3 temp), stream))"

definition pb_skip_field :: "'s pb_istream_t \<Rightarrow> pb_wire_type_t \<Rightarrow> (unit option \<times> 's pb_istream_t) option" where
  "pb_skip_field stream wire_type =
     (if wire_type = PB_WT_VARINT then pb_skip_varint stream
      else if wire_type = PB_WT_64BIT then pb_skip stream 8
      else if wire_type = PB_WT_STRING then pb_skip_string stream
      else if wire_type = PB_WT_32BIT then pb_skip stream 4
      else is_error stream ''invalid wire_type'')"

text \<open>The varint case of \<^verbatim>\<open>read_raw_value\<close>: at most \<open>room\<close> bytes, appended to \<open>buf\<close>.\<close>

fun raw_varint :: "nat \<Rightarrow> byte list \<Rightarrow> 's pb_istream_t \<Rightarrow> (byte list option \<times> 's pb_istream_t) option" where
  "raw_varint 0 buf stream = Some (None, stream)"
| "raw_varint (Suc room) buf stream =
     rd_then (pb_read_bytes stream 1) (\<lambda>bs stream.
       if hd bs AND 0x80 \<noteq> 0 then raw_varint room (buf @ bs) stream
       else Some (Some (buf @ bs), stream))"

definition read_raw_value :: "'s pb_istream_t \<Rightarrow> pb_wire_type_t \<Rightarrow> nat \<Rightarrow> (byte list option \<times> 's pb_istream_t) option" where
  "read_raw_value stream wire_type max_size =
     (if wire_type = PB_WT_VARINT then raw_varint max_size [] stream
      else if wire_type = PB_WT_64BIT then pb_read_bytes stream 8
      else if wire_type = PB_WT_32BIT then pb_read_bytes stream 4
      else is_error stream ''invalid wire_type'')"

text \<open>The value of \<^verbatim>\<open>pb_make_string_substream\<close> is the substream.\<close>

definition pb_make_string_substream :: "'s pb_istream_t \<Rightarrow> ('s pb_istream_t option \<times> 's pb_istream_t) option" where
  "pb_make_string_substream stream =
     rd_then (pb_decode_varint32 stream) (\<lambda>sz stream.
       if is_bytes_left stream < ucast sz then is_error stream ''parent stream too short''
       else Some (Some (stream\<lparr>is_bytes_left := ucast sz\<rparr>),
                  stream\<lparr>is_bytes_left := is_bytes_left stream - ucast sz\<rparr>))"

definition pb_close_string_substream :: "'s pb_istream_t \<Rightarrow> 's pb_istream_t
    \<Rightarrow> (unit option \<times> 's pb_istream_t) option" where
  "pb_close_string_substream stream substream =
     (case (if is_bytes_left substream \<noteq> 0 then pb_skip substream (is_bytes_left substream)
            else Some (Some (), substream)) of
        None \<Rightarrow> None
      | Some (None, substream) \<Rightarrow> Some (None, stream)
      | Some (Some _, substream) \<Rightarrow>
          Some (Some (), stream\<lparr>is_source := is_source substream, is_errmsg := is_errmsg substream\<rparr>))"

end
