(* ===== verification/Pb_Istream_Correct.thy ===== *)
theory Pb_Istream_Correct
  imports Pb_Istream Pb_Encode_Correct
begin

text \<open>
  What the readers of the decoder make of the wire format, and that they never read outside their
  stream. Readers rely on one law of a stream's source, stated in the locale \<open>byte_source\<close>: it
  delivers the bytes it holds, in order. The built-in buffer source satisfies it, and so does any
  user callback that reads from a list of bytes.
\<close>

section \<open>The contract of an input stream\<close>

locale byte_source =
  fixes pending :: "'s pb_source \<Rightarrow> byte list option"
  assumes source_read: "pending src = Some bs \<Longrightarrow> unat count \<le> length bs \<Longrightarrow>
    \<exists>src'. call_source src count = Some (True, take (unat count) bs, src')
      \<and> pending src' = Some (drop (unat count) bs)"
begin

text \<open>The stream after reading \<open>k\<close> bytes.\<close>

definition moved :: "'s pb_istream_t \<Rightarrow> nat \<Rightarrow> 's pb_source \<Rightarrow> 's pb_istream_t" where
  "moved s k src = s\<lparr>is_source := src, is_bytes_left := is_bytes_left s - of_nat k\<rparr>"

text \<open>\<open>parses f bs v\<close>: on a stream that holds \<open>bs\<close> and has at least their number of bytes left, \<open>f\<close>
  returns \<open>v\<close> and the stream just behind them.\<close>

definition parses :: "('s pb_istream_t \<Rightarrow> ('v option \<times> 's pb_istream_t) option) \<Rightarrow> byte list \<Rightarrow> 'v \<Rightarrow> bool" where
  "parses f bs v \<longleftrightarrow>
     (\<forall>s rest. pending (is_source s) = Some (bs @ rest) \<and> length bs \<le> unat (is_bytes_left s) \<longrightarrow>
        (\<exists>src. pending src = Some rest \<and> f s = Some (Some v, moved s (length bs) src)))"

lemma parsesI:
  "(\<And>s rest. pending (is_source s) = Some (bs @ rest) \<Longrightarrow> length bs \<le> unat (is_bytes_left s) \<Longrightarrow>
     \<exists>src. pending src = Some rest \<and> f s = Some (Some v, moved s (length bs) src)) \<Longrightarrow> parses f bs v"
  by (simp add: parses_def)

lemma parsesE:
  assumes "parses f bs v" "pending (is_source s) = Some (bs @ rest)" "length bs \<le> unat (is_bytes_left s)"
  obtains src where "pending src = Some rest" "f s = Some (Some v, moved s (length bs) src)"
  using assms by (auto simp: parses_def)

lemma parses_cong: "parses f bs v \<Longrightarrow> (\<And>s. g s = f s) \<Longrightarrow> parses g bs v"
  by (simp add: parses_def)

lemma moved_simps [simp]:
  "is_source (moved s k src) = src" "is_errmsg (moved s k src) = is_errmsg s"
  "moved (moved s j src) k src' = moved s (j + k) src'"
  by (simp_all add: moved_def algebra_simps)

lemma unat_moved:
  assumes "k \<le> unat (is_bytes_left s)"
  shows "unat (is_bytes_left (moved s k src)) = unat (is_bytes_left s) - k"
proof -
  have "unat (of_nat k :: 64 word) = k"
    using assms unat_less_64 [of "is_bytes_left s"] by (intro unat_of_nat_small) simp
  with assms show ?thesis
    by (simp add: moved_def unat_sub word_le_nat_alt)
qed

lemma parses_ret: "parses (\<lambda>s. Some (Some v, s)) [] v"
  by (rule parsesI) (auto simp: moved_def)

lemma parses_then:
  assumes f: "parses f as u" and g: "parses (g u) bs v"
  shows "parses (\<lambda>s. rd_then (f s) g) (as @ bs) v"
proof (rule parsesI)
  fix s :: "'s pb_istream_t" and rest
  assume p: "pending (is_source s) = Some ((as @ bs) @ rest)" and len: "length (as @ bs) \<le> unat (is_bytes_left s)"
  from f obtain src where src: "pending src = Some (bs @ rest)" "f s = Some (Some u, moved s (length as) src)"
    using p len by (elim parsesE [of f as u s "bs @ rest"]) auto
  have "length bs \<le> unat (is_bytes_left (moved s (length as) src))"
    using len by (simp add: unat_moved)
  with g src(1) obtain src' where "pending src' = Some rest"
    "g u (moved s (length as) src) = Some (Some v, moved s (length as + length bs) src')"
    by (elim parsesE [of "g u" bs v]) auto
  with src(2) show "\<exists>src. pending src = Some rest \<and>
      rd_then (f s) g = Some (Some v, moved s (length (as @ bs)) src)"
    by auto
qed

lemma parses_map:
  "parses f bs u \<Longrightarrow> parses (\<lambda>s. rd_then (f s) (\<lambda>x s. Some (Some (h x), s))) bs (h u)"
  using parses_then [of f bs u "\<lambda>x s. Some (Some (h x), s)" "[]" "h u", OF _ parses_ret] by simp

section \<open>Bytes\<close>

lemma read_chunk_pending:
  assumes "pending (is_source s) = Some (bs @ rest)" "length bs \<le> unat (is_bytes_left s)"
  shows "\<exists>src. pending src = Some rest \<and> read_chunk s (of_nat (length bs)) = Some (True, bs, moved s (length bs) src)"
proof -
  have len: "unat (of_nat (length bs) :: 64 word) = length bs"
    using assms(2) unat_less_64 [of "is_bytes_left s"] by (intro unat_of_nat_small) simp
  with assms obtain src where "call_source (is_source s) (of_nat (length bs)) = Some (True, bs, src)"
    "pending src = Some rest"
    using source_read [of "is_source s" "bs @ rest" "of_nat (length bs)"] by auto
  with assms len show ?thesis
    by (auto simp: read_chunk_def moved_def Let_def word_less_nat_alt)
qed

lemma parses_read_bytes:
  assumes "count = of_nat (length bs)"
  shows "parses (\<lambda>s. pb_read_bytes s count) bs bs"
proof (rule parsesI)
  fix s :: "'s pb_istream_t" and rest
  assume "pending (is_source s) = Some (bs @ rest)" "length bs \<le> unat (is_bytes_left s)"
  from read_chunk_pending [OF this] assms show "\<exists>src. pending src = Some rest
      \<and> pb_read_bytes s count = Some (Some bs, moved s (length bs) src)"
    by (auto simp: pb_read_bytes_def pb_read_def split: pb_source.split)
qed

lemma parses_readbyte: "parses pb_readbyte [b] b"
proof (rule parsesI)
  fix s :: "'s pb_istream_t" and rest
  assume p: "pending (is_source s) = Some ([b] @ rest)" and len: "length [b] \<le> unat (is_bytes_left s)"
  from p obtain src where "call_source (is_source s) 1 = Some (True, [b], src)" "pending src = Some rest"
    using source_read [of "is_source s" "[b] @ rest" 1] by auto
  moreover from len have "is_bytes_left s \<noteq> 0" by auto
  ultimately show "\<exists>src. pending src = Some rest \<and> pb_readbyte s = Some (Some b, moved s (length [b]) src)"
    by (auto simp: pb_readbyte_def moved_def Let_def)
qed

lemma readbyte_pending:
  assumes "pending (is_source s) = Some (b # rest)" "0 < unat (is_bytes_left s)"
  obtains src where "pending src = Some rest" "pb_readbyte s = Some (Some b, moved s 1 src)"
  using parses_readbyte [of b] assms by (fastforce simp: parses_def)

text \<open>Skipping in chunks of 16 is skipping at once.\<close>

lemma skip_chunks_pending:
  "pending (is_source s) = Some (bs @ rest) \<Longrightarrow> length bs \<le> unat (is_bytes_left s) \<Longrightarrow>
   count = of_nat (length bs) \<Longrightarrow>
   \<exists>src bs'. pending src = Some rest \<and> skip_chunks s count = Some (True, bs', moved s (length bs) src)"
proof (induction s count arbitrary: bs rule: skip_chunks.induct)
  case (1 s count)
  have len: "unat count = length bs"
    using 1 unat_less_64 [of "is_bytes_left s"] by (auto intro!: unat_of_nat_small)
  show ?case
  proof (cases "count > 16")
    case False
    then show ?thesis
      using read_chunk_pending [OF 1(2,3)] 1(4) by (subst skip_chunks.simps) auto
  next
    case True
    then have gt: "16 < length bs" using len by (simp add: word_less_nat_alt)
    let ?a = "take 16 bs" and ?b = "drop 16 bs"
    have "pending (is_source s) = Some (?a @ ?b @ rest)" "length ?a \<le> unat (is_bytes_left s)"
      using 1 gt by (simp_all flip: append_assoc)
    from read_chunk_pending [OF this] gt obtain src where src: "pending src = Some (?b @ rest)"
      "read_chunk s 16 = Some (True, ?a, moved s 16 src)"
      by auto
    have "length ?b \<le> unat (is_bytes_left (moved s 16 src))"
      using 1 gt by (simp add: unat_moved)
    moreover have "count - 16 = of_nat (length ?b)"
      using 1(4) gt by simp
    ultimately obtain src' bs' where "pending src' = Some rest"
      "skip_chunks (moved s 16 src) (count - 16) = Some (True, bs', moved (moved s 16 src) (length ?b) src')"
      using 1(1) [OF True src(2), of True "(?a, moved s 16 src)" ?a "moved s 16 src" ?b] src(1) by auto
    with True src(2) gt show ?thesis
      by (subst skip_chunks.simps) auto
  qed
qed

lemma parses_skip:
  assumes "count = of_nat (length bs)"
  shows "parses (\<lambda>s. pb_skip s count) bs ()"
proof (rule parsesI)
  fix s :: "'s pb_istream_t" and rest
  assume a: "pending (is_source s) = Some (bs @ rest)" "length bs \<le> unat (is_bytes_left s)"
  show "\<exists>src. pending src = Some rest \<and> pb_skip s count = Some (Some (), moved s (length bs) src)"
    using read_chunk_pending [OF a] skip_chunks_pending [OF a] assms
    by (fastforce simp: pb_skip_def pb_read_def split: pb_source.split)
qed

end

section \<open>Facts on the bytes of a varint\<close>

lemma unat_add_7: "unat (b :: 8 word) \<le> 248 \<Longrightarrow> unat (b + 7) = unat b + 7"
  by (simp add: unat_word_ariths)

lemma sint_less_0_iff: "sint (v :: u64) < 0 \<longleftrightarrow> bit v 63"
  by (simp add: sint_word_ariths bit_last_iff flip: bit_last_iff)

lemma bit_double: "bit (v * 2 :: u64) (Suc n) \<longleftrightarrow> n < 63 \<and> bit v n"
proof -
  have "v * 2 = push_bit 1 v" by (simp add: push_bit_eq_mult)
  then show ?thesis by (simp only: bit_push_bit_iff) auto
qed

lemma unzigzag_zigzag:
  "(if zigzag v AND 1 \<noteq> 0 then NOT (drop_bit 1 (zigzag v)) else drop_bit 1 (zigzag v)) = v"
proof (cases "sint v < 0")
  case True
  then have neg: "bit v 63" by (simp add: sint_less_0_iff)
  have "bit (NOT (push_bit 1 v) AND 1) 0" by (simp only: bit_simps) simp
  then have "NOT (push_bit 1 v) AND 1 \<noteq> 0" by force
  moreover have "NOT (drop_bit 1 (NOT (push_bit 1 v))) = v"
  proof (rule bit_word_eqI)
    fix n assume "n < LENGTH(64)"
    then show "bit (NOT (drop_bit 1 (NOT (push_bit 1 v)))) n \<longleftrightarrow> bit v n"
      using neg by (cases "n = 63") (auto simp: bit_simps bit_double)
  qed
  ultimately show ?thesis using True by (simp add: zigzag_def)
next
  case False
  then have pos: "\<not> bit v 63" by (simp add: sint_less_0_iff)
  have "push_bit 1 v AND 1 = 0" by (simp add: and_one_eq flip: even_iff_mod_2_eq_zero)
  moreover have "drop_bit 1 (push_bit 1 v) = v"
  proof (rule bit_word_eqI)
    fix n assume "n < LENGTH(64)"
    then show "bit (drop_bit 1 (push_bit 1 v)) n \<longleftrightarrow> bit v n"
      using pos by (cases "n = 63") (auto simp: bit_simps bit_double dest: bit_imp_le_length)
  qed
  ultimately show ?thesis using False by (simp add: zigzag_def)
qed

context byte_source
begin

lemma parses_varint_loop:
  "unat bitpos + 7 * length (varint_bytes v) \<le> 70 \<Longrightarrow>
   parses (\<lambda>s. varint_decode_loop s bitpos r) (varint_bytes v) (r OR push_bit (unat bitpos) v)"
proof (induction v arbitrary: bitpos r rule: varint_bytes.induct)
  case (1 v)
  define step where "step = (\<lambda>(b :: byte) s. let result = r OR push_bit (unat bitpos) (ucast (b AND 0x7F) :: u64) in
      if b AND 0x80 \<noteq> 0 then varint_decode_loop s (bitpos + 7) result
      else Some (Some result, s :: 's pb_istream_t))"
  have "0 < length (varint_bytes v)" by simp
  with 1(2) have lt: "unat bitpos < 64" by linarith
  have unfold: "varint_decode_loop s bitpos r = rd_then (pb_readbyte s) step" for s :: "'s pb_istream_t"
    using lt by (subst varint_decode_loop.simps) (simp add: step_def Let_def word_le_nat_alt)
  show ?case
  proof (cases v rule: varint_bytes_cases)
    case last
    have "parses (step (ucast v)) [] (r OR push_bit (unat bitpos) v)"
      using parses_ret varint_last(1) [OF last(1)] varint_last(2) [OF last(1), where ?'a = 64]
      by (simp add: step_def)
    from parses_then [where g = step, OF parses_readbyte this] show ?thesis
      by (simp add: unfold last(2))
  next
    case more
    let ?b = "ucast (take_bit 7 v) OR 0x80 :: byte"
    have pos: "unat (bitpos + 7) = unat bitpos + 7" using lt by (intro unat_add_7) simp
    have "parses (\<lambda>s. varint_decode_loop s (bitpos + 7) (r OR push_bit (unat bitpos) (take_bit 7 v)))
        (varint_bytes (drop_bit 7 v)) ((r OR push_bit (unat bitpos) (take_bit 7 v)) OR push_bit (unat (bitpos + 7)) (drop_bit 7 v))"
      using 1(2) more pos by (intro 1(1)) simp_all
    then have "parses (step ?b) (varint_bytes (drop_bit 7 v)) (r OR push_bit (unat bitpos) v)"
      using varint_more(1) [of v] varint_more(2) [of v, where ?'a = 64] push_split [of "unat bitpos" v] pos by (simp add: step_def or.assoc)
    from parses_then [where g = step, OF parses_readbyte this] show ?thesis
      by (simp add: unfold more(2))
  qed
qed

lemma parses_varint: "parses pb_decode_varint (varint_bytes v) v"
proof -
  have "parses (\<lambda>s. varint_decode_loop s 0 0) (varint_bytes v) v"
    using parses_varint_loop [of 0 v 0] length_varint_bytes [of v] by simp
  then show ?thesis
    by (rule parses_cong) (rule pb_decode_varint_def)
qed

lemma parses_svarint: "parses pb_decode_svarint (varint_bytes (zigzag v)) v"
proof -
  let ?h = "\<lambda>value :: u64. if value AND 1 \<noteq> 0 then NOT (drop_bit 1 value) else drop_bit 1 value"
  have "?h (zigzag v) = v"
    by (rule unzigzag_zigzag)
  with parses_map [OF parses_varint, of ?h "zigzag v"]
  have "parses (\<lambda>s. rd_then (pb_decode_varint s) (\<lambda>x s. Some (Some (?h x), s))) (varint_bytes (zigzag v)) v"
    by simp
  then show ?thesis
    by (rule parses_cong) (rule pb_decode_svarint_def)
qed

text \<open>The 32-bit decoder on the encoding of a 32-bit value: at most five bytes, the last of them with
  at most four significant bits.\<close>

lemma parses_varint32_loop:
  assumes "unat bitpos + 7 * length (varint_bytes v) \<le> 35"
  shows "\<exists>b pos. parses (\<lambda>s. varint32_loop s bitpos r) (varint_bytes v)
      (pos, b, r OR push_bit (unat bitpos) (ucast v))
    \<and> unat pos = unat bitpos + 7 * length (varint_bytes v)
    \<and> b = ucast (drop_bit (7 * (length (varint_bytes v) - 1)) v)"
  using assms
proof (induction v arbitrary: bitpos r rule: varint_bytes.induct)
  case (1 v)
  define step where "step = (\<lambda>(b :: byte) s.
      let sign_extension = (if bitpos < 63 then 0xFF else 0x01 :: byte) in
       if bitpos \<ge> 32 \<and> b AND 0x7F \<noteq> 0 \<and> (drop_bit 31 r = 0 \<or> b \<noteq> sign_extension)
       then is_error s ''varint overflow''
       else
         let result = (if bitpos \<ge> 32 then r
                       else r OR push_bit (unat bitpos) (ucast (b AND 0x7F)));
             bitpos = bitpos + 7
         in if b AND 0x80 \<noteq> 0 then varint32_loop s bitpos result
            else Some (Some (bitpos, b, result), s :: 's pb_istream_t))"
  have "0 < length (varint_bytes v)" by simp
  with 1(2) have lt: "unat bitpos \<le> 28" by linarith
  then have small: "\<not> bitpos \<ge> 32" by (simp add: word_le_nat_alt)
  have unfold: "varint32_loop s bitpos r = rd_then (pb_readbyte s) step" for s :: "'s pb_istream_t"
    by (subst varint32_loop.simps) (simp add: step_def)
  have pos: "unat (bitpos + 7) = unat bitpos + 7" using lt by (intro unat_add_7) simp
  show ?case
  proof (cases v rule: varint_bytes_cases)
    case last
    have "parses (step (ucast v)) [] (bitpos + 7, ucast v, r OR push_bit (unat bitpos) (ucast v))"
      using parses_ret varint_last(1) [OF last(1)] varint_last(2) [OF last(1), where ?'a = 32] small
      by (simp add: step_def)
    from parses_then [where g = step, OF parses_readbyte this]
    have "parses (\<lambda>s. varint32_loop s bitpos r) (varint_bytes v) (bitpos + 7, ucast v, r OR push_bit (unat bitpos) (ucast v))"
      by (simp add: unfold last(2))
    with pos last(2) show ?thesis by (intro exI [of _ "ucast v"] exI [of _ "bitpos + 7"]) simp
  next
    case more
    let ?b = "ucast (take_bit 7 v) OR 0x80 :: byte" and ?d = "drop_bit 7 v"
    let ?r = "r OR push_bit (unat bitpos) (ucast (take_bit 7 v))"
    from more have IH: "\<And>bitpos r. unat bitpos + 7 * length (varint_bytes ?d) \<le> 35 \<Longrightarrow>
        \<exists>b pos. parses (\<lambda>s. varint32_loop s bitpos r) (varint_bytes ?d) (pos, b, r OR push_bit (unat bitpos) (ucast ?d))
        \<and> unat pos = unat bitpos + 7 * length (varint_bytes ?d)
        \<and> b = ucast (drop_bit (7 * (length (varint_bytes ?d) - 1)) ?d)"
      using 1(1) by simp
    from IH [of "bitpos + 7" ?r] 1(2) more pos obtain b p where
      b: "parses (\<lambda>s. varint32_loop s (bitpos + 7) ?r) (varint_bytes ?d) (p, b, ?r OR push_bit (unat (bitpos + 7)) (ucast ?d))"
        "unat p = unat bitpos + 7 + 7 * length (varint_bytes ?d)"
        "b = ucast (drop_bit (7 * (length (varint_bytes ?d) - 1)) ?d)"
      by auto
    have "?r OR push_bit (unat (bitpos + 7)) (ucast ?d) = r OR push_bit (unat bitpos) (ucast v)"
      using push_split_ucast [of "unat bitpos" v] pos by (simp add: or.assoc)
    with b(1) have "parses (step ?b) (varint_bytes ?d) (p, b, r OR push_bit (unat bitpos) (ucast v))"
      using varint_more(1) [of v] varint_more(2) [of v, where ?'a = 32] small by (simp add: step_def)
    from parses_then [where g = step, OF parses_readbyte this]
    have "parses (\<lambda>s. varint32_loop s bitpos r) (varint_bytes v) (p, b, r OR push_bit (unat bitpos) (ucast v))"
      by (simp add: unfold more(2))
    moreover obtain k where "length (varint_bytes ?d) = Suc k"
      by (cases "varint_bytes ?d") simp_all
    ultimately show ?thesis
      using b(2,3) more(2) by (intro exI [of _ b] exI [of _ p]) (simp add: add.commute)
  qed
qed

end

lemma drop_28_and_70: "(ucast (drop_bit 28 (ucast (v :: u32) :: u64)) :: byte) AND 0x70 = 0"
proof (rule bit_word_eqI)
  fix n assume "n < LENGTH(8)"
  have "(0x70 :: byte) = push_bit 4 (mask 3)" by (simp add: mask_eq_exp_minus_1 push_bit_eq_mult)
  then have "bit (0x70 :: byte) n \<Longrightarrow> 4 \<le> n" by (simp only: bit_simps)
  then show "bit (ucast (drop_bit 28 (ucast v :: u64)) AND (0x70 :: byte)) n \<longleftrightarrow> bit (0 :: byte) n"
    by (auto simp: bit_simps dest: bit_imp_le_length)
qed

lemma small_ucast: "(ucast (v :: u32) :: u64) < 128 \<Longrightarrow> (ucast (ucast (ucast v :: u64) :: byte) :: u32) = v"
proof -
  assume "(ucast v :: u64) < 128"
  then have "unat v < 128" by (simp add: word_less_nat_alt)
  moreover have "unat (ucast x :: byte) = unat x mod 256" for x :: u64
    by (simp add: unsigned_ucast_eq take_bit_eq_mod)
  ultimately have "unat (ucast (ucast v :: u64) :: byte) = unat v"
    by simp
  then show ?thesis
    by (intro word_unat_eq_iff [THEN iffD2]) simp
qed

context byte_source
begin

lemma varint32_eof_pending:
  assumes "pending (is_source s) = Some (varint_bytes (ucast v) @ rest)"
    and "length (varint_bytes (ucast v)) \<le> unat (is_bytes_left s)"
  shows "\<exists>src. pending src = Some rest
    \<and> pb_decode_varint32_eof s = Some (Inr (v :: u32), moved s (length (varint_bytes (ucast v))) src)"
proof (cases "ucast v :: u64" rule: varint_bytes_cases)
  case last
  have b: "(ucast (ucast v :: u64) :: byte) AND 0x80 = 0" "(ucast (ucast (ucast v :: u64) :: byte) :: u32) = v"
    using varint_last(1) [OF last(1)] last(1) small_ucast by auto
  have "pending (is_source s) = Some (ucast (ucast v :: u64) # rest)" "0 < unat (is_bytes_left s)"
    using assms last(2) by simp_all
  then obtain src where "pending src = Some rest" "pb_readbyte s = Some (Some (ucast (ucast v :: u64)), moved s 1 src)"
    by (rule readbyte_pending)
  with b last(2) show ?thesis
    by (auto simp: pb_decode_varint32_eof_def)
next
  case more
  let ?v = "ucast v :: u64"
  let ?b = "ucast (take_bit 7 ?v) OR 0x80 :: byte" and ?d = "drop_bit 7 ?v"
  have "pending (is_source s) = Some (?b # varint_bytes ?d @ rest)" "0 < unat (is_bytes_left s)"
    using assms more(2) by simp_all
  then obtain src where src: "pending src = Some (varint_bytes ?d @ rest)" "pb_readbyte s = Some (Some ?b, moved s 1 src)"
    by (rule readbyte_pending)
  have len: "length (varint_bytes ?d) \<le> 4" "length (varint_bytes ?v) = Suc (length (varint_bytes ?d))"
    using length_varint_bytes_32 [of v] more(2) by simp_all
  then have "unat (7 :: 8 word) + 7 * length (varint_bytes ?d) \<le> 35" by simp
  from parses_varint32_loop [OF this, of "ucast (take_bit 7 ?v)"] obtain b pos where
    loop: "parses (\<lambda>s. varint32_loop s 7 (ucast (take_bit 7 ?v))) (varint_bytes ?d)
      (pos, b, ucast (take_bit 7 ?v) OR push_bit 7 (ucast ?d))"
    "unat pos = 7 + 7 * length (varint_bytes ?d)" "b = ucast (drop_bit (7 * (length (varint_bytes ?d) - 1)) ?d)"
    by auto
  have res: "ucast (take_bit 7 ?v) OR push_bit 7 (ucast ?d) = v"
    using push_split_ucast [of 0 ?v] by (simp add: ucast_ucast_32)
  have "length (varint_bytes ?d) \<le> unat (is_bytes_left (moved s 1 src))"
    using assms(2) len by (simp add: unat_moved)
  with loop(1) src(1) res obtain src' where src': "pending src' = Some rest"
    "varint32_loop (moved s 1 src) 7 (ucast (take_bit 7 ?v)) = Some (Some (pos, b, v), moved s (length (varint_bytes ?v)) src')"
    using len(2) by (elim parsesE [of _ "varint_bytes ?d" _ "moved s 1 src" rest]) auto
  have "\<not> (pos = 35 \<and> b AND 0x70 \<noteq> 0)"
  proof
    assume "pos = 35 \<and> b AND 0x70 \<noteq> 0"
    then have "length (varint_bytes ?d) = 4" "b AND 0x70 \<noteq> 0" using loop(2) by auto
    then show False using loop(3) drop_28_and_70 [of v] by simp
  qed
  with src(2) src' show ?thesis
    using varint_more(1) [of ?v] varint_more(2) [of ?v, where ?'a = 32]
    by (auto simp: pb_decode_varint32_eof_def)
qed

lemma parses_varint32: "parses pb_decode_varint32 (varint_bytes (ucast (v :: u32))) v"
proof (rule parsesI)
  fix s :: "'s pb_istream_t" and rest
  assume "pending (is_source s) = Some (varint_bytes (ucast v) @ rest)"
    "length (varint_bytes (ucast v)) \<le> unat (is_bytes_left s)"
  from varint32_eof_pending [OF this] show "\<exists>src. pending src = Some rest
      \<and> pb_decode_varint32 s = Some (Some v, moved s (length (varint_bytes (ucast v))) src)"
    by (auto simp: pb_decode_varint32_def)
qed

end

section \<open>Tags, lengths and skipping\<close>

lemma bit_below:
  assumes "unat (x :: 'a::len word) < 2 ^ k" "bit x n"
  shows "n < k"
proof -
  have "take_bit k (unat x) = unat x" using assms(1) by (simp add: take_bit_nat_eq_self_iff)
  then have "unat (take_bit k x) = unat x" by (simp add: unsigned_take_bit_eq)
  then have "take_bit k x = x" by (simp add: word_unat_eq_iff)
  with assms(2) show ?thesis by (metis bit_take_bit_iff)
qed

lemma tag_bytes_32:
  assumes "tag < 2 ^ 29" "wt < 8"
  shows "tag_bytes wt tag = varint_bytes (ucast (push_bit 3 tag OR wt :: u32))"
proof -
  have "bit tag n \<Longrightarrow> n < 29" for n
    using assms(1) bit_below [of tag 29 n] by (simp add: word_less_nat_alt)
  moreover have "push_bit 3 (ucast tag :: u64) OR ucast wt = ucast (push_bit 3 tag OR wt)"
    using calculation by (intro bit_word_eqI) (force simp: bit_simps)
  ultimately show ?thesis
    by (simp add: tag_bytes_def)
qed

lemma tag_fields:
  assumes "tag < 2 ^ 29" "wt < 8"
  shows "(push_bit 3 tag OR wt :: u32) AND 7 = wt" "drop_bit 3 (push_bit 3 tag OR wt :: u32) = tag"
    "tag \<noteq> 0 \<Longrightarrow> (push_bit 3 tag OR wt :: u32) \<noteq> 0"
proof -
  have seven: "(7 :: u32) = mask 3" by (simp add: mask_eq_exp_minus_1)
  have tag: "bit tag n \<Longrightarrow> n < 29" for n
    using assms(1) bit_below [of tag 29 n] by (simp add: word_less_nat_alt)
  have wt: "bit wt n \<Longrightarrow> n < 3" for n
    using assms(2) bit_below [of wt 3 n] by (simp add: word_less_nat_alt)
  show "(push_bit 3 tag OR wt :: u32) AND 7 = wt"
    unfolding seven by (rule bit_word_eqI) (auto simp: bit_simps dest: wt)
  show d: "drop_bit 3 (push_bit 3 tag OR wt :: u32) = tag"
    by (rule bit_word_eqI) (auto simp: bit_simps dest: wt tag)
  show "tag \<noteq> 0 \<Longrightarrow> (push_bit 3 tag OR wt :: u32) \<noteq> 0"
    using d by force
qed

lemma of_nat_64_32: "n < 2 ^ 32 \<Longrightarrow> (of_nat n :: u64) = ucast (of_nat n :: u32)"
  by (rule word_unat_eq_iff [THEN iffD2]) (simp add: unat_of_nat_small)

context byte_source
begin

lemma decode_tag_pending:
  assumes "tag < 2 ^ 29" "wt < 8" "tag \<noteq> 0"
    and "pending (is_source s) = Some (tag_bytes wt tag @ rest)" "length (tag_bytes wt tag) \<le> unat (is_bytes_left s)"
  shows "\<exists>src. pending src = Some rest
    \<and> pb_decode_tag s = Some (Inr (wt, tag), moved s (length (tag_bytes wt tag)) src)"
proof -
  note tb = tag_bytes_32 [OF assms(1,2)]
  obtain src where "pending src = Some rest" "pb_decode_varint32_eof s
      = Some (Inr (push_bit 3 tag OR wt :: u32), moved s (length (tag_bytes wt tag)) src)"
    using varint32_eof_pending [of s "push_bit 3 tag OR wt" rest] assms(4,5) unfolding tb by blast
  then show ?thesis
    using tag_fields [OF assms(1,2)] assms(3) by (auto simp: pb_decode_tag_def)
qed

lemma parses_skip_varint: "parses pb_skip_varint (varint_bytes v) ()"
proof (induction v rule: varint_bytes.induct)
  case (1 v)
  define step where "step = (\<lambda>bs s. if hd bs AND 0x80 \<noteq> (0 :: byte) then pb_skip_varint s
      else Some (Some (), s :: 's pb_istream_t))"
  have unfold: "pb_skip_varint s = rd_then (pb_read_bytes s 1) step" for s :: "'s pb_istream_t"
    by (subst pb_skip_varint.simps) (simp add: step_def)
  have read: "parses (\<lambda>s. pb_read_bytes s 1) [b] [b]" for b
    by (rule parses_read_bytes) simp
  show ?case
  proof (cases v rule: varint_bytes_cases)
    case last
    have "parses (step [ucast v]) [] ()"
      using parses_ret varint_last(1) [OF last(1)] by (simp add: step_def)
    from parses_then [where g = step, OF read this]
    have "parses (\<lambda>s. rd_then (pb_read_bytes s 1) step) (varint_bytes v) ()"
      by (simp add: last(2))
    then show ?thesis by (rule parses_cong) (rule unfold)
  next
    case more
    have "parses pb_skip_varint (varint_bytes (drop_bit 7 v)) ()"
      using 1 more(1) by simp
    then have "parses (step [ucast (take_bit 7 v) OR 0x80]) (varint_bytes (drop_bit 7 v)) ()"
      by (rule parses_cong) (use varint_more(1) [of v] in \<open>simp add: step_def\<close>)
    from parses_then [where g = step, OF read this]
    have "parses (\<lambda>s. rd_then (pb_read_bytes s 1) step) (varint_bytes v) ()"
      by (simp add: more(2))
    then show ?thesis by (rule parses_cong) (rule unfold)
  qed
qed

lemma parses_skip_string:
  assumes "length bs < 2 ^ 32"
  shows "parses pb_skip_string (delimited bs) ()"
proof -
  have "parses (\<lambda>s. pb_skip s (ucast (of_nat (length bs) :: u32))) bs ()"
    using assms by (intro parses_skip) (simp flip: of_nat_64_32)
  from parses_then [where g = "\<lambda>len s. pb_skip s (ucast len)", OF parses_varint32 this]
  have "parses (\<lambda>s. rd_then (pb_decode_varint32 s) (\<lambda>len s. pb_skip s (ucast len))) (delimited bs) ()"
    using assms by (simp add: delimited_def of_nat_64_32)
  then show ?thesis by (rule parses_cong) (rule pb_skip_string_def)
qed

lemma string_substream_pending:
  assumes len: "length bs < 2 ^ 32" and p: "pending (is_source s) = Some (delimited bs @ rest)"
    and left: "length (delimited bs) \<le> unat (is_bytes_left s)"
  shows "\<exists>src. pending src = Some (bs @ rest)
    \<and> pb_make_string_substream s = Some (Some (s\<lparr>is_source := src, is_bytes_left := of_nat (length bs)\<rparr>),
        moved s (length (delimited bs)) src)"
proof -
  let ?n = "of_nat (length bs) :: u32"
  let ?k = "length (varint_bytes (ucast ?n))"
  have n: "delimited bs = varint_bytes (ucast ?n) @ bs" "(of_nat (length bs) :: u64) = ucast ?n"
    using len by (simp_all add: delimited_def of_nat_64_32)
  have un: "unat ?n = length bs" using len by (intro unat_of_nat_small) simp
  obtain src where src: "pending src = Some (bs @ rest)" "pb_decode_varint32 s = Some (Some ?n, moved s ?k src)"
    using parses_varint32 [of ?n] p left unfolding n parses_def by fastforce
  have "unat (is_bytes_left (moved s ?k src)) = unat (is_bytes_left s) - ?k"
    using left unfolding n by (intro unat_moved) simp
  then have "\<not> is_bytes_left (moved s ?k src) < ucast ?n"
    using left un unfolding n by (simp add: word_less_nat_alt)
  with src show ?thesis
    unfolding n(1) pb_make_string_substream_def n(2)
    by (intro exI [of _ src]) (simp add: moved_def n(2) algebra_simps flip: n(2))
qed

end

section \<open>The sources\<close>

text \<open>The buffer source, and a user callback that reads from a list of bytes.\<close>

fun buf_pending :: "'s pb_source \<Rightarrow> byte list option" where
  "buf_pending (Buf bs) = Some bs"
| "buf_pending (User cb st) = None"

interpretation buf_in: byte_source buf_pending
proof
  fix src :: "'s pb_source" and bs and count :: size_t
  assume "buf_pending src = Some bs" "unat count \<le> length bs"
  then show "\<exists>src'. call_source src count = Some (True, take (unat count) bs, src')
      \<and> buf_pending src' = Some (drop (unat count) bs)"
    by (cases src) (simp_all add: call_source_def)
qed

definition list_callback :: "byte list \<Rightarrow> size_t \<Rightarrow> (bool \<times> byte list \<times> byte list) option" where
  "list_callback st count =
     Some (unat count \<le> length st, take (unat count) st, drop (unat count) st)"

definition list_pending :: "byte list pb_source \<Rightarrow> byte list option" where
  "list_pending src = (case src of Buf bs \<Rightarrow> None | User cb st \<Rightarrow> if cb = list_callback then Some st else None)"

interpretation list_in: byte_source list_pending
proof
  fix src :: "byte list pb_source" and bs and count :: size_t
  assume "list_pending src = Some bs" "unat count \<le> length bs"
  then show "\<exists>src'. call_source src count = Some (True, take (unat count) bs, src')
      \<and> list_pending src' = Some (drop (unat count) bs)"
    by (cases src) (auto simp: call_source_def list_pending_def list_callback_def split: if_splits)
qed

end
