(* ===== verification/Pb_Heap.thy ===== *)
theory Pb_Heap
  imports Pb_Common
begin

text \<open>
  What the decoder changes besides its stream: the memory of the message, the heap blocks behind its
  pointer fields, and the local variable \<^verbatim>\<open>fixed_count_size\<close> of the active call of
  \<^verbatim>\<open>pb_decode_noinit\<close> (\<^verbatim>\<open>src/ios/Pods/nanopb/pb_decode.c\<close>), whose address the iterator may
  hold. The allocator is the one of the C library (\<^verbatim>\<open>pb_realloc\<close> and \<^verbatim>\<open>pb_free\<close> of
  \<^verbatim>\<open>pb.h\<close>): it decides where a block goes and whether there is memory, so its choice is a
  parameter; that a pointer handed to it is null or a live block is checked here, and a call that
  breaks this is \<^const>\<open>None\<close>.
\<close>

record pb_world =
  w_mem :: mem
  w_blocks :: "(addr \<times> nat) list"
  w_fixed_count_size :: pb_size_t

text \<open>The allocator's choice for a request of a size; null when it is out of memory.\<close>

type_synonym pb_allocator = "pb_world \<Rightarrow> size_t \<Rightarrow> addr"

definition is_live :: "pb_world \<Rightarrow> addr \<Rightarrow> bool" where
  "is_live w p \<longleftrightarrow> map_of (w_blocks w) p \<noteq> None"

definition block_size :: "pb_world \<Rightarrow> addr \<Rightarrow> nat" where
  "block_size w p = (case map_of (w_blocks w) p of None \<Rightarrow> 0 | Some n \<Rightarrow> n)"

definition drop_block :: "addr \<Rightarrow> (addr \<times> nat) list \<Rightarrow> (addr \<times> nat) list" where
  "drop_block p bl = filter (\<lambda>(q, n). q \<noteq> p) bl"

text \<open>\<^verbatim>\<open>pb_free\<close>\<close>

definition pb_free :: "addr \<Rightarrow> pb_world \<Rightarrow> pb_world option" where
  "pb_free p w =
     (if p = NULL then Some w
      else if is_live w p then Some (w\<lparr>w_blocks := drop_block p (w_blocks w)\<rparr>)
      else None)"

text \<open>\<^verbatim>\<open>pb_realloc\<close>: the contents move along; on failure the old block stays.\<close>

definition pb_realloc :: "pb_allocator \<Rightarrow> addr \<Rightarrow> size_t \<Rightarrow> pb_world \<Rightarrow> (addr \<times> pb_world) option" where
  "pb_realloc alloc p sz w =
     (if p \<noteq> NULL \<and> \<not> is_live w p then None
      else let q = alloc w sz in
        if q = NULL then Some (NULL, w)
        else let old = load_bytes (w_mem w) p (min (block_size w p) (unat sz)) in
          Some (q, w\<lparr>w_mem := (if p = NULL then w_mem w else store_bytes (w_mem w) q old),
                     w_blocks := (q, unat sz) # drop_block p (w_blocks w)\<rparr>))"

section \<open>Access through the iterator\<close>

text \<open>\<^verbatim>\<open>*(pb_size_t*)iter->pSize\<close> and \<^verbatim>\<open>*(bool*)iter->pSize\<close>\<close>

fun psize_get :: "pb_world \<Rightarrow> pb_psize \<Rightarrow> pb_size_t" where
  "psize_get w (PSizeAt a) = load32 (w_mem w) a"
| "psize_get w PSizeFixedCount = w_fixed_count_size w"

fun psize_set :: "pb_psize \<Rightarrow> pb_size_t \<Rightarrow> pb_world \<Rightarrow> pb_world" where
  "psize_set (PSizeAt a) v w = w\<lparr>w_mem := store32 (w_mem w) a v\<rparr>"
| "psize_set PSizeFixedCount v w = w\<lparr>w_fixed_count_size := v\<rparr>"

fun psize_set_bool :: "pb_psize \<Rightarrow> bool \<Rightarrow> pb_world \<Rightarrow> pb_world" where
  "psize_set_bool (PSizeAt a) v w = w\<lparr>w_mem := store_bool (w_mem w) a v\<rparr>"
| "psize_set_bool PSizeFixedCount v w =
     w\<lparr>w_fixed_count_size := (w_fixed_count_size w AND NOT 0xFF) OR (if v then 1 else 0)\<rparr>"

abbreviation store_mem :: "(mem \<Rightarrow> mem) \<Rightarrow> pb_world \<Rightarrow> pb_world" where
  "store_mem f w \<equiv> w\<lparr>w_mem := f (w_mem w)\<rparr>"

definition memset_zero :: "addr \<Rightarrow> pb_size_t \<Rightarrow> mem \<Rightarrow> mem" where
  "memset_zero p n m = store_bytes m p (replicate (unat n) 0)"

definition memcpy :: "addr \<Rightarrow> addr \<Rightarrow> pb_size_t \<Rightarrow> mem \<Rightarrow> mem" where
  "memcpy dest src n m = store_bytes m dest (load_bytes m src (unat n))"

lemma psize_get_set [simp]: "psize_get (psize_set ps v w) ps = v"
  by (cases ps) (simp_all add: mem_simps)

section \<open>Facts on the heap\<close>

lemma is_live_drop [simp]:
  "is_live (w\<lparr>w_blocks := drop_block p (w_blocks w)\<rparr>) q \<longleftrightarrow> q \<noteq> p \<and> is_live w q"
proof -
  have "map_of (drop_block p bl) q = (if q = p then None else map_of bl q)" for bl
    by (induction bl) (auto simp: drop_block_def)
  then show ?thesis by (simp add: is_live_def)
qed

text \<open>A block is freed once: a second free of the same pointer is an error.\<close>

lemma pb_free_twice: "p \<noteq> NULL \<Longrightarrow> pb_free p w = Some w' \<Longrightarrow> pb_free p w' = None"
  by (auto simp: pb_free_def split: if_splits)

end
