(* ===== verification/Pb_Decode.thy ===== *)
theory Pb_Decode
  imports Pb_Istream Pb_Heap
begin

text \<open>
  The decoder of fields and messages and the release of decoded messages, from
  \<^verbatim>\<open>src/ios/Pods/nanopb/pb_decode.c\<close>.

  The recursion of the C code through sub-messages and extension lists is bounded by a depth \<open>n\<close>, as
  in the encoder: \<^const>\<open>None\<close> stands for running out of depth and for undefined behaviour (a read
  past the input buffer, a call through a null function pointer, a free or realloc of a pointer that
  is not a live block). The loops over the input are bounded by the number of bytes left, which
  every round reduces; the loops over user callbacks and extension lists by \<open>n\<close>. The operations that
  call the message decoder take it as an argument.
\<close>

section \<open>Environment and results\<close>

type_synonym 's pb_dec_result = "(bool \<times> 's pb_istream_t \<times> pb_world) option"

record 's pb_dec_env =
  de_fields_at :: "addr \<Rightarrow> pb_field_t list"
  de_ext_type_at :: "addr \<Rightarrow> pb_extension_type_t"
  de_callback :: "addr \<Rightarrow> 's pb_istream_t \<Rightarrow> pb_field_t \<Rightarrow> addr \<Rightarrow> pb_world \<Rightarrow> 's pb_dec_result"
  de_ext_callback :: "addr \<Rightarrow> 's pb_istream_t \<Rightarrow> addr \<Rightarrow> u32 \<Rightarrow> pb_wire_type_t \<Rightarrow> pb_world \<Rightarrow> 's pb_dec_result"
  de_alloc :: pb_allocator

type_synonym 's pb_decoder_t = "'s pb_istream_t \<Rightarrow> pb_field_t \<Rightarrow> addr \<Rightarrow> pb_world \<Rightarrow> 's pb_dec_result"
type_synonym 's pb_msg_decoder = "'s pb_istream_t \<Rightarrow> pb_field_t list \<Rightarrow> addr \<Rightarrow> pb_world \<Rightarrow> 's pb_dec_result"

definition dec_error :: "'s pb_istream_t \<Rightarrow> string \<Rightarrow> pb_world \<Rightarrow> 's pb_dec_result" where
  "dec_error stream msg w = Some (False, is_fail stream msg, w)"

text \<open>A read of a value from the stream, \<^verbatim>\<open>if (!f(stream, &v)) return false;\<close>, in a function that
  also changes memory; and a call that only returns its status.\<close>

definition got :: "('v option \<times> 's pb_istream_t) option \<Rightarrow> pb_world
    \<Rightarrow> ('v \<Rightarrow> 's pb_istream_t \<Rightarrow> 's pb_dec_result) \<Rightarrow> 's pb_dec_result" where
  "got r w k = (case r of
      None \<Rightarrow> None
    | Some (None, s) \<Rightarrow> Some (False, s, w)
    | Some (Some v, s) \<Rightarrow> k v s)"

definition finish :: "(unit option \<times> 's pb_istream_t) option \<Rightarrow> pb_world \<Rightarrow> 's pb_dec_result" where
  "finish r w = got r w (\<lambda>_ s. Some (True, s, w))"

definition ok_then :: "'s pb_dec_result \<Rightarrow> ('s pb_istream_t \<Rightarrow> pb_world \<Rightarrow> 's pb_dec_result) \<Rightarrow> 's pb_dec_result" where
  "ok_then r k = (case r of
      None \<Rightarrow> None
    | Some (ok, s, w) \<Rightarrow> if ok then k s w else Some (False, s, w))"

lemma got_simps [simp]:
  "got None w k = None" "got (Some (None, s)) w k = Some (False, s, w)" "got (Some (Some v, s)) w k = k v s"
  by (simp_all add: got_def)

lemma ok_then_simps [simp]:
  "ok_then None k = None" "ok_then (Some (True, s, w)) k = k s w"
  "ok_then (Some (False, s, w)) k = Some (False, s, w)"
  by (simp_all add: ok_then_def)

section \<open>Decoders of single values\<close>

definition pb_decode_fixed32 :: "'s pb_istream_t \<Rightarrow> addr \<Rightarrow> pb_world \<Rightarrow> 's pb_dec_result" where
  "pb_decode_fixed32 stream dest w =
     got (pb_read_bytes stream 4) w (\<lambda>bs stream.
       Some (True, stream, store_mem (\<lambda>m. store32 m dest
         (push_bit 0 (ucast (bs ! 0)) OR push_bit 8 (ucast (bs ! 1))
          OR push_bit 16 (ucast (bs ! 2)) OR push_bit 24 (ucast (bs ! 3)))) w))"

definition pb_decode_fixed64 :: "'s pb_istream_t \<Rightarrow> addr \<Rightarrow> pb_world \<Rightarrow> 's pb_dec_result" where
  "pb_decode_fixed64 stream dest w =
     got (pb_read_bytes stream 8) w (\<lambda>bs stream.
       Some (True, stream, store_mem (\<lambda>m. store64 m dest
         (push_bit 0 (ucast (bs ! 0)) OR push_bit 8 (ucast (bs ! 1))
          OR push_bit 16 (ucast (bs ! 2)) OR push_bit 24 (ucast (bs ! 3))
          OR push_bit 32 (ucast (bs ! 4)) OR push_bit 40 (ucast (bs ! 5))
          OR push_bit 48 (ucast (bs ! 6)) OR push_bit 56 (ucast (bs ! 7)))) w))"

text \<open>The store of a value by the size of the field, and the value read back from there
  (\<^verbatim>\<open>clamped\<close>); \<^const>\<open>None\<close> for any other size.\<close>

definition write_signed :: "pb_size_t \<Rightarrow> addr \<Rightarrow> u64 \<Rightarrow> mem \<Rightarrow> (mem \<times> u64) option" where
  "write_signed data_size dest v m =
     (if data_size = 8 then Some (store64 m dest v, v)
      else if data_size = 4 then Some (store32 m dest (ucast v), scast (ucast v :: 32 word))
      else if data_size = 2 then Some (store16 m dest (ucast v), scast (ucast v :: 16 word))
      else if data_size = 1 then Some (store8 m dest (ucast v), scast (ucast v :: 8 word))
      else None)"

definition write_unsigned :: "pb_size_t \<Rightarrow> addr \<Rightarrow> u64 \<Rightarrow> mem \<Rightarrow> (mem \<times> u64) option" where
  "write_unsigned data_size dest v m =
     (if data_size = 8 then Some (store64 m dest v, v)
      else if data_size = 4 then Some (store32 m dest (ucast v), ucast (ucast v :: 32 word))
      else if data_size = 2 then Some (store16 m dest (ucast v), ucast (ucast v :: 16 word))
      else if data_size = 1 then Some (store8 m dest (ucast v), ucast (ucast v :: 8 word))
      else None)"

definition store_checked :: "(mem \<times> u64) option \<Rightarrow> u64 \<Rightarrow> 's pb_istream_t \<Rightarrow> pb_world \<Rightarrow> 's pb_dec_result" where
  "store_checked r value stream w =
     (case r of
        None \<Rightarrow> dec_error stream ''invalid data_size'' w
      | Some (m, clamped) \<Rightarrow>
          if clamped \<noteq> value then dec_error stream ''integer too large'' (w\<lparr>w_mem := m\<rparr>)
          else Some (True, stream, w\<lparr>w_mem := m\<rparr>))"

definition pb_dec_varint :: "'s pb_decoder_t" where
  "pb_dec_varint stream field dest w =
     got (pb_decode_varint stream) w (\<lambda>value stream.
       let svalue = (if f_data_size field = 8 then value else scast (ucast value :: 32 word)) in
       store_checked (write_signed (f_data_size field) dest svalue (w_mem w)) svalue stream w)"

definition pb_dec_uvarint :: "'s pb_decoder_t" where
  "pb_dec_uvarint stream field dest w =
     got (pb_decode_varint stream) w (\<lambda>value stream.
       store_checked (write_unsigned (f_data_size field) dest value (w_mem w)) value stream w)"

definition pb_dec_svarint :: "'s pb_decoder_t" where
  "pb_dec_svarint stream field dest w =
     got (pb_decode_svarint stream) w (\<lambda>value stream.
       store_checked (write_signed (f_data_size field) dest value (w_mem w)) value stream w)"

definition pb_dec_fixed32 :: "'s pb_decoder_t" where
  "pb_dec_fixed32 stream field dest w = pb_decode_fixed32 stream dest w"

definition pb_dec_fixed64 :: "'s pb_decoder_t" where
  "pb_dec_fixed64 stream field dest w = pb_decode_fixed64 stream dest w"

text \<open>\<^verbatim>\<open>allocate_field\<close>; the limit is \<open>2 ^ 32\<close> for the 64-bit \<^verbatim>\<open>size_t\<close>.\<close>

definition allocate_field :: "pb_allocator \<Rightarrow> 's pb_istream_t \<Rightarrow> addr \<Rightarrow> size_t \<Rightarrow> size_t \<Rightarrow> pb_world
    \<Rightarrow> 's pb_dec_result" where
  "allocate_field alloc stream pData data_size array_size w =
     (let ptr = load64 (w_mem w) pData; check_limit = (push_bit 32 1 :: size_t) in
      if data_size = 0 \<or> array_size = 0 then dec_error stream ''invalid size'' w
      else if (data_size \<ge> check_limit \<or> array_size \<ge> check_limit) \<and> (-1 :: size_t) div array_size < data_size
      then dec_error stream ''size too large'' w
      else case pb_realloc alloc ptr (array_size * data_size) w of
          None \<Rightarrow> None
        | Some (ptr, w) \<Rightarrow>
            if ptr = NULL then dec_error stream ''realloc failed'' w
            else Some (True, stream, store_mem (\<lambda>m. store64 m pData ptr) w))"

text \<open>A read into message memory, \<^verbatim>\<open>pb_read(stream, dest, count)\<close>.\<close>

definition read_into :: "'s pb_istream_t \<Rightarrow> addr \<Rightarrow> size_t \<Rightarrow> pb_world \<Rightarrow> 's pb_dec_result" where
  "read_into stream dest count w =
     (case pb_read stream (dest = NULL) count of
        None \<Rightarrow> None
      | Some (ok, bs, stream) \<Rightarrow>
          Some (ok, stream, if dest = NULL then w else store_mem (\<lambda>m. store_bytes m dest bs) w))"

definition pb_dec_bytes :: "pb_allocator \<Rightarrow> 's pb_decoder_t" where
  "pb_dec_bytes alloc stream field dest w =
     got (pb_decode_varint32 stream) w (\<lambda>sz stream.
       let alloc_size = PB_BYTES_ARRAY_T_ALLOCSIZE (ucast sz) in
       if sz > PB_SIZE_MAX then dec_error stream ''bytes overflow'' w
       else if ucast sz > alloc_size then dec_error stream ''size too large'' w
       else if atype field = PB_ATYPE_POINTER
       then ok_then (allocate_field alloc stream dest alloc_size 1 w) (\<lambda>stream w.
              let bdest = load64 (w_mem w) dest in
              read_into stream (bytes_array_bytes bdest) (ucast sz) (store_mem (\<lambda>m. store32 m bdest sz) w))
       else if alloc_size > ucast (f_data_size field) then dec_error stream ''bytes overflow'' w
       else read_into stream (bytes_array_bytes dest) (ucast sz) (store_mem (\<lambda>m. store32 m dest sz) w))"

text \<open>The terminating zero is stored whether the read succeeded or not. \<^verbatim>\<open>size + 1\<close> is computed in
  32 bits.\<close>

definition read_string :: "'s pb_istream_t \<Rightarrow> addr \<Rightarrow> u32 \<Rightarrow> pb_world \<Rightarrow> 's pb_dec_result" where
  "read_string stream dest sz w =
     map_option (\<lambda>(status, stream, w). (status, stream, store_mem (\<lambda>m. store8 m (dest + ucast sz) 0) w))
       (read_into stream dest (ucast sz) w)"

definition pb_dec_string :: "pb_allocator \<Rightarrow> 's pb_decoder_t" where
  "pb_dec_string alloc stream field dest w =
     got (pb_decode_varint32 stream) w (\<lambda>sz stream.
       let alloc_size = (ucast (sz + 1 :: u32) :: size_t) in
       if alloc_size < ucast sz then dec_error stream ''size too large'' w
       else if atype field = PB_ATYPE_POINTER
       then ok_then (allocate_field alloc stream dest alloc_size 1 w) (\<lambda>stream w.
              read_string stream (load64 (w_mem w) dest) sz w)
       else if alloc_size > ucast (f_data_size field) then dec_error stream ''string overflow'' w
       else read_string stream dest sz w)"

definition pb_dec_fixed_length_bytes :: "'s pb_decoder_t" where
  "pb_dec_fixed_length_bytes stream field dest w =
     got (pb_decode_varint32 stream) w (\<lambda>sz stream.
       if sz > PB_SIZE_MAX then dec_error stream ''bytes overflow'' w
       else if sz = 0 then Some (True, stream, store_mem (memset_zero dest (f_data_size field)) w)
       else if sz \<noteq> f_data_size field then dec_error stream ''incorrect fixed length bytes size'' w
       else read_into stream dest (ucast (f_data_size field)) w)"

section \<open>Default values\<close>

text \<open>An extension as a table of its one field.\<close>

definition iter_from_extension :: "'s pb_dec_env \<Rightarrow> mem \<Rightarrow> addr \<Rightarrow> pb_field_iter_t" where
  "iter_from_extension env m extension =
     (let field = et_arg (de_ext_type_at env (ext_type m extension));
          it = snd (pb_field_iter_begin [field] (ext_dest m extension))
      in it\<lparr>it_pData := (if atype field = PB_ATYPE_POINTER then ext_dest_addr extension
                        else ext_dest m extension),
            it_pSize := PSizeAt (ext_found_addr extension)\<rparr>)"

text \<open>A walk over an extension list of at most \<open>k\<close> elements.\<close>

fun ext_loop :: "nat \<Rightarrow> (addr \<Rightarrow> pb_world \<Rightarrow> pb_world option) \<Rightarrow> addr \<Rightarrow> pb_world \<Rightarrow> pb_world option" where
  "ext_loop 0 f ext w = (if ext = NULL then Some w else None)"
| "ext_loop (Suc k) f ext w =
     (if ext = NULL then Some w
      else case f ext w of
          None \<Rightarrow> None
        | Some w \<Rightarrow> ext_loop k f (ext_next (w_mem w) ext) w)"

text \<open>A loop over all fields of a message that changes memory only.\<close>

definition for_fields :: "(pb_field_iter_t \<Rightarrow> pb_world \<Rightarrow> pb_world option) \<Rightarrow> pb_field_t list \<Rightarrow> addr
    \<Rightarrow> pb_world \<Rightarrow> pb_world option" where
  "for_fields f fs dest_struct w =
     (case pb_field_iter_begin fs dest_struct of
        (False, iter) \<Rightarrow> Some w
      | (True, iter) \<Rightarrow> map_option snd (iter_loop (\<lambda>it w. map_option (Pair True) (f it w)) iter w))"

fun pb_field_set_to_default :: "nat \<Rightarrow> 's pb_dec_env \<Rightarrow> pb_field_iter_t \<Rightarrow> pb_world \<Rightarrow> pb_world option" where
  "pb_field_set_to_default 0 env iter w = None"
| "pb_field_set_to_default (Suc n) env iter w =
     (let field = it_field iter in
      if ltype field = PB_LTYPE_EXTENSION
      then ext_loop n (\<lambda>ext w.
             let w = store_mem (\<lambda>m. store_bool m (ext_found_addr ext) False) w in
             pb_field_set_to_default n env (iter_from_extension env (w_mem w) ext) w)
           (load64 (w_mem w) (it_pData iter)) w
      else if atype field = PB_ATYPE_STATIC
      then
        let has = htype field = PB_HTYPE_OPTIONAL \<and> it_pSize iter \<noteq> PSizeAt (it_pData iter);
            counted = htype field = PB_HTYPE_REPEATED \<or> htype field = PB_HTYPE_ONEOF;
            w = (if has then psize_set_bool (it_pSize iter) False w
                 else if counted then psize_set (it_pSize iter) 0 w else w)
        in
        if \<not> has \<and> counted then Some w
        else if ltype field = PB_LTYPE_SUBMESSAGE
        then for_fields (pb_field_set_to_default n env) (de_fields_at env (f_ptr field)) (it_pData iter) w
        else if f_ptr field \<noteq> NULL
        then Some (store_mem (memcpy (it_pData iter) (f_ptr field) (f_data_size field)) w)
        else Some (store_mem (memset_zero (it_pData iter) (f_data_size field)) w)
      else if atype field = PB_ATYPE_POINTER
      then
        let w = store_mem (\<lambda>m. store64 m (it_pData iter) NULL) w in
        Some (if htype field = PB_HTYPE_REPEATED \<or> htype field = PB_HTYPE_ONEOF
              then psize_set (it_pSize iter) 0 w else w)
      else Some w)"

definition pb_message_set_to_defaults :: "nat \<Rightarrow> 's pb_dec_env \<Rightarrow> pb_field_t list \<Rightarrow> addr \<Rightarrow> pb_world
    \<Rightarrow> pb_world option" where
  "pb_message_set_to_defaults n env fs dest_struct w = for_fields (pb_field_set_to_default n env) fs dest_struct w"

section \<open>Release of messages\<close>

text \<open>The loops \<^verbatim>\<open>while (count--)\<close> over the entries of an array. A null array is dereferenced if the
  count is not zero.\<close>

fun release_items :: "(addr \<Rightarrow> pb_world \<Rightarrow> pb_world option) \<Rightarrow> size_t \<Rightarrow> nat \<Rightarrow> addr \<Rightarrow> pb_world \<Rightarrow> pb_world option" where
  "release_items f step 0 pItem w = Some w"
| "release_items f step (Suc count) pItem w =
     (case f pItem w of
        None \<Rightarrow> None
      | Some w \<Rightarrow> release_items f step count (pItem + step) w)"

definition release_entry :: "addr \<Rightarrow> pb_world \<Rightarrow> pb_world option" where
  "release_entry pItem w =
     (if pItem = NULL then None
      else map_option (store_mem (\<lambda>m. store64 m pItem NULL)) (pb_free (load64 (w_mem w) pItem) w))"

definition pb_release_with :: "(pb_field_iter_t \<Rightarrow> pb_world \<Rightarrow> pb_world option) \<Rightarrow> pb_field_t list \<Rightarrow> addr
    \<Rightarrow> pb_world \<Rightarrow> pb_world option" where
  "pb_release_with f fs dest_struct w =
     (if dest_struct = NULL then Some w else for_fields f fs dest_struct w)"

text \<open>The number of sub-messages to release.\<close>

definition release_count :: "pb_field_iter_t \<Rightarrow> pb_world \<Rightarrow> pb_size_t" where
  "release_count iter w =
     (let field = it_field iter in
      if htype field = PB_HTYPE_REPEATED
      then
        let count = (if atype field = PB_ATYPE_STATIC \<and> it_pSize iter = PSizeAt (it_pData iter)
                     then f_array_size field else psize_get w (it_pSize iter))
        in if atype field = PB_ATYPE_STATIC \<and> count > f_array_size field then f_array_size field else count
      else 1)"

text \<open>The tail of \<^verbatim>\<open>pb_release_single_field\<close>: what the field's own pointer refers to.\<close>

definition release_pointer :: "pb_field_iter_t \<Rightarrow> pb_world \<Rightarrow> pb_world option" where
  "release_pointer iter w =
     (let field = it_field iter in
      if atype field \<noteq> PB_ATYPE_POINTER then Some w
      else
        case (if htype field = PB_HTYPE_REPEATED
                 \<and> (ltype field = PB_LTYPE_STRING \<or> ltype field = PB_LTYPE_BYTES)
              then release_items release_entry 8 (unat (psize_get w (it_pSize iter)))
                     (load64 (w_mem w) (it_pData iter)) w
              else Some w) of
          None \<Rightarrow> None
        | Some w \<Rightarrow>
            let w = (if htype field = PB_HTYPE_REPEATED then psize_set (it_pSize iter) 0 w else w) in
            map_option (store_mem (\<lambda>m. store64 m (it_pData iter) NULL))
              (pb_free (load64 (w_mem w) (it_pData iter)) w))"

fun pb_release_single_field :: "nat \<Rightarrow> 's pb_dec_env \<Rightarrow> pb_field_iter_t \<Rightarrow> pb_world \<Rightarrow> pb_world option" where
  "pb_release_single_field 0 env iter w = None"
| "pb_release_single_field (Suc n) env iter w =
     (let field = it_field iter in
      if htype field = PB_HTYPE_ONEOF \<and> psize_get w (it_pSize iter) \<noteq> f_tag field then Some w
      else
        case (if ltype field = PB_LTYPE_EXTENSION
              then ext_loop n (\<lambda>ext w.
                     pb_release_single_field n env (iter_from_extension env (w_mem w) ext) w)
                   (load64 (w_mem w) (it_pData iter)) w
              else if ltype field = PB_LTYPE_SUBMESSAGE
              then
                let pItem = (if atype field = PB_ATYPE_POINTER then load64 (w_mem w) (it_pData iter)
                             else it_pData iter)
                in if pItem = NULL then Some w
                   else release_items
                          (pb_release_with (pb_release_single_field n env) (de_fields_at env (f_ptr field)))
                          (ucast (f_data_size field)) (unat (release_count iter w)) pItem w
              else Some w) of
          None \<Rightarrow> None
        | Some w \<Rightarrow> release_pointer iter w)"

definition pb_release :: "nat \<Rightarrow> 's pb_dec_env \<Rightarrow> pb_field_t list \<Rightarrow> addr \<Rightarrow> pb_world \<Rightarrow> pb_world option" where
  "pb_release n env = pb_release_with (pb_release_single_field n env)"

text \<open>\<^verbatim>\<open>pb_release_union_field\<close> moves the iterator, which the caller goes on using.\<close>

definition pb_release_union_field :: "nat \<Rightarrow> 's pb_dec_env \<Rightarrow> 's pb_istream_t \<Rightarrow> pb_field_iter_t \<Rightarrow> pb_world
    \<Rightarrow> (bool \<times> pb_field_iter_t \<times> 's pb_istream_t \<times> pb_world) option" where
  "pb_release_union_field n env stream iter w =
     (let old_tag = psize_get w (it_pSize iter); new_tag = f_tag (it_field iter) in
      if old_tag = 0 then Some (True, iter, stream, w)
      else if old_tag = new_tag then Some (True, iter, stream, w)
      else case pb_field_iter_find iter old_tag of
          None \<Rightarrow> None
        | Some (False, iter) \<Rightarrow> Some (False, iter, is_fail stream ''invalid union tag'', w)
        | Some (True, iter) \<Rightarrow>
            (case pb_release_single_field n env iter w of
               None \<Rightarrow> None
             | Some w \<Rightarrow>
                 (case pb_field_iter_find iter new_tag of
                    None \<Rightarrow> None
                  | Some (False, iter) \<Rightarrow> Some (False, iter, is_fail stream ''iterator error'', w)
                  | Some (True, iter) \<Rightarrow> Some (True, iter, stream, w))))"

section \<open>Decoding of a field\<close>

text \<open>\<^verbatim>\<open>pb_decode\<close> in terms of \<^verbatim>\<open>pb_decode_noinit\<close>.\<close>

definition pb_decode_with :: "nat \<Rightarrow> 's pb_dec_env \<Rightarrow> 's pb_msg_decoder \<Rightarrow> 's pb_msg_decoder" where
  "pb_decode_with n env noinit stream fs dest_struct w =
     (case pb_message_set_to_defaults n env fs dest_struct w of
        None \<Rightarrow> None
      | Some w \<Rightarrow>
          (case noinit stream fs dest_struct w of
             None \<Rightarrow> None
           | Some (status, stream, w) \<Rightarrow>
               if status then Some (True, stream, w)
               else map_option (\<lambda>w. (False, stream, w)) (pb_release n env fs dest_struct w)))"

definition pb_dec_submessage :: "nat \<Rightarrow> 's pb_dec_env \<Rightarrow> 's pb_msg_decoder \<Rightarrow> 's pb_decoder_t" where
  "pb_dec_submessage n env dec stream field dest w =
     got (pb_make_string_substream stream) w (\<lambda>substream stream.
       if f_ptr field = NULL then dec_error stream ''invalid field descriptor'' w
       else
         let submsg_fields = de_fields_at env (f_ptr field) in
         case (if htype field = PB_HTYPE_REPEATED
               then pb_decode_with n env dec substream submsg_fields dest w
               else dec substream submsg_fields dest w) of
           None \<Rightarrow> None
         | Some (status, substream, w) \<Rightarrow>
             got (pb_close_string_substream stream substream) w (\<lambda>_ stream. Some (status, stream, w)))"

definition PB_DECODERS :: "nat \<Rightarrow> 's pb_dec_env \<Rightarrow> 's pb_msg_decoder \<Rightarrow> pb_type_t \<Rightarrow> 's pb_decoder_t option" where
  "PB_DECODERS n env dec lt =
     (if lt = PB_LTYPE_VARINT then Some pb_dec_varint
      else if lt = PB_LTYPE_UVARINT then Some pb_dec_uvarint
      else if lt = PB_LTYPE_SVARINT then Some pb_dec_svarint
      else if lt = PB_LTYPE_FIXED32 then Some pb_dec_fixed32
      else if lt = PB_LTYPE_FIXED64 then Some pb_dec_fixed64
      else if lt = PB_LTYPE_BYTES then Some (pb_dec_bytes (de_alloc env))
      else if lt = PB_LTYPE_STRING then Some (pb_dec_string (de_alloc env))
      else if lt = PB_LTYPE_SUBMESSAGE then Some (pb_dec_submessage n env dec)
      else if lt = PB_LTYPE_FIXED_LENGTH_BYTES then Some pb_dec_fixed_length_bytes
      else None)"

definition call_decoder :: "'s pb_decoder_t option \<Rightarrow> 's pb_decoder_t" where
  "call_decoder func stream field dest w =
     (case func of None \<Rightarrow> None | Some f \<Rightarrow> f stream field dest w)"

text \<open>The offset of an array entry, \<^verbatim>\<open>data_size * size\<close> in 32 bits.\<close>

definition item_at :: "addr \<Rightarrow> pb_field_t \<Rightarrow> pb_size_t \<Rightarrow> addr" where
  "item_at base field i = base + ucast (f_data_size field * i)"

fun static_packed_loop :: "nat \<Rightarrow> 's pb_decoder_t option \<Rightarrow> pb_field_iter_t \<Rightarrow> 's pb_istream_t \<Rightarrow> pb_world
    \<Rightarrow> 's pb_dec_result" where
  "static_packed_loop 0 func iter substream w = None"
| "static_packed_loop (Suc k) func iter substream w =
     (let sz = psize_get w (it_pSize iter) in
      if is_bytes_left substream > 0 \<and> sz < f_array_size (it_field iter)
      then ok_then (call_decoder func substream (it_field iter) (item_at (it_pData iter) (it_field iter) sz) w)
             (\<lambda>substream w. static_packed_loop k func iter substream
                (psize_set (it_pSize iter) (psize_get w (it_pSize iter) + 1) w))
      else Some (True, substream, w))"

definition decode_static_field :: "nat \<Rightarrow> 's pb_dec_env \<Rightarrow> 's pb_msg_decoder \<Rightarrow> 's pb_istream_t
    \<Rightarrow> pb_wire_type_t \<Rightarrow> pb_field_iter_t \<Rightarrow> pb_world \<Rightarrow> 's pb_dec_result" where
  "decode_static_field n env dec stream wire_type iter w =
     (let field = it_field iter; func = PB_DECODERS n env dec (ltype field) in
      if htype field = PB_HTYPE_REQUIRED then call_decoder func stream field (it_pData iter) w
      else if htype field = PB_HTYPE_OPTIONAL
      then call_decoder func stream field (it_pData iter)
             (if it_pSize iter \<noteq> PSizeAt (it_pData iter) then psize_set_bool (it_pSize iter) True w else w)
      else if htype field = PB_HTYPE_REPEATED
      then
        if wire_type = PB_WT_STRING \<and> ltype field \<le> PB_LTYPE_LAST_PACKABLE
        then got (pb_make_string_substream stream) w (\<lambda>substream stream.
               case static_packed_loop (Suc (unat (is_bytes_left substream))) func iter substream w of
                 None \<Rightarrow> None
               | Some (status, substream, w) \<Rightarrow>
                   if is_bytes_left substream \<noteq> 0 then dec_error stream ''array overflow'' w
                   else got (pb_close_string_substream stream substream) w
                          (\<lambda>_ stream. Some (status, stream, w)))
        else
          let sz = psize_get w (it_pSize iter); pItem = item_at (it_pData iter) field sz;
              w = psize_set (it_pSize iter) (sz + 1) w
          in if sz \<ge> f_array_size field then dec_error stream ''array overflow'' w
             else call_decoder func stream field pItem w
      else
        let w = psize_set (it_pSize iter) (f_tag field) w in
        if ltype field = PB_LTYPE_SUBMESSAGE
        then (case pb_message_set_to_defaults n env (de_fields_at env (f_ptr field)) (it_pData iter)
                     (store_mem (memset_zero (it_pData iter) (f_data_size field)) w) of
                None \<Rightarrow> None
              | Some w \<Rightarrow> call_decoder func stream field (it_pData iter) w)
        else call_decoder func stream field (it_pData iter) w)"

definition initialize_pointer_field :: "nat \<Rightarrow> 's pb_dec_env \<Rightarrow> addr \<Rightarrow> pb_field_iter_t \<Rightarrow> pb_world
    \<Rightarrow> pb_world option" where
  "initialize_pointer_field n env pItem iter w =
     (let field = it_field iter in
      if ltype field = PB_LTYPE_STRING \<or> ltype field = PB_LTYPE_BYTES
      then Some (store_mem (\<lambda>m. store64 m pItem NULL) w)
      else if ltype field = PB_LTYPE_SUBMESSAGE
      then pb_message_set_to_defaults n env (de_fields_at env (f_ptr field)) pItem
             (store_mem (memset_zero pItem (f_data_size field)) w)
      else Some w)"

text \<open>The loop over a packed array in allocated storage. The first component of the result is what
  the loop stores directly to \<^verbatim>\<open>stream->errmsg\<close>. A zero \<^verbatim>\<open>data_size\<close> divides by zero.\<close>

fun pointer_packed_loop :: "nat \<Rightarrow> nat \<Rightarrow> 's pb_dec_env \<Rightarrow> 's pb_decoder_t option \<Rightarrow> pb_field_iter_t
    \<Rightarrow> size_t \<Rightarrow> 's pb_istream_t \<Rightarrow> pb_world \<Rightarrow> (string option \<times> bool \<times> 's pb_istream_t \<times> pb_world) option" where
  "pointer_packed_loop 0 n env func iter allocated_size substream w = None"
| "pointer_packed_loop (Suc k) n env func iter allocated_size substream w =
     (if is_bytes_left substream = 0 then Some (None, True, substream, w)
      else
        let field = it_field iter; data_size = ucast (f_data_size field) :: size_t;
            sz = psize_get w (it_pSize iter);
            grow = ucast sz + 1 > allocated_size;
            new_size = (if grow then allocated_size + ((is_bytes_left substream - 1) div data_size + 1)
                        else allocated_size)
        in
        if grow \<and> f_data_size field = 0 then None
        else case (if grow then allocate_field (de_alloc env) substream (it_pData iter) data_size new_size w
                   else Some (True, substream, w)) of
            None \<Rightarrow> None
          | Some (False, substream, w) \<Rightarrow> Some (None, False, substream, w)
          | Some (True, substream, w) \<Rightarrow>
              (let pItem = item_at (load64 (w_mem w) (it_pData iter)) field (psize_get w (it_pSize iter)) in
               case initialize_pointer_field n env pItem iter w of
                 None \<Rightarrow> None
               | Some w \<Rightarrow>
                   (case call_decoder func substream field pItem w of
                      None \<Rightarrow> None
                    | Some (False, substream, w) \<Rightarrow> Some (None, False, substream, w)
                    | Some (True, substream, w) \<Rightarrow>
                        let sz = psize_get w (it_pSize iter) in
                        if sz = PB_SIZE_MAX then Some (Some ''too many array entries'', False, substream, w)
                        else pointer_packed_loop k n env func iter new_size substream
                               (psize_set (it_pSize iter) (sz + 1) w))))"

definition decode_pointer_field :: "nat \<Rightarrow> 's pb_dec_env \<Rightarrow> 's pb_msg_decoder \<Rightarrow> 's pb_istream_t
    \<Rightarrow> pb_wire_type_t \<Rightarrow> pb_field_iter_t \<Rightarrow> pb_world \<Rightarrow> 's pb_dec_result" where
  "decode_pointer_field n env dec stream wire_type iter w =
     (let field = it_field iter; func = PB_DECODERS n env dec (ltype field) in
      if htype field \<noteq> PB_HTYPE_REPEATED
      then
        case (if ltype field = PB_LTYPE_SUBMESSAGE \<and> load64 (w_mem w) (it_pData iter) \<noteq> NULL
              then pb_release_single_field n env iter w else Some w) of
          None \<Rightarrow> None
        | Some w \<Rightarrow>
            let w = (if htype field = PB_HTYPE_ONEOF then psize_set (it_pSize iter) (f_tag field) w else w) in
            if ltype field = PB_LTYPE_STRING \<or> ltype field = PB_LTYPE_BYTES
            then call_decoder func stream field (it_pData iter) w
            else ok_then (allocate_field (de_alloc env) stream (it_pData iter) (ucast (f_data_size field)) 1 w)
                   (\<lambda>stream w.
                     case initialize_pointer_field n env (load64 (w_mem w) (it_pData iter)) iter w of
                       None \<Rightarrow> None
                     | Some w \<Rightarrow> call_decoder func stream field (load64 (w_mem w) (it_pData iter)) w)
      else if wire_type = PB_WT_STRING \<and> ltype field \<le> PB_LTYPE_LAST_PACKABLE
      then
        let allocated_size = ucast (psize_get w (it_pSize iter)) in
        got (pb_make_string_substream stream) w (\<lambda>substream stream.
          case pointer_packed_loop (Suc (unat (is_bytes_left substream))) n env func iter allocated_size substream w of
            None \<Rightarrow> None
          | Some (msg, status, substream, w) \<Rightarrow>
              let stream = (case msg of None \<Rightarrow> stream | Some e \<Rightarrow> stream\<lparr>is_errmsg := Some e\<rparr>) in
              got (pb_close_string_substream stream substream) w (\<lambda>_ stream. Some (status, stream, w)))
      else
        let sz = psize_get w (it_pSize iter) in
        if sz = PB_SIZE_MAX then dec_error stream ''too many array entries'' w
        else
          let w = psize_set (it_pSize iter) (sz + 1) w in
          ok_then (allocate_field (de_alloc env) stream (it_pData iter) (ucast (f_data_size field))
                     (ucast (psize_get w (it_pSize iter))) w)
            (\<lambda>stream w.
              let pItem = item_at (load64 (w_mem w) (it_pData iter)) field (psize_get w (it_pSize iter) - 1) in
              case initialize_pointer_field n env pItem iter w of
                None \<Rightarrow> None
              | Some w \<Rightarrow> call_decoder func stream field pItem w))"

text \<open>The calls of a user callback until it has read its substream; \<open>k\<close> bounds their number.\<close>

fun callback_loop :: "nat \<Rightarrow> ('s pb_istream_t \<Rightarrow> pb_world \<Rightarrow> 's pb_dec_result) \<Rightarrow> 's pb_istream_t \<Rightarrow> pb_world
    \<Rightarrow> 's pb_dec_result" where
  "callback_loop 0 f substream w = None"
| "callback_loop (Suc k) f substream w =
     ok_then (f substream w) (\<lambda>substream w.
       if is_bytes_left substream \<noteq> 0 then callback_loop k f substream w else Some (True, substream, w))"

text \<open>\<^verbatim>\<open>arg = &(pCallback->arg)\<close>; the function pointer is read again in every round.\<close>

definition decode_callback_field :: "nat \<Rightarrow> 's pb_dec_env \<Rightarrow> 's pb_istream_t \<Rightarrow> pb_wire_type_t
    \<Rightarrow> pb_field_iter_t \<Rightarrow> pb_world \<Rightarrow> 's pb_dec_result" where
  "decode_callback_field n env stream wire_type iter w =
     (let pCallback = it_pData iter;
          decode = (\<lambda>substream w. let f = callback_func (w_mem w) pCallback in
                      if f = NULL then None
                      else de_callback env f substream (it_field iter) (callback_arg pCallback) w)
      in
      if pCallback = NULL \<or> callback_func (w_mem w) pCallback = NULL
      then finish (pb_skip_field stream wire_type) w
      else if wire_type = PB_WT_STRING
      then got (pb_make_string_substream stream) w (\<lambda>substream stream.
             case callback_loop n decode substream w of
               None \<Rightarrow> None
             | Some (False, substream, w) \<Rightarrow> dec_error stream ''callback failed'' w
             | Some (True, substream, w) \<Rightarrow> finish (pb_close_string_substream stream substream) w)
      else got (read_raw_value stream wire_type 10) w (\<lambda>buffer stream.
             map_option (\<lambda>(status, substream, w). (status, stream, w))
               (decode (pb_istream_from_buffer buffer (of_nat (length buffer))) w)))"

definition decode_field :: "nat \<Rightarrow> 's pb_dec_env \<Rightarrow> 's pb_msg_decoder \<Rightarrow> 's pb_istream_t
    \<Rightarrow> pb_wire_type_t \<Rightarrow> pb_field_iter_t \<Rightarrow> pb_world
    \<Rightarrow> (bool \<times> pb_field_iter_t \<times> 's pb_istream_t \<times> pb_world) option" where
  "decode_field n env dec stream wire_type iter w =
     (case (if htype (it_field iter) = PB_HTYPE_ONEOF then pb_release_union_field n env stream iter w
            else Some (True, iter, stream, w)) of
        None \<Rightarrow> None
      | Some (False, iter, stream, w) \<Rightarrow> Some (False, iter, stream, w)
      | Some (True, iter, stream, w) \<Rightarrow>
          map_option (\<lambda>(status, stream, w). (status, iter, stream, w))
            (if atype (it_field iter) = PB_ATYPE_STATIC
             then decode_static_field n env dec stream wire_type iter w
             else if atype (it_field iter) = PB_ATYPE_POINTER
             then decode_pointer_field n env dec stream wire_type iter w
             else if atype (it_field iter) = PB_ATYPE_CALLBACK
             then decode_callback_field n env stream wire_type iter w
             else dec_error stream ''invalid field type'' w))"

section \<open>Extensions\<close>

definition default_extension_decoder :: "nat \<Rightarrow> 's pb_dec_env \<Rightarrow> 's pb_msg_decoder \<Rightarrow> 's pb_istream_t
    \<Rightarrow> addr \<Rightarrow> u32 \<Rightarrow> pb_wire_type_t \<Rightarrow> pb_world \<Rightarrow> 's pb_dec_result" where
  "default_extension_decoder n env dec stream extension tag wire_type w =
     (let field = et_arg (de_ext_type_at env (ext_type (w_mem w) extension)) in
      if f_tag field \<noteq> tag then Some (True, stream, w)
      else
        let iter = iter_from_extension env (w_mem w) extension;
            w = store_mem (\<lambda>m. store_bool m (ext_found_addr extension) True) w
        in map_option (\<lambda>(status, iter, stream, w). (status, stream, w))
             (decode_field n env dec stream wire_type iter w))"

fun decode_extension_loop :: "nat \<Rightarrow> ('s pb_istream_t \<Rightarrow> addr \<Rightarrow> pb_world \<Rightarrow> 's pb_dec_result) \<Rightarrow> size_t
    \<Rightarrow> 's pb_istream_t \<Rightarrow> addr \<Rightarrow> pb_world \<Rightarrow> 's pb_dec_result" where
  "decode_extension_loop 0 f pos stream extension w =
     (if extension \<noteq> NULL \<and> pos = is_bytes_left stream then None else Some (True, stream, w))"
| "decode_extension_loop (Suc k) f pos stream extension w =
     (if extension \<noteq> NULL \<and> pos = is_bytes_left stream
      then ok_then (f stream extension w) (\<lambda>stream w.
             decode_extension_loop k f pos stream (ext_next (w_mem w) extension) w)
      else Some (True, stream, w))"

definition decode_extension :: "nat \<Rightarrow> 's pb_dec_env \<Rightarrow> 's pb_msg_decoder \<Rightarrow> 's pb_istream_t
    \<Rightarrow> u32 \<Rightarrow> pb_wire_type_t \<Rightarrow> pb_field_iter_t \<Rightarrow> pb_world \<Rightarrow> 's pb_dec_result" where
  "decode_extension n env dec stream tag wire_type iter w =
     decode_extension_loop n (\<lambda>stream extension w.
         let decode = et_decode (de_ext_type_at env (ext_type (w_mem w) extension)) in
         if decode \<noteq> NULL then de_ext_callback env decode stream extension tag wire_type w
         else default_extension_decoder n env dec stream extension tag wire_type w)
       (is_bytes_left stream) stream (load64 (w_mem w) (it_pData iter)) w"

definition find_extension_field :: "pb_field_iter_t \<Rightarrow> (bool \<times> pb_field_iter_t) option" where
  "find_extension_field it =
     iter_find_loop (Suc (length (it_start it))) (it_pos it) (\<lambda>f. ltype f = PB_LTYPE_EXTENSION) it"

section \<open>Decoding of a message\<close>

text \<open>The local variables of \<^verbatim>\<open>pb_decode_noinit\<close>; \<^verbatim>\<open>fixed_count_size\<close> is part of the world and
  \<^verbatim>\<open>fixed_count_field\<close> is the position of the field.\<close>

record pb_dec_frame =
  fr_iter :: pb_field_iter_t
  fr_extension_range_start :: u32
  fr_fixed_count_field :: "nat option"
  fr_fields_seen :: "u32 list"

type_synonym 's pb_frame_result = "(bool \<times> pb_dec_frame \<times> 's pb_istream_t \<times> pb_world) option"

definition skip_unknown :: "'s pb_istream_t \<Rightarrow> pb_wire_type_t \<Rightarrow> pb_dec_frame \<Rightarrow> pb_world \<Rightarrow> 's pb_frame_result" where
  "skip_unknown stream wire_type fr w =
     map_option (\<lambda>(ok, stream). (ok \<noteq> None, fr, stream, w)) (pb_skip_field stream wire_type)"

text \<open>A tag that is not in the table: try the extensions, then skip the field.\<close>

definition decode_unknown :: "nat \<Rightarrow> 's pb_dec_env \<Rightarrow> 's pb_msg_decoder \<Rightarrow> 's pb_istream_t
    \<Rightarrow> u32 \<Rightarrow> pb_wire_type_t \<Rightarrow> pb_dec_frame \<Rightarrow> pb_world \<Rightarrow> 's pb_frame_result" where
  "decode_unknown n env dec stream tag wire_type fr w =
     (if tag \<ge> fr_extension_range_start fr
      then (case find_extension_field (fr_iter fr) of
              None \<Rightarrow> None
            | Some (found, iter) \<Rightarrow>
                let start = (if found then f_tag (it_field iter) else -1);
                    fr = fr\<lparr>fr_iter := iter, fr_extension_range_start := start\<rparr>
                in
                if tag \<ge> start
                then (case decode_extension n env dec stream tag wire_type iter w of
                        None \<Rightarrow> None
                      | Some (False, stream, w) \<Rightarrow> Some (False, fr, stream, w)
                      | Some (True, stream', w) \<Rightarrow>
                          if is_bytes_left stream \<noteq> is_bytes_left stream' then Some (True, fr, stream', w)
                          else skip_unknown stream' wire_type fr w)
                else skip_unknown stream wire_type fr w)
      else skip_unknown stream wire_type fr w)"

text \<open>A repeated field without a count in the struct counts in \<^verbatim>\<open>fixed_count_size\<close>. The result is
  \<^const>\<open>None\<close> when the previous such field is incomplete.\<close>

definition fixed_count_done :: "pb_dec_frame \<Rightarrow> pb_world \<Rightarrow> bool" where
  "fixed_count_done fr w =
     (case fr_fixed_count_field fr of
        None \<Rightarrow> True
      | Some i \<Rightarrow> w_fixed_count_size w = f_array_size (field_at (it_start (fr_iter fr)) i))"

definition select_fixed_count :: "pb_dec_frame \<Rightarrow> pb_world \<Rightarrow> (pb_dec_frame \<times> pb_world) option" where
  "select_fixed_count fr w =
     (let iter = fr_iter fr in
      if htype (it_field iter) = PB_HTYPE_REPEATED \<and> it_pSize iter = PSizeAt (it_pData iter)
      then
        let fr' = fr\<lparr>fr_iter := iter\<lparr>it_pSize := PSizeFixedCount\<rparr>\<rparr> in
        if fr_fixed_count_field fr \<noteq> Some (it_pos iter)
        then if fixed_count_done fr w
             then Some (fr'\<lparr>fr_fixed_count_field := Some (it_pos iter)\<rparr>, w\<lparr>w_fixed_count_size := 0\<rparr>)
             else None
        else Some (fr', w)
      else Some (fr, w))"

definition mark_required :: "pb_dec_frame \<Rightarrow> pb_dec_frame" where
  "mark_required fr =
     (let iter = fr_iter fr; i = it_required_field_index iter in
      if htype (it_field iter) = PB_HTYPE_REQUIRED \<and> i < PB_MAX_REQUIRED_FIELDS
      then
        let k = unat (drop_bit 5 i); tmp = push_bit (unat (i AND 31)) 1 in
        fr\<lparr>fr_fields_seen := (fr_fields_seen fr)[k := fr_fields_seen fr ! k OR tmp]\<rparr>
      else fr)"

text \<open>One round of the main loop after the tag has been read.\<close>

definition decode_tagged :: "nat \<Rightarrow> 's pb_dec_env \<Rightarrow> 's pb_msg_decoder \<Rightarrow> 's pb_istream_t
    \<Rightarrow> u32 \<Rightarrow> pb_wire_type_t \<Rightarrow> pb_dec_frame \<Rightarrow> pb_world \<Rightarrow> 's pb_frame_result" where
  "decode_tagged n env dec stream tag wire_type fr w =
     (case pb_field_iter_find (fr_iter fr) tag of
        None \<Rightarrow> None
      | Some (False, iter) \<Rightarrow> decode_unknown n env dec stream tag wire_type (fr\<lparr>fr_iter := iter\<rparr>) w
      | Some (True, iter) \<Rightarrow>
          (case select_fixed_count (fr\<lparr>fr_iter := iter\<rparr>) w of
             None \<Rightarrow> Some (False, fr, is_fail stream ''wrong size for fixed count field'', w)
           | Some (fr, w) \<Rightarrow>
               let fr = mark_required fr in
               map_option (\<lambda>(status, iter, stream, w). (status, fr\<lparr>fr_iter := iter\<rparr>, stream, w))
                 (decode_field n env dec stream wire_type (fr_iter fr) w)))"

fun decode_loop :: "nat \<Rightarrow> nat \<Rightarrow> 's pb_dec_env \<Rightarrow> 's pb_msg_decoder \<Rightarrow> 's pb_istream_t
    \<Rightarrow> pb_dec_frame \<Rightarrow> pb_world \<Rightarrow> 's pb_frame_result" where
  "decode_loop 0 n env dec stream fr w = None"
| "decode_loop (Suc k) n env dec stream fr w =
     (if is_bytes_left stream = 0 then Some (True, fr, stream, w)
      else case pb_decode_tag stream of
          None \<Rightarrow> None
        | Some (Inl eof, stream) \<Rightarrow> Some (eof, fr, stream, w)
        | Some (Inr (wire_type, tag), stream) \<Rightarrow>
            (case decode_tagged n env dec stream tag wire_type fr w of
               None \<Rightarrow> None
             | Some (False, fr, stream, w) \<Rightarrow> Some (False, fr, stream, w)
             | Some (True, fr, stream, w) \<Rightarrow> decode_loop k n env dec stream fr w))"

text \<open>The walk to the end of the table: \<^verbatim>\<open>req_field_count\<close>, \<^verbatim>\<open>last_type\<close> and the iterator.\<close>

function seek_end :: "pb_field_iter_t \<Rightarrow> u32 \<times> pb_type_t \<times> pb_field_iter_t" where
  "seek_end it =
     (case pb_field_iter_next it of
        (True, it') \<Rightarrow> seek_end it'
      | (False, it') \<Rightarrow> (it_required_field_index it, f_type (it_field it), it'))"
  by pat_completeness auto
termination
  by (relation "measure (\<lambda>it. length (it_start it) - it_pos it)")
    (auto dest!: sym [of "(True, _)"] next_True_pos)

declare seek_end.simps [simp del]

definition req_field_count :: "pb_field_iter_t \<Rightarrow> u32" where
  "req_field_count it =
     (case seek_end it of (count, last_type, it') \<Rightarrow>
        let count = (if PB_HTYPE last_type = PB_HTYPE_REQUIRED \<and> f_tag (it_field it') \<noteq> 0
                     then count + 1 else count)
        in if count > PB_MAX_REQUIRED_FIELDS then PB_MAX_REQUIRED_FIELDS else count)"

definition all_required_seen :: "u32 \<Rightarrow> u32 list \<Rightarrow> bool" where
  "all_required_seen count seen \<longleftrightarrow>
     count = 0 \<or>
     list_all (\<lambda>i. seen ! i = -1) [0..<unat (drop_bit 5 count)]
     \<and> (count AND 31 \<noteq> 0 \<longrightarrow>
          seen ! unat (drop_bit 5 count) = drop_bit (32 - unat (count AND 31)) (-1))"

definition noinit_body :: "nat \<Rightarrow> 's pb_dec_env \<Rightarrow> 's pb_msg_decoder \<Rightarrow> 's pb_msg_decoder" where
  "noinit_body n env dec stream fs dest_struct w =
     (let fr = \<lparr>fr_iter = snd (pb_field_iter_begin fs dest_struct), fr_extension_range_start = 0,
                fr_fixed_count_field = None, fr_fields_seen = [0, 0]\<rparr>
      in
      case decode_loop (Suc (unat (is_bytes_left stream))) n env dec stream fr (w\<lparr>w_fixed_count_size := 0\<rparr>) of
        None \<Rightarrow> None
      | Some (False, fr, stream, w') \<Rightarrow> Some (False, stream, w')
      | Some (True, fr, stream, w') \<Rightarrow>
          if \<not> fixed_count_done fr w'
          then dec_error stream ''wrong size for fixed count field'' w'
          else if \<not> all_required_seen (req_field_count (fr_iter fr)) (fr_fields_seen fr)
          then dec_error stream ''missing required field'' w'
          else Some (True, stream, w'))"

text \<open>The caller's \<^verbatim>\<open>fixed_count_size\<close> is untouched by a call.\<close>

fun pb_decode_noinit :: "nat \<Rightarrow> 's pb_dec_env \<Rightarrow> 's pb_msg_decoder" where
  "pb_decode_noinit 0 env stream fs dest_struct w = None"
| "pb_decode_noinit (Suc n) env stream fs dest_struct w =
     map_option (\<lambda>(status, stream, w'). (status, stream, w'\<lparr>w_fixed_count_size := w_fixed_count_size w\<rparr>))
       (noinit_body n env (pb_decode_noinit n env) stream fs dest_struct w)"

definition pb_decode :: "nat \<Rightarrow> 's pb_dec_env \<Rightarrow> 's pb_msg_decoder" where
  "pb_decode n env = pb_decode_with n env (pb_decode_noinit n env)"

definition decode_delimited_with :: "'s pb_msg_decoder \<Rightarrow> 's pb_msg_decoder" where
  "decode_delimited_with dec stream fs dest_struct w =
     got (pb_make_string_substream stream) w (\<lambda>substream stream.
       case dec substream fs dest_struct w of
         None \<Rightarrow> None
       | Some (status, substream, w) \<Rightarrow>
           got (pb_close_string_substream stream substream) w (\<lambda>_ stream. Some (status, stream, w)))"

definition pb_decode_delimited_noinit :: "nat \<Rightarrow> 's pb_dec_env \<Rightarrow> 's pb_msg_decoder" where
  "pb_decode_delimited_noinit n env = decode_delimited_with (pb_decode_noinit n env)"

definition pb_decode_delimited :: "nat \<Rightarrow> 's pb_dec_env \<Rightarrow> 's pb_msg_decoder" where
  "pb_decode_delimited n env = decode_delimited_with (pb_decode n env)"

definition pb_decode_nullterminated :: "nat \<Rightarrow> 's pb_dec_env \<Rightarrow> 's pb_msg_decoder" where
  "pb_decode_nullterminated n env = pb_decode n env"

end
