(* ===== verification/Pb_Roundtrip.thy ===== *)
theory Pb_Roundtrip
  imports Pb_Istream_Correct Pb_Decode
begin

text \<open>
  Decoding what was encoded. The decoder of each scalar type stores the bytes that the encoder of the
  type read: \<open>stores f bs g\<close> says that a decoder that meets \<open>bs\<close> on its stream succeeds, moves behind
  them and changes the world by \<open>g\<close>.
\<close>

section \<open>Memory images of scalars\<close>

lemma bytes_of_load16 [simp]: "bytes_of_word 2 (load16 m a) = load_bytes m a 2"
  using bytes_of_word_of_bytes [of "load_bytes m a 2", where ?'a = 16] by (simp add: load16_def)

lemma store_load_bytes:
  "store64 m' d (load64 m s) = store_bytes m' d (load_bytes m s 8)"
  "store32 m' d (load32 m s) = store_bytes m' d (load_bytes m s 4)"
  "store16 m' d (load16 m s) = store_bytes m' d (load_bytes m s 2)"
  "store8 m' d (load8 m s) = store_bytes m' d (load_bytes m s 1)"
  by (simp_all add: store64_def store32_def store16_def store8_def load8_def)

lemma ucast_scast:
  "(ucast (scast (x :: 32 word) :: 64 word) :: 32 word) = x"
  "(ucast (scast (y :: 16 word) :: 64 word) :: 16 word) = y"
  "(ucast (scast (z :: 8 word) :: 64 word) :: 8 word) = z"
  "(ucast (ucast (y :: 16 word) :: 64 word) :: 16 word) = y"
  "(ucast (ucast (z :: 8 word) :: 64 word) :: 8 word) = z"
  by (rule bit_word_eqI; auto simp: bit_simps)+

lemma scast_ucast_32:
  "scast (ucast (scast (x :: 32 word) :: 64 word) :: 32 word) = (scast x :: 64 word)"
  "scast (ucast (scast (y :: 16 word) :: 64 word) :: 32 word) = (scast y :: 64 word)"
  "scast (ucast (scast (z :: 8 word) :: 64 word) :: 32 word) = (scast z :: 64 word)"
  by (rule bit_word_eqI; auto simp: bit_simps min_def)+

lemma write_read_signed:
  "read_signed m sz src = Some v \<Longrightarrow>
   write_signed sz dest v m' = Some (store_bytes m' dest (load_bytes m src (unat sz)), v)"
  by (auto simp: read_signed_def write_signed_def ucast_scast store_load_bytes split: if_splits)

lemma write_read_unsigned:
  "read_unsigned m sz src = Some v \<Longrightarrow>
   write_unsigned sz dest v m' = Some (store_bytes m' dest (load_bytes m src (unat sz)), v)"
  by (auto simp: read_unsigned_def write_unsigned_def ucast_scast ucast_ucast_32 store_load_bytes split: if_splits)

lemma clamp_read_signed:
  "read_signed m sz src = Some v \<Longrightarrow> sz \<noteq> 8 \<Longrightarrow> scast (ucast v :: 32 word) = v"
  by (auto simp: read_signed_def scast_ucast_32 split: if_splits)

lemma word_of_4: "length bs = 4 \<Longrightarrow>
   store32 m d (push_bit 0 (ucast (bs ! 0)) OR push_bit 8 (ucast (bs ! 1))
     OR push_bit 16 (ucast (bs ! 2)) OR push_bit 24 (ucast (bs ! 3))) = store_bytes m d bs"
proof -
  assume len: "length bs = 4"
  then obtain a b c e where bs: "bs = [a, b, c, e]"
    by (auto simp: numeral_eq_Suc length_Suc_conv)
  have "(push_bit 0 (ucast (bs ! 0)) OR push_bit 8 (ucast (bs ! 1))
     OR push_bit 16 (ucast (bs ! 2)) OR push_bit 24 (ucast (bs ! 3)) :: 32 word) = word_of_bytes bs"
    by (simp add: bs)
  with len show ?thesis
    using bytes_of_word_of_bytes [of bs, where ?'a = 32] by (simp add: store32_def)
qed

lemma word_of_8: "length bs = 8 \<Longrightarrow>
   store64 m d (push_bit 0 (ucast (bs ! 0)) OR push_bit 8 (ucast (bs ! 1))
     OR push_bit 16 (ucast (bs ! 2)) OR push_bit 24 (ucast (bs ! 3))
     OR push_bit 32 (ucast (bs ! 4)) OR push_bit 40 (ucast (bs ! 5))
     OR push_bit 48 (ucast (bs ! 6)) OR push_bit 56 (ucast (bs ! 7))) = store_bytes m d bs"
proof -
  assume len: "length bs = 8"
  then obtain a b c e f g h i where bs: "bs = [a, b, c, e, f, g, h, i]"
    by (auto simp: numeral_eq_Suc length_Suc_conv)
  have "(push_bit 0 (ucast (bs ! 0)) OR push_bit 8 (ucast (bs ! 1))
     OR push_bit 16 (ucast (bs ! 2)) OR push_bit 24 (ucast (bs ! 3))
     OR push_bit 32 (ucast (bs ! 4)) OR push_bit 40 (ucast (bs ! 5))
     OR push_bit 48 (ucast (bs ! 6)) OR push_bit 56 (ucast (bs ! 7)) :: 64 word) = word_of_bytes bs"
    by (simp add: bs)
  with len show ?thesis
    using bytes_of_word_of_bytes [of bs, where ?'a = 64] by (simp add: store64_def)
qed

section \<open>Decoders of scalars\<close>

context byte_source
begin

definition stores :: "('s pb_istream_t \<Rightarrow> pb_world \<Rightarrow> 's pb_dec_result) \<Rightarrow> byte list \<Rightarrow> (pb_world \<Rightarrow> pb_world) \<Rightarrow> bool" where
  "stores f bs g \<longleftrightarrow>
     (\<forall>s rest w. pending (is_source s) = Some (bs @ rest) \<and> length bs \<le> unat (is_bytes_left s) \<longrightarrow>
        (\<exists>src. pending src = Some rest \<and> f s w = Some (True, moved s (length bs) src, g w)))"

lemma storesE:
  assumes "stores f bs g" "pending (is_source s) = Some (bs @ rest)" "length bs \<le> unat (is_bytes_left s)"
  obtains src where "pending src = Some rest" "f s w = Some (True, moved s (length bs) src, g w)"
  using assms unfolding stores_def by blast

lemma stores_cong: "stores f bs g \<Longrightarrow> (\<And>s w. f' s w = f s w) \<Longrightarrow> stores f' bs g"
  by (simp add: stores_def)

lemma stores_got:
  assumes "parses r as v" "stores (k v) bs g"
  shows "stores (\<lambda>s w. got (r s) w (\<lambda>v s. k v s w)) (as @ bs) g"
  unfolding stores_def
proof (intro allI impI, elim conjE)
  fix s :: "'s pb_istream_t" and rest w
  assume p: "pending (is_source s) = Some ((as @ bs) @ rest)" and len: "length (as @ bs) \<le> unat (is_bytes_left s)"
  from assms(1) obtain src where src: "pending src = Some (bs @ rest)" "r s = Some (Some v, moved s (length as) src)"
    using p len by (elim parsesE [of r as v s "bs @ rest"]) auto
  have "length bs \<le> unat (is_bytes_left (moved s (length as) src))"
    using len by (simp add: unat_moved)
  with assms(2) src(1) obtain src' where "pending src' = Some rest"
    "k v (moved s (length as) src) w = Some (True, moved s (length as + length bs) src', g w)"
    by (elim storesE [of "k v" bs g]) auto
  with src(2) show "\<exists>src. pending src = Some rest \<and>
      got (r s) w (\<lambda>v s. k v s w) = Some (True, moved s (length (as @ bs)) src, g w)"
    by auto
qed

lemma stores_ret: "stores (\<lambda>s w. Some (True, s, g w)) [] g"
  unfolding stores_def by (auto simp: moved_def)

lemma stores_value:
  "parses r bs v \<Longrightarrow> (\<And>s w. k v s w = Some (True, s, g w)) \<Longrightarrow>
   stores (\<lambda>s w. got (r s) w (\<lambda>v s. k v s w)) bs g"
  using stores_got [of r bs v k "[]" g] stores_cong [OF stores_ret, of "k v" g] by simp

abbreviation put :: "addr \<Rightarrow> byte list \<Rightarrow> pb_world \<Rightarrow> pb_world" where
  "put dest bs \<equiv> store_mem (\<lambda>m. store_bytes m dest bs)"

lemma stores_varint:
  assumes "read_signed m (f_data_size field) src = Some v"
  shows "stores (\<lambda>s w. pb_dec_varint s field dest w) (varint_bytes v)
    (put dest (load_bytes m src (unat (f_data_size field))))"
proof -
  have sv: "(if f_data_size field = 8 then v else scast (ucast v :: 32 word)) = v"
    using clamp_read_signed [OF assms] by simp
  show ?thesis
    unfolding pb_dec_varint_def
    by (intro stores_value [OF parses_varint], unfold Let_def sv write_read_signed [OF assms])
      (simp add: store_checked_def)
qed

lemma stores_uvarint:
  assumes "read_unsigned m (f_data_size field) src = Some v"
  shows "stores (\<lambda>s w. pb_dec_uvarint s field dest w) (varint_bytes v)
    (put dest (load_bytes m src (unat (f_data_size field))))"
  unfolding pb_dec_uvarint_def
  using write_read_unsigned [OF assms]
  by (intro stores_value [OF parses_varint]) (simp add: store_checked_def)

lemma stores_svarint:
  assumes "read_signed m (f_data_size field) src = Some v"
  shows "stores (\<lambda>s w. pb_dec_svarint s field dest w) (varint_bytes (zigzag v))
    (put dest (load_bytes m src (unat (f_data_size field))))"
  unfolding pb_dec_svarint_def
  using write_read_signed [OF assms]
  by (intro stores_value [OF parses_svarint]) (simp add: store_checked_def)

lemma stores_fixed32:
  "stores (\<lambda>s w. pb_dec_fixed32 s field dest w) (load_bytes m src 4) (put dest (load_bytes m src 4))"
  unfolding pb_dec_fixed32_def pb_decode_fixed32_def
  by (intro stores_value [OF parses_read_bytes]) (simp, simp only: word_of_4 length_load_bytes)

lemma stores_fixed64:
  "stores (\<lambda>s w. pb_dec_fixed64 s field dest w) (load_bytes m src 8) (put dest (load_bytes m src 8))"
  unfolding pb_dec_fixed64_def pb_decode_fixed64_def
  by (intro stores_value [OF parses_read_bytes]) (simp, simp only: word_of_8 length_load_bytes)

lemma stores_read_into:
  assumes "dest \<noteq> NULL" "count = of_nat (length bs)"
  shows "stores (\<lambda>s w. read_into s dest count (g w)) bs (put dest bs \<circ> g)"
  unfolding stores_def
proof (intro allI impI, elim conjE)
  fix s :: "'s pb_istream_t" and rest w
  assume "pending (is_source s) = Some (bs @ rest)" "length bs \<le> unat (is_bytes_left s)"
  from read_chunk_pending [OF this] obtain src where "pending src = Some rest"
    "read_chunk s (of_nat (length bs)) = Some (True, bs, moved s (length bs) src)" by blast
  with assms show "\<exists>src. pending src = Some rest \<and>
      read_into s dest count (g w) = Some (True, moved s (length bs) src, (put dest bs \<circ> g) w)"
    by (auto simp: read_into_def pb_read_def split: pb_source.split)
qed

end

section \<open>The image of an item\<close>

lemma store_bytes_append:
  "store_bytes m a (xs @ ys) = store_bytes (store_bytes m a xs) (a + of_nat (length xs)) ys"
  by (induction xs arbitrary: m a) (simp_all add: algebra_simps)

lemma load_bytes_add: "load_bytes m a (i + j) = load_bytes m a i @ load_bytes m (a + of_nat i) j"
  by (induction i arbitrary: a) (simp_all add: algebra_simps)

text \<open>The bytes of the message struct that make up an item, a string with its terminator.\<close>

definition item_image :: "mem \<Rightarrow> pb_field_t \<Rightarrow> addr \<Rightarrow> byte list" where
  "item_image m field src =
     (if ltype field = PB_LTYPE_FIXED32 then load_bytes m src 4
      else if ltype field = PB_LTYPE_FIXED64 then load_bytes m src 8
      else if ltype field = PB_LTYPE_BYTES then load_bytes m src (4 + unat (bytes_array_size m src))
      else if ltype field = PB_LTYPE_STRING then c_string m src (unat (f_data_size field)) @ [0]
      else load_bytes m src (unat (f_data_size field)))"

text \<open>A static item that the decoder can take back: not a sub-message, and a string that is
  terminated inside its array.\<close>

definition plain_item :: "mem \<Rightarrow> pb_field_t \<Rightarrow> addr \<Rightarrow> bool" where
  "plain_item m field src \<longleftrightarrow> src \<noteq> NULL \<and> atype field = PB_ATYPE_STATIC \<and> ltype field \<noteq> PB_LTYPE_SUBMESSAGE
     \<and> (ltype field = PB_LTYPE_STRING \<longrightarrow> length (c_string m src (unat (f_data_size field))) < unat (f_data_size field))"

context byte_source
begin

lemma stores_delimited:
  assumes len: "length bs < 2 ^ 32" and k: "stores (k (of_nat (length bs))) bs g"
  shows "stores (\<lambda>s w. got (pb_decode_varint32 s) w (\<lambda>sz s. k sz s w)) (delimited bs) g"
  using stores_got [where k = k, OF parses_varint32 k] len by (simp add: delimited_def of_nat_64_32)

lemma stores_fixed_length_bytes:
  assumes "dest \<noteq> NULL" "f_data_size field \<noteq> 0"
  shows "stores (\<lambda>s w. pb_dec_fixed_length_bytes s field dest w)
    (delimited (load_bytes m src (unat (f_data_size field))))
    (put dest (load_bytes m src (unat (f_data_size field))))"
proof -
  let ?bs = "load_bytes m src (unat (f_data_size field))"
  have len: "length ?bs < 2 ^ 32" using unat_less_32 [of "f_data_size field"] by simp
  have rd: "stores (\<lambda>s w. read_into s dest (ucast (f_data_size field)) w) ?bs (put dest ?bs)"
    using stores_read_into [of dest "ucast (f_data_size field)" ?bs "\<lambda>w. w"] assms by (simp add: o_def)
  have "stores (\<lambda>s w. got (pb_decode_varint32 s) w (\<lambda>sz s.
      if sz > PB_SIZE_MAX then dec_error s ''bytes overflow'' w
      else if sz = 0 then Some (True, s, store_mem (memset_zero dest (f_data_size field)) w)
      else if sz \<noteq> f_data_size field then dec_error s ''incorrect fixed length bytes size'' w
      else read_into s dest (ucast (f_data_size field)) w)) (delimited ?bs) (put dest ?bs)"
    by (rule stores_delimited [OF len], rule stores_cong [OF rd]) (use assms(2) in simp)
  then show ?thesis
    by (rule stores_cong) (rule pb_dec_fixed_length_bytes_def)
qed

lemma stores_bytes:
  assumes dest: "dest + 4 \<noteq> NULL" and st: "atype field = PB_ATYPE_STATIC"
    and fit: "unat (bytes_array_size m src) + 4 \<le> unat (f_data_size field)"
  shows "stores (\<lambda>s w. pb_dec_bytes alloc s field dest w)
    (delimited (load_bytes m (src + 4) (unat (bytes_array_size m src))))
    (put dest (load_bytes m src (4 + unat (bytes_array_size m src))))"
proof -
  let ?sz = "bytes_array_size m src"
  let ?bs = "load_bytes m (src + 4) (unat ?sz)"
  have lt: "unat ?sz < 2 ^ 32" using unat_less_32 [of ?sz] by simp
  then have u: "unat (ucast ?sz + 4 :: 64 word) = unat ?sz + 4"
    using unat_add_small [of "ucast ?sz" 4] by simp
  have guards: "\<not> ?sz > PB_SIZE_MAX" "\<not> ucast ?sz > PB_BYTES_ARRAY_T_ALLOCSIZE (ucast ?sz)"
    "\<not> PB_BYTES_ARRAY_T_ALLOCSIZE (ucast ?sz) > ucast (f_data_size field)" "atype field \<noteq> PB_ATYPE_POINTER"
    using u fit lt st by (auto simp: PB_BYTES_ARRAY_T_ALLOCSIZE_def word_less_nat_alt)
  have "store_bytes (store32 mm dest ?sz) (dest + 4) ?bs = store_bytes mm dest (load_bytes m src (4 + unat ?sz))" for mm
    using store_bytes_append [of mm dest "load_bytes m src 4" ?bs] load_bytes_add [of m src 4 "unat ?sz"]
    by (simp add: bytes_array_size_def store_load_bytes)
  then have "put (dest + 4) ?bs \<circ> store_mem (\<lambda>mm. store32 mm dest ?sz)
      = put dest (load_bytes m src (4 + unat ?sz))"
    by auto
  with stores_read_into [OF dest, of "ucast ?sz" ?bs "store_mem (\<lambda>mm. store32 mm dest ?sz)"]
  have rd: "stores (\<lambda>s w. read_into s (dest + 4) (ucast ?sz) (store_mem (\<lambda>mm. store32 mm dest ?sz) w)) ?bs
      (put dest (load_bytes m src (4 + unat ?sz)))"
    by simp
  have len: "length ?bs < 2 ^ 32" and sz: "of_nat (length ?bs) = ?sz" using lt by simp_all
  have "stores (\<lambda>s w. got (pb_decode_varint32 s) w (\<lambda>sz s.
       let alloc_size = PB_BYTES_ARRAY_T_ALLOCSIZE (ucast sz) in
       if sz > PB_SIZE_MAX then dec_error s ''bytes overflow'' w
       else if ucast sz > alloc_size then dec_error s ''size too large'' w
       else if atype field = PB_ATYPE_POINTER
       then ok_then (allocate_field alloc s dest alloc_size 1 w) (\<lambda>s w.
              let bdest = load64 (w_mem w) dest in
              read_into s (bytes_array_bytes bdest) (ucast sz) (store_mem (\<lambda>m. store32 m bdest sz) w))
       else if alloc_size > ucast (f_data_size field) then dec_error s ''bytes overflow'' w
       else read_into s (bytes_array_bytes dest) (ucast sz) (store_mem (\<lambda>m. store32 m dest sz) w)))
     (delimited ?bs) (put dest (load_bytes m src (4 + unat ?sz)))"
    by (rule stores_delimited [OF len], unfold sz, rule stores_cong [OF rd])
      (use guards in \<open>simp only: Let_def if_False\<close>)
  then show ?thesis
    by (rule stores_cong) (rule pb_dec_bytes_def)
qed

lemma stores_string:
  assumes dest: "dest \<noteq> NULL" and st: "atype field = PB_ATYPE_STATIC" and fit: "length bs < unat (f_data_size field)"
  shows "stores (\<lambda>s w. pb_dec_string alloc s field dest w) (delimited bs) (put dest (bs @ [0]))"
proof -
  let ?sz = "of_nat (length bs) :: u32"
  have lt: "length bs < 2 ^ 32" using fit unat_less_32 [of "f_data_size field"] by simp
  then have sz: "unat ?sz = length bs" by (intro unat_of_nat_small) simp
  have "unat (?sz + 1) = length bs + 1"
    using sz fit unat_less_32 [of "f_data_size field"] by (simp add: unat_word_ariths)
  then have guards: "\<not> (ucast (?sz + 1) :: size_t) < ucast ?sz"
    "\<not> (ucast (?sz + 1) :: size_t) > ucast (f_data_size field)" "atype field \<noteq> PB_ATYPE_POINTER"
    using sz fit st by (simp_all add: word_less_nat_alt)
  have up: "(ucast ?sz :: size_t) = of_nat (length bs)" using lt by (simp add: of_nat_64_32)
  have "stores (\<lambda>s w. read_into s dest (ucast ?sz) w) bs (put dest bs)"
    using stores_read_into [OF dest, of "ucast ?sz" bs "\<lambda>w. w"] up by (simp add: o_def)
  then have rd: "stores (\<lambda>s w. read_string s dest ?sz w) bs (put dest (bs @ [0]))"
    unfolding stores_def read_string_def up
    by (fastforce simp: store_bytes_append store8_def)
  have "stores (\<lambda>s w. got (pb_decode_varint32 s) w (\<lambda>sz s.
       let alloc_size = (ucast (sz + 1 :: u32) :: size_t) in
       if alloc_size < ucast sz then dec_error s ''size too large'' w
       else if atype field = PB_ATYPE_POINTER
       then ok_then (allocate_field alloc s dest alloc_size 1 w) (\<lambda>s w.
              read_string s (load64 (w_mem w) dest) sz w)
       else if alloc_size > ucast (f_data_size field) then dec_error s ''string overflow'' w
       else read_string s dest sz w)) (delimited bs) (put dest (bs @ [0]))"
    by (rule stores_delimited [OF lt], rule stores_cong [OF rd])
      (use guards in \<open>simp only: Let_def if_False\<close>)
  then show ?thesis
    by (rule stores_cong) (rule pb_dec_string_def)
qed

text \<open>Every static item but a sub-message: the decoder stores its image.\<close>

lemma stores_item:
  assumes item: "item_bytes env m msg field src = Some bs" and plain: "plain_item m field src"
    and dest: "dest \<noteq> NULL" "dest + 4 \<noteq> NULL" and size: "f_data_size field \<noteq> 0"
  shows "stores (\<lambda>s w. call_decoder (PB_DECODERS n denv dec (ltype field)) s field dest w) bs
    (put dest (item_image m field src))"
  using item
proof (rule buf.ltype_cases)
  assume lt: "ltype field = PB_LTYPE_VARINT"
  then show ?thesis using item stores_varint [of m field src _ dest]
    by (auto simp: item_bytes_def call_decoder_def PB_DECODERS_def item_image_def)
next
  assume lt: "ltype field = PB_LTYPE_UVARINT"
  then show ?thesis using item stores_uvarint [of m field src _ dest]
    by (auto simp: item_bytes_def call_decoder_def PB_DECODERS_def item_image_def)
next
  assume lt: "ltype field = PB_LTYPE_SVARINT"
  then show ?thesis using item stores_svarint [of m field src _ dest]
    by (auto simp: item_bytes_def call_decoder_def PB_DECODERS_def item_image_def)
next
  assume lt: "ltype field = PB_LTYPE_FIXED32"
  then show ?thesis using item stores_fixed32 [of field dest m src]
    by (auto simp: item_bytes_def call_decoder_def PB_DECODERS_def item_image_def)
next
  assume lt: "ltype field = PB_LTYPE_FIXED64"
  then show ?thesis using item stores_fixed64 [of field dest m src]
    by (auto simp: item_bytes_def call_decoder_def PB_DECODERS_def item_image_def)
next
  assume lt: "ltype field = PB_LTYPE_BYTES"
  with item plain have "unat (bytes_array_size m src) + 4 \<le> unat (f_data_size field)"
    "bs = delimited (load_bytes m (src + 4) (unat (bytes_array_size m src)))"
    by (auto simp: item_bytes_def plain_item_def split: if_splits)
  with lt plain dest(2) show ?thesis using stores_bytes [of dest field m src]
    by (simp add: call_decoder_def PB_DECODERS_def item_image_def plain_item_def)
next
  assume lt: "ltype field = PB_LTYPE_STRING"
  with item plain have "bs = delimited (c_string m src (unat (f_data_size field)))"
    by (auto simp: item_bytes_def plain_item_def split: if_splits)
  with lt plain dest(1) show ?thesis
    using stores_string [of dest field "c_string m src (unat (f_data_size field))"]
    by (simp add: call_decoder_def PB_DECODERS_def item_image_def plain_item_def)
next
  assume "ltype field = PB_LTYPE_SUBMESSAGE"
  with plain show ?thesis by (simp add: plain_item_def)
next
  assume lt: "ltype field = PB_LTYPE_FIXED_LENGTH_BYTES"
  then show ?thesis using item stores_fixed_length_bytes [OF dest(1) size, of m src]
    by (auto simp: item_bytes_def call_decoder_def PB_DECODERS_def item_image_def)
qed

end

end
