(* ===== verification/Pb_Istream_Safe.thy ===== *)
theory Pb_Istream_Safe
  imports Pb_Istream
begin

text \<open>
  Whatever the input is, the readers terminate without reading outside their source. The law a
  source promises is in the locale \<open>total_source\<close>: as long as no more bytes are requested than it
  is good for, a read has a result. A stream is fine with a reserve of \<open>k\<close> when its source is good
  for the bytes it has left and \<open>k\<close> more; the reserve is what lets a substream share the source
  of its parent.
\<close>

locale total_source =
  fixes ok :: "'s pb_source \<Rightarrow> nat \<Rightarrow> bool"
  assumes ok_mono: "ok src n \<Longrightarrow> m \<le> n \<Longrightarrow> ok src m"
    and ok_call: "ok src n \<Longrightarrow> unat count \<le> n \<Longrightarrow>
      \<exists>r bs src'. call_source src count = Some (r, bs, src') \<and> ok src' (if r then n - unat count else n)
        \<and> (r \<longrightarrow> length bs = unat count)"
begin

definition fine :: "'s pb_istream_t \<Rightarrow> nat \<Rightarrow> bool" where
  "fine s k \<longleftrightarrow> ok (is_source s) (unat (is_bytes_left s) + k)"

text \<open>A step of a stream: it stays fine and does not gain bytes.\<close>

definition step :: "nat \<Rightarrow> 's pb_istream_t \<Rightarrow> 's pb_istream_t \<Rightarrow> bool" where
  "step k s s' \<longleftrightarrow> fine s' k \<and> unat (is_bytes_left s') \<le> unat (is_bytes_left s)"

definition reads :: "('s pb_istream_t \<Rightarrow> ('v option \<times> 's pb_istream_t) option) \<Rightarrow> bool" where
  "reads f \<longleftrightarrow> (\<forall>s k. fine s k \<longrightarrow> (\<exists>r s'. f s = Some (r, s') \<and> step k s s'))"

lemma readsE:
  assumes "reads f" "fine s k"
  obtains r s' where "f s = Some (r, s')" "step k s s'"
  using assms unfolding reads_def by blast

lemma step_fine: "step k s s' \<Longrightarrow> fine s' k"
  by (simp add: step_def)

lemma step_refl [intro]: "fine s k \<Longrightarrow> step k s s"
  by (simp add: step_def)

lemma step_trans [trans]: "step k s s' \<Longrightarrow> step k s' s'' \<Longrightarrow> step k s s''"
  by (auto simp: step_def)

lemma step_fail [simp]: "step k s (is_fail s' msg) \<longleftrightarrow> step k s s'"
  by (simp add: step_def fine_def is_fail_def)

lemma fine_fail [simp]: "fine (is_fail s msg) k \<longleftrightarrow> fine s k"
  by (simp add: fine_def is_fail_def)

lemma reads_error: "reads (\<lambda>s. is_error s msg)"
  by (auto simp: reads_def is_error_def)

lemma reads_if: "reads f \<Longrightarrow> reads g \<Longrightarrow> reads (\<lambda>s. if c then f s else g s)"
  by (cases c) simp_all

lemma reads_then:
  assumes "reads f" "\<And>v. reads (g v)"
  shows "reads (\<lambda>s. rd_then (f s) g)"
  unfolding reads_def
proof (intro allI impI)
  fix s k
  assume "fine s k"
  with assms(1) obtain r s' where r: "f s = Some (r, s')" "step k s s'" by (rule readsE)
  show "\<exists>r s'. rd_then (f s) g = Some (r, s') \<and> step k s s'"
  proof (cases r)
    case None
    with r show ?thesis by simp
  next
    case (Some v)
    from assms(2) [of v] step_fine [OF r(2)] obtain t s'' where "g v s' = Some (t, s'')" "step k s' s''"
      by (rule readsE)
    with r Some show ?thesis by (auto intro: step_trans)
  qed
qed

lemma read_chunk_total:
  assumes "fine s k"
  shows "\<exists>r bs s'. read_chunk s count = Some (r, bs, s') \<and> step k s s' \<and> length bs \<le> unat count
    \<and> (r \<longrightarrow> length bs = unat count \<and> unat (is_bytes_left s') = unat (is_bytes_left s) - unat count
         \<and> unat count \<le> unat (is_bytes_left s))"
proof (cases "is_bytes_left s < count")
  case True
  with assms show ?thesis by (auto simp: read_chunk_def)
next
  case False
  then have le: "unat count \<le> unat (is_bytes_left s)" by (simp add: word_less_nat_alt)
  with assms obtain r bs src' where c: "call_source (is_source s) count = Some (r, bs, src')"
    "ok src' (if r then unat (is_bytes_left s) + k - unat count else unat (is_bytes_left s) + k)"
    "r \<longrightarrow> length bs = unat count"
    using ok_call [of "is_source s" "unat (is_bytes_left s) + k" count] by (auto simp: fine_def)
  have len: "length bs \<le> unat count"
    using c(1) by (auto simp: call_source_def split: pb_source.splits if_splits option.splits)
  have left: "unat (is_bytes_left s - count) = unat (is_bytes_left s) - unat count"
    using False by (simp add: unat_sub)
  show ?thesis
  proof (cases r)
    case True
    with c False le left len show ?thesis
      by (auto simp: read_chunk_def Let_def step_def fine_def)
  next
    case r: False
    let ?s = "s\<lparr>is_source := src'\<rparr>"
    have "read_chunk s count = Some (False, bs, is_fail ?s ''io error'')"
      using c(1) False r by (simp add: read_chunk_def Let_def)
    moreover have "step k s ?s"
      using c(2) r by (simp add: step_def fine_def)
    ultimately show ?thesis
      using len by (intro exI [of _ False] exI [of _ bs] exI [of _ "is_fail ?s ''io error''"]) simp
  qed
qed

lemma skip_chunks_total:
  "fine s k \<Longrightarrow> \<exists>r bs s'. skip_chunks s count = Some (r, bs, s') \<and> step k s s'
     \<and> (r \<longrightarrow> unat (is_bytes_left s') = unat (is_bytes_left s) - unat count
         \<and> unat count \<le> unat (is_bytes_left s))"
proof (induction s count rule: skip_chunks.induct)
  case (1 s count)
  show ?case
  proof (cases "count > 16")
    case False
    with read_chunk_total [OF 1(2), of count] show ?thesis
      by (subst skip_chunks.simps) auto
  next
    case True
    from read_chunk_total [OF 1(2), of 16] obtain r bs s' where
      r: "read_chunk s 16 = Some (r, bs, s')" "step k s s'"
      "r \<longrightarrow> unat (is_bytes_left s') = unat (is_bytes_left s) - 16 \<and> 16 \<le> unat (is_bytes_left s)"
      by auto
    show ?thesis
    proof (cases r)
      case False
      with r True show ?thesis by (subst skip_chunks.simps) auto
    next
      case ok: True
      have gt: "16 < unat count" using True by (simp add: word_less_nat_alt)
      then have left: "unat (count - 16) = unat count - 16"
        by (subst unat_sub) (simp_all add: word_le_nat_alt)
      from 1(1) [OF True r(1), of True "(bs, s')" bs s'] ok step_fine [OF r(2)]
      obtain r' bs' s'' where "skip_chunks s' (count - 16) = Some (r', bs', s'')" "step k s' s''"
        "r' \<longrightarrow> unat (is_bytes_left s'') = unat (is_bytes_left s') - unat (count - 16)
           \<and> unat (count - 16) \<le> unat (is_bytes_left s')"
        by auto
      with True r ok gt left show ?thesis
        by (subst skip_chunks.simps) (auto intro: step_trans)
    qed
  qed
qed

lemma pb_read_total:
  assumes "fine s k"
  shows "\<exists>r bs s'. pb_read s skip count = Some (r, bs, s') \<and> step k s s'
    \<and> (\<not> skip \<longrightarrow> length bs \<le> unat count \<and> (r \<longrightarrow> length bs = unat count))
    \<and> (r \<longrightarrow> unat (is_bytes_left s') = unat (is_bytes_left s) - unat count
         \<and> unat count \<le> unat (is_bytes_left s))"
  using read_chunk_total [OF assms, of count] skip_chunks_total [OF assms, of count]
  by (fastforce simp: pb_read_def split: pb_source.split)

lemma reads_skip: "reads (\<lambda>s. pb_skip s count)"
  unfolding reads_def pb_skip_def
  using pb_read_total [where skip = True and count = count] by fastforce

lemma reads_read_bytes: "reads (\<lambda>s. pb_read_bytes s count)"
  unfolding reads_def pb_read_bytes_def
  using pb_read_total [where skip = False and count = count] by fastforce

lemma reads_readbyte: "reads pb_readbyte"
  unfolding reads_def
proof (intro allI impI)
  fix s k
  assume f: "fine s k"
  show "\<exists>r s'. pb_readbyte s = Some (r, s') \<and> step k s s'"
  proof (cases "is_bytes_left s = 0")
    case True
    with f show ?thesis by (auto simp: pb_readbyte_def is_error_def)
  next
    case False
    then have le: "1 \<le> unat (is_bytes_left s)" by (simp add: Suc_le_eq unat_gt_0)
    with f obtain r bs src' where c: "call_source (is_source s) 1 = Some (r, bs, src')"
      "ok src' (if r then unat (is_bytes_left s) + k - unat (1 :: size_t) else unat (is_bytes_left s) + k)"
      using ok_call [of "is_source s" "unat (is_bytes_left s) + k" 1] by (auto simp: fine_def)
    have left: "unat (is_bytes_left s - 1) = unat (is_bytes_left s) - 1"
      using False by (simp add: unat_minus_one)
    show ?thesis
    proof (cases r)
      case True
      with c False le left show ?thesis
        by (simp add: pb_readbyte_def Let_def step_def fine_def)
    next
      case r: False
      with c False show ?thesis
        by (simp add: pb_readbyte_def Let_def is_error_def) (simp add: step_def fine_def is_fail_def)
    qed
  qed
qed

section \<open>Numbers and tags\<close>

lemma varint32_loop_total: "fine s k \<Longrightarrow> \<exists>r s'. varint32_loop s bitpos result = Some (r, s') \<and> step k s s'"
proof (induction s bitpos result rule: varint32_loop.induct)
  case (1 s bitpos result)
  from reads_readbyte 1(2) obtain r s' where r: "pb_readbyte s = Some (r, s')" "step k s s'"
    by (rule readsE)
  show ?case
  proof (cases r)
    case None
    with r show ?thesis by (subst varint32_loop.simps) simp
  next
    case (Some b)
    note IH = 1(1) [of b s', OF r(1) [unfolded Some] refl _ refl refl _ step_fine [OF r(2)]]
    show ?thesis
      using r Some IH
      by (subst varint32_loop.simps) (auto simp: Let_def is_error_def, (erule step_trans [OF r(2)])+)
  qed
qed

lemma varint_decode_loop_total:
  "fine s k \<Longrightarrow> \<exists>r s'. varint_decode_loop s bitpos result = Some (r, s') \<and> step k s s'"
proof (induction s bitpos result rule: varint_decode_loop.induct)
  case (1 s bitpos result)
  from reads_readbyte 1(2) obtain r s' where r: "pb_readbyte s = Some (r, s')" "step k s s'"
    by (rule readsE)
  show ?case
  proof (cases r)
    case None
    with r 1(2) show ?thesis by (subst varint_decode_loop.simps) (auto simp: is_error_def)
  next
    case (Some b)
    note IH = 1(1) [OF _ r(1) [unfolded Some] refl refl _ step_fine [OF r(2)]]
    show ?thesis
      using r Some IH 1(2)
      by (subst varint_decode_loop.simps) (auto simp: Let_def is_error_def dest: step_trans [OF r(2)])
  qed
qed

lemma reads_varint: "reads pb_decode_varint"
  using varint_decode_loop_total by (auto simp: reads_def pb_decode_varint_def)

lemma reads_svarint: "reads pb_decode_svarint"
proof -
  have "reads (\<lambda>s. Some (Some v, s))" for v :: u64
    by (auto simp: reads_def)
  then show ?thesis
    unfolding pb_decode_svarint_def [abs_def] by (intro reads_then reads_varint)
qed

text \<open>Reading a tag or a length consumes at least one byte when it succeeds.\<close>

lemma varint32_eof_total:
  assumes "fine s k"
  shows "\<exists>r s'. pb_decode_varint32_eof s = Some (r, s') \<and> step k s s'
    \<and> (\<forall>v. r = Inr v \<longrightarrow> unat (is_bytes_left s') < unat (is_bytes_left s))"
proof -
  from reads_readbyte assms obtain r s' where r: "pb_readbyte s = Some (r, s')" "step k s s'"
    by (rule readsE)
  show ?thesis
  proof (cases r)
    case None
    with r show ?thesis by (auto simp: pb_decode_varint32_eof_def)
  next
    case (Some b)
    with r have less: "unat (is_bytes_left s') < unat (is_bytes_left s)"
      by (auto dest: readbyte_decreases)
    show ?thesis
    proof (cases "b AND 0x80 = 0")
      case True
      with r Some less show ?thesis by (auto simp: pb_decode_varint32_eof_def)
    next
      case False
      from varint32_loop_total [OF step_fine [OF r(2)]] obtain t s'' where
        t: "varint32_loop s' 7 (ucast (b AND 0x7F)) = Some (t, s'')" "step k s' s''" by blast
      then have "step k s s''" "unat (is_bytes_left s'') < unat (is_bytes_left s)"
        using step_trans [OF r(2)] less by (auto simp: step_def)
      with r Some False t(1) show ?thesis
        by (auto simp: pb_decode_varint32_eof_def is_fail_def step_def fine_def split: option.split)
    qed
  qed
qed

lemma reads_varint32: "reads pb_decode_varint32"
  unfolding reads_def pb_decode_varint32_def
  using varint32_eof_total by (fastforce split: sum.split)

lemma decode_tag_total:
  assumes "fine s k"
  shows "\<exists>r s'. pb_decode_tag s = Some (r, s') \<and> step k s s'
    \<and> (\<forall>v. r = Inr v \<longrightarrow> unat (is_bytes_left s') < unat (is_bytes_left s))"
  using varint32_eof_total [OF assms] by (fastforce simp: pb_decode_tag_def split: sum.split)

section \<open>Skipping and substreams\<close>

lemma skip_varint_total: "fine s k \<Longrightarrow> \<exists>r s'. pb_skip_varint s = Some (r, s') \<and> step k s s'"
proof (induction s rule: pb_skip_varint.induct)
  case (1 s)
  from reads_read_bytes 1(2) obtain r s' where r: "pb_read_bytes s 1 = Some (r, s')" "step k s s'"
    by (rule readsE)
  show ?case
  proof (cases r)
    case None
    with r show ?thesis by (subst pb_skip_varint.simps) simp
  next
    case (Some bs)
    note IH = 1(1) [OF r(1) [unfolded Some] _ step_fine [OF r(2)]]
    show ?thesis
      using r Some IH by (subst pb_skip_varint.simps) (auto dest: step_trans [OF r(2)])
  qed
qed

lemma reads_skip_field: "reads (\<lambda>s. pb_skip_field s wire_type)"
proof -
  have "reads pb_skip_varint"
    using skip_varint_total by (simp add: reads_def)
  moreover have "reads pb_skip_string"
    unfolding pb_skip_string_def [abs_def] by (intro reads_then reads_varint32 reads_skip)
  ultimately show ?thesis
    unfolding pb_skip_field_def by (intro reads_if reads_skip reads_error)
qed

lemma reads_raw_varint: "reads (raw_varint room buf)"
proof (induction room arbitrary: buf)
  case 0
  show ?case by (auto simp: reads_def)
next
  case (Suc room)
  have "reads (\<lambda>s. if hd bs AND 0x80 \<noteq> 0 then raw_varint room (buf @ bs) s else Some (Some (buf @ bs), s))"
    for bs :: "byte list"
    using Suc by (auto simp: reads_def)
  from reads_then [OF reads_read_bytes this] show ?case
    unfolding raw_varint.simps(2) [abs_def] by simp
qed

lemma reads_raw_value: "reads (\<lambda>s. read_raw_value s wire_type room)"
  unfolding read_raw_value_def by (intro reads_if reads_raw_varint reads_read_bytes reads_error)

text \<open>A substream is fine with the rest of its parent in reserve, and closing it gives the parent
  back the source.\<close>

lemma make_substream_total:
  assumes "fine s k"
  shows "\<exists>r s'. pb_make_string_substream s = Some (r, s') \<and> step k s s'
    \<and> (\<forall>sub. r = Some sub \<longrightarrow> fine sub (unat (is_bytes_left s') + k))"
proof -
  from reads_varint32 assms obtain r s' where r: "pb_decode_varint32 s = Some (r, s')" "step k s s'"
    by (rule readsE)
  show ?thesis
  proof (cases r)
    case None
    with r show ?thesis by (simp add: pb_make_string_substream_def)
  next
    case (Some sz)
    show ?thesis
    proof (cases "is_bytes_left s' < ucast sz")
      case True
      with r Some show ?thesis by (simp add: pb_make_string_substream_def is_error_def)
    next
      case False
      then have le: "ucast sz \<le> is_bytes_left s'" by simp
      then have "unat (is_bytes_left s' - ucast sz) = unat (is_bytes_left s') - unat sz"
        "unat sz \<le> unat (is_bytes_left s')"
        by (simp_all add: unat_sub [OF le] word_le_nat_alt)
      with r Some False show ?thesis
        by (auto simp: pb_make_string_substream_def step_def fine_def elim: ok_mono)
    qed
  qed
qed

lemma close_substream_total:
  assumes "fine s k" and "fine sub (unat (is_bytes_left s) + k)"
  shows "\<exists>r s'. pb_close_string_substream s sub = Some (r, s') \<and> step k s s'"
proof (cases "is_bytes_left sub = 0")
  case True
  let ?s = "s\<lparr>is_source := is_source sub, is_errmsg := is_errmsg sub\<rparr>"
  have "pb_close_string_substream s sub = Some (Some (), ?s)"
    using True by (simp add: pb_close_string_substream_def)
  moreover have "step k s ?s"
    using assms(2) True by (simp add: step_def fine_def)
  ultimately show ?thesis by blast
next
  case False
  from pb_read_total [OF assms(2), of True "is_bytes_left sub"] obtain r bs sub' where
    r: "pb_read sub True (is_bytes_left sub) = Some (r, bs, sub')"
      "step (unat (is_bytes_left s) + k) sub sub'" "r \<longrightarrow> unat (is_bytes_left sub') = 0"
    by auto
  show ?thesis
  proof (cases r)
    case True
    let ?s = "s\<lparr>is_source := is_source sub', is_errmsg := is_errmsg sub'\<rparr>"
    have "pb_close_string_substream s sub = Some (Some (), ?s)"
      using r(1) True False by (simp add: pb_close_string_substream_def pb_skip_def)
    moreover have "step k s ?s"
      using r(2,3) True by (simp add: step_def fine_def)
    ultimately show ?thesis by blast
  next
    case r': False
    have "pb_close_string_substream s sub = Some (None, s)"
      using r(1) r' False by (simp add: pb_close_string_substream_def pb_skip_def)
    with assms(1) show ?thesis by blast
  qed
qed

end

text \<open>A buffer is good for as many bytes as it holds.\<close>

fun buf_ok :: "'s pb_source \<Rightarrow> nat \<Rightarrow> bool" where
  "buf_ok (Buf bs) n \<longleftrightarrow> n \<le> length bs"
| "buf_ok (User cb st) n \<longleftrightarrow> False"

interpretation buf_total: total_source buf_ok
proof
  fix src :: "'s pb_source" and n m :: nat
  assume "buf_ok src n" "m \<le> n"
  then show "buf_ok src m" by (cases src) auto
next
  fix src :: "'s pb_source" and n :: nat and count :: size_t
  assume "buf_ok src n" "unat count \<le> n"
  then show "\<exists>r bs src'. call_source src count = Some (r, bs, src')
      \<and> buf_ok src' (if r then n - unat count else n) \<and> (r \<longrightarrow> length bs = unat count)"
  proof (cases src)
    case (Buf bs)
    with \<open>buf_ok src n\<close> \<open>unat count \<le> n\<close> show ?thesis
      by (intro exI [of _ True] exI [of _ "take (unat count) bs"] exI [of _ "Buf (drop (unat count) bs)"])
        (simp add: call_source_def)
  next
    case (User cb st)
    with \<open>buf_ok src n\<close> show ?thesis by simp
  qed
qed

end
