(* ===== verification/Pb_Decode_Safe.thy ===== *)
theory Pb_Decode_Safe
  imports Pb_Decode Pb_Istream_Safe
begin

text \<open>
  The decoder is total on messages whose fields are all statically allocated: on every input,
  well-formed or not, and on every state of the message memory, \<^verbatim>\<open>pb_decode\<close> returns, without
  reading outside the input, without a call through a null pointer and without touching the heap
  wrongly. The proof follows the code bottom up; \<open>decodes f\<close> is the contract of a decoder.
\<close>

section \<open>Iterators of the decoder\<close>

text \<open>The iterator of \<^verbatim>\<open>pb_decode_noinit\<close> is that of its position, but for a \<^verbatim>\<open>pSize\<close> that may point
  to \<^verbatim>\<open>fixed_count_size\<close>.\<close>

definition canon :: "pb_field_t list \<Rightarrow> addr \<Rightarrow> pb_field_iter_t \<Rightarrow> bool" where
  "canon fs dest it \<longleftrightarrow> (\<exists>i. (i < nfields fs \<or> i = 0) \<and>
     (it = iter_nth fs dest i
      \<or> htype (field_at fs i) = PB_HTYPE_REPEATED \<and> it = (iter_nth fs dest i)\<lparr>it_pSize := PSizeFixedCount\<rparr>))"

lemma canonI [intro]: "i < nfields fs \<or> i = 0 \<Longrightarrow> canon fs dest (iter_nth fs dest i)"
  unfolding canon_def by blast

lemma it_field_update [simp]: "it_field (it\<lparr>it_pSize := x\<rparr>) = it_field it"
  by (simp add: it_field_def)

lemma canon_field:
  assumes "canon fs dest it"
  obtains i where "i \<le> nfields fs" "it_field it = field_at fs i" "it_start it = fs"
proof -
  from assms obtain i where i: "i < nfields fs \<or> i = 0" "it = iter_nth fs dest i
      \<or> it = (iter_nth fs dest i)\<lparr>it_pSize := PSizeFixedCount\<rparr>"
    by (auto simp: canon_def)
  then show thesis using that [of i] by auto
qed

lemma next_redirected:
  "f_tag (it_field it) \<noteq> 0 \<Longrightarrow> htype (it_field it) = PB_HTYPE_REPEATED \<Longrightarrow>
   pb_field_iter_next (it\<lparr>it_pSize := x\<rparr>) = pb_field_iter_next it"
  by (auto simp: pb_field_iter_next_def Let_def it_field_def in_union_def)

lemma find_empty:
  assumes "nfields fs = 0" "it = iter_nth fs dest 0 \<or> it = (iter_nth fs dest 0)\<lparr>it_pSize := x\<rparr>"
  shows "iter_find_loop (Suc k) 0 wanted it = Some (wanted (field_at fs 0), it)"
proof -
  have "f_tag (field_at fs 0) = 0" using assms(1) tag_zero_iff [of 0 fs] by simp
  with assms(2) show ?thesis by (auto simp: pb_field_iter_next_def)
qed

lemma find_canon:
  assumes "canon fs dest it"
  shows "\<exists>b it'. iter_find_loop (Suc (length (it_start it))) (it_pos it) wanted it = Some (b, it')
    \<and> canon fs dest it' \<and> (b \<longrightarrow> wanted (it_field it'))"
proof -
  from assms obtain i where i: "i < nfields fs \<or> i = 0"
    "it = iter_nth fs dest i \<or> htype (field_at fs i) = PB_HTYPE_REPEATED
       \<and> it = (iter_nth fs dest i)\<lparr>it_pSize := PSizeFixedCount\<rparr>"
    by (auto simp: canon_def)
  have pos: "it_pos it = i" "it_start it = fs" "it_field it = field_at fs i"
    using i(2) by auto
  show ?thesis
  proof (cases "i < nfields fs")
    case False
    with i have "nfields fs = 0" "i = 0" by auto
    with i(2) pos assms find_empty [of fs it dest PSizeFixedCount "length fs" wanted] show ?thesis
      by (auto simp del: iter_find_loop.simps)
  next
    case True
    have "find_result fs dest wanted i {0..<nfields fs} (iter_find_loop (Suc (length fs)) i wanted (iter_nth fs dest i))"
      using True by (rule find_loop_all)
    then obtain b j where plain: "iter_find_loop (Suc (length fs)) i wanted (iter_nth fs dest i) = Some (b, iter_nth fs dest j)"
      "j < nfields fs" "b \<longrightarrow> wanted (field_at fs j)"
      using True by (auto simp: find_result_def simp del: iter_find_loop.simps)
    show ?thesis
    proof (cases "it = iter_nth fs dest i")
      case True
      with plain show ?thesis
        by (auto simp del: iter_find_loop.simps)
    next
      case False
      with i(2) have red: "htype (field_at fs i) = PB_HTYPE_REPEATED"
        "it = (iter_nth fs dest i)\<lparr>it_pSize := PSizeFixedCount\<rparr>" by auto
      have "pb_field_iter_next it = pb_field_iter_next (iter_nth fs dest i)"
        unfolding red(2) using red(1) True by (intro next_redirected) (auto simp: field_at_tag_nonzero)
      then have "iter_find_loop (Suc (length fs)) i wanted it
          = (if wanted (field_at fs i) then Some (True, it)
             else iter_find_loop (Suc (length fs)) i wanted (iter_nth fs dest i))"
        using pos(3) by simp
      with plain pos assms show ?thesis
        by (auto simp del: iter_find_loop.simps)
    qed
  qed
qed

lemma select_fixed_count_canon:
  "canon fs dest (fr_iter fr) \<Longrightarrow> select_fixed_count fr w = Some (fr', w') \<Longrightarrow> canon fs dest (fr_iter fr')"
  by (auto simp: select_fixed_count_def Let_def canon_def split: if_splits)

lemma mark_required_iter [simp]: "fr_iter (mark_required fr) = fr_iter fr"
  by (simp add: mark_required_def Let_def)

section \<open>Messages with static fields\<close>

text \<open>All fields of the table, and of the tables of its sub-messages to a depth below \<open>d\<close>, are
  statically allocated and of a type that has a decoder. The terminator is included because a
  tag of zero finds it in an empty table.\<close>

fun static_msg :: "nat \<Rightarrow> 's pb_dec_env \<Rightarrow> pb_field_t list \<Rightarrow> bool" where
  "static_msg 0 env fs \<longleftrightarrow> False"
| "static_msg (Suc d) env fs \<longleftrightarrow>
     list_all (\<lambda>f. atype f = PB_ATYPE_STATIC \<and> (ltype f < PB_LTYPE_EXTENSION \<or> ltype f = PB_LTYPE_FIXED_LENGTH_BYTES)
         \<and> (ltype f = PB_LTYPE_SUBMESSAGE \<longrightarrow> f_ptr f \<noteq> NULL \<and> static_msg d env (de_fields_at env (f_ptr f))))
       (map (field_at fs) [0..<Suc (nfields fs)])"

lemma static_msg_field:
  assumes "static_msg d env fs" "i \<le> nfields fs"
  obtains d' where "d = Suc d'" "atype (field_at fs i) = PB_ATYPE_STATIC"
    "ltype (field_at fs i) < PB_LTYPE_EXTENSION \<or> ltype (field_at fs i) = PB_LTYPE_FIXED_LENGTH_BYTES"
    "ltype (field_at fs i) = PB_LTYPE_SUBMESSAGE \<Longrightarrow>
       f_ptr (field_at fs i) \<noteq> NULL \<and> static_msg d' env (de_fields_at env (f_ptr (field_at fs i)))"
proof (cases d)
  case (Suc d')
  with assms have "field_at fs i \<in> set (map (field_at fs) [0..<Suc (nfields fs)])" by (simp del: upt_Suc)
  with Suc assms(1) that show thesis
    by (simp only: static_msg.simps list_all_iff) blast
qed (use assms in simp)

declare static_msg.simps(2) [simp del]

lemma for_fields_total:
  assumes "\<And>i w. i < nfields fs \<Longrightarrow> f (iter_nth fs dest i) w \<noteq> None"
  shows "for_fields f fs dest w \<noteq> None"
proof -
  have "run_fields (\<lambda>j w. map_option (Pair True) (f (iter_nth fs dest j) w)) is w \<noteq> None"
    if "set is \<subseteq> {..<nfields fs}" for "is" and w
    using that
  proof (induction "is" arbitrary: w)
    case (Cons i "is")
    then obtain w' where "f (iter_nth fs dest i) w = Some w'"
      using assms [of i w] by auto
    with Cons show ?case by simp
  qed simp
  then have "run_fields (\<lambda>j w. map_option (Pair True) (f (iter_nth fs dest j) w)) [0..<nfields fs] w \<noteq> None"
    by (simp add: atLeast_upt lessThan_atLeast0)
  then show ?thesis
    by (cases "nfields fs = 0") (auto simp: for_fields_def iter_begin iter_loop_all)
qed

lemma set_to_default_total:
  "static_msg d env fs \<Longrightarrow> d \<le> n \<Longrightarrow> i \<le> nfields fs \<Longrightarrow> it_field it = field_at fs i \<Longrightarrow>
   pb_field_set_to_default n env it w \<noteq> None"
proof (induction d arbitrary: fs n i it w)
  case (Suc d)
  then obtain n' where n: "n = Suc n'" "d \<le> n'" by (cases n) auto
  let ?f = "field_at fs i"
  from Suc.prems(1,3) have f: "atype ?f = PB_ATYPE_STATIC" "ltype ?f \<noteq> PB_LTYPE_EXTENSION"
    "ltype ?f = PB_LTYPE_SUBMESSAGE \<Longrightarrow> static_msg d env (de_fields_at env (f_ptr ?f))"
    by (auto elim: static_msg_field)
  have "for_fields (pb_field_set_to_default n' env) (de_fields_at env (f_ptr ?f)) (it_pData it) w' \<noteq> None"
    if "ltype ?f = PB_LTYPE_SUBMESSAGE" for w'
    by (rule for_fields_total, rule Suc.IH [OF f(3) [OF that] n(2)], erule less_imp_le, simp)
  with f(1,2) Suc.prems(4) show ?case
    by (simp add: n Let_def)
qed simp

lemma message_defaults_total:
  "static_msg d env fs \<Longrightarrow> d \<le> n \<Longrightarrow> pb_message_set_to_defaults n env fs dest w \<noteq> None"
  unfolding pb_message_set_to_defaults_def
  by (rule for_fields_total, rule set_to_default_total) simp_all

lemma release_items_total:
  assumes "\<And>p w. f p w \<noteq> None"
  shows "release_items f step k p w \<noteq> None"
proof (induction k arbitrary: p w)
  case (Suc k)
  obtain w' where "f p w = Some w'" using assms [of p w] by auto
  with Suc show ?case by simp
qed simp

lemma release_single_total:
  "static_msg d env fs \<Longrightarrow> d \<le> n \<Longrightarrow> i \<le> nfields fs \<Longrightarrow> it_field it = field_at fs i \<Longrightarrow>
   pb_release_single_field n env it w \<noteq> None"
proof (induction d arbitrary: fs n i it w)
  case (Suc d)
  then obtain n' where n: "n = Suc n'" "d \<le> n'" by (cases n) auto
  let ?f = "field_at fs i"
  from Suc.prems(1,3) have f: "atype ?f = PB_ATYPE_STATIC" "ltype ?f \<noteq> PB_LTYPE_EXTENSION"
    "ltype ?f = PB_LTYPE_SUBMESSAGE \<Longrightarrow> static_msg d env (de_fields_at env (f_ptr ?f))"
    by (auto elim: static_msg_field)
  have "pb_release_with (pb_release_single_field n' env) (de_fields_at env (f_ptr ?f)) p w' \<noteq> None"
    if "ltype ?f = PB_LTYPE_SUBMESSAGE" for p w'
  proof -
    have "for_fields (pb_release_single_field n' env) (de_fields_at env (f_ptr ?f)) p w' \<noteq> None"
      by (rule for_fields_total, rule Suc.IH [OF f(3) [OF that] n(2)], erule less_imp_le, simp)
    then show ?thesis by (simp add: pb_release_with_def)
  qed
  then have items: "release_items (pb_release_with (pb_release_single_field n' env) (de_fields_at env (f_ptr ?f)))
      st k p w' \<noteq> None" if "ltype ?f = PB_LTYPE_SUBMESSAGE" for st k p w'
    using that by (intro release_items_total)
  have pointer: "release_pointer it w' = Some w'" for w'
    using f(1) Suc.prems(4) by (simp add: release_pointer_def)
  show ?case
    using f(1,2) Suc.prems(4) items [of "ucast (f_data_size ?f)" "unat (release_count it w)" "it_pData it" w]
    by (auto simp: n Let_def pointer split: option.split)
qed simp

lemma release_total:
  "static_msg d env fs \<Longrightarrow> d \<le> n \<Longrightarrow> pb_release n env fs dest w \<noteq> None"
proof -
  assume a: "static_msg d env fs" "d \<le> n"
  have "for_fields (pb_release_single_field n env) fs dest w \<noteq> None"
    using a by (intro for_fields_total release_single_total) simp_all
  then show ?thesis by (simp add: pb_release_def pb_release_with_def)
qed

lemma le_4_cases: "(x :: byte) \<le> 4 \<longleftrightarrow> x \<in> {0, 1, 2, 3, 4}"
proof -
  have "unat x \<le> 4 \<longleftrightarrow> unat x \<in> {0, 1, 2, 3, 4}" by auto
  then show ?thesis by (simp add: word_le_nat_alt word_unat_eq_iff)
qed

lemma varint_loop_eats:
  "varint_decode_loop s bitpos r = Some (Some v, s') \<Longrightarrow> unat (is_bytes_left s') < unat (is_bytes_left s)"
proof (induction s bitpos r rule: varint_decode_loop.induct)
  case (1 s bitpos r)
  from 1(2) obtain b t where bt: "pb_readbyte s = Some (Some b, t)" "\<not> bitpos \<ge> 64"
    by (subst (asm) varint_decode_loop.simps) (auto simp: rd_then_eq_Some is_error_def split: if_splits)
  note dec = readbyte_decreases [OF bt(1)]
  show ?case
  proof (cases "b AND 0x80 = 0")
    case True
    with 1(2) bt dec show ?thesis by (subst (asm) varint_decode_loop.simps) simp
  next
    case False
    with 1(2) bt have "varint_decode_loop t (bitpos + 7) (r OR push_bit (unat bitpos) (ucast (b AND 0x7F)))
        = Some (Some v, s')"
      by (subst (asm) varint_decode_loop.simps) (simp add: Let_def)
    from 1(1) [OF bt(2,1) refl refl False this] dec show ?thesis by simp
  qed
qed

lemma varint_eats: "pb_decode_varint s = Some (Some v, s') \<Longrightarrow> unat (is_bytes_left s') < unat (is_bytes_left s)"
  by (simp add: pb_decode_varint_def varint_loop_eats)

lemma less_8_cases: "(x :: byte) < 8 \<longleftrightarrow> x \<in> {0, 1, 2, 3, 4, 5, 6, 7}"
proof -
  have "unat x < 8 \<longleftrightarrow> unat x \<in> {0, 1, 2, 3, 4, 5, 6, 7}" by auto
  then show ?thesis by (simp add: word_less_nat_alt word_unat_eq_iff)
qed

section \<open>Decoders of single values\<close>

context total_source
begin

definition decodes :: "('s pb_istream_t \<Rightarrow> pb_world \<Rightarrow> 's pb_dec_result) \<Rightarrow> bool" where
  "decodes f \<longleftrightarrow> (\<forall>s k w. fine s k \<longrightarrow> (\<exists>b s' w'. f s w = Some (b, s', w') \<and> step k s s'))"

lemma decodesE:
  assumes "decodes f" "fine s k"
  obtains b s' w' where "f s w = Some (b, s', w')" "step k s s'"
  using assms unfolding decodes_def by meson

lemma decodes_ret: "decodes (\<lambda>s w. Some (b, s, f w))"
  by (auto simp: decodes_def)

lemma decodes_error: "decodes (\<lambda>s w. dec_error s msg (f w))"
  by (auto simp: decodes_def dec_error_def)

lemma decodes_if: "decodes f \<Longrightarrow> decodes g \<Longrightarrow> decodes (\<lambda>s w. if c w then f s w else g s w)"
  unfolding decodes_def by simp

lemma decodes_got:
  assumes "reads r" "\<And>v. decodes (g v)"
  shows "decodes (\<lambda>s w. got (r s) w (\<lambda>v s. g v s w))"
  unfolding decodes_def
proof (intro allI impI)
  fix s k w
  assume "fine s k"
  with assms(1) obtain v s' where r: "r s = Some (v, s')" "step k s s'" by (rule readsE)
  show "\<exists>b s' w'. got (r s) w (\<lambda>v s. g v s w) = Some (b, s', w') \<and> step k s s'"
  proof (cases v)
    case None
    with r show ?thesis by auto
  next
    case (Some x)
    from assms(2) [of x] step_fine [OF r(2)] obtain b s'' w' where "g x s' w = Some (b, s'', w')" "step k s' s''"
      by (rule decodesE)
    with r Some show ?thesis using step_trans [OF r(2)] by auto
  qed
qed

lemma decodes_world: "decodes f \<Longrightarrow> decodes (\<lambda>s w. f s (h w))"
  unfolding decodes_def by blast

lemma decodes_store_checked: "decodes (\<lambda>s w. store_checked (f w) value s w)"
  by (auto simp: decodes_def store_checked_def dec_error_def split: option.split)

lemma decodes_read_into: "decodes (\<lambda>s w. read_into s dest count (f w))"
  unfolding decodes_def read_into_def
  using pb_read_total [where skip = "dest = NULL" and count = count] by fastforce

lemma decodes_read_string: "decodes (\<lambda>s w. read_string s dest sz w)"
  unfolding decodes_def read_string_def
  using decodes_read_into [of dest "ucast sz" "\<lambda>w. w"] by (fastforce simp: decodes_def)

lemma decodes_varint: "decodes (\<lambda>s w. pb_dec_varint s field dest w)"
  unfolding pb_dec_varint_def Let_def by (intro decodes_got reads_varint decodes_store_checked)

lemma decodes_uvarint: "decodes (\<lambda>s w. pb_dec_uvarint s field dest w)"
  unfolding pb_dec_uvarint_def by (intro decodes_got reads_varint decodes_store_checked)

lemma decodes_svarint: "decodes (\<lambda>s w. pb_dec_svarint s field dest w)"
  unfolding pb_dec_svarint_def by (intro decodes_got reads_svarint decodes_store_checked)

lemma decodes_fixed32: "decodes (\<lambda>s w. pb_dec_fixed32 s field dest w)"
  unfolding pb_dec_fixed32_def pb_decode_fixed32_def by (intro decodes_got reads_read_bytes decodes_ret)

lemma decodes_fixed64: "decodes (\<lambda>s w. pb_dec_fixed64 s field dest w)"
  unfolding pb_dec_fixed64_def pb_decode_fixed64_def by (intro decodes_got reads_read_bytes decodes_ret)

lemma decodes_bytes:
  assumes "atype field = PB_ATYPE_STATIC"
  shows "decodes (\<lambda>s w. pb_dec_bytes alloc s field dest w)"
proof -
  have static: "(atype field = PB_ATYPE_POINTER) = False" using assms by simp
  show ?thesis
    unfolding pb_dec_bytes_def Let_def static if_False
    by (intro decodes_got reads_varint32 decodes_if decodes_error decodes_read_into)
qed

lemma decodes_string:
  assumes "atype field = PB_ATYPE_STATIC"
  shows "decodes (\<lambda>s w. pb_dec_string alloc s field dest w)"
proof -
  have static: "(atype field = PB_ATYPE_POINTER) = False" using assms by simp
  show ?thesis
    unfolding pb_dec_string_def Let_def static if_False
    by (intro decodes_got reads_varint32 decodes_if decodes_error decodes_read_string)
qed

lemma decodes_fixed_length_bytes: "decodes (\<lambda>s w. pb_dec_fixed_length_bytes s field dest w)"
  unfolding pb_dec_fixed_length_bytes_def
  by (intro decodes_got reads_varint32 decodes_if decodes_error decodes_ret decodes_read_into)

section \<open>Sub-messages and arrays\<close>

lemma decodes_with:
  assumes "static_msg d env fs" "d \<le> n" "decodes (\<lambda>s w. dec s fs dest w)"
  shows "decodes (\<lambda>s w. pb_decode_with n env dec s fs dest w)"
  unfolding decodes_def
proof (intro allI impI)
  fix s k w
  assume f: "fine s k"
  obtain w1 where w1: "pb_message_set_to_defaults n env fs dest w = Some w1"
    using message_defaults_total [OF assms(1,2)] by blast
  from assms(3) f obtain b s' w2 where d: "dec s fs dest w1 = Some (b, s', w2)" "step k s s'"
    by (rule decodesE)
  obtain w3 where "pb_release n env fs dest w2 = Some w3"
    using release_total [OF assms(1,2)] by blast
  with w1 d show "\<exists>b s' w'. pb_decode_with n env dec s fs dest w = Some (b, s', w') \<and> step k s s'"
    by (auto simp: pb_decode_with_def)
qed

text \<open>Open a substream, work on it, and finish with the parent.\<close>

lemma decodes_substream:
  assumes f: "decodes f"
    and g: "\<And>b s sub k w. fine s k \<Longrightarrow> fine sub (unat (is_bytes_left s) + k) \<Longrightarrow>
      \<exists>c s' w'. g b s sub w = Some (c, s', w') \<and> step k s s'"
  shows "decodes (\<lambda>s w. got (pb_make_string_substream s) w (\<lambda>sub s.
    case f sub w of None \<Rightarrow> None | Some (b, sub, w) \<Rightarrow> g b s sub w))"
  unfolding decodes_def
proof (intro allI impI)
  fix s k w
  assume "fine s k"
  from make_substream_total [OF this] obtain r s' where r: "pb_make_string_substream s = Some (r, s')"
    "step k s s'" "\<forall>sub. r = Some sub \<longrightarrow> fine sub (unat (is_bytes_left s') + k)" by blast
  show "\<exists>b s' w'. got (pb_make_string_substream s) w (\<lambda>sub s.
      case f sub w of None \<Rightarrow> None | Some (b, sub, w) \<Rightarrow> g b s sub w) = Some (b, s', w') \<and> step k s s'"
  proof (cases r)
    case None
    with r show ?thesis by auto
  next
    case (Some sub)
    with r(3) have sub: "fine sub (unat (is_bytes_left s') + k)" by blast
    from f sub obtain b sub' w' where b: "f sub w = Some (b, sub', w')" "step (unat (is_bytes_left s') + k) sub sub'"
      by (rule decodesE)
    from g [OF step_fine [OF r(2)] step_fine [OF b(2)]] obtain c s'' w'' where
      "g b s' sub' w' = Some (c, s'', w'')" "step k s' s''" by blast
    with r(1) Some b(1) show ?thesis
      using step_trans [OF r(2)] by auto
  qed
qed

lemma close_total:
  "fine s k \<Longrightarrow> fine sub (unat (is_bytes_left s) + k) \<Longrightarrow>
   \<exists>c s' w'. got (pb_close_string_substream s sub) w (\<lambda>_ s. Some (b, s, w)) = Some (c, s', w') \<and> step k s s'"
proof -
  assume "fine s k" "fine sub (unat (is_bytes_left s) + k)"
  from close_substream_total [OF this] obtain r s' where
    "pb_close_string_substream s sub = Some (r, s')" "step k s s'" by blast
  then show ?thesis by (cases r) auto
qed

lemma decodes_submessage:
  assumes "f_ptr field \<noteq> NULL" "static_msg d env (de_fields_at env (f_ptr field))" "d \<le> n"
    and "decodes (\<lambda>s w. dec s (de_fields_at env (f_ptr field)) dest w)"
  shows "decodes (\<lambda>s w. pb_dec_submessage n env dec s field dest w)"
proof -
  have ptr: "(f_ptr field = NULL) = False" using assms(1) by simp
  have "decodes (\<lambda>s w. if htype field = PB_HTYPE_REPEATED
      then pb_decode_with n env dec s (de_fields_at env (f_ptr field)) dest w
      else dec s (de_fields_at env (f_ptr field)) dest w)"
    using assms(4) decodes_with [of d env "de_fields_at env (f_ptr field)" n dec dest] assms(2,3)
    by (intro decodes_if) simp_all
  then show ?thesis
    unfolding pb_dec_submessage_def Let_def ptr if_False by (rule decodes_substream) (rule close_total)
qed

lemma store_checked_stream: "store_checked r v s w = Some (True, s', w') \<Longrightarrow> s' = s"
  by (auto simp: store_checked_def dec_error_def split: option.splits if_splits)

text \<open>The decoders of packable types consume input when they succeed.\<close>

lemma packable_eats:
  assumes "ltype field \<le> PB_LTYPE_LAST_PACKABLE"
    and r: "call_decoder (PB_DECODERS n env dec (ltype field)) s field p w = Some (True, s', w')"
  shows "unat (is_bytes_left s') < unat (is_bytes_left s)"
proof -
  have "ltype field \<in> {0, 1, 2, 3, 4}"
    using assms(1) by (simp add: le_4_cases)
  then consider (varint) "ltype field = PB_LTYPE_VARINT" | (uvarint) "ltype field = PB_LTYPE_UVARINT"
    | (svarint) "ltype field = PB_LTYPE_SVARINT" | (fixed32) "ltype field = PB_LTYPE_FIXED32"
    | (fixed64) "ltype field = PB_LTYPE_FIXED64"
    by auto
  then show ?thesis
  proof cases
    case varint
    with r show ?thesis
      by (auto simp: call_decoder_def PB_DECODERS_def pb_dec_varint_def got_def Let_def
          split: option.splits dest!: varint_eats store_checked_stream)
  next
    case uvarint
    with r show ?thesis
      by (auto simp: call_decoder_def PB_DECODERS_def pb_dec_uvarint_def got_def Let_def
          split: option.splits dest!: varint_eats store_checked_stream)
  next
    case svarint
    with r show ?thesis
      by (auto simp: call_decoder_def PB_DECODERS_def pb_dec_svarint_def pb_decode_svarint_def got_def rd_then_def
          split: option.splits dest!: varint_eats store_checked_stream)
  next
    case fixed32
    with r show ?thesis
      by (auto simp: call_decoder_def PB_DECODERS_def pb_dec_fixed32_def pb_decode_fixed32_def got_def
          split: option.splits dest!: read_bytes_decreases)
  next
    case fixed64
    with r show ?thesis
      by (auto simp: call_decoder_def PB_DECODERS_def pb_dec_fixed64_def pb_decode_fixed64_def got_def
          split: option.splits dest!: read_bytes_decreases)
  qed
qed

lemma static_packed_total:
  assumes f: "\<And>p. decodes (\<lambda>s w. call_decoder func s (it_field it) p w)"
    and eats: "\<And>s p w s' w'. call_decoder func s (it_field it) p w = Some (True, s', w') \<Longrightarrow>
      unat (is_bytes_left s') < unat (is_bytes_left s)"
  shows "unat (is_bytes_left s) < k \<Longrightarrow> fine s r \<Longrightarrow>
    \<exists>b s' w'. static_packed_loop k func it s w = Some (b, s', w') \<and> step r s s'"
proof (induction k arbitrary: s w)
  case (Suc k)
  let ?p = "item_at (it_pData it) (it_field it) (psize_get w (it_pSize it))"
  from f Suc.prems(2) obtain b s' w' where b: "call_decoder func s (it_field it) ?p w = Some (b, s', w')" "step r s s'"
    by (rule decodesE)
  show ?case
  proof (cases b)
    case True
    with b(1) have "unat (is_bytes_left s') < unat (is_bytes_left s)" by (intro eats) simp
    with Suc.prems(1) have "unat (is_bytes_left s') < k" by simp
    from Suc.IH [OF this step_fine [OF b(2)], of "psize_set (it_pSize it) (psize_get w' (it_pSize it) + 1) w'"]
    show ?thesis
      using b True Suc.prems(2) by (auto simp: Let_def dest: step_trans [OF b(2)])
  next
    case False
    with b Suc.prems(2) show ?thesis by (auto simp: Let_def)
  qed
qed simp

section \<open>Fields and messages\<close>

definition msg_total :: "nat \<Rightarrow> 's pb_dec_env \<Rightarrow> 's pb_msg_decoder \<Rightarrow> bool" where
  "msg_total d env dec \<longleftrightarrow> (\<forall>sub dest. static_msg d env sub \<longrightarrow> decodes (\<lambda>s w. dec s sub dest w))"

lemma decodes_call:
  assumes "static_msg (Suc d) env fs" "i \<le> nfields fs" "d \<le> n" "msg_total d env dec"
  shows "decodes (\<lambda>s w. call_decoder (PB_DECODERS n env dec (ltype (field_at fs i))) s (field_at fs i) (p w) (h w))"
proof -
  let ?f = "field_at fs i"
  from assms(1,2) have f: "atype ?f = PB_ATYPE_STATIC"
    "ltype ?f < PB_LTYPE_EXTENSION \<or> ltype ?f = PB_LTYPE_FIXED_LENGTH_BYTES"
    "ltype ?f = PB_LTYPE_SUBMESSAGE \<Longrightarrow> f_ptr ?f \<noteq> NULL \<and> static_msg d env (de_fields_at env (f_ptr ?f))"
    by (auto elim: static_msg_field)
  have "ltype ?f \<in> {0, 1, 2, 3, 4, 5, 6, 7, 9}"
    using f(2) by (auto simp: less_8_cases)
  moreover have "decodes (\<lambda>s w. pb_dec_submessage n env dec s ?f p w)" if "ltype ?f = PB_LTYPE_SUBMESSAGE" for p
    using f(3) [OF that] assms(3,4) by (intro decodes_submessage) (auto simp: msg_total_def)
  ultimately have "decodes (\<lambda>s w. call_decoder (PB_DECODERS n env dec (ltype ?f)) s ?f p w)" for p
    using f(1) by (auto simp: call_decoder_def PB_DECODERS_def decodes_varint decodes_uvarint decodes_svarint
        decodes_fixed32 decodes_fixed64 decodes_bytes decodes_string decodes_fixed_length_bytes)
  then show ?thesis by (simp add: decodes_def)
qed

lemma decodes_cond: "(c \<Longrightarrow> decodes f) \<Longrightarrow> (\<not> c \<Longrightarrow> decodes g) \<Longrightarrow> decodes (\<lambda>s w. if c then f s w else g s w)"
  by (cases c) simp_all

lemma decodes_static_packed:
  assumes st: "static_msg (Suc d) env fs" "i \<le> nfields fs" "d \<le> n" "msg_total d env dec"
    and it: "it_field it = field_at fs i" and lt: "ltype (field_at fs i) \<le> PB_LTYPE_LAST_PACKABLE"
  shows "decodes (\<lambda>s w. static_packed_loop (Suc (unat (is_bytes_left s)))
    (PB_DECODERS n env dec (ltype (field_at fs i))) it s w)"
  unfolding decodes_def
proof (intro allI impI)
  fix s k w
  assume "fine s k"
  then show "\<exists>b s' w'. static_packed_loop (Suc (unat (is_bytes_left s)))
      (PB_DECODERS n env dec (ltype (field_at fs i))) it s w = Some (b, s', w') \<and> step k s s'"
    using packable_eats [OF lt]
    by (intro static_packed_total) (auto simp: it intro: decodes_call [OF st])
qed

lemma decodes_defaults_then:
  assumes "static_msg d env fs" "d \<le> n" "decodes f"
  shows "decodes (\<lambda>s w. case pb_message_set_to_defaults n env fs p (g w) of None \<Rightarrow> None | Some w \<Rightarrow> f s w)"
  unfolding decodes_def
proof (intro allI impI)
  fix s k w
  assume "fine s k"
  obtain w1 where w1: "pb_message_set_to_defaults n env fs p (g w) = Some w1"
    using message_defaults_total [OF assms(1,2)] by blast
  from assms(3) \<open>fine s k\<close> obtain b s' w' where "f s w1 = Some (b, s', w')" "step k s s'"
    by (rule decodesE)
  with w1 show "\<exists>b s' w'. (case pb_message_set_to_defaults n env fs p (g w) of None \<Rightarrow> None | Some w \<Rightarrow> f s w)
      = Some (b, s', w') \<and> step k s s'" by simp
qed

lemma decodes_static_field:
  assumes st: "static_msg (Suc d) env fs" "i \<le> nfields fs" "d \<le> n" "msg_total d env dec"
    and it: "it_field it = field_at fs i"
  shows "decodes (\<lambda>s w. decode_static_field n env dec s wire_type it w)"
proof -
  note call = decodes_call [OF st]
  have sub: "ltype (field_at fs i) = PB_LTYPE_SUBMESSAGE \<Longrightarrow>
      static_msg d env (de_fields_at env (f_ptr (field_at fs i)))"
    using st(1,2) by (auto elim: static_msg_field)
  have close: "\<exists>c s' w'. (if is_bytes_left sub \<noteq> 0 then dec_error s ''array overflow'' w
        else got (pb_close_string_substream s sub) w (\<lambda>_ s. Some (b, s, w))) = Some (c, s', w') \<and> step k s s'"
    if "fine s k" "fine sub (unat (is_bytes_left s) + k)" for b s sub k w
    using that close_total [OF that, of w b] by (auto simp: dec_error_def)
  show ?thesis
    unfolding decode_static_field_def it Let_def
  proof (intro decodes_cond, goal_cases)
    case 1
    show ?case by (rule call)
  next
    case 2
    show ?case by (rule call)
  next
    case 3
    then have "decodes (\<lambda>s w. static_packed_loop (Suc (unat (is_bytes_left s)))
        (PB_DECODERS n env dec (ltype (field_at fs i))) it s w)"
      by (intro decodes_static_packed [OF st it]) simp
    then show ?case by (rule decodes_substream) (rule close)
  next
    case 4
    show ?case by (intro decodes_if decodes_error call)
  next
    case 5
    then show ?case by (intro decodes_defaults_then [OF sub st(3)] call)
  next
    case 6
    show ?case by (rule call)
  qed
qed

text \<open>The release of the old member of a union, and the whole of \<^verbatim>\<open>decode_field\<close>.\<close>

lemma release_union_total:
  assumes "static_msg d env fs" "d \<le> n" "canon fs dest it" "fine s k"
  shows "\<exists>b it' s' w'. pb_release_union_field n env s it w = Some (b, it', s', w') \<and> canon fs dest it' \<and> step k s s'"
proof -
  let ?old = "psize_get w (it_pSize it)" and ?new = "f_tag (it_field it)"
  show ?thesis
  proof (cases "?old = 0 \<or> ?old = ?new")
    case True
    with assms show ?thesis by (auto simp: pb_release_union_field_def Let_def)
  next
    case False
    from find_canon [OF assms(3), of "has_tag ?old"] obtain b it1 where
      f1: "pb_field_iter_find it ?old = Some (b, it1)" "canon fs dest it1"
      unfolding pb_field_iter_find_def by blast
    from f1(2) obtain i where i: "i \<le> nfields fs" "it_field it1 = field_at fs i" by (rule canon_field)
    obtain w1 where w1: "pb_release_single_field n env it1 w = Some w1"
      using release_single_total [OF assms(1,2) i] by blast
    from find_canon [OF f1(2), of "has_tag ?new"] obtain c it2 where
      f2: "pb_field_iter_find it1 ?new = Some (c, it2)" "canon fs dest it2"
      unfolding pb_field_iter_find_def by blast
    show ?thesis
      using False f1 w1 f2 assms(4)
      by (auto simp: pb_release_union_field_def Let_def split: bool.split)
  qed
qed

lemma decode_field_total:
  assumes st: "static_msg (Suc d) env fs" "Suc d \<le> n" "msg_total d env dec"
    and it: "canon fs dest it" and f: "fine s k"
  shows "\<exists>b it' s' w'. decode_field n env dec s wire_type it w = Some (b, it', s', w') \<and> canon fs dest it' \<and> step k s s'"
proof -
  have "\<exists>b it' s' w'. (if htype (it_field it) = PB_HTYPE_ONEOF then pb_release_union_field n env s it w
      else Some (True, it, s, w)) = Some (b, it', s', w') \<and> canon fs dest it' \<and> step k s s'"
    using release_union_total [OF st(1,2) it f] it f by auto
  then obtain b it1 s1 w1 where r: "(if htype (it_field it) = PB_HTYPE_ONEOF then pb_release_union_field n env s it w
      else Some (True, it, s, w)) = Some (b, it1, s1, w1)" "canon fs dest it1" "step k s s1"
    by blast
  from r(2) obtain i where i: "i \<le> nfields fs" "it_field it1 = field_at fs i" by (rule canon_field)
  then have "atype (it_field it1) = PB_ATYPE_STATIC"
    using st(1) by (auto elim: static_msg_field)
  moreover have "decodes (\<lambda>s w. decode_static_field n env dec s wire_type it1 w)"
    using st(2) by (intro decodes_static_field [OF st(1) i(1) _ st(3) i(2)]) simp
  from this step_fine [OF r(3)] obtain c s2 w2 where
    "decode_static_field n env dec s1 wire_type it1 w1 = Some (c, s2, w2)" "step k s1 s2"
    by (rule decodesE)
  ultimately show ?thesis
    using r step_trans [OF r(3)] by (cases b) (auto simp: decode_field_def)
qed

text \<open>A table without an extension field: unknown fields are skipped.\<close>

lemma skip_unknown_total:
  assumes "fine s k"
  shows "\<exists>b s'. skip_unknown s wire_type fr w = Some (b, fr, s', w) \<and> step k s s'"
proof -
  from reads_skip_field assms obtain r s' where "pb_skip_field s wire_type = Some (r, s')" "step k s s'"
    by (rule readsE)
  then show ?thesis by (simp add: skip_unknown_def)
qed

lemma find_extension_none:
  assumes "static_msg d env fs" "canon fs dest it"
  shows "\<exists>it'. find_extension_field it = Some (False, it') \<and> canon fs dest it'"
proof -
  from find_canon [OF assms(2), of "\<lambda>f. ltype f = PB_LTYPE_EXTENSION"] obtain b it' where
    r: "find_extension_field it = Some (b, it')" "canon fs dest it'" "b \<longrightarrow> ltype (it_field it') = PB_LTYPE_EXTENSION"
    unfolding find_extension_field_def by blast
  from r(2) obtain i where i: "i \<le> nfields fs" "it_field it' = field_at fs i" by (rule canon_field)
  from assms(1) i(1) have "ltype (field_at fs i) \<noteq> PB_LTYPE_EXTENSION"
    by (rule static_msg_field) auto
  with r(3) i(2) have "\<not> b" by auto
  with r(1,2) show ?thesis by simp
qed

lemma decode_unknown_total:
  assumes st: "static_msg d env fs" and it: "canon fs dest (fr_iter fr)" and tag: "tag < -1" and f: "fine s k"
  shows "\<exists>b fr' s' w'. decode_unknown n env dec s tag wire_type fr w = Some (b, fr', s', w')
    \<and> canon fs dest (fr_iter fr') \<and> step k s s'"
proof -
  from find_extension_none [OF st it] obtain it' where
    r: "find_extension_field (fr_iter fr) = Some (False, it')" "canon fs dest it'" by blast
  have "\<not> tag \<ge> -1" using tag by simp
  with r skip_unknown_total [OF f, of wire_type] it show ?thesis
    unfolding decode_unknown_def by (fastforce simp: Let_def)
qed

lemma decode_tagged_total:
  assumes st: "static_msg (Suc d) env fs" "Suc d \<le> n" "msg_total d env dec"
    and it: "canon fs dest (fr_iter fr)" and tag: "tag < -1" and f: "fine s k"
  shows "\<exists>b fr' s' w'. decode_tagged n env dec s tag wire_type fr w = Some (b, fr', s', w')
    \<and> canon fs dest (fr_iter fr') \<and> step k s s'"
proof -
  from find_canon [OF it, of "has_tag tag"] obtain b it1 where
    r: "pb_field_iter_find (fr_iter fr) tag = Some (b, it1)" "canon fs dest it1"
    unfolding pb_field_iter_find_def by blast
  show ?thesis
  proof (cases b)
    case False
    with r decode_unknown_total [OF st(1) _ tag f, of dest "fr\<lparr>fr_iter := it1\<rparr>"] show ?thesis
      by (simp add: decode_tagged_def)
  next
    case True
    show ?thesis
    proof (cases "select_fixed_count (fr\<lparr>fr_iter := it1\<rparr>) w")
      case None
      with r True it f show ?thesis by (auto simp: decode_tagged_def)
    next
      case (Some x)
      obtain fr2 w2 where x: "x = (fr2, w2)" by (cases x)
      have "canon fs dest (fr_iter (fr\<lparr>fr_iter := it1\<rparr>))" using r(2) by simp
      then have c2: "canon fs dest (fr_iter fr2)"
        using Some unfolding x by (rule select_fixed_count_canon)
      from decode_field_total [OF st c2 f, of wire_type w2] obtain c it3 s3 w3 where
        "decode_field n env dec s wire_type (fr_iter fr2) w2 = Some (c, it3, s3, w3)" "canon fs dest it3" "step k s s3"
        by blast
      with r True Some x show ?thesis by (simp add: decode_tagged_def Let_def)
    qed
  qed
qed

lemma tag_bound: "pb_decode_tag s = Some (Inr (wt, tag), s') \<Longrightarrow> tag < -1"
proof -
  assume "pb_decode_tag s = Some (Inr (wt, tag), s')"
  then obtain temp where "tag = drop_bit 3 temp"
    by (auto simp: pb_decode_tag_def split: option.splits sum.splits if_splits)
  then have "unat tag \<le> unat temp div 8" by (simp add: unat_drop_bit)
  also have "\<dots> < 4294967295" using unat_less_32 [of temp] by simp
  finally show ?thesis by (simp add: word_less_nat_alt unsigned_minus_1_eq_mask mask_eq_exp_minus_1)
qed

lemma decode_loop_total:
  assumes st: "static_msg (Suc d) env fs" "Suc d \<le> n" "msg_total d env dec"
  shows "unat (is_bytes_left s) < c \<Longrightarrow> canon fs dest (fr_iter fr) \<Longrightarrow> fine s k \<Longrightarrow>
    \<exists>b fr' s' w'. decode_loop c n env dec s fr w = Some (b, fr', s', w') \<and> step k s s'"
proof (induction c arbitrary: s fr w)
  case (Suc c)
  from decode_tag_total [OF Suc.prems(3)] obtain r s1 where
    r: "pb_decode_tag s = Some (r, s1)" "step k s s1"
    "\<forall>v. r = Inr v \<longrightarrow> unat (is_bytes_left s1) < unat (is_bytes_left s)" by blast
  show ?case
  proof (cases r)
    case (Inl eof)
    with r Suc.prems(3) show ?thesis by auto
  next
    case (Inr v)
    obtain wt tag where v: "v = (wt, tag)" by (cases v)
    from decode_tagged_total [OF st Suc.prems(2) tag_bound step_fine [OF r(2)], of s wt tag s1 wt w] r(1) Inr v
    obtain b fr2 s2 w2 where t: "decode_tagged n env dec s1 tag wt fr w = Some (b, fr2, s2, w2)"
      "canon fs dest (fr_iter fr2)" "step k s1 s2" by auto
    have s2: "step k s s2" using r(2) t(3) by (rule step_trans)
    have "unat (is_bytes_left s2) < c"
      using r(3) Inr t(3) Suc.prems(1) by (auto simp: step_def)
    from Suc.IH [OF this t(2) step_fine [OF s2], of w2] r t Inr v s2 Suc.prems(3) show ?thesis
      by (cases b) (auto dest: step_trans [OF s2])
  qed
qed simp

lemma decode_noinit_total:
  "static_msg d env fs \<Longrightarrow> d < n \<Longrightarrow> decodes (\<lambda>s w. pb_decode_noinit n env s fs dest w)"
proof (induction d arbitrary: n fs dest)
  case (Suc d)
  then obtain n' where n: "n = Suc n'" "Suc d \<le> n'" by (cases n) auto
  have dec: "msg_total d env (pb_decode_noinit n' env)"
    using Suc.IH n(2) by (auto simp: msg_total_def)
  show ?case
    unfolding decodes_def
  proof (intro allI impI)
    fix s k w
    assume f: "fine s k"
    define fr where "fr = \<lparr>fr_iter = snd (pb_field_iter_begin fs dest), fr_extension_range_start = 0,
        fr_fixed_count_field = None, fr_fields_seen = [0, 0 :: u32]\<rparr>"
    have "canon fs dest (fr_iter fr)" by (auto simp: fr_def iter_begin)
    from decode_loop_total [OF Suc.prems(1) n(2) dec _ this f, of "Suc (unat (is_bytes_left s))" "w\<lparr>w_fixed_count_size := 0\<rparr>"]
    obtain b fr' s' w' where loop: "decode_loop (Suc (unat (is_bytes_left s))) n' env (pb_decode_noinit n' env) s fr
        (w\<lparr>w_fixed_count_size := 0\<rparr>) = Some (b, fr', s', w')" "step k s s'" by auto
    have "\<exists>b s' w'. noinit_body n' env (pb_decode_noinit n' env) s fs dest w = Some (b, s', w') \<and> step k s s'"
      using loop unfolding noinit_body_def fr_def [symmetric] Let_def
      by (cases b) (auto simp: dec_error_def simp del: decode_loop.simps)
    then show "\<exists>b s' w'. pb_decode_noinit n env s fs dest w = Some (b, s', w') \<and> step k s s'"
      by (auto simp: n(1))
  qed
qed simp

lemma decode_total:
  assumes "static_msg d env fs" "d < n"
  shows "decodes (\<lambda>s w. pb_decode n env s fs dest w)"
  unfolding pb_decode_def
  using decodes_with [OF assms(1), of n "pb_decode_noinit n env" dest] decode_noinit_total [OF assms] assms(2)
  by simp

lemma decode_delimited_total:
  assumes "static_msg d env fs" "d < n"
  shows "decodes (\<lambda>s w. pb_decode_delimited n env s fs dest w)"
  unfolding pb_decode_delimited_def decode_delimited_with_def
  using decode_total [OF assms, of dest] by (rule decodes_substream) (rule close_total)

end

end
