(* ===== verification/Pb_Required.thy ===== *)
theory Pb_Required
  imports Pb_Decode_Safe
begin

text \<open>
  The bookkeeping of required fields in \<^verbatim>\<open>pb_decode_noinit\<close>: the bitmap \<^verbatim>\<open>fields_seen\<close> as a set
  of indices, the count that the walk to the end of the table finds, and what the final check means.
\<close>

section \<open>The bitmap as a set\<close>

definition seen_set :: "u32 list \<Rightarrow> nat set" where
  "seen_set seen = {i. i < 64 \<and> bit (seen ! (i div 32)) (i mod 32)}"

lemma seen_set_empty [simp]: "seen_set [0, 0] = {}"
  by (auto simp: seen_set_def nth_Cons split: nat.splits)

lemma unat_and_31: "unat (i AND 31 :: u32) = unat i mod 32"
proof -
  have "i AND 31 = take_bit 5 i" by (simp add: take_bit_eq_mask mask_eq_exp_minus_1)
  then have "unat (i AND 31) = take_bit 5 (unat i)" by (simp only: unsigned_take_bit_eq)
  then show ?thesis by (simp add: take_bit_eq_mod)
qed

lemma seen_set_mark:
  assumes len: "length seen = 2" and k: "k < 64"
  shows "seen_set (seen[k div 32 := seen ! (k div 32) OR push_bit (k mod 32) 1]) = insert k (seen_set seen)"
proof -
  have div: "k div 32 < length seen" using len k by (simp add: div_less_iff_less_mult)
  have "bit (seen[k div 32 := seen ! (k div 32) OR push_bit (k mod 32) 1] ! (i div 32)) (i mod 32)
      \<longleftrightarrow> i = k \<or> bit (seen ! (i div 32)) (i mod 32)" for i
  proof (cases "i div 32 = k div 32")
    case True
    then have "i = k \<longleftrightarrow> i mod 32 = k mod 32" by (metis div_mult_mod_eq)
    with True div show ?thesis by (auto simp: bit_simps)
  next
    case False
    with div show ?thesis by auto
  qed
  then show ?thesis
    using k by (auto simp: seen_set_def)
qed

text \<open>The words of the bitmap below the count must be full, and the last one must have exactly the
  bits below the remainder.\<close>

lemma all_required_seen_iff:
  assumes count: "unat count \<le> 64" and sub: "seen_set seen \<subseteq> {..<unat count}"
  shows "all_required_seen count seen \<longleftrightarrow> seen_set seen = {..<unat count}"
proof -
  let ?c = "unat count"
  have q: "unat (drop_bit 5 count) = ?c div 32" by (simp add: unat_drop_bit)
  have full: "seen ! j = -1 \<longleftrightarrow> (\<forall>b < 32. bit (seen ! j) b)" for j
    by (auto simp: bit_eq_iff bit_simps)
  have part: "seen ! j = drop_bit (32 - m) (-1) \<longleftrightarrow> (\<forall>b < 32. bit (seen ! j) b \<longleftrightarrow> b < m)" if "m < 32" for j m
    using that by (auto simp: bit_eq_iff bit_simps)
  have bits: "bit (seen ! 0) b \<longleftrightarrow> b \<in> seen_set seen" "bit (seen ! 1) b \<longleftrightarrow> 32 + b \<in> seen_set seen" if "b < 32" for b
    using that div_add_self1 [of 32 b] by (simp_all add: seen_set_def)
  have "all_required_seen count seen \<longleftrightarrow> ?c = 0 \<or> (\<forall>j < ?c div 32. seen ! j = -1)
      \<and> (?c mod 32 \<noteq> 0 \<longrightarrow> seen ! (?c div 32) = drop_bit (32 - ?c mod 32) (-1))"
    unfolding all_required_seen_def q unat_and_31 [symmetric]
    by (auto simp: list_all_iff unat_eq_0)
  also have "\<dots> \<longleftrightarrow> {..<?c} \<subseteq> seen_set seen"
  proof -
    consider "?c < 32" | "32 \<le> ?c" "?c < 64" | "?c = 64" using count by linarith
    then show ?thesis
    proof cases
      case 1
      then have d: "?c div 32 = 0" "?c mod 32 = ?c" by simp_all
      show ?thesis
        unfolding d part [OF 1, of 0] using 1 sub by (auto simp: bits)
    next
      case 2
      then have d: "?c div 32 = 1" "?c mod 32 = ?c - 32" by (simp_all add: le_div_geq le_mod_geq)
      have "(\<forall>j < 1. seen ! j = -1) \<longleftrightarrow> (\<forall>b < 32. b \<in> seen_set seen)"
        by (simp add: full bits)
      moreover have "(?c - 32 \<noteq> 0 \<longrightarrow> seen ! 1 = drop_bit (32 - (?c - 32)) (-1))
          \<longleftrightarrow> (\<forall>b < ?c - 32. 32 + b \<in> seen_set seen)"
      proof -
        have "?c - 32 < 32" using 2 by simp
        then show ?thesis
          unfolding part [OF \<open>?c - 32 < 32\<close>, of 1] using 2 sub by (auto simp: bits bits(2) [unfolded One_nat_def])
      qed
      moreover have "{..<?c} \<subseteq> seen_set seen \<longleftrightarrow> (\<forall>b < 32. b \<in> seen_set seen) \<and> (\<forall>b < ?c - 32. 32 + b \<in> seen_set seen)"
      proof (intro iffI conjI allI impI subsetI)
        fix i
        assume a: "(\<forall>b < 32. b \<in> seen_set seen) \<and> (\<forall>b < ?c - 32. 32 + b \<in> seen_set seen)" and "i \<in> {..<?c}"
        then show "i \<in> seen_set seen"
          using 2 spec [OF conjunct2 [OF a], of "i - 32"] by (cases "i < 32") auto
      qed (use 2 in auto)
      ultimately show ?thesis
        using 2 unfolding d by simp
    next
      case 3
      have "(\<forall>j < 2. seen ! j = -1) \<longleftrightarrow> (\<forall>b < 32. b \<in> seen_set seen) \<and> (\<forall>b < 32. 32 + b \<in> seen_set seen)"
        by (simp add: numeral_2_eq_2 All_less_Suc2 full bits bits(2) [unfolded One_nat_def])
      moreover have "{..<64} \<subseteq> seen_set seen \<longleftrightarrow> (\<forall>b < 32. b \<in> seen_set seen) \<and> (\<forall>b < 32. 32 + b \<in> seen_set seen)"
      proof (intro iffI conjI allI impI subsetI)
        fix i :: nat
        assume a: "(\<forall>b < 32. b \<in> seen_set seen) \<and> (\<forall>b < 32. 32 + b \<in> seen_set seen)" and "i \<in> {..<64}"
        then show "i \<in> seen_set seen"
          using spec [OF conjunct2 [OF a], of "i - 32"] by (cases "i < 32") auto
      qed auto
      ultimately show ?thesis
        using 3 by simp
    qed
  qed
  finally show ?thesis using sub by auto
qed

section \<open>The number of required fields\<close>

definition required_count :: "pb_field_t list \<Rightarrow> nat" where
  "required_count fs = required_before fs (nfields fs)"

lemma seek_end_nth:
  assumes "i < nfields fs"
  shows "seek_end (iter_nth fs dest i)
    = (of_nat (required_before fs (nfields fs - 1)), f_type (field_at fs (nfields fs - 1)), iter_nth fs dest 0)"
  using assms
proof (induction "nfields fs - i" arbitrary: i)
  case (Suc k)
  show ?case
  proof (cases "Suc i < nfields fs")
    case True
    then have "seek_end (iter_nth fs dest i) = seek_end (iter_nth fs dest (Suc i))"
      by (subst seek_end.simps) (simp add: iter_next_Suc)
    with Suc True show ?thesis by simp
  next
    case False
    with Suc.prems have eq: "Suc i = nfields fs" by simp
    then have "nfields fs - 1 = i" by simp
    then show ?thesis
      unfolding \<open>nfields fs - 1 = i\<close> using eq by (subst seek_end.simps) (simp add: iter_next_last)
  qed
qed simp

lemma seek_end_empty:
  "nfields fs = 0 \<Longrightarrow> seek_end (iter_nth fs dest 0) = (0, f_type (field_at fs 0), iter_nth fs dest 0)"
  by (subst seek_end.simps) (simp add: iter_next_empty required_before_def)

lemma seek_end_canon:
  assumes "canon fs dest it"
  obtains i where "i < nfields fs \<or> i = 0" "fst (seek_end it) = fst (seek_end (iter_nth fs dest i))"
    "fst (snd (seek_end it)) = fst (snd (seek_end (iter_nth fs dest i)))"
    "it_field (snd (snd (seek_end it))) = it_field (snd (snd (seek_end (iter_nth fs dest i))))"
proof -
  from assms obtain i where i: "i < nfields fs \<or> i = 0" "it = iter_nth fs dest i
      \<or> htype (field_at fs i) = PB_HTYPE_REPEATED \<and> it = (iter_nth fs dest i)\<lparr>it_pSize := PSizeFixedCount\<rparr>"
    by (auto simp: canon_def)
  show thesis
  proof (cases "it = iter_nth fs dest i")
    case True
    then show thesis using i(1) by (intro that [of i]) simp_all
  next
    case False
    with i have red: "htype (field_at fs i) = PB_HTYPE_REPEATED"
      "it = (iter_nth fs dest i)\<lparr>it_pSize := PSizeFixedCount\<rparr>" by auto
    show thesis
    proof (cases "f_tag (field_at fs i) = 0")
      case True
      have "pb_field_iter_next it = (False, it)" "pb_field_iter_next (iter_nth fs dest i) = (False, iter_nth fs dest i)"
        using True red(2) by (simp_all add: pb_field_iter_next_def)
      then have "seek_end it = (of_nat (required_before fs i), f_type (field_at fs i), it)"
        "seek_end (iter_nth fs dest i) = (of_nat (required_before fs i), f_type (field_at fs i), iter_nth fs dest i)"
        using red(2) by (subst seek_end.simps, simp)+
      with i(1) red(2) show thesis by (intro that [of i]) simp_all
    next
      case tag: False
      have "pb_field_iter_next it = pb_field_iter_next (iter_nth fs dest i)"
        unfolding red(2) using red(1) tag by (intro next_redirected) simp_all
      moreover have "it_required_field_index it = it_required_field_index (iter_nth fs dest i)"
        "it_field it = it_field (iter_nth fs dest i)" using red(2) by simp_all
      ultimately have "seek_end it = seek_end (iter_nth fs dest i)"
        unfolding seek_end.simps [of it] seek_end.simps [of "iter_nth fs dest i"] by (simp only:)
      with i(1) show thesis by (intro that [of i]) simp_all
    qed
  qed
qed

lemma required_count_le: "required_count fs \<le> nfields fs"
proof -
  have "required_count fs \<le> length (take (nfields fs) fs)"
    unfolding required_count_def required_before_def by (rule length_filter_le)
  then show ?thesis by simp
qed

text \<open>The walk to the end counts the required fields, up to the size of the bitmap.\<close>

lemma req_field_count_canon:
  assumes "canon fs dest it" "nfields fs < 2 ^ 32"
  shows "unat (req_field_count it) = min 64 (required_count fs)"
proof -
  from assms(1) obtain i where i: "i < nfields fs \<or> i = 0" "fst (seek_end it) = fst (seek_end (iter_nth fs dest i))"
    "fst (snd (seek_end it)) = fst (snd (seek_end (iter_nth fs dest i)))"
    "it_field (snd (snd (seek_end it))) = it_field (snd (snd (seek_end (iter_nth fs dest i))))"
    by (rule seek_end_canon)
  show ?thesis
  proof (cases "nfields fs = 0")
    case True
    then have "f_tag (field_at fs 0) = 0" using tag_zero_iff [of 0 fs] by simp
    with True i seek_end_empty [OF True, of dest] show ?thesis
      by (auto simp: req_field_count_def required_count_def required_before_def split: prod.splits)
  next
    case False
    then have "i < nfields fs" using i(1) by auto
    note se = seek_end_nth [OF this, of dest]
    have tag: "f_tag (field_at fs 0) \<noteq> 0" using False by (simp add: field_at_tag_nonzero)
    define last where "last = nfields fs - 1"
    then have last: "last < length fs" "Suc last = nfields fs"
      using False nfields_le [of fs] by auto
    have rc: "required_count fs = required_before fs last
        + (if htype (field_at fs last) = PB_HTYPE_REQUIRED then 1 else 0)"
      using required_before_Suc [OF last(1)] last(2) by (simp add: required_count_def)
    have bound: "required_count fs < 4294967296"
      using required_count_le [of fs] assms(2) by simp
    obtain it' where se': "seek_end it = (of_nat (required_before fs last), f_type (field_at fs last), it')"
        "it_field it' = field_at fs 0"
      using i(2-4) unfolding se last_def [symmetric] by (cases "seek_end it") auto
    have "req_field_count it = (let count = of_nat (required_count fs) in
        if count > PB_MAX_REQUIRED_FIELDS then PB_MAX_REQUIRED_FIELDS else count)"
      unfolding req_field_count_def se' rc using tag se'(2) by (simp add: Let_def add.commute)
    moreover have "unat (of_nat (required_count fs) :: u32) = required_count fs"
      using bound by (intro unat_of_nat_small) simp
    ultimately show ?thesis
      by (auto simp: Let_def word_less_nat_alt)
  qed
qed

section \<open>The rounds of the main loop\<close>

text \<open>A run of successful rounds of the loop in \<^verbatim>\<open>pb_decode_noinit\<close>, with the tags it has read.\<close>

inductive decode_rounds :: "nat \<Rightarrow> 's pb_dec_env \<Rightarrow> 's pb_msg_decoder
    \<Rightarrow> 's pb_istream_t \<times> pb_dec_frame \<times> pb_world \<Rightarrow> u32 list
    \<Rightarrow> 's pb_istream_t \<times> pb_dec_frame \<times> pb_world \<Rightarrow> bool"
  for n env dec where
  start: "decode_rounds n env dec c [] c"
| round: "decode_rounds n env dec c tags (s, fr, w) \<Longrightarrow> is_bytes_left s \<noteq> 0 \<Longrightarrow>
    pb_decode_tag s = Some (Inr (wire_type, tag), s1) \<Longrightarrow>
    decode_tagged n env dec s1 tag wire_type fr w = Some (True, fr2, s2, w2) \<Longrightarrow>
    decode_rounds n env dec c (tags @ [tag]) (s2, fr2, w2)"

text \<open>Where the loop stops with success: at the end of the input, or when no tag can be read because
  the input ends there.\<close>

definition stops_at :: "'s pb_istream_t \<Rightarrow> 's pb_istream_t \<Rightarrow> bool" where
  "stops_at s s' \<longleftrightarrow> is_bytes_left s = 0 \<and> s' = s
     \<or> is_bytes_left s \<noteq> 0 \<and> pb_decode_tag s = Some (Inl True, s')"

lemma decode_loop_rounds:
  assumes "decode_loop k n env dec s fr w = Some (True, fr', s', w')" "decode_rounds n env dec c tags (s, fr, w)"
  shows "\<exists>tags' s1. decode_rounds n env dec c (tags @ tags') (s1, fr', w') \<and> stops_at s1 s'"
  using assms
proof (induction k arbitrary: s fr w tags)
  case (Suc k)
  show ?case
  proof (cases "is_bytes_left s = 0")
    case True
    with Suc.prems show ?thesis
      by (intro exI [of _ "[]"] exI [of _ s]) (auto simp: stops_at_def)
  next
    case False
    note left = False
    show ?thesis
    proof (cases "pb_decode_tag s")
      case None
      with Suc.prems left show ?thesis by simp
    next
      case (Some x)
      obtain r s1 where x: "x = (r, s1)" by (cases x)
      show ?thesis
      proof (cases r)
        case (Inl eof)
        with Suc.prems Some x left show ?thesis
          by (intro exI [of _ "[]"] exI [of _ s]) (auto simp: stops_at_def)
      next
        case (Inr v)
        obtain wt tag where v: "v = (wt, tag)" by (cases v)
        from Suc.prems(1) Some x Inr v left obtain fr2 s2 w2 where
          t: "decode_tagged n env dec s1 tag wt fr w = Some (True, fr2, s2, w2)"
            "decode_loop k n env dec s2 fr2 w2 = Some (True, fr', s', w')"
          by (auto split: option.splits bool.splits)
        have "decode_rounds n env dec c (tags @ [tag]) (s2, fr2, w2)"
          using Suc.prems(2) left Some t(1) unfolding x Inr v by (rule decode_rounds.round)
        from Suc.IH [OF t(2) this] show ?thesis
          by (metis append.assoc)
      qed
    qed
  qed
qed simp

section \<open>What the bitmap records\<close>

text \<open>The bits that a run over fields with the given tags may set.\<close>

definition required_marks :: "pb_field_t list \<Rightarrow> u32 list \<Rightarrow> nat set" where
  "required_marks fs tags = {required_before fs i | i. i < nfields fs \<and> htype (field_at fs i) = PB_HTYPE_REQUIRED
     \<and> required_before fs i < 64 \<and> (\<exists>t \<in> set tags. has_tag t (field_at fs i))}"

definition distinct_tags :: "pb_field_t list \<Rightarrow> bool" where
  "distinct_tags fs \<longleftrightarrow> distinct (map f_tag (take (nfields fs) fs))"

lemma distinct_tagsD:
  "distinct_tags fs \<Longrightarrow> i < nfields fs \<Longrightarrow> j < nfields fs \<Longrightarrow> f_tag (field_at fs i) = f_tag (field_at fs j) \<Longrightarrow> i = j"
  using nfields_le [of fs] by (auto simp: distinct_tags_def distinct_conv_nth field_at_def)

definition frame_inv :: "pb_field_t list \<Rightarrow> addr \<Rightarrow> u32 list \<Rightarrow> pb_dec_frame \<Rightarrow> bool" where
  "frame_inv fs dest tags fr \<longleftrightarrow> canon fs dest (fr_iter fr) \<and> length (fr_fields_seen fr) = 2
     \<and> seen_set (fr_fields_seen fr) \<subseteq> required_marks fs tags
     \<and> (distinct_tags fs \<longrightarrow> required_marks fs tags \<subseteq> seen_set (fr_fields_seen fr))"

definition start_frame :: "pb_field_t list \<Rightarrow> addr \<Rightarrow> pb_dec_frame" where
  "start_frame fs dest = \<lparr>fr_iter = snd (pb_field_iter_begin fs dest), fr_extension_range_start = 0,
     fr_fixed_count_field = None, fr_fields_seen = [0, 0]\<rparr>"

lemma frame_inv_start: "frame_inv fs dest [] (start_frame fs dest)"
  by (auto simp: frame_inv_def start_frame_def required_marks_def iter_begin)

lemma required_marks_snoc:
  "required_marks fs (tags @ [t]) = required_marks fs tags \<union> required_marks fs [t]"
  by (auto simp: required_marks_def)

lemma required_marks_none:
  "\<forall>l < nfields fs. \<not> has_tag t (field_at fs l) \<Longrightarrow> required_marks fs [t] = {}"
  by (auto simp: required_marks_def)

text \<open>Operations that return an iterator leave it canonical; the bitmap only changes in
  \<open>mark_required\<close>.\<close>

lemma find_canon_Some:
  assumes "canon fs dest it" "pb_field_iter_find it t = Some (b, it')"
  shows "canon fs dest it'" "b \<Longrightarrow> has_tag t (it_field it')"
  using find_canon [OF assms(1), of "has_tag t"] assms(2) by (auto simp: pb_field_iter_find_def)

lemma release_union_canon:
  "canon fs dest it \<Longrightarrow> pb_release_union_field n env s it w = Some (b, it', s', w') \<Longrightarrow> canon fs dest it'"
  by (auto simp: pb_release_union_field_def Let_def split: if_splits option.splits bool.splits
      dest!: find_canon_Some(1) [rotated])

lemma decode_field_canon:
  "canon fs dest it \<Longrightarrow> decode_field n env dec s wt it w = Some (b, it', s', w') \<Longrightarrow> canon fs dest it'"
  by (auto simp: decode_field_def split: if_splits option.splits bool.splits
      dest!: release_union_canon [rotated])

lemma decode_unknown_frame:
  assumes "canon fs dest (fr_iter fr)" "decode_unknown n env dec s t wt fr w = Some (b, fr', s', w')"
  shows "canon fs dest (fr_iter fr') \<and> fr_fields_seen fr' = fr_fields_seen fr"
proof -
  have ext: "canon fs dest it'" if "find_extension_field (fr_iter fr) = Some (c, it')" for c it'
    using find_canon [OF assms(1), of "\<lambda>f. ltype f = PB_LTYPE_EXTENSION"] that
    by (auto simp: find_extension_field_def)
  from assms show ?thesis
    by (auto simp: decode_unknown_def skip_unknown_def Let_def split: if_splits option.splits bool.splits dest!: ext)
qed

text \<open>The search from a canonical iterator of a non-empty table finds the tag if it is there.\<close>

lemma find_canon_at:
  assumes "canon fs dest it" "nfields fs \<noteq> 0"
  shows "\<exists>b it'. pb_field_iter_find it t = Some (b, it') \<and> (b \<longleftrightarrow> (\<exists>l < nfields fs. has_tag t (field_at fs l)))
    \<and> (b \<longrightarrow> (\<exists>j < nfields fs. has_tag t (field_at fs j) \<and> it_field it' = field_at fs j
          \<and> it_required_field_index it' = of_nat (required_before fs j)))"
proof -
  from assms obtain i where i: "i < nfields fs"
    "it = iter_nth fs dest i \<or> htype (field_at fs i) = PB_HTYPE_REPEATED
       \<and> it = (iter_nth fs dest i)\<lparr>it_pSize := PSizeFixedCount\<rparr>"
    unfolding canon_def by auto
  have pos: "it_pos it = i" "it_start it = fs" "it_field it = field_at fs i"
    "it_required_field_index it = of_nat (required_before fs i)" using i(2) by auto
  have all: "find_result fs dest (has_tag t) i {0..<nfields fs}
      (iter_find_loop (Suc (length fs)) i (has_tag t) (iter_nth fs dest i))"
    using i(1) by (rule find_loop_all)
  show ?thesis
  proof (cases "has_tag t (field_at fs i)")
    case True
    then have "pb_field_iter_find it t = Some (True, it)"
      using pos by (simp add: pb_field_iter_find_def)
    with True pos i(1) show ?thesis by auto
  next
    case False
    have "pb_field_iter_next it = pb_field_iter_next (iter_nth fs dest i)"
      using i by (elim disjE conjE) (auto simp: field_at_tag_nonzero intro: next_redirected)
    then have "pb_field_iter_find it t = iter_find_loop (Suc (length fs)) i (has_tag t) (iter_nth fs dest i)"
      using False pos by (simp add: pb_field_iter_find_def)
    with all show ?thesis unfolding find_result_def by fastforce
  qed
qed

lemma select_fixed_count_frame:
  "select_fixed_count fr w = Some (fr', w') \<Longrightarrow> fr_fields_seen fr' = fr_fields_seen fr
     \<and> it_field (fr_iter fr') = it_field (fr_iter fr)
     \<and> it_required_field_index (fr_iter fr') = it_required_field_index (fr_iter fr)"
  by (auto simp: select_fixed_count_def Let_def split: if_splits)

lemma mark_required_seen:
  assumes "it_field (fr_iter fr) = field_at fs j" "it_required_field_index (fr_iter fr) = of_nat (required_before fs j)"
    and j: "j < nfields fs" "nfields fs < 2 ^ 32" and len: "length (fr_fields_seen fr) = 2"
  shows "length (fr_fields_seen (mark_required fr)) = 2"
    "seen_set (fr_fields_seen (mark_required fr)) = seen_set (fr_fields_seen fr)
      \<union> (if htype (field_at fs j) = PB_HTYPE_REQUIRED \<and> required_before fs j < 64 then {required_before fs j} else {})"
proof -
  let ?k = "required_before fs j"
  have "?k \<le> length (take j fs)"
    unfolding required_before_def by (rule length_filter_le)
  then have small: "?k < 2 ^ 32" using j by simp
  then have u: "unat (of_nat ?k :: u32) = ?k" by (intro unat_of_nat_small) simp
  have lt: "(of_nat ?k :: u32) < 64 \<longleftrightarrow> ?k < 64"
    unfolding word_less_nat_alt u by simp
  have q: "unat (drop_bit 5 (of_nat ?k :: u32)) = ?k div 32" "unat ((of_nat ?k :: u32) AND 31) = ?k mod 32"
    using u by (simp_all add: unat_drop_bit unat_and_31)
  show "length (fr_fields_seen (mark_required fr)) = 2"
    using len by (simp add: mark_required_def Let_def)
  show "seen_set (fr_fields_seen (mark_required fr)) = seen_set (fr_fields_seen fr)
      \<union> (if htype (field_at fs j) = PB_HTYPE_REQUIRED \<and> ?k < 64 then {?k} else {})"
    unfolding mark_required_def Let_def assms(1,2) lt q
    using seen_set_mark [OF len] by simp
qed

lemma marks_single:
  assumes "j < nfields fs" "has_tag t (field_at fs j)"
  defines "M \<equiv> if htype (field_at fs j) = PB_HTYPE_REQUIRED \<and> required_before fs j < 64 then {required_before fs j} else {}"
  shows "M \<subseteq> required_marks fs [t]" "distinct_tags fs \<Longrightarrow> required_marks fs [t] \<subseteq> M"
proof -
  show "M \<subseteq> required_marks fs [t]"
    using assms by (auto simp: required_marks_def)
  show "required_marks fs [t] \<subseteq> M" if "distinct_tags fs"
    using assms distinct_tagsD [OF that] by (auto simp: required_marks_def has_tag_def)
qed

lemma decode_tagged_frame:
  assumes inv: "frame_inv fs dest tags fr" and fs: "nfields fs \<noteq> 0" "nfields fs < 2 ^ 32"
    and t: "decode_tagged n env dec s t wt fr w = Some (True, fr', s', w')"
  shows "frame_inv fs dest (tags @ [t]) fr'"
proof -
  from inv have c: "canon fs dest (fr_iter fr)" and len: "length (fr_fields_seen fr) = 2"
    by (auto simp: frame_inv_def)
  from find_canon_at [OF c fs(1), of t] obtain b it1 where
    f: "pb_field_iter_find (fr_iter fr) t = Some (b, it1)" "b \<longleftrightarrow> (\<exists>l < nfields fs. has_tag t (field_at fs l))"
    "b \<longrightarrow> (\<exists>j < nfields fs. has_tag t (field_at fs j) \<and> it_field it1 = field_at fs j
          \<and> it_required_field_index it1 = of_nat (required_before fs j))" by blast
  have c1: "canon fs dest (fr_iter (fr\<lparr>fr_iter := it1\<rparr>))"
    using find_canon_Some(1) [OF c f(1)] by simp
  show ?thesis
  proof (cases b)
    case False
    with f(1) t have "decode_unknown n env dec s t wt (fr\<lparr>fr_iter := it1\<rparr>) w = Some (True, fr', s', w')"
      by (simp add: decode_tagged_def)
    from decode_unknown_frame [OF c1 this]
    have "canon fs dest (fr_iter fr')" "fr_fields_seen fr' = fr_fields_seen fr" by simp_all
    moreover have "required_marks fs [t] = {}"
      using False f(2) by (intro required_marks_none) simp
    ultimately show ?thesis
      using inv by (simp add: frame_inv_def required_marks_snoc)
  next
    case True
    with f(3) obtain j where j: "j < nfields fs" "has_tag t (field_at fs j)" "it_field it1 = field_at fs j"
      "it_required_field_index it1 = of_nat (required_before fs j)" by blast
    from f(1) True t obtain fr2 w2 it3 where
      r: "select_fixed_count (fr\<lparr>fr_iter := it1\<rparr>) w = Some (fr2, w2)"
        "decode_field n env dec s wt (fr_iter fr2) w2 = Some (True, it3, s', w')"
        "fr' = (mark_required fr2)\<lparr>fr_iter := it3\<rparr>"
      by (auto simp: decode_tagged_def Let_def split: option.splits)
    have fr2: "it_field (fr_iter fr2) = field_at fs j" "it_required_field_index (fr_iter fr2) = of_nat (required_before fs j)"
      "fr_fields_seen fr2 = fr_fields_seen fr"
      using select_fixed_count_frame [OF r(1)] j by simp_all
    note m = mark_required_seen [OF fr2(1,2) j(1) fs(2), unfolded fr2(3), OF len]
    have "canon fs dest it3"
      using select_fixed_count_canon [OF c1 r(1)] r(2) by (rule decode_field_canon)
    moreover define M where "M = (if htype (field_at fs j) = PB_HTYPE_REQUIRED \<and> required_before fs j < 64
        then {required_before fs j} else {})"
    ultimately have "frame_inv fs dest (tags @ [t]) (mark_required fr2\<lparr>fr_iter := it3\<rparr>)
        \<longleftrightarrow> seen_set (fr_fields_seen fr) \<union> M \<subseteq> required_marks fs tags \<union> required_marks fs [t]
          \<and> (distinct_tags fs \<longrightarrow> required_marks fs tags \<union> required_marks fs [t] \<subseteq> seen_set (fr_fields_seen fr) \<union> M)"
      using m by (simp add: frame_inv_def required_marks_snoc)
    with marks_single [OF j(1,2), folded M_def] inv show ?thesis
      unfolding r(3) frame_inv_def by blast
  qed
qed

lemma rounds_frame_inv:
  assumes "decode_rounds n env dec c tags d" "nfields fs \<noteq> 0" "nfields fs < 2 ^ 32"
    and "frame_inv fs dest [] (fst (snd c))"
  shows "frame_inv fs dest tags (fst (snd d))"
  using assms
proof (induction rule: decode_rounds.induct)
  case (round c tags s fr w wire_type tag s1 fr2 s2 w2)
  then show ?case by (auto intro: decode_tagged_frame)
qed simp

text \<open>The final check of the bitmap, for the frame at the end of a run.\<close>

definition required_seen :: "pb_field_t list \<Rightarrow> u32 list \<Rightarrow> bool" where
  "required_seen fs tags \<longleftrightarrow> (\<forall>i < nfields fs. htype (field_at fs i) = PB_HTYPE_REQUIRED
     \<and> required_before fs i < 64 \<longrightarrow> (\<exists>t \<in> set tags. has_tag t (field_at fs i)))"

lemma required_before_mono: "i \<le> j \<Longrightarrow> required_before fs i \<le> required_before fs j"
proof -
  assume "i \<le> j"
  then have "take j fs = take i fs @ take (j - i) (drop i fs)"
    by (metis le_add_diff_inverse take_add)
  then show ?thesis by (simp add: required_before_def)
qed

lemma required_index_strict:
  "i < j \<Longrightarrow> j < nfields fs \<Longrightarrow> htype (field_at fs i) = PB_HTYPE_REQUIRED \<Longrightarrow> required_before fs i < required_before fs j"
  using required_before_Suc [of i fs] required_before_mono [of "Suc i" j fs] nfields_le [of fs] by simp

lemma required_index_inj:
  "i < nfields fs \<Longrightarrow> j < nfields fs \<Longrightarrow> htype (field_at fs i) = PB_HTYPE_REQUIRED \<Longrightarrow>
   htype (field_at fs j) = PB_HTYPE_REQUIRED \<Longrightarrow> required_before fs i = required_before fs j \<Longrightarrow> i = j"
  using required_index_strict [of i j fs] required_index_strict [of j i fs] by (cases i j rule: linorder_cases) auto

lemma required_index_onto:
  "k < required_before fs m \<Longrightarrow> m \<le> nfields fs \<Longrightarrow>
   \<exists>i < m. htype (field_at fs i) = PB_HTYPE_REQUIRED \<and> required_before fs i = k"
proof (induction m)
  case (Suc m)
  have "m < length fs" using Suc.prems(2) nfields_le [of fs] by simp
  with Suc.prems required_before_Suc [of m fs] consider "k < required_before fs m"
    | "htype (field_at fs m) = PB_HTYPE_REQUIRED" "required_before fs m = k"
    by (auto simp: less_Suc_eq split: if_splits)
  then show ?case
  proof cases
    case 1
    with Suc show ?thesis by (metis Suc_leD less_SucI)
  next
    case 2
    then show ?thesis by blast
  qed
qed (simp add: required_before_def)

lemma required_marks_bound: "required_marks fs tags \<subseteq> {..<min 64 (required_count fs)}"
proof
  fix k
  assume "k \<in> required_marks fs tags"
  then obtain i where i: "k = required_before fs i" "i < nfields fs" "htype (field_at fs i) = PB_HTYPE_REQUIRED"
    "required_before fs i < 64" by (auto simp: required_marks_def)
  have "required_before fs (Suc i) \<le> required_count fs"
    unfolding required_count_def using i(2) by (intro required_before_mono) simp
  with i required_before_Suc [of i fs] nfields_le [of fs] show "k \<in> {..<min 64 (required_count fs)}" by simp
qed

lemma required_seen_iff: "required_seen fs tags \<longleftrightarrow> required_marks fs tags = {..<min 64 (required_count fs)}"
proof
  assume seen: "required_seen fs tags"
  have "{..<min 64 (required_count fs)} \<subseteq> required_marks fs tags"
  proof
    fix k
    assume "k \<in> {..<min 64 (required_count fs)}"
    then have "k < required_before fs (nfields fs)" "k < 64" by (auto simp: required_count_def)
    with required_index_onto [of k fs "nfields fs"] seen show "k \<in> required_marks fs tags"
      unfolding required_seen_def required_marks_def by blast
  qed
  with required_marks_bound show "required_marks fs tags = {..<min 64 (required_count fs)}" by blast
next
  assume eq: "required_marks fs tags = {..<min 64 (required_count fs)}"
  show "required_seen fs tags"
    unfolding required_seen_def
  proof (intro allI impI)
    fix i
    assume i: "i < nfields fs" "htype (field_at fs i) = PB_HTYPE_REQUIRED \<and> required_before fs i < 64"
    have "required_before fs (Suc i) \<le> required_count fs"
      unfolding required_count_def using i(1) by (intro required_before_mono) simp
    with i required_before_Suc [of i fs] nfields_le [of fs] eq have "required_before fs i \<in> required_marks fs tags"
      by simp
    then obtain j where "required_before fs i = required_before fs j" "j < nfields fs"
      "htype (field_at fs j) = PB_HTYPE_REQUIRED" "\<exists>t \<in> set tags. has_tag t (field_at fs j)"
      unfolding required_marks_def by blast
    with required_index_inj [of i fs j] i show "\<exists>t \<in> set tags. has_tag t (field_at fs i)" by simp
  qed
qed

lemma final_check:
  assumes inv: "frame_inv fs dest tags fr" and fs: "nfields fs < 2 ^ 32"
  shows "all_required_seen (req_field_count (fr_iter fr)) (fr_fields_seen fr) \<Longrightarrow> required_seen fs tags"
    "distinct_tags fs \<Longrightarrow> required_seen fs tags \<Longrightarrow> all_required_seen (req_field_count (fr_iter fr)) (fr_fields_seen fr)"
proof -
  from inv have c: "unat (req_field_count (fr_iter fr)) = min 64 (required_count fs)"
    using fs by (intro req_field_count_canon) (auto simp: frame_inv_def)
  let ?S = "seen_set (fr_fields_seen fr)" and ?K = "{..<min 64 (required_count fs)}"
  from inv required_marks_bound have sub: "?S \<subseteq> required_marks fs tags" "required_marks fs tags \<subseteq> ?K"
    by (auto simp: frame_inv_def)
  have iff: "all_required_seen (req_field_count (fr_iter fr)) (fr_fields_seen fr) \<longleftrightarrow> ?S = ?K"
    using all_required_seen_iff [of "req_field_count (fr_iter fr)" "fr_fields_seen fr"] sub unfolding c by simp
  show "required_seen fs tags" if "all_required_seen (req_field_count (fr_iter fr)) (fr_fields_seen fr)"
    using that sub unfolding iff required_seen_iff by blast
  show "all_required_seen (req_field_count (fr_iter fr)) (fr_fields_seen fr)" if "distinct_tags fs" "required_seen fs tags"
    using that sub inv unfolding iff required_seen_iff frame_inv_def by blast
qed

end
