(* ===== verification/Pb_Roundtrip_Msg.thy ===== *)
theory Pb_Roundtrip_Msg
  imports Pb_Roundtrip Pb_Required
begin

text \<open>
  Decoding a whole message from its encoding, for messages of static scalar, string and bytes fields
  that are required or optional: every present field is stored in the new struct as it was in the
  old one, and the fields that were absent stay absent.
\<close>

section \<open>Flat messages\<close>

definition flat_field :: "pb_field_t \<Rightarrow> bool" where
  "flat_field f \<longleftrightarrow> atype f = PB_ATYPE_STATIC \<and> ltype f \<noteq> PB_LTYPE_SUBMESSAGE \<and> ltype f \<noteq> PB_LTYPE_EXTENSION
     \<and> (htype f = PB_HTYPE_REQUIRED \<or> htype f = PB_HTYPE_OPTIONAL) \<and> f_data_size f \<noteq> 0 \<and> f_tag f < 2 ^ 29
     \<and> (ltype f = PB_LTYPE_FIXED32 \<longrightarrow> f_data_size f = 4) \<and> (ltype f = PB_LTYPE_FIXED64 \<longrightarrow> f_data_size f = 8)"

definition flat_msg :: "pb_field_t list \<Rightarrow> bool" where
  "flat_msg fs \<longleftrightarrow> (\<forall>i < nfields fs. flat_field (field_at fs i)) \<and> distinct_tags fs
     \<and> nfields fs \<noteq> 0 \<and> nfields fs < 2 ^ 32"

lemma flat_msg_code [code]:
  "flat_msg fs \<longleftrightarrow> list_all (\<lambda>i. flat_field (field_at fs i)) [0..<nfields fs] \<and> distinct_tags fs
     \<and> nfields fs \<noteq> 0 \<and> int (nfields fs) < 4294967296"
  by (auto simp: flat_msg_def all_upto)

lemma flat_msgD:
  assumes "flat_msg fs"
  shows "i < nfields fs \<Longrightarrow> flat_field (field_at fs i)" "distinct_tags fs" "nfields fs \<noteq> 0" "nfields fs < 2 ^ 32"
  using assms by (simp_all add: flat_msg_def)

lemma flat_has_tag:
  assumes "flat_msg fs" "i < nfields fs" "j < nfields fs"
  shows "has_tag (f_tag (field_at fs i)) (field_at fs j) \<longleftrightarrow> j = i"
  using flat_msgD [OF assms(1)] assms(2,3) distinct_tagsD [of fs j i]
  by (auto simp: has_tag_def flat_field_def)

lemma flat_canon: "flat_msg fs \<Longrightarrow> canon fs dest it \<Longrightarrow> \<exists>j < nfields fs. it = iter_nth fs dest j"
  using flat_msgD [of fs] by (fastforce simp: canon_def flat_field_def)

lemma flat_find:
  assumes "flat_msg fs" "canon fs dest it" "i < nfields fs"
  shows "pb_field_iter_find it (f_tag (field_at fs i)) = Some (True, iter_nth fs dest i)"
proof -
  from flat_canon [OF assms(1,2)] obtain j where j: "j < nfields fs" "it = iter_nth fs dest j" by blast
  have "find_result fs dest (has_tag (f_tag (field_at fs i))) j {0..<nfields fs}
      (pb_field_iter_find it (f_tag (field_at fs i)))"
    using find_loop_all [OF j(1)] by (simp add: pb_field_iter_find_def j(2))
  then show ?thesis
    using flat_has_tag [OF assms(1,3)] assms(3) by (auto simp: find_result_def)
qed

text \<open>What the decoder does to the struct at \<open>dest\<close> when it meets field \<open>i\<close> of the struct at \<open>src\<close>.\<close>

definition has_flag :: "pb_field_t list \<Rightarrow> nat \<Rightarrow> bool" where
  "has_flag fs i \<longleftrightarrow> htype (field_at fs i) = PB_HTYPE_OPTIONAL \<and> size_off fs i \<noteq> data_off fs i"

definition copy_field :: "pb_field_t list \<Rightarrow> mem \<Rightarrow> addr \<Rightarrow> addr \<Rightarrow> nat \<Rightarrow> mem \<Rightarrow> mem" where
  "copy_field fs m src dest i m' =
     store_bytes (if has_flag fs i then store_bool m' (dest + size_off fs i) True else m')
       (dest + data_off fs i) (item_image m (field_at fs i) (src + data_off fs i))"

definition good_dest :: "pb_field_t list \<Rightarrow> addr \<Rightarrow> bool" where
  "good_dest fs dest \<longleftrightarrow> (\<forall>i < nfields fs. dest + data_off fs i \<noteq> NULL \<and> dest + data_off fs i + 4 \<noteq> NULL)"

lemma good_dest_code [code]:
  "good_dest fs dest \<longleftrightarrow> list_all (\<lambda>i. dest + data_off fs i \<noteq> NULL \<and> dest + data_off fs i + 4 \<noteq> NULL) [0..<nfields fs]"
  by (simp add: good_dest_def all_upto)

text \<open>The bytes of field \<open>i\<close> on the wire, with the payload \<open>item i\<close>.\<close>

definition chunk :: "pb_field_t list \<Rightarrow> (nat \<Rightarrow> byte list) \<Rightarrow> nat \<Rightarrow> byte list" where
  "chunk fs item i = tag_bytes (the (wire_type_for (ltype (field_at fs i)))) (f_tag (field_at fs i)) @ item i"

section \<open>The rounds of the decoder\<close>

context byte_source
begin

lemma flat_field_round:
  assumes flat: "flat_msg fs" "i < nfields fs" and it: "canon fs dest (fr_iter fr)"
    and item: "item_bytes env m msg (field_at fs i) (src + data_off fs i) = Some bs"
    and plain: "plain_item m (field_at fs i) (src + data_off fs i)" and dest: "good_dest fs dest"
    and p: "pending (is_source s) = Some (bs @ rest)" "length bs \<le> unat (is_bytes_left s)"
  shows "\<exists>src' fr'. pending src' = Some rest \<and> fr_fixed_count_field fr' = fr_fixed_count_field fr
    \<and> decode_tagged n denv dec s (f_tag (field_at fs i)) wt fr w
        = Some (True, fr', moved s (length bs) src', store_mem (copy_field fs m src dest i) w)"
proof -
  let ?f = "field_at fs i" and ?it = "iter_nth fs dest i"
  let ?w = "if it_pSize ?it \<noteq> PSizeAt (it_pData ?it) then psize_set_bool (it_pSize ?it) True w else w"
  have f: "flat_field ?f" using flat_msgD(1) [OF flat] .
  then have ht: "htype ?f = PB_HTYPE_REQUIRED \<or> htype ?f = PB_HTYPE_OPTIONAL" and at: "atype ?f = PB_ATYPE_STATIC"
    by (auto simp: flat_field_def)
  have d: "dest + data_off fs i \<noteq> NULL" "dest + data_off fs i + 4 \<noteq> NULL"
    using dest flat(2) by (auto simp: good_dest_def)
  have "f_data_size ?f \<noteq> 0" using f by (simp add: flat_field_def)
  note st = stores_item [where n = n and denv = denv and dec = dec, OF item plain d this]
  have w: "(if htype ?f = PB_HTYPE_OPTIONAL then ?w else w)
      = w\<lparr>w_mem := (if has_flag fs i then store_bool (w_mem w) (dest + size_off fs i) True else w_mem w)\<rparr>"
    using ht by (auto simp: has_flag_def)
  obtain src' where src': "pending src' = Some rest"
    "call_decoder (PB_DECODERS n denv dec (ltype ?f)) s ?f (dest + data_off fs i)
       (if htype ?f = PB_HTYPE_OPTIONAL then ?w else w)
     = Some (True, moved s (length bs) src', put (dest + data_off fs i) (item_image m ?f (src + data_off fs i))
         (if htype ?f = PB_HTYPE_OPTIONAL then ?w else w))"
    by (rule storesE [OF st p])
  have "decode_static_field n denv dec s wt ?it w
      = Some (True, moved s (length bs) src', store_mem (copy_field fs m src dest i) w)"
    using src'(2) ht unfolding w by (auto simp: decode_static_field_def copy_field_def has_flag_def Let_def)
  then have "decode_field n denv dec s wt ?it w
      = Some (True, ?it, moved s (length bs) src', store_mem (copy_field fs m src dest i) w)"
    using ht at by (auto simp: decode_field_def)
  moreover have "select_fixed_count (fr\<lparr>fr_iter := ?it\<rparr>) w = Some (fr\<lparr>fr_iter := ?it\<rparr>, w)"
    using ht by (auto simp: select_fixed_count_def Let_def)
  ultimately have "decode_tagged n denv dec s (f_tag ?f) wt fr w
      = Some (True, (mark_required (fr\<lparr>fr_iter := ?it\<rparr>))\<lparr>fr_iter := ?it\<rparr>, moved s (length bs) src',
          store_mem (copy_field fs m src dest i) w)"
    using flat_find [OF flat(1) it flat(2)] by (simp add: decode_tagged_def Let_def)
  moreover have "fr_fixed_count_field ((mark_required (fr\<lparr>fr_iter := ?it\<rparr>))\<lparr>fr_iter := ?it\<rparr>) = fr_fixed_count_field fr"
    by (simp add: mark_required_def Let_def)
  ultimately show ?thesis using src'(1) by blast
qed

text \<open>The loop over the fields at the positions \<open>is\<close>.\<close>

lemma flat_loop:
  assumes flat: "flat_msg fs" and dest: "good_dest fs dest"
  shows "\<forall>i \<in> set is. i < nfields fs \<and> wire_type_for (ltype (field_at fs i)) \<noteq> None
       \<and> item_bytes env m msg (field_at fs i) (src + data_off fs i) = Some (item i)
       \<and> plain_item m (field_at fs i) (src + data_off fs i) \<Longrightarrow>
    frame_inv fs dest tags fr \<Longrightarrow> pending (is_source s) = Some (concat (map (chunk fs item) is) @ rest) \<Longrightarrow>
    unat (is_bytes_left s) = length (concat (map (chunk fs item) is)) \<Longrightarrow> unat (is_bytes_left s) < k \<Longrightarrow>
    \<exists>src' fr'. pending src' = Some rest \<and> frame_inv fs dest (tags @ map (\<lambda>i. f_tag (field_at fs i)) is) fr'
      \<and> fr_fixed_count_field fr' = fr_fixed_count_field fr
      \<and> decode_loop k n denv dec s fr w
          = Some (True, fr', moved s (length (concat (map (chunk fs item) is))) src',
              store_mem (fold (copy_field fs m src dest) is) w)"
proof (induction "is" arbitrary: tags fr s k w)
  case Nil
  then obtain k' where "k = Suc k'" by (cases k) auto
  with Nil show ?case
    by (intro exI [of _ "is_source s"] exI [of _ fr]) (simp add: unat_eq_0 moved_def)
next
  case (Cons i "is")
  let ?f = "field_at fs i" and ?more = "concat (map (chunk fs item) is)"
  from Cons.prems(1) obtain wt where i: "i < nfields fs" "wire_type_for (ltype ?f) = Some wt"
    "item_bytes env m msg ?f (src + data_off fs i) = Some (item i)" "plain_item m ?f (src + data_off fs i)" by auto
  have f: "flat_field ?f" using flat_msgD(1) [OF flat i(1)] .
  obtain k' where k: "k = Suc k'" using Cons.prems(5) by (cases k) auto
  have ch: "chunk fs item i = tag_bytes wt (f_tag ?f) @ item i" by (simp add: chunk_def i(2))
  have tag: "f_tag ?f < 2 ^ 29" "wt < 8" "f_tag ?f \<noteq> 0"
    using f i(1,2) field_at_tag_nonzero [of i fs]
    by (auto simp: flat_field_def wire_type_for_def split: if_splits)
  have p: "pending (is_source s) = Some (tag_bytes wt (f_tag ?f) @ item i @ ?more @ rest)"
    "length (tag_bytes wt (f_tag ?f)) \<le> unat (is_bytes_left s)"
    using Cons.prems(3,4) by (simp_all add: ch)
  from decode_tag_pending [OF tag p] obtain src1 where
    src1: "pending src1 = Some (item i @ ?more @ rest)"
      "pb_decode_tag s = Some (Inr (wt, f_tag ?f), moved s (length (tag_bytes wt (f_tag ?f))) src1)" by blast
  let ?s1 = "moved s (length (tag_bytes wt (f_tag ?f))) src1"
  have left1: "unat (is_bytes_left ?s1) = length (item i) + length ?more"
    using Cons.prems(4) p(2) by (simp add: unat_moved ch)
  have it: "canon fs dest (fr_iter fr)" using Cons.prems(2) by (simp add: frame_inv_def)
  from flat_field_round [OF flat i(1) it i(3,4) dest, of ?s1 "?more @ rest" n denv dec wt w] src1(1) left1
  obtain src2 fr2 where r: "pending src2 = Some (?more @ rest)"
    "fr_fixed_count_field fr2 = fr_fixed_count_field fr"
    "decode_tagged n denv dec ?s1 (f_tag ?f) wt fr w
       = Some (True, fr2, moved ?s1 (length (item i)) src2, store_mem (copy_field fs m src dest i) w)"
    by auto
  let ?s2 = "moved ?s1 (length (item i)) src2"
  have inv: "frame_inv fs dest (tags @ [f_tag ?f]) fr2"
    using decode_tagged_frame [OF Cons.prems(2) flat_msgD(3,4) [OF flat] r(3)] .
  have left2: "unat (is_bytes_left ?s2) = length ?more"
    using left1 by (subst unat_moved) auto
  have nonempty: "0 < length (tag_bytes wt (f_tag ?f))" by (simp add: tag_bytes_def)
  have lt: "unat (is_bytes_left ?s2) < k'"
    using left2 Cons.prems(4,5) nonempty by (simp add: ch k del: length_greater_0_conv)
  have rest: "\<forall>i \<in> set is. i < nfields fs \<and> wire_type_for (ltype (field_at fs i)) \<noteq> None
      \<and> item_bytes env m msg (field_at fs i) (src + data_off fs i) = Some (item i)
      \<and> plain_item m (field_at fs i) (src + data_off fs i)" using Cons.prems(1) by simp
  have "pending (is_source ?s2) = Some (?more @ rest)" using r(1) by simp
  from Cons.IH [OF rest inv this left2 lt, of "store_mem (copy_field fs m src dest i) w"] obtain src3 fr3 where
    IH: "pending src3 = Some rest" "frame_inv fs dest ((tags @ [f_tag ?f]) @ map (\<lambda>i. f_tag (field_at fs i)) is) fr3"
      "fr_fixed_count_field fr3 = fr_fixed_count_field fr2"
      "decode_loop k' n denv dec ?s2 fr2 (store_mem (copy_field fs m src dest i) w)
         = Some (True, fr3, moved ?s2 (length ?more) src3,
             store_mem (fold (copy_field fs m src dest) is) (store_mem (copy_field fs m src dest i) w))" by blast
  have "is_bytes_left s \<noteq> 0" using p(2) nonempty by (auto simp: unat_eq_0)
  then have "decode_loop k n denv dec s fr w
      = Some (True, fr3, moved s (length (concat (map (chunk fs item) (i # is)))) src3,
          store_mem (fold (copy_field fs m src dest) (i # is)) w)"
    unfolding k using src1(2) r(3) IH(4) by (simp add: ch add.assoc)
  with IH r(2) show ?case by auto
qed

end

section \<open>The encoding of a flat message\<close>

lemma flat_size_off:
  assumes "flat_msg fs" "i < nfields fs"
  shows "size_off fs i = data_off fs i + scast (f_size_offset (field_at fs i))"
proof (cases i)
  case (Suc j)
  with assms flat_msgD(1) [OF assms(1), of j] have "\<not> in_union (field_at fs j) (field_at fs (Suc j))"
    by (auto simp: in_union_def flat_field_def)
  with Suc show ?thesis by simp
qed simp

lemma scast_eq_0_iff: "(scast (x :: 32 word) :: 64 word) = 0 \<longleftrightarrow> x = 0"
proof
  assume "(scast x :: 64 word) = 0"
  then have "(ucast (scast x :: 64 word) :: 32 word) = ucast (0 :: 64 word)" by simp
  then show "x = 0" by (simp add: ucast_scast)
qed simp

text \<open>Whether field \<open>i\<close> of the message at \<open>src\<close> is written.\<close>

definition field_present :: "nat \<Rightarrow> 's pb_enc_env \<Rightarrow> mem \<Rightarrow> pb_field_t list \<Rightarrow> addr \<Rightarrow> nat \<Rightarrow> bool" where
  "field_present n env m fs src i \<longleftrightarrow>
     htype (field_at fs i) = PB_HTYPE_REQUIRED
     \<or> (if has_flag fs i then load_bool m (src + size_off fs i)
        else pb_check_proto3_default_value n env m (field_at fs i) (src + data_off fs i) = Some False)"

definition plain_msg :: "mem \<Rightarrow> pb_field_t list \<Rightarrow> addr \<Rightarrow> bool" where
  "plain_msg m fs src \<longleftrightarrow> (\<forall>i < nfields fs. plain_item m (field_at fs i) (src + data_off fs i))"

lemma plain_msg_code [code]:
  "plain_msg m fs src \<longleftrightarrow> list_all (\<lambda>i. plain_item m (field_at fs i) (src + data_off fs i)) [0..<nfields fs]"
  by (simp add: plain_msg_def all_upto)

definition present_fields :: "nat \<Rightarrow> 's pb_enc_env \<Rightarrow> mem \<Rightarrow> pb_field_t list \<Rightarrow> addr \<Rightarrow> nat list" where
  "present_fields n env m fs src = filter (field_present n env m fs src) [0..<nfields fs]"

lemma flat_field_bytes:
  assumes flat: "flat_msg fs" "i < nfields fs"
    and c: "field_bytes n env m msg (field_at fs i) (src + data_off fs i) = Some c"
  defines "item \<equiv> item_bytes env m msg (field_at fs i) (src + data_off fs i)"
  shows "if field_present (Suc n) env m fs src i
    then wire_type_for (ltype (field_at fs i)) \<noteq> None \<and> item = Some (the item) \<and> c = chunk fs (\<lambda>_. the item) i
    else c = []"
proof -
  have f: "flat_field (field_at fs i)" using flat_msgD(1) [OF flat] .
  have flag: "has_flag fs i \<longleftrightarrow> htype (field_at fs i) = PB_HTYPE_OPTIONAL \<and> f_size_offset (field_at fs i) \<noteq> 0"
    by (simp add: has_flag_def flat_size_off [OF flat] scast_eq_0_iff)
  have tagged: "wire_type_for (ltype (field_at fs i)) \<noteq> None \<and> item = Some (the item) \<and> c = chunk fs (\<lambda>_. the item) i"
    if "tagged (field_at fs i) item = Some c"
    using that by (auto simp: tagged_def chunk_def split: option.splits)
  have at: "atype (field_at fs i) = PB_ATYPE_STATIC"
    and ht: "htype (field_at fs i) = PB_HTYPE_REQUIRED \<or> htype (field_at fs i) = PB_HTYPE_OPTIONAL"
    using f by (simp_all add: flat_field_def)
  note fb = c [unfolded field_bytes_def Let_def]
  have "tagged (field_at fs i) item = Some c" if "field_present (Suc n) env m fs src i"
    using that fb at ht unfolding field_present_def flag flat_size_off [OF flat]
    by (auto simp: add.assoc item_def simp del: pb_check_proto3_default_value.simps split: if_splits option.splits)
  moreover have "c = []" if "\<not> field_present (Suc n) env m fs src i"
    using that fb at ht unfolding field_present_def flag flat_size_off [OF flat]
    by (auto simp: add.assoc item_def simp del: pb_check_proto3_default_value.simps split: if_splits option.splits)
  ultimately show ?thesis using tagged by simp
qed

lemma concat_filter: "\<forall>x \<in> set xs. \<not> P x \<longrightarrow> f x = [] \<Longrightarrow> concat (map f xs) = concat (map f (filter P xs))"
  by (induction xs) auto

lemma those_eq_Some: "those xs = Some ys \<longleftrightarrow> xs = map Some ys"
proof (induction xs arbitrary: ys)
  case (Cons x xs)
  show ?case
  proof (cases x)
    case (Some y)
    with Cons show ?thesis by (cases ys) auto
  qed auto
qed auto

lemma flat_msg_bytes:
  assumes flat: "flat_msg fs" and bs: "msg_bytes (Suc n) env m fs src = Some bs"
  defines "item \<equiv> \<lambda>i. the (item_bytes env m (msg_bytes n env m) (field_at fs i) (src + data_off fs i))"
  shows "bs = concat (map (chunk fs item) (present_fields (Suc n) env m fs src))"
    "\<forall>i \<in> set (present_fields (Suc n) env m fs src). i < nfields fs \<and> wire_type_for (ltype (field_at fs i)) \<noteq> None
       \<and> item_bytes env m (msg_bytes n env m) (field_at fs i) (src + data_off fs i) = Some (item i)"
proof -
  let ?g = "\<lambda>i. field_bytes n env m (msg_bytes n env m) (field_at fs i) (src + data_off fs i)"
  have noext: "(if ltype (field_at fs i) = PB_LTYPE_EXTENSION
      then if load64 m (src + data_off fs i) = NULL then Some [] else None else ?g i) = ?g i" if "i < nfields fs" for i
    using flat_msgD(1) [OF flat that] by (simp add: flat_field_def)
  obtain cs where cs: "map ?g [0..<nfields fs] = map Some cs" "bs = concat cs"
  proof -
    have "map (\<lambda>i. if ltype (field_at fs i) = PB_LTYPE_EXTENSION
        then if load64 m (src + data_off fs i) = NULL then Some [] else None else ?g i) [0..<nfields fs]
        = map ?g [0..<nfields fs]"
      using noext by (intro map_cong refl) simp
    with bs that show thesis by (auto simp: those_eq_Some)
  qed
  have g: "?g i = Some (cs ! i)" if "i < nfields fs" for i
    using arg_cong [OF cs(1), of "\<lambda>xs. xs ! i"] arg_cong [OF cs(1), of length] that by simp
  have "cs = map (\<lambda>i. cs ! i) [0..<nfields fs]"
    using arg_cong [OF cs(1), of length] by (simp add: map_nth)
  then have "bs = concat (map (\<lambda>i. cs ! i) [0..<nfields fs])" using cs(2) by simp
  also have "\<dots> = concat (map (\<lambda>i. cs ! i) (present_fields (Suc n) env m fs src))"
    unfolding present_fields_def using flat_field_bytes [OF flat _ g] by (intro concat_filter) force
  also have "map (\<lambda>i. cs ! i) (present_fields (Suc n) env m fs src)
      = map (chunk fs item) (present_fields (Suc n) env m fs src)"
    using flat_field_bytes [OF flat _ g]
    by (intro map_cong refl) (force simp: present_fields_def item_def chunk_def)
  finally show "bs = concat (map (chunk fs item) (present_fields (Suc n) env m fs src))" .
  show "\<forall>i \<in> set (present_fields (Suc n) env m fs src). i < nfields fs \<and> wire_type_for (ltype (field_at fs i)) \<noteq> None
       \<and> item_bytes env m (msg_bytes n env m) (field_at fs i) (src + data_off fs i) = Some (item i)"
    using flat_field_bytes [OF flat _ g] by (force simp: present_fields_def item_def)
qed

context byte_source
begin

lemma flat_noinit:
  assumes flat: "flat_msg fs" and dest: "good_dest fs dest" and plain: "plain_msg m fs src"
    and bs: "msg_bytes (Suc e) env m fs src = Some bs"
    and p: "pending (is_source s) = Some (bs @ rest)" "unat (is_bytes_left s) = length bs"
  shows "\<exists>src'. pending src' = Some rest \<and> pb_decode_noinit (Suc n) denv s fs dest w
    = Some (True, moved s (length bs) src',
        store_mem (fold (copy_field fs m src dest) (present_fields (Suc e) env m fs src)) w)"
proof -
  let ?ps = "present_fields (Suc e) env m fs src" and ?dec = "pb_decode_noinit n denv"
  let ?item = "\<lambda>i. the (item_bytes env m (msg_bytes e env m) (field_at fs i) (src + data_off fs i))"
  note fb = flat_msg_bytes [OF flat bs]
  have items: "\<forall>i \<in> set ?ps. i < nfields fs \<and> wire_type_for (ltype (field_at fs i)) \<noteq> None
      \<and> item_bytes env m (msg_bytes e env m) (field_at fs i) (src + data_off fs i) = Some (?item i)
      \<and> plain_item m (field_at fs i) (src + data_off fs i)"
    using fb(2) plain by (auto simp: plain_msg_def)
  from flat_loop [OF flat dest items frame_inv_start, of s rest "Suc (unat (is_bytes_left s))" n denv ?dec "w\<lparr>w_fixed_count_size := 0\<rparr>"]
    p fb(1)
  obtain src' fr' where loop: "pending src' = Some rest" "frame_inv fs dest (map (\<lambda>i. f_tag (field_at fs i)) ?ps) fr'"
    "fr_fixed_count_field fr' = None"
    "decode_loop (Suc (unat (is_bytes_left s))) n denv ?dec s (start_frame fs dest) (w\<lparr>w_fixed_count_size := 0\<rparr>)
       = Some (True, fr', moved s (length bs) src',
           store_mem (fold (copy_field fs m src dest) ?ps) (w\<lparr>w_fixed_count_size := 0\<rparr>))"
    by (auto simp: start_frame_def simp del: decode_loop.simps)
  have "required_seen fs (map (\<lambda>i. f_tag (field_at fs i)) ?ps)"
    unfolding required_seen_def
  proof (intro allI impI)
    fix i
    assume i: "i < nfields fs" "htype (field_at fs i) = PB_HTYPE_REQUIRED \<and> required_before fs i < 64"
    then have "i \<in> set ?ps" by (simp add: present_fields_def field_present_def)
    with flat_has_tag [OF flat i(1) i(1)] show "\<exists>t \<in> set (map (\<lambda>i. f_tag (field_at fs i)) ?ps). has_tag t (field_at fs i)"
      by auto
  qed
  with final_check(2) [OF loop(2) flat_msgD(4) [OF flat] flat_msgD(2) [OF flat]]
  have "all_required_seen (req_field_count (fr_iter fr')) (fr_fields_seen fr')" by blast
  then have "noinit_body n denv ?dec s fs dest w = Some (True, moved s (length bs) src',
      store_mem (fold (copy_field fs m src dest) ?ps) (w\<lparr>w_fixed_count_size := 0\<rparr>))"
    using loop(3,4) unfolding noinit_body_def Let_def start_frame_def [symmetric]
    by (simp add: fixed_count_done_def del: decode_loop.simps)
  with loop(1) show ?thesis by auto
qed

end

section \<open>Memory\<close>

text \<open>Updates of disjoint pieces of memory do not disturb each other.\<close>

lemma fold_outside:
  assumes "\<And>i m. i \<in> set is \<Longrightarrow> x \<notin> S i \<Longrightarrow> g i m x = m x" "\<forall>i \<in> set is. x \<notin> S i"
  shows "fold g is m x = m x"
  using assms by (induction "is" arbitrary: m) auto

lemma fold_at:
  assumes "\<And>j m x. j \<in> set is \<Longrightarrow> x \<notin> S j \<Longrightarrow> g j m x = m x"
    and "\<And>j. j \<in> set is \<Longrightarrow> j \<noteq> i \<Longrightarrow> S i \<inter> S j = {}" and "distinct is" "i \<in> set is"
  shows "\<exists>m0. \<forall>x \<in> S i. fold g is m x = g i m0 x"
proof -
  from assms(4) obtain as bs where split: "is = as @ i # bs" by (auto simp: in_set_conv_decomp)
  have "fold g bs m1 x = m1 x" if "x \<in> S i" for m1 x
  proof (rule fold_outside [where S = S])
    show "g j m x = m x" if "j \<in> set bs" "x \<notin> S j" for j m
      using assms(1) that by (simp add: split)
    show "\<forall>j \<in> set bs. x \<notin> S j"
      using assms(2,3) that by (auto simp: split)
  qed
  then show ?thesis
    unfolding split by (intro exI [of _ "fold g as m"]) simp
qed

definition footprint :: "pb_field_t list \<Rightarrow> addr \<Rightarrow> nat \<Rightarrow> addr set" where
  "footprint fs dest i = span (dest + data_off fs i) (unat (f_data_size (field_at fs i)))
     \<union> (if has_flag fs i then {dest + size_off fs i} else {})"

definition laid_out :: "pb_field_t list \<Rightarrow> addr \<Rightarrow> bool" where
  "laid_out fs dest \<longleftrightarrow> (\<forall>i < nfields fs.
     (has_flag fs i \<longrightarrow> dest + size_off fs i \<notin> span (dest + data_off fs i) (unat (f_data_size (field_at fs i))))
     \<and> (\<forall>j < nfields fs. j \<noteq> i \<longrightarrow> footprint fs dest i \<inter> footprint fs dest j = {}))"

lemma laid_out_code [code]:
  "laid_out fs dest \<longleftrightarrow> list_all (\<lambda>i.
     (has_flag fs i \<longrightarrow> dest + size_off fs i \<notin> span (dest + data_off fs i) (unat (f_data_size (field_at fs i))))
     \<and> list_all (\<lambda>j. j \<noteq> i \<longrightarrow> footprint fs dest i \<inter> footprint fs dest j = {}) [0..<nfields fs]) [0..<nfields fs]"
  by (simp add: laid_out_def all_upto)

lemma span_subset: "j \<le> k \<Longrightarrow> span a j \<subseteq> span a k"
  unfolding span_iff subset_iff by (metis less_le_trans)

lemma store_bytes_beyond:
  "length bs \<le> n \<Longrightarrow> x \<notin> span a n \<Longrightarrow> store_bytes m a bs x = m x"
  using span_subset [of "length bs" n a] by (intro store_bytes_outside) auto

lemma copy_field_outside:
  assumes "length (item_image m (field_at fs i) (src + data_off fs i)) \<le> unat (f_data_size (field_at fs i))"
    and "x \<notin> footprint fs dest i"
  shows "copy_field fs m src dest i m' x = m' x"
  using assms(2) unfolding copy_field_def footprint_def
  by (subst store_bytes_beyond [OF assms(1)]) (auto simp: store_bool_def split: if_splits)

lemma copy_field_at:
  assumes fit: "length (item_image m (field_at fs i) (src + data_off fs i)) \<le> unat (f_data_size (field_at fs i))"
    and "laid_out fs dest" "i < nfields fs"
  shows "load_bytes (copy_field fs m src dest i m') (dest + data_off fs i)
      (length (item_image m (field_at fs i) (src + data_off fs i))) = item_image m (field_at fs i) (src + data_off fs i)"
    "has_flag fs i \<Longrightarrow> load_bool (copy_field fs m src dest i m') (dest + size_off fs i)"
proof -
  have "int (length (item_image m (field_at fs i) (src + data_off fs i))) < 2 ^ 64"
    using fit unat_less_32 [of "f_data_size (field_at fs i)"] by simp
  then show "load_bytes (copy_field fs m src dest i m') (dest + data_off fs i)
      (length (item_image m (field_at fs i) (src + data_off fs i))) = item_image m (field_at fs i) (src + data_off fs i)"
    unfolding copy_field_def by (rule load_store_bytes)
  show "load_bool (copy_field fs m src dest i m') (dest + size_off fs i)" if "has_flag fs i"
    using assms(2,3) that unfolding copy_field_def load_bool_def laid_out_def
    by (subst store_bytes_beyond [OF fit]) (simp_all add: store_bool_def)
qed

text \<open>The image of an item in the new struct, once its bytes are there.\<close>

lemma c_string_length: "length (c_string m a k) \<le> k"
  by (induction k arbitrary: a) (auto)

lemma load_c_string:
  "load_bytes m' d (Suc (length (c_string m s k))) = c_string m s k @ [0] \<Longrightarrow> length (c_string m s k) < k' \<Longrightarrow>
   c_string m' d k' = c_string m s k"
proof (induction k arbitrary: d s k')
  case 0
  then show ?case by (cases k') auto
next
  case (Suc k)
  then show ?case by (cases k') (auto split: if_splits)
qed

lemma item_image_eq:
  assumes ld: "load_bytes m' d (length (item_image m f s)) = item_image m f s" and plain: "plain_item m f s"
  shows "item_image m' f d = item_image m f s"
proof (cases "ltype f = PB_LTYPE_BYTES")
  case True
  then have l: "load_bytes m' d (4 + unat (bytes_array_size m s)) = load_bytes m s (4 + unat (bytes_array_size m s))"
    using ld by (simp add: item_image_def)
  then have "load_bytes m' d 4 = load_bytes m s 4"
    by (simp add: load_bytes_add)
  then have "bytes_array_size m' d = bytes_array_size m s"
    by (simp add: bytes_array_size_def load32_def)
  with True l show ?thesis by (simp add: item_image_def)
next
  case False
  show ?thesis
  proof (cases "ltype f = PB_LTYPE_STRING")
    case True
    with ld have "load_bytes m' d (Suc (length (c_string m s (unat (f_data_size f))))) = c_string m s (unat (f_data_size f)) @ [0]"
      by (simp add: item_image_def)
    from load_c_string [OF this, of "unat (f_data_size f)"] True plain
    have "c_string m' d (unat (f_data_size f)) = c_string m s (unat (f_data_size f))" by (simp add: plain_item_def)
    with True show ?thesis by (simp add: item_image_def)
  next
    case no: False
    with False ld show ?thesis by (simp add: item_image_def split: if_splits)
  qed
qed

lemma item_image_fits:
  assumes "flat_field f" "plain_item m f s" "item_bytes env m msg f s = Some bs"
  shows "length (item_image m f s) \<le> unat (f_data_size f)"
proof -
  consider "ltype f = PB_LTYPE_BYTES" | "ltype f = PB_LTYPE_STRING" | "ltype f \<noteq> PB_LTYPE_BYTES" "ltype f \<noteq> PB_LTYPE_STRING"
    by blast
  then show ?thesis
    using assms by cases (auto simp: item_image_def flat_field_def plain_item_def item_bytes_def split: if_splits)
qed

section \<open>Defaults\<close>

definition default_field :: "pb_field_t list \<Rightarrow> addr \<Rightarrow> nat \<Rightarrow> mem \<Rightarrow> mem" where
  "default_field fs dest i m =
     (let f = field_at fs i; m = (if has_flag fs i then store_bool m (dest + size_off fs i) False else m) in
      if f_ptr f \<noteq> NULL then memcpy (dest + data_off fs i) (f_ptr f) (f_data_size f) m
      else memset_zero (dest + data_off fs i) (f_data_size f) m)"

lemma flat_default:
  assumes "flat_msg fs" "i < nfields fs"
  shows "pb_field_set_to_default (Suc n) env (iter_nth fs dest i) w = Some (store_mem (default_field fs dest i) w)"
  using flat_msgD(1) [OF assms] by (auto simp: flat_field_def default_field_def has_flag_def Let_def)

lemma run_fields_total:
  assumes "\<And>i s. i \<in> set is \<Longrightarrow> f i s = Some (True, g i s)"
  shows "run_fields f is s = Some (True, fold g is s)"
  using assms by (induction "is" arbitrary: s) auto

lemma fold_store_mem: "fold (\<lambda>i. store_mem (g i)) is w = store_mem (fold g is) w"
  by (induction "is" arbitrary: w) auto

lemma flat_defaults:
  assumes "flat_msg fs"
  shows "pb_message_set_to_defaults (Suc n) env fs dest w = Some (store_mem (fold (default_field fs dest) [0..<nfields fs]) w)"
proof -
  have "run_fields (\<lambda>j w. map_option (Pair True) (pb_field_set_to_default (Suc n) env (iter_nth fs dest j) w))
      [0..<nfields fs] w = Some (True, fold (\<lambda>i. store_mem (default_field fs dest i)) [0..<nfields fs] w)"
    using flat_default [OF assms] by (intro run_fields_total) (simp del: pb_field_set_to_default.simps)
  then show ?thesis
    using flat_msgD(3) [OF assms]
    by (simp add: pb_message_set_to_defaults_def for_fields_def iter_begin iter_loop_all fold_store_mem
        del: pb_field_set_to_default.simps)
qed

lemma default_field_outside: "x \<notin> footprint fs dest i \<Longrightarrow> default_field fs dest i m x = m x"
  by (auto simp: default_field_def footprint_def Let_def memcpy_def memset_zero_def store_bool_def
      store_bytes_outside split: if_splits)

lemma default_field_flag:
  "laid_out fs dest \<Longrightarrow> i < nfields fs \<Longrightarrow> has_flag fs i \<Longrightarrow> \<not> load_bool (default_field fs dest i m) (dest + size_off fs i)"
  by (auto simp: default_field_def laid_out_def Let_def memcpy_def memset_zero_def store_bool_def load_bool_def
      store_bytes_outside)

section \<open>The round trip\<close>

text \<open>What it means that the struct at \<open>dest\<close> of \<open>m'\<close> holds the message at \<open>src\<close> of \<open>m\<close>.\<close>

definition same_message :: "nat \<Rightarrow> 's pb_enc_env \<Rightarrow> pb_field_t list \<Rightarrow> mem \<Rightarrow> addr \<Rightarrow> mem \<Rightarrow> addr \<Rightarrow> bool" where
  "same_message n env fs m src m' dest \<longleftrightarrow> (\<forall>i < nfields fs.
     if field_present n env m fs src i
     then item_image m' (field_at fs i) (dest + data_off fs i) = item_image m (field_at fs i) (src + data_off fs i)
       \<and> (has_flag fs i \<longrightarrow> load_bool m' (dest + size_off fs i))
     else has_flag fs i \<longrightarrow> \<not> load_bool m' (dest + size_off fs i))"

lemma flat_same_message:
  assumes flat: "flat_msg fs" and lay: "laid_out fs dest" and plain: "plain_msg m fs src"
    and bs: "msg_bytes (Suc e) env m fs src = Some bs"
    and m1_def: "m1 = fold (default_field fs dest) [0..<nfields fs] m0"
  shows "same_message (Suc e) env fs m src (fold (copy_field fs m src dest) (present_fields (Suc e) env m fs src) m1) dest"
proof -
  let ?ps = "present_fields (Suc e) env m fs src" and ?F = "footprint fs dest"
  let ?m2 = "fold (copy_field fs m src dest) ?ps m1"
  have ps: "i < nfields fs" "length (item_image m (field_at fs i) (src + data_off fs i)) \<le> unat (f_data_size (field_at fs i))"
    if "i \<in> set ?ps" for i
    using flat_msg_bytes(2) [OF flat bs] that plain flat_msgD(1) [OF flat, of i]
    by (auto simp: plain_msg_def intro!: item_image_fits)
  have out: "copy_field fs m src dest j m' x = m' x" if "j \<in> set ?ps" "x \<notin> ?F j" for j m' x
    using that ps by (intro copy_field_outside) auto
  have disj: "?F i \<inter> ?F j = {}" if "i < nfields fs" "j < nfields fs" "j \<noteq> i" for i j
    using lay that by (auto simp: laid_out_def)
  have data: "span (dest + data_off fs i) k \<subseteq> ?F i" if "k \<le> unat (f_data_size (field_at fs i))" for i k
    using span_subset [OF that, of "dest + data_off fs i"] by (auto simp: footprint_def)
  have flag: "dest + size_off fs i \<in> ?F i" if "has_flag fs i" for i
    using that by (simp add: footprint_def)
  have here: "item_image ?m2 (field_at fs i) (dest + data_off fs i) = item_image m (field_at fs i) (src + data_off fs i)
      \<and> (has_flag fs i \<longrightarrow> load_bool ?m2 (dest + size_off fs i))" if i: "i \<in> set ?ps" for i
  proof -
    have "\<exists>mi. \<forall>x \<in> ?F i. ?m2 x = copy_field fs m src dest i mi x"
    proof (rule fold_at)
      show "copy_field fs m src dest j m' x = m' x" if "j \<in> set ?ps" "x \<notin> ?F j" for j m' x
        using that by (rule out)
      show "?F i \<inter> ?F j = {}" if "j \<in> set ?ps" "j \<noteq> i" for j
        using ps(1) [OF i] ps(1) [OF that(1)] that(2) by (rule disj)
    qed (simp add: present_fields_def, rule i)
    then obtain mi where mi: "\<forall>x \<in> ?F i. ?m2 x = copy_field fs m src dest i mi x" ..
    have "load_bytes ?m2 (dest + data_off fs i) (length (item_image m (field_at fs i) (src + data_off fs i)))
        = load_bytes (copy_field fs m src dest i mi) (dest + data_off fs i) (length (item_image m (field_at fs i) (src + data_off fs i)))"
      using mi data [OF ps(2) [OF i]] by (intro load_bytes_cong) auto
    also note copy_field_at(1) [OF ps(2) [OF i] lay ps(1) [OF i]]
    finally have "item_image ?m2 (field_at fs i) (dest + data_off fs i) = item_image m (field_at fs i) (src + data_off fs i)"
      using plain ps(1) [OF i] by (intro item_image_eq) (auto simp: plain_msg_def)
    moreover have "load_bool ?m2 (dest + size_off fs i)" if "has_flag fs i"
      using mi flag [OF that] copy_field_at(2) [OF ps(2) [OF i] lay ps(1) [OF i] that] by (simp add: load_bool_def)
    ultimately show ?thesis by blast
  qed
  have absent: "\<not> load_bool ?m2 (dest + size_off fs i)" if i: "i < nfields fs" "i \<notin> set ?ps" "has_flag fs i" for i
  proof -
    have "?m2 (dest + size_off fs i) = m1 (dest + size_off fs i)"
    proof (rule fold_outside [where S = ?F])
      show "\<forall>j \<in> set ?ps. dest + size_off fs i \<notin> ?F j"
        using disj [OF i(1)] ps(1) i(2) flag [OF i(3)] by blast
    qed (rule out)
    moreover have "\<exists>mi. \<forall>x \<in> ?F i. m1 x = default_field fs dest i mi x"
      unfolding m1_def
    proof (rule fold_at)
      show "?F i \<inter> ?F j = {}" if "j \<in> set [0..<nfields fs]" "j \<noteq> i" for j
        using disj [OF i(1)] that by simp
    qed (use i(1) default_field_outside in auto)
    ultimately show ?thesis
      using default_field_flag [OF lay i(1,3)] flag [OF i(3)] by (auto simp: load_bool_def)
  qed
  have "i \<in> set ?ps \<longleftrightarrow> field_present (Suc e) env m fs src i" if "i < nfields fs" for i
    using that by (simp add: present_fields_def)
  with here absent show ?thesis by (simp add: same_message_def)
qed

context byte_source
begin

lemma flat_decode:
  assumes flat: "flat_msg fs" "good_dest fs dest" "laid_out fs dest" and plain: "plain_msg m fs src"
    and bs: "msg_bytes (Suc e) env m fs src = Some bs"
    and p: "pending (is_source s) = Some (bs @ rest)" "unat (is_bytes_left s) = length bs"
  shows "\<exists>src' w'. pending src' = Some rest \<and> pb_decode (Suc n) denv s fs dest w = Some (True, moved s (length bs) src', w')
    \<and> w_blocks w' = w_blocks w \<and> same_message (Suc e) env fs m src (w_mem w') dest"
proof -
  define w1 where "w1 = store_mem (fold (default_field fs dest) [0..<nfields fs]) w"
  from flat_noinit [OF flat(1,2) plain bs p, of n denv w1] obtain src' where
    r: "pending src' = Some rest" "pb_decode_noinit (Suc n) denv s fs dest w1 = Some (True, moved s (length bs) src',
        store_mem (fold (copy_field fs m src dest) (present_fields (Suc e) env m fs src)) w1)" by blast
  have "pb_decode (Suc n) denv s fs dest w = Some (True, moved s (length bs) src',
      store_mem (fold (copy_field fs m src dest) (present_fields (Suc e) env m fs src)) w1)"
    using r(2) by (simp add: pb_decode_def pb_decode_with_def flat_defaults [OF flat(1)] w1_def
        del: pb_decode_noinit.simps)
  with r(1) flat_same_message [OF flat(1,3) plain bs, of "w_mem w1" "w_mem w"] show ?thesis
    by (auto simp: w1_def)
qed

end

end
