(* ===== verification/Pb_Decode_Props.thy ===== *)
theory Pb_Decode_Props
  imports Pb_Encode_Props Pb_Roundtrip_Msg
begin

text \<open>
  The guarantees of the decoder for its callers: round trips through memory buffers, totality on
  every input, and the treatment of required fields. The examples at the start instantiate the
  hypotheses of the properties.
\<close>

section \<open>Examples\<close>

text \<open>The first two fields of the example message, a required \<^verbatim>\<open>int32\<close> and an optional
  \<^verbatim>\<open>string\<close>.\<close>

definition ex_flat :: "pb_field_t list" where
  "ex_flat = take 2 ex_fields"

definition ex_dec_env :: "'s pb_dec_env" where
  "ex_dec_env = \<lparr>de_fields_at = (\<lambda>p. if p = 1 then ex_fields else []),
     de_ext_type_at = (\<lambda>_. \<lparr>et_decode = 0, et_encode = 0, et_arg = PB_LAST_FIELD\<rparr>),
     de_callback = (\<lambda>_ _ _ _ _. None), de_ext_callback = (\<lambda>_ _ _ _ _ _. None),
     de_alloc = (\<lambda>w sz. 0x1000 + 0x100 * of_nat (length (w_blocks w)))\<rparr>"

definition ex_world :: pb_world where
  "ex_world = \<lparr>w_mem = (\<lambda>_. 0xAA), w_blocks = [], w_fixed_count_size = 0\<rparr>"

lemma ex_flat_flat: "flat_msg ex_flat"
  by code_simp

lemma ex_flat_dest: "good_dest ex_flat 300"
  by code_simp

lemma ex_flat_plain: "plain_msg ex_mem ex_flat 100"
  by code_simp

lemma ex_flat_bytes: "msg_bytes 1 (ex_env :: 's pb_enc_env) ex_mem ex_flat 100 = Some (take 7 ex_bytes)"
  by code_simp

lemma ex_flat_static: "static_msg 1 (ex_dec_env :: 's pb_dec_env) ex_flat"
  by code_simp

lemma ex_flat_laid_out: "laid_out ex_flat 300"
  by code_simp

lemmas ex_flat_ok = ex_flat_flat ex_flat_dest ex_flat_laid_out ex_flat_plain ex_flat_bytes ex_flat_static

section \<open>Reading from a buffer\<close>

lemma buffer_parse:
  assumes "buf_in.parses f bs v" "length bs \<le> unat sz"
  shows "f (pb_istream_from_buffer (bs @ rest) sz :: 's pb_istream_t)
    = Some (Some v, pb_istream_from_buffer rest (sz - of_nat (length bs)))"
proof -
  let ?s = "pb_istream_from_buffer (bs @ rest) sz :: 's pb_istream_t"
  have "buf_pending (is_source ?s) = Some (bs @ rest)" "length bs \<le> unat (is_bytes_left ?s)"
    using assms(2) by (simp_all add: pb_istream_from_buffer_def)
  from buf_in.parsesE [OF assms(1) this] obtain src where
    "buf_pending src = Some rest" "f ?s = Some (Some v, buf_in.moved ?s (length bs) src)" .
  then show ?thesis by (cases src) (auto simp: buf_in.moved_def pb_istream_from_buffer_def)
qed

lemma buffer_stores:
  assumes "buf_in.stores f bs g" "length bs \<le> unat sz"
  shows "f (pb_istream_from_buffer (bs @ rest) sz :: 's pb_istream_t) w
    = Some (True, pb_istream_from_buffer rest (sz - of_nat (length bs)), g w)"
proof -
  let ?s = "pb_istream_from_buffer (bs @ rest) sz :: 's pb_istream_t"
  have "buf_pending (is_source ?s) = Some (bs @ rest)" "length bs \<le> unat (is_bytes_left ?s)"
    using assms(2) by (simp_all add: pb_istream_from_buffer_def)
  from buf_in.storesE [OF assms(1) this, of w] obtain src where
    "buf_pending src = Some rest" "f ?s w = Some (True, buf_in.moved ?s (length bs) src, g w)" .
  then show ?thesis by (cases src) (auto simp: buf_in.moved_def pb_istream_from_buffer_def)
qed

section \<open>The round trip of a message\<close>

text \<open>What an encoder has left in the memory buffer.\<close>

definition written :: "pb_obuf pb_ostream_t \<Rightarrow> byte list" where
  "written os = (case os_sink os of None \<Rightarrow> [] | Some (cb, st) \<Rightarrow> take (ob_pos st) (ob_data st))"

lemma buffer_result_fits:
  assumes "buffer_result buf bs r" "length bs \<le> length buf"
  obtains os where "r = Some (True, os)" "written os = bs" "os_bytes_written os = of_nat (length bs)"
  using assms by (auto simp: buffer_result_def written_def)

text \<open>C1: let a message table have at least one field, distinct tags below 2^29, and only static
  required or optional fields of scalar, bytes, fixed-length bytes or string type: no sub-messages, no
  extensions, no arrays, oneofs, pointers or callbacks. Let every string of the message end inside its
  array; a string without a terminator is outside this property, since \<^verbatim>\<open>pb_enc_string\<close> writes it in
  full and \<^verbatim>\<open>pb_dec_string\<close> refuses it with \<^verbatim>\<open>string overflow\<close>. Then a message that is encoded into
  a buffer with room for it and decoded from the bytes written into a struct whose fields do not
  overlap arrives whole: the decoder succeeds, uses up the input, allocates nothing, and the new struct
  holds the same value in every field that was present and has the flag cleared for every optional
  field that was not.\<close>

theorem pb_encode_decode_roundtrip:
  assumes "flat_msg fs" and "good_dest fs dest" and "laid_out fs dest" and "plain_msg m fs src"
    and "msg_bytes (Suc e) env m fs src = Some bs" and "length bs \<le> length buf" and "length buf < 2 ^ 63"
  shows "\<exists>os. pb_encode (Suc e) env m (pb_ostream_from_buffer buf (of_nat (length buf))) fs src = Some (True, os)
    \<and> (\<exists>s' w'. pb_decode (Suc n) denv (pb_istream_from_buffer (written os) (os_bytes_written os)) fs dest w
           = Some (True, s', w')
         \<and> is_bytes_left s' = 0 \<and> w_blocks w' = w_blocks w \<and> same_message (Suc e) env fs m src (w_mem w') dest)"
proof -
  have "buffer_result buf bs (pb_encode (Suc e) env m (pb_ostream_from_buffer buf (of_nat (length buf))) fs src)"
    using assms(5-7) by (intro emits_buffer [of buf "\<lambda>s. pb_encode (Suc e) env m s fs src"] buf.emits_pb_encode) simp_all
  then obtain os where os: "pb_encode (Suc e) env m (pb_ostream_from_buffer buf (of_nat (length buf))) fs src = Some (True, os)"
    "written os = bs" "os_bytes_written os = of_nat (length bs)"
    using assms(6) by (rule buffer_result_fits)
  have "unat (of_nat (length bs) :: size_t) = length bs"
    using assms(6,7) by (intro unat_of_nat_small) simp
  with buf_in.flat_decode [OF assms(1-5), of "pb_istream_from_buffer bs (of_nat (length bs))" "[]" n denv w]
  obtain src' w' where "pb_decode (Suc n) denv (pb_istream_from_buffer bs (of_nat (length bs))) fs dest w
      = Some (True, buf_in.moved (pb_istream_from_buffer bs (of_nat (length bs))) (length bs) src', w')"
    "w_blocks w' = w_blocks w" "same_message (Suc e) env fs m src (w_mem w') dest"
    by (auto simp: pb_istream_from_buffer_def)
  then show ?thesis
    unfolding os by (auto simp: buf_in.moved_def pb_istream_from_buffer_def os(2,3))
qed

theorem pb_encode_decode_roundtrip_witness:
  "\<exists>os. pb_encode 1 ex_env ex_mem (pb_ostream_from_buffer (replicate 8 0) 8) ex_flat 100 = Some (True, os)
    \<and> (\<exists>s' w'. pb_decode 1 (ex_dec_env :: unit pb_dec_env) (pb_istream_from_buffer (written os) (os_bytes_written os)) ex_flat 300 ex_world
           = Some (True, s', w')
         \<and> is_bytes_left s' = 0 \<and> w_blocks w' = [] \<and> same_message 1 (ex_env :: pb_obuf pb_enc_env) ex_flat ex_mem 100 (w_mem w') 300)"
  using pb_encode_decode_roundtrip [where e = 0 and n = 0 and buf = "replicate 8 0" and w = ex_world
      and denv = "ex_dec_env :: unit pb_dec_env" and env = ex_env, OF ex_flat_ok(1-4)] ex_flat_ok(5) [where ?'s = pb_obuf]
  by (simp add: ex_bytes_def ex_world_def)

section \<open>Every input\<close>

text \<open>C4: on a message whose fields are all static, with all its sub-messages, and for any bytes at
  all as input, \<^verbatim>\<open>pb_decode\<close> returns: it never reads outside the input buffer, never calls through a
  null pointer, never frees or reallocates a pointer that is not a live block, and its loops end.
  It never has more bytes left than it started with.\<close>

theorem pb_decode_total:
  assumes "static_msg d env fs" and "d < n" and "unat sz \<le> length bs"
  shows "\<exists>status s' w'. pb_decode n env (pb_istream_from_buffer bs sz) fs dest w = Some (status, s', w')
    \<and> is_bytes_left s' \<le> sz"
proof -
  have "buf_total.fine (pb_istream_from_buffer bs sz) 0"
    using assms(3) by (simp add: buf_total.fine_def pb_istream_from_buffer_def)
  from buf_total.decodesE [OF buf_total.decode_total [OF assms(1,2)] this, of dest w] obtain b s' w' where
    "pb_decode n env (pb_istream_from_buffer bs sz) fs dest w = Some (b, s', w')"
    "buf_total.step 0 (pb_istream_from_buffer bs sz) s'" by blast
  then show ?thesis
    by (auto simp: buf_total.step_def pb_istream_from_buffer_def word_le_nat_alt)
qed

theorem pb_decode_total_witness:
  "\<exists>status s' w'. pb_decode 2 (ex_dec_env :: unit pb_dec_env) (pb_istream_from_buffer [0xFF, 0x7F, 0x03] 3) ex_flat 300 ex_world
     = Some (status, s', w') \<and> is_bytes_left s' \<le> 3"
  using pb_decode_total [OF ex_flat_ok(6), of 2 3 "[0xFF, 0x7F, 0x03]" 300 ex_world] by simp

section \<open>Required fields\<close>

definition fresh_count :: "pb_world \<Rightarrow> pb_world" where
  "fresh_count w = w\<lparr>w_fixed_count_size := 0\<rparr>"

lemma noinit_loop:
  "pb_decode_noinit (Suc n) env s fs dest w =
     map_option (\<lambda>(status, stream, w'). (status, stream, w'\<lparr>w_fixed_count_size := w_fixed_count_size w\<rparr>))
       (case decode_loop (Suc (unat (is_bytes_left s))) n env (pb_decode_noinit n env) s (start_frame fs dest) (fresh_count w) of
          None \<Rightarrow> None
        | Some (False, fr, stream, w') \<Rightarrow> Some (False, stream, w')
        | Some (True, fr, stream, w') \<Rightarrow>
            if \<not> fixed_count_done fr w' then dec_error stream ''wrong size for fixed count field'' w'
            else if \<not> all_required_seen (req_field_count (fr_iter fr)) (fr_fields_seen fr)
            then dec_error stream ''missing required field'' w'
            else Some (True, stream, w'))"
  unfolding pb_decode_noinit.simps noinit_body_def Let_def start_frame_def [symmetric] fresh_count_def [symmetric] ..

text \<open>The frame at the end of a successful loop over a non-empty table records what the loop saw.\<close>

lemma loop_required:
  assumes "decode_loop k n env dec s (start_frame fs dest) w = Some (True, fr, s', w')"
    and "nfields fs \<noteq> 0" "nfields fs < 2 ^ 32"
  obtains tags s1 where "decode_rounds n env dec (s, start_frame fs dest, w) tags (s1, fr, w')" "stops_at s1 s'"
    "frame_inv fs dest tags fr"
proof -
  from decode_loop_rounds [OF assms(1) decode_rounds.start] obtain tags s1 where
    r: "decode_rounds n env dec (s, start_frame fs dest, w) tags (s1, fr, w')" "stops_at s1 s'" by auto
  with rounds_frame_inv [OF r(1) assms(2,3), of dest] frame_inv_start that show thesis by simp
qed

text \<open>C6: when \<^verbatim>\<open>pb_decode_noinit\<close> succeeds it has run a sequence of successful rounds to the end of the
  input, and every required field of the table that the bitmap has room for (the first 64) was the
  target of a tag read in one of them. This holds for every kind of field, callbacks and
  extensions included.\<close>

theorem pb_decode_noinit_required:
  assumes "pb_decode_noinit (Suc n) env s fs dest w = Some (True, s', w')"
    and "nfields fs \<noteq> 0" and "nfields fs < 2 ^ 32"
  shows "\<exists>tags s1 fr w1. decode_rounds n env (pb_decode_noinit n env) (s, start_frame fs dest, fresh_count w) tags (s1, fr, w1)
    \<and> stops_at s1 s' \<and> required_seen fs tags"
proof -
  from assms(1) obtain fr w1 where
    loop: "decode_loop (Suc (unat (is_bytes_left s))) n env (pb_decode_noinit n env) s (start_frame fs dest) (fresh_count w)
      = Some (True, fr, s', w1)" and chk: "all_required_seen (req_field_count (fr_iter fr)) (fr_fields_seen fr)"
    unfolding noinit_loop by (auto simp: dec_error_def simp del: decode_loop.simps split: option.splits bool.splits if_splits)
  from loop_required [OF loop assms(2,3)] obtain tags s1 where
    r: "decode_rounds n env (pb_decode_noinit n env) (s, start_frame fs dest, fresh_count w) tags (s1, fr, w1)"
      "stops_at s1 s'" "frame_inv fs dest tags fr" .
  with final_check(1) [OF r(3) assms(3) chk] show ?thesis by blast
qed

lemma ex_noinit: "map_option fst (pb_decode_noinit 1 (ex_dec_env :: unit pb_dec_env)
    (pb_istream_from_buffer (take 7 ex_bytes) 7) ex_flat 300 ex_world) = Some True"
  by code_simp

lemma ex_flat_nfields: "nfields ex_flat = 2"
  by code_simp

theorem pb_decode_noinit_required_witness:
  "\<exists>tags s1 fr w1 s'. decode_rounds 0 ex_dec_env (pb_decode_noinit 0 ex_dec_env)
      (pb_istream_from_buffer (take 7 ex_bytes) 7 :: unit pb_istream_t, start_frame ex_flat 300, fresh_count ex_world) tags (s1, fr, w1)
    \<and> stops_at s1 s' \<and> required_seen ex_flat tags"
proof -
  from ex_noinit obtain s' w' where "pb_decode_noinit (Suc 0) (ex_dec_env :: unit pb_dec_env)
      (pb_istream_from_buffer (take 7 ex_bytes) 7) ex_flat 300 ex_world = Some (True, s', w')"
    by (auto simp del: pb_decode_noinit.simps)
  from pb_decode_noinit_required [OF this] show ?thesis
    unfolding ex_flat_nfields by (simp del: pb_decode_noinit.simps) blast
qed

text \<open>C7: for a table with distinct tags the check for missing fields is exact. It concerns the runs
  in which the loop over the input succeeds and no fixed-count array is incomplete (an incomplete one
  is refused before the check with \<^verbatim>\<open>wrong size for fixed count field\<close>), and of the required fields
  it concerns the first 64 (\<^verbatim>\<open>PB_MAX_REQUIRED_FIELDS\<close>; later ones are not tracked). On these runs
  decoding succeeds if a tag of each of those fields was read and otherwise fails with
  \<^verbatim>\<open>missing required field\<close>.\<close>

theorem pb_decode_noinit_missing:
  assumes "distinct_tags fs" and "nfields fs \<noteq> 0" and "nfields fs < 2 ^ 32"
    and "decode_loop (Suc (unat (is_bytes_left s))) n env (pb_decode_noinit n env) s (start_frame fs dest) (fresh_count w)
      = Some (True, fr, s', w1)" and "fixed_count_done fr w1"
  shows "\<exists>tags s1. decode_rounds n env (pb_decode_noinit n env) (s, start_frame fs dest, fresh_count w) tags (s1, fr, w1)
    \<and> stops_at s1 s'
    \<and> pb_decode_noinit (Suc n) env s fs dest w
        = (if required_seen fs tags then Some (True, s', w1\<lparr>w_fixed_count_size := w_fixed_count_size w\<rparr>)
           else dec_error s' ''missing required field'' (w1\<lparr>w_fixed_count_size := w_fixed_count_size w\<rparr>))"
proof -
  from loop_required [OF assms(4,2,3)] obtain tags s1 where
    r: "decode_rounds n env (pb_decode_noinit n env) (s, start_frame fs dest, fresh_count w) tags (s1, fr, w1)"
      "stops_at s1 s'" "frame_inv fs dest tags fr" .
  have "all_required_seen (req_field_count (fr_iter fr)) (fr_fields_seen fr) \<longleftrightarrow> required_seen fs tags"
    using final_check [OF r(3) assms(3)] assms(1) by blast
  then have "pb_decode_noinit (Suc n) env s fs dest w
      = (if required_seen fs tags then Some (True, s', w1\<lparr>w_fixed_count_size := w_fixed_count_size w\<rparr>)
         else dec_error s' ''missing required field'' (w1\<lparr>w_fixed_count_size := w_fixed_count_size w\<rparr>))"
    unfolding noinit_loop using assms(4,5) by (simp add: dec_error_def del: decode_loop.simps)
  with r show ?thesis by blast
qed

lemma ex_empty_loop:
  "decode_loop (Suc (unat (is_bytes_left (pb_istream_from_buffer [] 0 :: unit pb_istream_t)))) 0 (ex_dec_env :: unit pb_dec_env) (pb_decode_noinit 0 ex_dec_env) (pb_istream_from_buffer [] 0)
     (start_frame ex_flat 300) (fresh_count ex_world)
   = Some (True, start_frame ex_flat 300, pb_istream_from_buffer [] 0, fresh_count ex_world)"
  by (simp add: pb_istream_from_buffer_def)

theorem pb_decode_noinit_missing_witness:
  "\<exists>tags s1. decode_rounds 0 ex_dec_env (pb_decode_noinit 0 ex_dec_env)
      (pb_istream_from_buffer [] 0 :: unit pb_istream_t, start_frame ex_flat 300, fresh_count ex_world) tags
      (s1, start_frame ex_flat 300, fresh_count ex_world)
    \<and> stops_at s1 (pb_istream_from_buffer [] 0)
    \<and> pb_decode_noinit 1 (ex_dec_env :: unit pb_dec_env) (pb_istream_from_buffer [] 0) ex_flat 300 ex_world
        = (if required_seen ex_flat tags then Some (True, pb_istream_from_buffer [] 0, ex_world)
           else dec_error (pb_istream_from_buffer [] 0) ''missing required field'' ex_world)"
proof -
  have w: "(fresh_count ex_world)\<lparr>w_fixed_count_size := w_fixed_count_size ex_world\<rparr> = ex_world"
    by (simp add: fresh_count_def ex_world_def)
  have "fixed_count_done (start_frame ex_flat 300) (fresh_count ex_world)"
    by (simp add: fixed_count_done_def start_frame_def)
  from pb_decode_noinit_missing [OF flat_msgD(2) [OF ex_flat_flat] _ _ ex_empty_loop this]
  show ?thesis unfolding w ex_flat_nfields One_nat_def by simp
qed

end
