(* ===== verification/Pb_Decode_Errors.thy ===== *)
theory Pb_Decode_Errors
  imports Pb_Decode_Props
begin

text \<open>
  Bounds and errors of the decoder: what it does with values that do not fit where they go, and with
  inputs that are not what an encoder writes.
\<close>

section \<open>Allocation\<close>

lemma no_mult_overflow:
  fixes a b :: "64 word"
  assumes "\<not> ((b \<ge> push_bit 32 1 \<or> a \<ge> push_bit 32 1) \<and> (-1) div a < b)" and "a \<noteq> 0"
  shows "unat (a * b) = unat a * unat b"
proof -
  have p: "unat (push_bit 32 1 :: 64 word) = 4294967296" by (simp add: push_bit_eq_mult)
  have "unat a * unat b < 18446744073709551616"
  proof (cases "b < push_bit 32 1 \<and> a < push_bit 32 1")
    case True
    then have "unat a < 4294967296" "unat b < 4294967296"
      unfolding word_less_nat_alt p by auto
    then have "unat a * unat b < 4294967296 * 4294967296" by (intro mult_strict_mono) auto
    then show ?thesis by simp
  next
    case False
    with assms(1) have "b \<le> (-1) div a" by (meson not_le)
    then have "unat b \<le> 18446744073709551615 div unat a" by (simp add: word_le_nat_alt unat_div)
    then have "unat a * unat b \<le> unat a * (18446744073709551615 div unat a)" by simp
    also have "\<dots> \<le> 18446744073709551615" by simp
    finally show ?thesis by simp
  qed
  then show ?thesis by (simp add: unat_word_ariths)
qed

text \<open>C35: when \<^verbatim>\<open>allocate_field\<close> succeeds, the pointer stored in the field is a live block of exactly
  \<^verbatim>\<open>data_size * array_size\<close> bytes, the product taken without wrap-around; when it fails, it has not
  touched the field.\<close>

theorem allocate_field_size:
  assumes "allocate_field alloc s pData data_size array_size w = Some (ok, s', w')"
  shows "if ok then is_live w' (load64 (w_mem w') pData)
      \<and> block_size w' (load64 (w_mem w') pData) = unat array_size * unat data_size
    else w_mem w' = w_mem w \<and> w_blocks w' = w_blocks w"
proof (cases ok)
  case True
  with assms obtain q w1 where
    nz: "array_size \<noteq> 0"
    and lim: "\<not> ((data_size \<ge> push_bit 32 1 \<or> array_size \<ge> push_bit 32 1) \<and> (-1) div array_size < data_size)"
    and r: "pb_realloc alloc (load64 (w_mem w) pData) (array_size * data_size) w = Some (q, w1)" "q \<noteq> NULL"
      "w' = store_mem (\<lambda>m. store64 m pData q) w1"
    unfolding allocate_field_def Let_def dec_error_def
    by (force split: if_splits option.splits)
  from r(1,2) have "\<exists>bl. w_blocks w1 = (q, unat (array_size * data_size)) # bl"
    by (auto simp: pb_realloc_def Let_def split: if_splits)
  moreover have "load64 (w_mem w') pData = q" by (simp add: r(3) mem_simps)
  ultimately show ?thesis
    using True no_mult_overflow [OF lim nz] by (auto simp: is_live_def block_size_def r(3))
next
  case False
  with assms show ?thesis
    by (auto simp: allocate_field_def pb_realloc_def Let_def dec_error_def split: if_splits option.splits)
qed

theorem allocate_field_size_witness:
  "\<exists>s' w'. allocate_field (\<lambda>_ _. 0x1000) (pb_istream_from_buffer [] 0 :: unit pb_istream_t) 64 8 3
       \<lparr>w_mem = (\<lambda>_. 0), w_blocks = [], w_fixed_count_size = 0\<rparr> = Some (True, s', w')
     \<and> is_live w' (load64 (w_mem w') 64) \<and> block_size w' (load64 (w_mem w') 64) = 24"
proof -
  let ?w = "\<lparr>w_mem = (\<lambda>_. 0), w_blocks = [], w_fixed_count_size = 0\<rparr>"
  have "map_option fst (allocate_field (\<lambda>_ _. 0x1000) (pb_istream_from_buffer [] 0 :: unit pb_istream_t) 64 8 3 ?w) = Some True"
    by code_simp
  then obtain s' w' where r: "allocate_field (\<lambda>_ _. 0x1000) (pb_istream_from_buffer [] 0 :: unit pb_istream_t) 64 8 3 ?w
      = Some (True, s', w')" by auto
  with allocate_field_size [OF r] show ?thesis by auto
qed

section \<open>Values that do not fit\<close>

lemma ucast_fits_iff:
  "(ucast (ucast (v :: 64 word) :: 'a::len word) :: 64 word) = v \<longleftrightarrow> unat v < 2 ^ LENGTH('a)" if "LENGTH('a) \<le> 64"
proof -
  have "unat (ucast (ucast v :: 'a word) :: 64 word) = unat v mod 2 ^ LENGTH('a)"
    using that unsigned_take_bit_eq [of "LENGTH('a)" v, where ?'a = nat]
    by (simp add: unsigned_ucast_eq take_bit_eq_mod [symmetric])
  then show ?thesis by (metis mod_less mod_less_divisor unsigned_word_eqI zero_less_numeral zero_less_power)
qed

lemma bytes_of_ucast:
  fixes v :: "'b::len word"
  assumes "8 * n \<le> LENGTH('a)" "LENGTH('a) \<le> LENGTH('b)"
  shows "bytes_of_word n (ucast v :: 'a::len word) = bytes_of_word n v"
proof (rule nth_equalityI)
  fix i
  assume "i < length (bytes_of_word n (ucast v :: 'a word))"
  then have i: "i < n" by simp
  have "(ucast (drop_bit (8 * i) (ucast v :: 'a word)) :: byte) = ucast (drop_bit (8 * i) v)"
    using i assms by (intro bit_word_eqI) (auto simp: bit_simps)
  with i show "bytes_of_word n (ucast v :: 'a word) ! i = bytes_of_word n v ! i"
    by (simp add: nth_bytes_of_word)
qed simp

lemma write_unsigned_fits:
  assumes "sz \<in> {1, 2, 4, 8}"
  shows "if unat v < 2 ^ (8 * unat sz)
    then write_unsigned sz dest v m = Some (store_bytes m dest (bytes_of_word (unat sz) v), v)
    else \<exists>m' c. write_unsigned sz dest v m = Some (m', c) \<and> c \<noteq> v"
  using assms unat_less_64 [of v]
    ucast_fits_iff [where ?'a = 32, of v] ucast_fits_iff [where ?'a = 16, of v] ucast_fits_iff [where ?'a = 8, of v]
  by (elim insertE emptyE)
    (auto simp: write_unsigned_def store64_def store32_def store16_def store8_def bytes_of_ucast)

text \<open>C36: an unsigned varint is stored in a field of 1, 2, 4 or 8 bytes if and only if it is below
  two to the power of the field's width; any larger value is refused with \<^verbatim>\<open>integer too large\<close>, and
  the input behind it is reached either way.\<close>

theorem pb_dec_uvarint_range:
  assumes "f_data_size field \<in> {1, 2, 4, 8}" and "length (varint_bytes v) \<le> unat sz"
  shows "\<exists>s. is_source s = Buf rest \<and> is_bytes_left s = sz - of_nat (length (varint_bytes v))
    \<and> (if unat v < 2 ^ (8 * unat (f_data_size field))
       then pb_dec_uvarint (pb_istream_from_buffer (varint_bytes v @ rest) sz :: 's pb_istream_t) field dest w
          = Some (True, s, store_mem (\<lambda>m. store_bytes m dest (bytes_of_word (unat (f_data_size field)) v)) w)
       else \<exists>w'. pb_dec_uvarint (pb_istream_from_buffer (varint_bytes v @ rest) sz :: 's pb_istream_t) field dest w
          = Some (False, is_fail s ''integer too large'', w'))"
proof -
  note buffer_parse [OF buf_in.parses_varint assms(2), of rest, where ?'s = 's]
  moreover note write_unsigned_fits [OF assms(1), of v dest "w_mem w"]
  ultimately show ?thesis
    by (intro exI [of _ "pb_istream_from_buffer rest (sz - of_nat (length (varint_bytes v)))"])
      (auto simp: pb_dec_uvarint_def store_checked_def dec_error_def pb_istream_from_buffer_def split: if_splits)
qed

theorem pb_dec_uvarint_range_witness:
  "\<exists>s. is_source s = Buf [] \<and> is_bytes_left s = 0 \<and> (\<exists>w'.
     pb_dec_uvarint (pb_istream_from_buffer (varint_bytes 300) 2 :: unit pb_istream_t) (PB_LAST_FIELD\<lparr>f_data_size := 1\<rparr>) 64 ex_world
       = Some (False, is_fail s ''integer too large'', w'))"
proof -
  have "length (varint_bytes 300) = 2" by code_simp
  with pb_dec_uvarint_range [where ?'s = unit, of "PB_LAST_FIELD\<lparr>f_data_size := 1\<rparr>" 300 2 "[]" 64 ex_world]
  show ?thesis by simp
qed

section \<open>Strings\<close>

text \<open>C37: a string is stored in a static field with a terminating zero if it and the terminator fit;
  otherwise decoding fails with \<^verbatim>\<open>string overflow\<close> and memory is unchanged.\<close>

theorem pb_dec_string_bound:
  assumes "atype field = PB_ATYPE_STATIC" and "dest \<noteq> NULL" and "length bs < 2 ^ 32 - 1"
    and "length (delimited bs) \<le> unat sz"
  shows "pb_dec_string alloc (pb_istream_from_buffer (delimited bs @ rest) sz :: 's pb_istream_t) field dest w
    = (if length bs < unat (f_data_size field)
       then Some (True, pb_istream_from_buffer rest (sz - of_nat (length (delimited bs))),
              store_mem (\<lambda>m. store_bytes m dest (bs @ [0])) w)
       else Some (False, is_fail (pb_istream_from_buffer (bs @ rest) (sz - of_nat (length (varint_bytes (of_nat (length bs))))))
              ''string overflow'', w))"
proof (cases "length bs < unat (f_data_size field)")
  case True
  then show ?thesis
    using buffer_stores [OF buf_in.stores_string [OF assms(2,1)] assms(4)] by simp
next
  case False
  let ?n = "of_nat (length bs) :: u32"
  have n: "unat ?n = length bs" using assms(3) by (intro unat_of_nat_small) simp
  have n1: "unat (?n + 1) = length bs + 1" using assms(3) n by (simp add: unat_word_ariths)
  have v: "of_nat (length bs) = (ucast ?n :: u64)" using assms(3) by (intro of_nat_64_32) simp
  have "length (varint_bytes (ucast ?n)) \<le> unat sz" using assms(4) by (simp add: delimited_def v)
  from buffer_parse [OF buf_in.parses_varint32 this, of "bs @ rest", where ?'s = 's]
  have "pb_decode_varint32 (pb_istream_from_buffer (delimited bs @ rest) sz :: 's pb_istream_t)
      = Some (Some ?n, pb_istream_from_buffer (bs @ rest) (sz - of_nat (length (varint_bytes (of_nat (length bs))))))"
    by (simp add: delimited_def v)
  moreover have "\<not> (ucast (?n + 1) :: size_t) < ucast ?n" "(ucast (?n + 1) :: size_t) > ucast (f_data_size field)"
    using False n n1 by (simp_all add: word_less_nat_alt)
  ultimately show ?thesis
    using False assms(1) by (simp add: pb_dec_string_def Let_def dec_error_def)
qed

theorem pb_dec_string_bound_witness:
  "pb_dec_string (\<lambda>_ _. 0) (pb_istream_from_buffer (delimited [0x61, 0x62, 0x63]) 4 :: unit pb_istream_t)
      (PB_LAST_FIELD\<lparr>f_data_size := 3\<rparr>) 64 ex_world
   = Some (False, is_fail (pb_istream_from_buffer [0x61, 0x62, 0x63] 3) ''string overflow'', ex_world)"
proof -
  have "length (delimited [0x61, 0x62, 0x63]) = 4" "length (varint_bytes 3) = 1" by code_simp+
  with pb_dec_string_bound [where ?'s = unit, of "PB_LAST_FIELD\<lparr>f_data_size := 3\<rparr>" 64 "[0x61, 0x62, 0x63]" 4 "\<lambda>_ _. 0" "[]" ex_world]
  show ?thesis by (simp add: PB_ATYPE_def)
qed

section \<open>Inputs no encoder writes\<close>

text \<open>The position of a varint's bits is kept in an 8-bit variable. Bytes past the fifth must have no
  payload, but after 36 bytes the position has wrapped around, and the bytes of the next few rounds
  are taken as the low ones.\<close>

lemma readbyte_buffer:
  "sz \<noteq> 0 \<Longrightarrow> pb_readbyte (pb_istream_from_buffer (b # rest) sz :: 's pb_istream_t)
     = Some (Some b, pb_istream_from_buffer rest (sz - 1))"
  using buffer_parse [OF buf_in.parses_readbyte, of b sz rest]
  by (simp add: word_le_nat_alt Suc_le_eq unat_gt_0)

lemma room_Suc:
  "Suc n \<le> unat (sz :: size_t) \<Longrightarrow> sz \<noteq> 0 \<and> n \<le> unat (sz - 1) \<and> sz - 1 - of_nat n = sz - of_nat (Suc n)"
  by (cases "sz = 0") (simp_all add: unat_minus_one)

lemma nonzero_room: "Suc n \<le> unat (sz :: size_t) \<Longrightarrow> sz - of_nat n \<noteq> 0"
proof
  assume n: "Suc n \<le> unat sz" and "sz - of_nat n = 0"
  then have "unat sz = unat (of_nat n :: size_t)" by simp
  also have "\<dots> \<le> n" by (simp add: unat_of_nat)
  finally show False using n by simp
qed

lemma varint32_padding:
  "n \<le> unat sz \<Longrightarrow>
   varint32_loop (pb_istream_from_buffer (replicate n 0x80 @ bs) sz :: 's pb_istream_t) pos r
   = varint32_loop (pb_istream_from_buffer bs (sz - of_nat n)) (pos + 7 * of_nat n) r"
proof (induction n arbitrary: sz pos)
  case (Suc n)
  note room = room_Suc [OF Suc.prems]
  from room have "varint32_loop (pb_istream_from_buffer (replicate (Suc n) 0x80 @ bs) sz :: 's pb_istream_t) pos r
      = varint32_loop (pb_istream_from_buffer (replicate n 0x80 @ bs) (sz - 1)) (pos + 7) r"
    by (subst varint32_loop.simps) (simp add: readbyte_buffer Let_def)
  with room Suc.IH [of "sz - 1" "pos + 7"] show ?case by (simp add: algebra_simps)
qed simp

lemma varint_padding:
  "n \<le> unat sz \<Longrightarrow> unat pos + 7 * n \<le> 70 \<Longrightarrow>
   varint_decode_loop (pb_istream_from_buffer (replicate n 0x80 @ bs) sz :: 's pb_istream_t) pos r
   = varint_decode_loop (pb_istream_from_buffer bs (sz - of_nat n)) (pos + 7 * of_nat n) r"
proof (induction n arbitrary: sz pos)
  case (Suc n)
  note room = room_Suc [OF Suc.prems(1)]
  have pos: "unat pos < 64" "unat (pos + 7) = unat pos + 7" using Suc.prems(2) by (simp_all add: unat_add_7)
  from room pos(1) have "varint_decode_loop (pb_istream_from_buffer (replicate (Suc n) 0x80 @ bs) sz :: 's pb_istream_t) pos r
      = varint_decode_loop (pb_istream_from_buffer (replicate n 0x80 @ bs) (sz - 1)) (pos + 7) r"
    by (subst varint_decode_loop.simps) (simp add: readbyte_buffer Let_def word_le_nat_alt)
  with room pos(2) Suc.prems(2) Suc.IH [of "sz - 1" "pos + 7"] show ?case by (simp add: algebra_simps)
qed simp

text \<open>C39: let a varint start with a byte of continuation, go on with any number of empty bytes (at
  least nine) and end with a byte whose bit position, reduced modulo 256, is below 28. Then
  \<^verbatim>\<open>pb_decode_varint32\<close> accepts it and puts the bits of the last byte at the reduced position,
  whereas \<^verbatim>\<open>pb_decode_varint\<close> refuses the same bytes after the tenth.\<close>

theorem varint32_overlong:
  assumes "a AND 0x80 \<noteq> 0" and "b AND 0x80 = 0" and "9 \<le> n" and "n + 2 \<le> unat sz"
    and "7 * (n + 1) mod 256 < 28"
  shows "pb_decode_varint32 (pb_istream_from_buffer (a # replicate n 0x80 @ b # rest) sz :: 's pb_istream_t)
      = Some (Some (ucast (a AND 0x7F) OR push_bit (7 * (n + 1) mod 256) (ucast (b AND 0x7F))),
          pb_istream_from_buffer rest (sz - of_nat (n + 2)))
    \<and> pb_decode_varint (pb_istream_from_buffer (a # replicate n 0x80 @ b # rest) sz :: 's pb_istream_t)
      = Some (None, is_fail (pb_istream_from_buffer (replicate (n - 9) 0x80 @ b # rest) (sz - 10)) ''varint overflow'')"
proof
  let ?p = "7 + 7 * of_nat n :: 8 word"
  have p: "unat ?p = 7 * (n + 1) mod 256"
  proof -
    have "?p = of_nat (7 * (n + 1))" by simp
    then show ?thesis by (simp add: unat_of_nat del: of_nat_mult of_nat_add)
  qed
  with assms(5) have small: "\<not> 32 \<le> ?p" "?p + 7 \<noteq> 35"
    by (auto simp: word_le_nat_alt dest: arg_cong [where f = "\<lambda>x. unat (x - 7)"])
  from assms(4) have sz: "sz \<noteq> 0" "Suc n \<le> unat (sz - 1)" "sz - 1 - of_nat n \<noteq> 0"
    using room_Suc [of "Suc n" sz] room_Suc [of n "sz - 1"] nonzero_room [of n "sz - 1"] by auto
  then have "varint32_loop (pb_istream_from_buffer (replicate n 0x80 @ b # rest) (sz - 1) :: 's pb_istream_t) 7 (ucast (a AND 0x7F))
      = varint32_loop (pb_istream_from_buffer (b # rest) (sz - 1 - of_nat n)) ?p (ucast (a AND 0x7F))"
    by (simp add: varint32_padding)
  also have "\<dots> = Some (Some (?p + 7, b, ucast (a AND 0x7F) OR push_bit (unat ?p) (ucast (b AND 0x7F))),
      pb_istream_from_buffer rest (sz - 1 - of_nat n - 1))"
    using sz small assms(2) by (subst varint32_loop.simps) (simp add: readbyte_buffer Let_def)
  finally show "pb_decode_varint32 (pb_istream_from_buffer (a # replicate n 0x80 @ b # rest) sz :: 's pb_istream_t)
      = Some (Some (ucast (a AND 0x7F) OR push_bit (7 * (n + 1) mod 256) (ucast (b AND 0x7F))),
          pb_istream_from_buffer rest (sz - of_nat (n + 2)))"
    using sz small assms(1) p
    by (simp add: pb_decode_varint32_def pb_decode_varint32_eof_def readbyte_buffer algebra_simps)
next
  from assms(4) have sz: "sz \<noteq> 0" "9 \<le> unat (sz - 1)" using assms(3) room_Suc [of "Suc n" sz] by auto
  have split: "replicate n 0x80 @ b # rest = replicate 9 0x80 @ replicate (n - 9) (0x80 :: byte) @ b # rest"
    using assms(3) by (simp flip: replicate_add append_assoc)
  have "varint_decode_loop (pb_istream_from_buffer (replicate n 0x80 @ b # rest) (sz - 1) :: 's pb_istream_t) 7 (ucast (a AND 0x7F))
      = varint_decode_loop (pb_istream_from_buffer (replicate (n - 9) 0x80 @ b # rest) (sz - 1 - of_nat 9)) (7 + 7 * of_nat 9)
          (ucast (a AND 0x7F))"
    unfolding split using sz(2) by (intro varint_padding) simp_all
  also have "\<dots> = is_error (pb_istream_from_buffer (replicate (n - 9) 0x80 @ b # rest) (sz - 10)) ''varint overflow''"
    by (subst varint_decode_loop.simps) simp
  finally show "pb_decode_varint (pb_istream_from_buffer (a # replicate n 0x80 @ b # rest) sz :: 's pb_istream_t)
      = Some (None, is_fail (pb_istream_from_buffer (replicate (n - 9) 0x80 @ b # rest) (sz - 10)) ''varint overflow'')"
    using sz(1) assms(1) unfolding pb_decode_varint_def
    by (subst varint_decode_loop.simps) (simp add: readbyte_buffer Let_def is_error_def)
qed

theorem varint32_overlong_witness:
  "pb_decode_varint32 (pb_istream_from_buffer (0x80 # replicate 36 0x80 @ [0x01]) 38 :: unit pb_istream_t)
     = Some (Some 8, pb_istream_from_buffer [] 0)
   \<and> pb_decode_varint (pb_istream_from_buffer (0x80 # replicate 36 0x80 @ [0x01]) 38 :: unit pb_istream_t)
     = Some (None, is_fail (pb_istream_from_buffer (replicate 27 0x80 @ [0x01]) 28) ''varint overflow'')"
  using varint32_overlong [of "0x80" "0x01" 36 38 "[]", where ?'s = unit] by (simp add: push_bit_eq_mult)

text \<open>A repeated string in allocated storage, at offset 8 with its count at offset 0.\<close>

definition strings_fields :: "pb_field_t list" where
  "strings_fields = [PB_FIELD 1 T_STRING REPEATED POINTER FIRST
     \<lparr>mb_offset = 8, mb_size = 8, mb_elem_size = 8, mb_info_offset = 0\<rparr>
     \<lparr>mb_offset = 8, mb_size = 8, mb_elem_size = 8, mb_info_offset = 0\<rparr> 0]"

definition no_memory_env :: "unit pb_dec_env" where
  "no_memory_env = ex_dec_env\<lparr>de_alloc := (\<lambda>_ _. NULL)\<rparr>"

lemma no_memory_alloc: "de_alloc no_memory_env w sz = NULL"
  by (simp add: no_memory_env_def)

definition zero_world :: pb_world where
  "zero_world = \<lparr>w_mem = (\<lambda>_. 0), w_blocks = [], w_fixed_count_size = 0\<rparr>"

lemma zero_world_loads: "load32 (w_mem zero_world) 300 = 0" "load64 (w_mem zero_world) 308 = NULL"
  by code_simp+

lemma strings_fields_facts:
  "nfields strings_fields = 1" "data_off strings_fields 0 = 8" "size_off strings_fields 0 = 0"
  "htype (field_at strings_fields 0) = PB_HTYPE_REPEATED" "ltype (field_at strings_fields 0) = PB_LTYPE_STRING"
  "atype (field_at strings_fields 0) = PB_ATYPE_POINTER" "f_data_size (field_at strings_fields 0) = 8"
  by code_simp+

lemma ucast_size_bounds:
  fixes x :: u32
  shows "x \<noteq> 0 \<Longrightarrow> ucast x \<noteq> (0 :: size_t)" "ucast x < (push_bit 32 1 :: size_t)"
proof -
  have u: "unat (ucast x :: size_t) = unat x"
    using unsigned_less [of x, where ?'a = nat] by (simp add: unsigned_ucast_eq take_bit_nat_eq_self)
  show "x \<noteq> 0 \<Longrightarrow> ucast x \<noteq> (0 :: size_t)" using u by (metis unat_0 unat_eq_0)
  show "ucast x < (push_bit 32 1 :: size_t)"
    using unsigned_less [of x, where ?'a = nat] by (simp add: word_less_nat_alt u push_bit_eq_mult)
qed

lemma load_store_psize:
  "span q 8 \<inter> span p 4 = {} \<Longrightarrow> load64 (w_mem (psize_set (PSizeAt p) v w)) q = load64 (w_mem w) q"
  by (simp add: load64_def store32_def load_store_disjoint)

text \<open>C40: \<^verbatim>\<open>decode_pointer_field\<close> counts an entry of a repeated pointer field before it has room for
  it. If the allocator then has no memory, decoding the entry fails with the count one higher and the
  array as it was. If this is the first allocation of an array of strings or byte arrays, the array is
  null with a count that is not zero, and \<^verbatim>\<open>pb_release_single_field\<close> on the field
  dereferences it.\<close>

theorem failed_realloc_leaves_count:
  assumes "htype (it_field iter) = PB_HTYPE_REPEATED" and "atype (it_field iter) = PB_ATYPE_POINTER"
    and "wire_type \<noteq> PB_WT_STRING \<or> PB_LTYPE_LAST_PACKABLE < ltype (it_field iter)"
    and "f_data_size (it_field iter) \<noteq> 0"
    and "it_pSize iter = PSizeAt p" and "span (it_pData iter) 8 \<inter> span p 4 = {}"
    and "load32 (w_mem w) p = count" and "count \<noteq> PB_SIZE_MAX"
    and "load64 (w_mem w) (it_pData iter) = array" and "array = NULL \<or> is_live w array"
    and "\<And>w sz. de_alloc env w sz = NULL"
  shows "\<exists>w'. decode_pointer_field n env dec stream wire_type iter w = Some (False, is_fail stream ''realloc failed'', w')
     \<and> load32 (w_mem w') p = count + 1 \<and> load64 (w_mem w') (it_pData iter) = array
     \<and> (array = NULL \<and> ltype (it_field iter) \<in> {PB_LTYPE_STRING, PB_LTYPE_BYTES}
        \<longrightarrow> pb_release_single_field (Suc m) env iter w' = None)"
proof -
  let ?w = "psize_set (it_pSize iter) (count + 1) w"
  have nz: "count + 1 \<noteq> 0"
  proof
    assume "count + 1 = 0"
    then have "count = - 1" by (simp add: add_eq_0_iff2)
    with assms(8) show False by simp
  qed
  have mem: "load32 (w_mem ?w) p = count + 1" "load64 (w_mem ?w) (it_pData iter) = array"
    using assms(5,9) load_store_psize [OF assms(6)] psize_get_set [of "it_pSize iter" "count + 1" w] by simp_all
  have "allocate_field (de_alloc env) stream (it_pData iter) (ucast (f_data_size (it_field iter))) (ucast (count + 1)) ?w
      = Some (False, is_fail stream ''realloc failed'', ?w)"
    using assms(10,11) mem(2) assms(5) ucast_size_bounds [of "count + 1"] ucast_size_bounds [of "f_data_size (it_field iter)"] assms(4) nz
    by (auto simp: not_le allocate_field_def pb_realloc_def dec_error_def is_live_def Let_def)
  then have "decode_pointer_field n env dec stream wire_type iter w = Some (False, is_fail stream ''realloc failed'', ?w)"
    using assms(1-3,7,8,5) by (auto simp: decode_pointer_field_def Let_def not_le mem_simps)
  moreover have "pb_release_single_field (Suc m) env iter ?w = None"
    if null: "array = NULL" and lt: "ltype (it_field iter) \<in> {PB_LTYPE_STRING, PB_LTYPE_BYTES}"
  proof -
    obtain k where k: "unat (count + 1) = Suc k" using nz by (metis not0_implies_Suc unat_eq_0)
    have "release_pointer iter ?w = None"
      using assms(1,2,5) lt mem null k by (auto simp: release_pointer_def release_entry_def Let_def)
    then show ?thesis
      using assms(1) lt by (auto simp: Let_def PB_HTYPE_def)
  qed
  ultimately show ?thesis using mem by blast
qed

theorem failed_realloc_leaves_count_witness:
  "\<exists>w'. decode_pointer_field 2 no_memory_env (\<lambda>s fs dest w. None) (pb_istream_from_buffer [0x01, 0x61] 2) PB_WT_STRING
        (iter_nth strings_fields 300 0) zero_world
      = Some (False, is_fail (pb_istream_from_buffer [0x01, 0x61] 2) ''realloc failed'', w')
     \<and> load32 (w_mem w') 300 = 1 \<and> load64 (w_mem w') 308 = NULL
     \<and> pb_release_single_field 2 no_memory_env (iter_nth strings_fields 300 0) w' = None"
proof -
  have "span 308 8 \<inter> span 300 4 = {}" by code_simp
  then show ?thesis
    using failed_realloc_leaves_count [where iter = "iter_nth strings_fields 300 0" and wire_type = PB_WT_STRING and p = 300
      and w = zero_world and count = 0 and array = NULL and env = no_memory_env and n = 2 and m = 1
      and stream = "pb_istream_from_buffer [0x01, 0x61] 2" and dec = "\<lambda>s fs dest w. None"]
    by (simp add: strings_fields_facts zero_world_loads no_memory_alloc del: One_nat_def data_off.simps size_off.simps pb_release_single_field.simps)
qed

end
