(* ===== verification/Ldb_Coding.thy ===== *)
theory Ldb_Coding
  imports Varint
begin

text \<open>
  Slices and the encoding of numbers and strings in the storage engine, from
  \<^verbatim>\<open>src/ios/Pods/leveldb-library\<close>: \<^verbatim>\<open>include/leveldb/slice.h\<close>, \<^verbatim>\<open>util/coding.h\<close> and
  \<^verbatim>\<open>util/coding.cc\<close>. A slice and a \<^verbatim>\<open>std::string\<close> are lists of bytes; a range
  \<^verbatim>\<open>[p, limit)\<close> is the list of its bytes, and a pointer returned into it is the list behind it.
  \<^verbatim>\<open>char\<close> is a byte, and \<^verbatim>\<open>size_t\<close> lengths are those of lists.
\<close>

type_synonym slice = "byte list"

section \<open>Slices\<close>

text \<open>The sign of \<^verbatim>\<open>memcmp\<close> on ranges of the same length.\<close>

fun memcmp :: "byte list \<Rightarrow> byte list \<Rightarrow> int" where
  "memcmp (x # xs) (y # ys) = (if x < y then -1 else if y < x then 1 else memcmp xs ys)"
| "memcmp _ _ = 0"

definition slice_compare :: "slice \<Rightarrow> slice \<Rightarrow> int" where
  "slice_compare a b =
     (let min_len = (if length a < length b then length a else length b);
          r = memcmp (take min_len a) (take min_len b)
      in if r = 0
         then if length a < length b then -1 else if length a > length b then 1 else r
         else r)"

definition slice_eq :: "slice \<Rightarrow> slice \<Rightarrow> bool" where
  "slice_eq x y \<longleftrightarrow> length x = length y \<and> memcmp x (take (length x) y) = 0"

definition starts_with :: "slice \<Rightarrow> slice \<Rightarrow> bool" where
  "starts_with s x \<longleftrightarrow> length s \<ge> length x \<and> memcmp (take (length x) s) x = 0"

section \<open>Numbers of fixed size\<close>

text \<open>The platforms of the application are little-endian; the other branch of the code is kept and
  proved to agree.\<close>

definition kLittleEndian :: bool where
  "kLittleEndian = True"

definition EncodeFixed32_for :: "bool \<Rightarrow> u32 \<Rightarrow> byte list" where
  "EncodeFixed32_for little value =
     (if little then bytes_of_word 4 value
      else [ucast (value AND 0xFF), ucast (drop_bit 8 value AND 0xFF), ucast (drop_bit 16 value AND 0xFF),
            ucast (drop_bit 24 value AND 0xFF)])"

definition EncodeFixed64_for :: "bool \<Rightarrow> u64 \<Rightarrow> byte list" where
  "EncodeFixed64_for little value =
     (if little then bytes_of_word 8 value
      else [ucast (value AND 0xFF), ucast (drop_bit 8 value AND 0xFF), ucast (drop_bit 16 value AND 0xFF),
            ucast (drop_bit 24 value AND 0xFF), ucast (drop_bit 32 value AND 0xFF),
            ucast (drop_bit 40 value AND 0xFF), ucast (drop_bit 48 value AND 0xFF),
            ucast (drop_bit 56 value AND 0xFF)])"

definition EncodeFixed32 :: "u32 \<Rightarrow> byte list" where
  "EncodeFixed32 = EncodeFixed32_for kLittleEndian"

definition EncodeFixed64 :: "u64 \<Rightarrow> byte list" where
  "EncodeFixed64 = EncodeFixed64_for kLittleEndian"

definition PutFixed32 :: "byte list \<Rightarrow> u32 \<Rightarrow> byte list" where
  "PutFixed32 dst value = dst @ EncodeFixed32 value"

definition PutFixed64 :: "byte list \<Rightarrow> u64 \<Rightarrow> byte list" where
  "PutFixed64 dst value = dst @ EncodeFixed64 value"

text \<open>The decoders read 4 and 8 bytes without a check of the bounds; callers pass a list that has
  them.\<close>

definition DecodeFixed32_for :: "bool \<Rightarrow> byte list \<Rightarrow> u32" where
  "DecodeFixed32_for little ptr =
     (if little then word_of_bytes (take 4 ptr)
      else ucast (ptr ! 0) OR push_bit 8 (ucast (ptr ! 1)) OR push_bit 16 (ucast (ptr ! 2))
        OR push_bit 24 (ucast (ptr ! 3)))"

definition DecodeFixed64_for :: "bool \<Rightarrow> byte list \<Rightarrow> u64" where
  "DecodeFixed64_for little ptr =
     (if little then word_of_bytes (take 8 ptr)
      else let lo = ucast (DecodeFixed32_for little ptr); hi = ucast (DecodeFixed32_for little (drop 4 ptr))
           in push_bit 32 hi OR lo)"

definition DecodeFixed32 :: "byte list \<Rightarrow> u32" where
  "DecodeFixed32 = DecodeFixed32_for kLittleEndian"

definition DecodeFixed64 :: "byte list \<Rightarrow> u64" where
  "DecodeFixed64 = DecodeFixed64_for kLittleEndian"

section \<open>Varints\<close>

definition EncodeVarint32 :: "u32 \<Rightarrow> byte list" where
  "EncodeVarint32 v =
     (if v < push_bit 7 1 then [ucast v]
      else if v < push_bit 14 1 then [ucast (v OR 128), ucast (drop_bit 7 v)]
      else if v < push_bit 21 1 then [ucast (v OR 128), ucast (drop_bit 7 v OR 128), ucast (drop_bit 14 v)]
      else if v < push_bit 28 1
      then [ucast (v OR 128), ucast (drop_bit 7 v OR 128), ucast (drop_bit 14 v OR 128), ucast (drop_bit 21 v)]
      else [ucast (v OR 128), ucast (drop_bit 7 v OR 128), ucast (drop_bit 14 v OR 128),
            ucast (drop_bit 21 v OR 128), ucast (drop_bit 28 v)])"

definition PutVarint32 :: "byte list \<Rightarrow> u32 \<Rightarrow> byte list" where
  "PutVarint32 dst v = dst @ EncodeVarint32 v"

function EncodeVarint64 :: "u64 \<Rightarrow> byte list" where
  "EncodeVarint64 v =
     (if v \<ge> 128 then ucast ((v AND 127) OR 128) # EncodeVarint64 (drop_bit 7 v) else [ucast v])"
  by pat_completeness auto
termination
proof (relation "measure unat", goal_cases)
  case (2 v)
  then have "v \<noteq> 0" by auto
  then show ?case using drop_bit_7_less by simp
qed simp

declare EncodeVarint64.simps [simp del]

definition PutVarint64 :: "byte list \<Rightarrow> u64 \<Rightarrow> byte list" where
  "PutVarint64 dst v = dst @ EncodeVarint64 v"

text \<open>The length of a slice is converted to 32 bits by the call.\<close>

definition PutLengthPrefixedSlice :: "byte list \<Rightarrow> slice \<Rightarrow> byte list" where
  "PutLengthPrefixedSlice dst value = PutVarint32 dst (of_nat (length value)) @ value"

function VarintLength_loop :: "u64 \<Rightarrow> int \<Rightarrow> int" where
  "VarintLength_loop v len = (if v \<ge> 128 then VarintLength_loop (drop_bit 7 v) (len + 1) else len)"
  by pat_completeness auto
termination
proof (relation "measure (\<lambda>(v, len). unat v)", goal_cases)
  case (2 v len)
  then have "v \<noteq> 0" by auto
  then show ?case using drop_bit_7_less by simp
qed simp

declare VarintLength_loop.simps [simp del]

definition VarintLength :: "u64 \<Rightarrow> int" where
  "VarintLength v = VarintLength_loop v 1"

fun varint32_ptr_loop :: "u32 \<Rightarrow> u32 \<Rightarrow> byte list \<Rightarrow> (u32 \<times> byte list) option" where
  "varint32_ptr_loop shift result [] = None"
| "varint32_ptr_loop shift result (b # p) =
     (if shift \<le> 28
      then let byt = ucast b :: u32 in
        if byt AND 128 \<noteq> 0 then varint32_ptr_loop (shift + 7) (result OR push_bit (unat shift) (byt AND 127)) p
        else Some (result OR push_bit (unat shift) byt, p)
      else None)"

definition GetVarint32PtrFallback :: "byte list \<Rightarrow> (u32 \<times> byte list) option" where
  "GetVarint32PtrFallback p = varint32_ptr_loop 0 0 p"

definition GetVarint32Ptr :: "byte list \<Rightarrow> (u32 \<times> byte list) option" where
  "GetVarint32Ptr p =
     (case p of
        b # q \<Rightarrow> let result = ucast b :: u32 in
          if result AND 128 = 0 then Some (result, q) else GetVarint32PtrFallback p
      | [] \<Rightarrow> GetVarint32PtrFallback p)"

text \<open>The operations on a slice return whether they succeeded, with the value, and the slice as they
  leave it.\<close>

definition GetVarint32 :: "slice \<Rightarrow> u32 option \<times> slice" where
  "GetVarint32 input = (case GetVarint32Ptr input of None \<Rightarrow> (None, input) | Some (v, q) \<Rightarrow> (Some v, q))"

fun varint64_ptr_loop :: "u32 \<Rightarrow> u64 \<Rightarrow> byte list \<Rightarrow> (u64 \<times> byte list) option" where
  "varint64_ptr_loop shift result [] = None"
| "varint64_ptr_loop shift result (b # p) =
     (if shift \<le> 63
      then let byt = ucast b :: u64 in
        if byt AND 128 \<noteq> 0 then varint64_ptr_loop (shift + 7) (result OR push_bit (unat shift) (byt AND 127)) p
        else Some (result OR push_bit (unat shift) byt, p)
      else None)"

definition GetVarint64Ptr :: "byte list \<Rightarrow> (u64 \<times> byte list) option" where
  "GetVarint64Ptr p = varint64_ptr_loop 0 0 p"

definition GetVarint64 :: "slice \<Rightarrow> u64 option \<times> slice" where
  "GetVarint64 input = (case GetVarint64Ptr input of None \<Rightarrow> (None, input) | Some (v, q) \<Rightarrow> (Some v, q))"

text \<open>\<^verbatim>\<open>GetLengthPrefixedSlice(p, limit, result)\<close> and \<^verbatim>\<open>GetLengthPrefixedSlice(input, result)\<close>\<close>

definition GetLengthPrefixedSlicePtr :: "byte list \<Rightarrow> (slice \<times> byte list) option" where
  "GetLengthPrefixedSlicePtr p =
     (case GetVarint32Ptr p of
        None \<Rightarrow> None
      | Some (len, p) \<Rightarrow> if unat len > length p then None else Some (take (unat len) p, drop (unat len) p))"

definition GetLengthPrefixedSlice :: "slice \<Rightarrow> slice option \<times> slice" where
  "GetLengthPrefixedSlice input =
     (case GetVarint32 input of
        (None, input) \<Rightarrow> (None, input)
      | (Some len, input) \<Rightarrow>
          if length input \<ge> unat len then (Some (take (unat len) input), drop (unat len) input)
          else (None, input))"

section \<open>Comparison of slices\<close>

text \<open>The reference is the lexicographic order of the bytes.\<close>

fun bytes_less :: "byte list \<Rightarrow> byte list \<Rightarrow> bool" where
  "bytes_less [] [] \<longleftrightarrow> False"
| "bytes_less [] (y # ys) \<longleftrightarrow> True"
| "bytes_less (x # xs) [] \<longleftrightarrow> False"
| "bytes_less (x # xs) (y # ys) \<longleftrightarrow> x < y \<or> x = y \<and> bytes_less xs ys"

lemma slice_compare_Cons:
  "slice_compare (x # xs) (y # ys) = (if x < y then -1 else if y < x then 1 else slice_compare xs ys)"
  by (auto simp: slice_compare_def Let_def)

lemma slice_compare_Nil [simp]:
  "slice_compare [] [] = 0" "slice_compare [] (y # ys) = -1" "slice_compare (x # xs) [] = 1"
  by (simp_all add: slice_compare_def Let_def)

lemma bytes_less_irrefl: "\<not> bytes_less a a"
  by (induction a) auto

lemma bytes_less_trans: "bytes_less a b \<Longrightarrow> bytes_less b c \<Longrightarrow> bytes_less a c"
proof (induction a b arbitrary: c rule: bytes_less.induct)
  case (2 y ys)
  then show ?case by (cases c) auto
next
  case (4 x xs y ys)
  then show ?case by (cases c) auto
qed auto

lemma bytes_less_linear: "bytes_less a b \<or> a = b \<or> bytes_less b a"
  by (induction a b rule: bytes_less.induct) auto

lemma slice_compare_iff:
  "slice_compare a b < 0 \<longleftrightarrow> bytes_less a b" "slice_compare a b = 0 \<longleftrightarrow> a = b" "slice_compare a b > 0 \<longleftrightarrow> bytes_less b a"
proof -
  have "(slice_compare a b < 0 \<longleftrightarrow> bytes_less a b) \<and> (slice_compare a b = 0 \<longleftrightarrow> a = b)
      \<and> (slice_compare a b > 0 \<longleftrightarrow> bytes_less b a)"
  proof (induction a b rule: bytes_less.induct)
    case (4 x xs y ys)
    then show ?case by (cases x y rule: linorder_cases) (auto simp: slice_compare_Cons)
  qed auto
  then show "slice_compare a b < 0 \<longleftrightarrow> bytes_less a b" "slice_compare a b = 0 \<longleftrightarrow> a = b"
    "slice_compare a b > 0 \<longleftrightarrow> bytes_less b a" by blast+
qed

lemma memcmp_eq_0: "length x = length y \<Longrightarrow> memcmp x y = 0 \<longleftrightarrow> x = y"
  by (induction x y rule: memcmp.induct) auto

lemma slice_eq_iff: "slice_eq x y \<longleftrightarrow> x = y"
  by (auto simp: slice_eq_def memcmp_eq_0)

lemma starts_with_iff: "starts_with s x \<longleftrightarrow> (\<exists>r. s = x @ r)"
  by (auto simp: starts_with_def memcmp_eq_0) (metis append_take_drop_id)

section \<open>Round trips of numbers\<close>

lemma length_EncodeFixed [simp]: "length (EncodeFixed32 v) = 4" "length (EncodeFixed64 w) = 8"
  by (simp_all add: EncodeFixed32_def EncodeFixed64_def EncodeFixed32_for_def EncodeFixed64_for_def)

text \<open>Both branches of the code agree.\<close>

lemma EncodeFixed_endian:
  "EncodeFixed32_for False v = EncodeFixed32_for True v" "EncodeFixed64_for False w = EncodeFixed64_for True w"
  by (simp_all add: EncodeFixed32_for_def EncodeFixed64_for_def bytes_of_word_4 bytes_of_word_8)

lemma DecodeFixed32_endian:
  assumes "4 \<le> length p"
  shows "DecodeFixed32_for False p = DecodeFixed32_for True p"
proof -
  obtain a b c d r where "p = a # b # c # d # r"
    using assms by (auto simp: numeral_eq_Suc Suc_le_length_iff)
  then show ?thesis
    by (simp add: DecodeFixed32_for_def)
qed

lemma DecodeFixed32_Encode [simp]: "DecodeFixed32 (EncodeFixed32 v @ r) = v"
  by (simp add: DecodeFixed32_def DecodeFixed32_for_def EncodeFixed32_def EncodeFixed32_for_def kLittleEndian_def)

lemma DecodeFixed64_Encode [simp]: "DecodeFixed64 (EncodeFixed64 v @ r) = v"
  by (simp add: DecodeFixed64_def DecodeFixed64_for_def EncodeFixed64_def EncodeFixed64_for_def kLittleEndian_def)

lemma DecodeFixed_Encode' [simp]: "DecodeFixed32 (EncodeFixed32 v) = v" "DecodeFixed64 (EncodeFixed64 w) = w"
  using DecodeFixed32_Encode [of v "[]"] DecodeFixed64_Encode [of w "[]"] by simp_all

text \<open>The varint encoders produce the reference bytes.\<close>

lemma EncodeVarint64_bytes: "EncodeVarint64 v = varint_bytes v"
proof (induction v rule: EncodeVarint64.induct)
  case (1 v)
  have "(ucast ((v AND 127) OR 128) :: byte) = ucast (take_bit 7 v) OR 0x80"
    by (rule bit_word_eqI) (auto simp: bit_simps)
  moreover have "v \<ge> 128 \<longleftrightarrow> \<not> v < 128" by auto
  ultimately show ?case
    using 1 by (subst EncodeVarint64.simps, subst varint_bytes.simps) simp
qed

lemma unroll_varint:
  "varint_bytes v = (if v < 128 then [ucast v] else ucast (v OR 128) # varint_bytes (drop_bit 7 v))"
proof -
  have "(ucast (v OR 128) :: byte) = ucast (take_bit 7 v) OR 0x80"
    by (rule bit_word_eqI) (auto simp: bit_simps)
  then show ?thesis by (subst varint_bytes.simps) simp
qed

lemma drop_less_iff: "(ucast (drop_bit k (v :: u32)) :: u64) < 128 \<longleftrightarrow> unat v < 2 ^ (7 + k)"
proof -
  have "(ucast (drop_bit k v) :: u64) < 128 \<longleftrightarrow> unat v div 2 ^ k < 128"
    by (simp add: word_less_nat_alt unat_drop_bit)
  then show ?thesis
    by (simp add: div_less_iff_less_mult power_add)
qed

lemma EncodeVarint32_bytes: "EncodeVarint32 v = varint_bytes (ucast v)"
proof -
  have d: "drop_bit k (ucast v :: u64) = ucast (drop_bit k v)" for k
    by (rule bit_word_eqI) (auto simp: bit_simps dest: bit_imp_le_length)
  have o: "(ucast (ucast (drop_bit k v) OR 128 :: u64) :: byte) = ucast (drop_bit k v OR 128)"
    "(ucast (ucast (drop_bit k v) :: u64) :: byte) = ucast (drop_bit k v)" for k
    by (rule bit_word_eqI; auto simp: bit_simps)+
  have v0: "ucast v = (ucast (drop_bit 0 v) :: u64)" by simp
  have d2: "drop_bit 7 (ucast (drop_bit k v) :: u64) = ucast (drop_bit (7 + k) v)" for k
    unfolding d [symmetric] by simp
  have step: "varint_bytes (ucast (drop_bit k v)) = (if unat v < 2 ^ (7 + k) then [ucast (drop_bit k v)]
      else ucast (drop_bit k v OR 128) # varint_bytes (ucast (drop_bit (7 + k) v)))" for k
    using d2 by (subst unroll_varint) (simp add: drop_less_iff o)
  have "unat v < 2 ^ 35" using unat_less_32 [of v] by simp
  then show ?thesis
    unfolding v0 EncodeVarint32_def
    using step [of 0] step [of 7] step [of 14] step [of 21] step [of 28]
    by (simp add: word_less_nat_alt)
qed

text \<open>The decoders take the reference bytes back.\<close>

lemma ucast_byte_eq_0: "(ucast (x :: byte) :: 'a::len word) = 0 \<longleftrightarrow> x = 0" if "8 \<le> LENGTH('a)"
proof
  assume "(ucast x :: 'a word) = 0"
  then have "unat (ucast x :: 'a word) = 0" by simp
  then show "x = 0" using that by (simp add: unat_eq_0)
qed simp

lemma ucast_and_128: "(ucast (b :: byte) :: 'a::len word) AND 128 = 0 \<longleftrightarrow> b AND 0x80 = 0" if "8 \<le> LENGTH('a)"
proof -
  have "ucast b AND (128 :: 'a word) = ucast (b AND 0x80)"
    using that by (intro bit_word_eqI) (auto simp: bit_simps)
  then show ?thesis using ucast_byte_eq_0 [OF that] by simp
qed

lemma ucast_and_127: "(ucast (b :: byte) :: 'a::len word) AND 127 = ucast (b AND 0x7F)" if "8 \<le> LENGTH('a)"
  using that by (intro bit_word_eqI) (auto simp: bit_simps)

lemma ucast_last: "(v :: u64) < 128 \<Longrightarrow> (ucast (ucast v :: byte) :: 'a::len word) = ucast v"
proof -
  assume "v < 128"
  then have v: "v = take_bit 7 v" by (simp add: take_bit_7_small)
  have "(ucast (ucast (take_bit 7 v) :: byte) :: 'a word) = ucast (take_bit 7 v)"
    by (rule bit_word_eqI) (auto simp: bit_simps)
  with v show ?thesis by simp
qed

lemma last_and_128: "(v :: u64) < 128 \<Longrightarrow> 8 \<le> LENGTH('a) \<Longrightarrow> (ucast v :: 'a::len word) AND 128 = 0"
  using ucast_and_128 [of "ucast v", where ?'a = 'a] ucast_last [of v, where ?'a = 'a] varint_last(1) [of v] by simp

lemma varint_bytes_shift: "unat (s :: u32) + 7 * length (varint_bytes v) \<le> k + 7 \<Longrightarrow> unat s \<le> k"
  using varint_bytes_nonempty [of v] by (cases "varint_bytes v") auto

lemma varint32_ptr_loop_bytes:
  "unat shift + 7 * length (varint_bytes v) \<le> 35 \<Longrightarrow>
   varint32_ptr_loop shift r (varint_bytes v @ rest) = Some (r OR push_bit (unat shift) (ucast v), rest)"
proof (induction v arbitrary: shift r rule: varint_bytes.induct)
  case (1 v)
  have le: "shift \<le> 28"
    using varint_bytes_shift [of shift v 28] 1(2) by (simp add: word_le_nat_alt)
  show ?case
  proof (cases rule: varint_bytes_cases [of v])
    case last
    with le show ?thesis
      using last_and_128 [OF last(1), where ?'a = 32] by (simp add: ucast_last Let_def)
  next
    case more
    have sh: "unat (shift + 7) = unat shift + 7" using le by (simp add: unat_word_ariths word_le_nat_alt)
    from more have "unat (shift + 7) + 7 * length (varint_bytes (drop_bit 7 v)) \<le> 35"
      using 1(2) sh by simp
    from 1(1) [OF more(1) this] le more show ?thesis
      by (simp add: ucast_and_128 ucast_and_127 varint_more sh or.assoc push_split_ucast del: and_7F)
  qed
qed

lemma varint64_ptr_loop_bytes:
  "unat shift + 7 * length (varint_bytes v) \<le> 70 \<Longrightarrow>
   varint64_ptr_loop shift r (varint_bytes v @ rest) = Some (r OR push_bit (unat shift) v, rest)"
proof (induction v arbitrary: shift r rule: varint_bytes.induct)
  case (1 v)
  have le: "shift \<le> 63"
    using varint_bytes_shift [of shift v 63] 1(2) by (simp add: word_le_nat_alt)
  show ?case
  proof (cases rule: varint_bytes_cases [of v])
    case last
    with le show ?thesis
      using last_and_128 [OF last(1), where ?'a = 64] by (simp add: ucast_last Let_def)
  next
    case more
    have sh: "unat (shift + 7) = unat shift + 7" using le by (simp add: unat_word_ariths word_le_nat_alt)
    from more have "unat (shift + 7) + 7 * length (varint_bytes (drop_bit 7 v)) \<le> 70"
      using 1(2) sh by simp
    from 1(1) [OF more(1) this] le more show ?thesis
      by (simp add: ucast_and_128 ucast_and_127 varint_more sh or.assoc push_split del: and_7F)
  qed
qed

lemma GetVarint32Ptr_bytes: "GetVarint32Ptr (varint_bytes (ucast v) @ rest) = Some (v, rest)"
proof -
  have fb: "GetVarint32PtrFallback (varint_bytes (ucast v) @ rest) = Some (v, rest)"
    using varint32_ptr_loop_bytes [of 0 "ucast v" 0 rest] length_varint_bytes_32 [of v]
    by (simp add: GetVarint32PtrFallback_def ucast_ucast_32)
  show ?thesis
  proof (cases rule: varint_bytes_cases [of "ucast v"])
    case last
    then show ?thesis
      using ucast_last [OF last(1), where ?'a = 32] last_and_128 [OF last(1), where ?'a = 32]
      by (simp add: GetVarint32Ptr_def ucast_ucast_32)
  next
    case more
    then show ?thesis
      using fb by (simp add: GetVarint32Ptr_def ucast_and_128 varint_more(1))
  qed
qed

lemma GetVarint64Ptr_bytes: "GetVarint64Ptr (varint_bytes v @ rest) = Some (v, rest)"
  using varint64_ptr_loop_bytes [of 0 v 0 rest] length_varint_bytes [of v] by (simp add: GetVarint64Ptr_def)

lemma VarintLength_loop_bytes: "VarintLength_loop v len = len + int (length (varint_bytes v)) - 1"
proof (induction v len rule: VarintLength_loop.induct)
  case (1 v len)
  show ?case
  proof (cases "v \<ge> 128")
    case True
    with 1 show ?thesis by (subst VarintLength_loop.simps, subst varint_bytes.simps) auto
  next
    case False
    then show ?thesis by (subst VarintLength_loop.simps, subst varint_bytes.simps) auto
  qed
qed

text \<open>A decoder consumes a prefix of its input.\<close>

lemma varint32_ptr_loop_suffix:
  "varint32_ptr_loop shift r p = Some (v, q) \<Longrightarrow> \<exists>bs. bs \<noteq> [] \<and> p = bs @ q"
proof (induction shift r p rule: varint32_ptr_loop.induct)
  case (2 shift r b p)
  show ?case
  proof (cases "(ucast b :: u32) AND 128 \<noteq> 0")
    case True
    with 2 have "\<exists>bs. bs \<noteq> [] \<and> p = bs @ q" by (auto simp: Let_def split: if_splits)
    then show ?thesis by (metis append_Cons list.distinct(1))
  next
    case False
    with 2(2) show ?thesis by (intro exI [of _ "[b]"]) (auto simp: Let_def split: if_splits)
  qed
qed simp

lemma GetVarint32Ptr_suffix: "GetVarint32Ptr p = Some (v, q) \<Longrightarrow> \<exists>bs. bs \<noteq> [] \<and> p = bs @ q"
  using varint32_ptr_loop_suffix [of 0 0 p v q]
  by (auto simp: GetVarint32Ptr_def GetVarint32PtrFallback_def Let_def split: list.splits if_splits)

lemma GetVarint32Ptr_shorter: "GetVarint32Ptr p = Some (v, q) \<Longrightarrow> length q < length p"
  by (drule GetVarint32Ptr_suffix) auto

lemma GetLengthPrefixedSlice_shorter:
  "GetLengthPrefixedSlice input = (Some key, rest) \<Longrightarrow> length rest < length input"
  by (auto simp: GetLengthPrefixedSlice_def GetVarint32_def split: option.splits if_splits dest!: GetVarint32Ptr_shorter)

text \<open>What a decoder accepts does not depend on the bytes behind it.\<close>

lemma varint32_ptr_loop_append:
  "varint32_ptr_loop shift r p = Some (v, q) \<Longrightarrow> varint32_ptr_loop shift r (p @ rest) = Some (v, q @ rest)"
  by (induction shift r p rule: varint32_ptr_loop.induct) (auto simp: Let_def split: if_splits)

lemma GetVarint32Ptr_append: "GetVarint32Ptr p = Some (v, q) \<Longrightarrow> GetVarint32Ptr (p @ rest) = Some (v, q @ rest)"
  using varint32_ptr_loop_append [of 0 0 p v q rest]
  by (auto simp: GetVarint32Ptr_def GetVarint32PtrFallback_def Let_def split: list.splits if_splits)

lemma GetLengthPrefixedSlice_append:
  "GetLengthPrefixedSlice p = (Some s, q) \<Longrightarrow> GetLengthPrefixedSlice (p @ rest) = (Some s, q @ rest)"
  by (auto simp: GetLengthPrefixedSlice_def GetVarint32_def split: option.splits if_splits prod.splits
      dest!: GetVarint32Ptr_append [of p _ _ rest])

section \<open>Round trips of slices\<close>

lemma GetLengthPrefixed_bytes:
  assumes "length s < 2 ^ 32"
  shows "GetLengthPrefixedSlice (EncodeVarint32 (of_nat (length s)) @ s @ rest) = (Some s, rest)"
    "GetLengthPrefixedSlicePtr (EncodeVarint32 (of_nat (length s)) @ s @ rest) = Some (s, rest)"
proof -
  have "unat (of_nat (length s) :: u32) = length s"
    using assms by (intro unat_of_nat_small) simp
  then show "GetLengthPrefixedSlice (EncodeVarint32 (of_nat (length s)) @ s @ rest) = (Some s, rest)"
    "GetLengthPrefixedSlicePtr (EncodeVarint32 (of_nat (length s)) @ s @ rest) = Some (s, rest)"
    by (simp_all add: GetLengthPrefixedSlice_def GetLengthPrefixedSlicePtr_def GetVarint32_def EncodeVarint32_bytes
        GetVarint32Ptr_bytes)
qed

lemma GetVarint_Encode [simp]:
  "GetVarint32 (EncodeVarint32 v @ rest) = (Some v, rest)" "GetVarint64 (EncodeVarint64 w @ rest) = (Some w, rest)"
  by (simp_all add: GetVarint32_def GetVarint64_def EncodeVarint32_bytes EncodeVarint64_bytes GetVarint32Ptr_bytes
      GetVarint64Ptr_bytes)

lemma varint64_ptr_loop_shorter: "varint64_ptr_loop shift r p = Some (v, q) \<Longrightarrow> length q < length p"
  by (induction shift r p rule: varint64_ptr_loop.induct) (fastforce simp: Let_def split: if_splits)+

lemma Get_shorter:
  "GetVarint32 input = (Some v, rest) \<Longrightarrow> length rest < length input"
  "GetVarint64 input = (Some w, rest) \<Longrightarrow> length rest < length input"
  by (auto simp: GetVarint32_def GetVarint64_def GetVarint64Ptr_def split: option.splits
      dest: GetVarint32Ptr_shorter varint64_ptr_loop_shorter)

section \<open>Arrays of numbers\<close>

lemma length_concat_encoded: "length (concat (map EncodeFixed32 xs)) = 4 * length xs"
  by (induction xs) simp_all

lemma drop_encoded: "i \<le> length xs \<Longrightarrow> drop (4 * i) (concat (map EncodeFixed32 xs)) = concat (map EncodeFixed32 (drop i xs))"
proof (induction xs arbitrary: i)
  case (Cons x xs)
  then show ?case by (cases i) simp_all
qed simp

section \<open>Properties\<close>

text \<open>C33: a number appended as a varint and read from the front of a slice comes back, with the slice
  advanced past it, whatever follows.\<close>

theorem varint_roundtrip:
  "GetVarint32 (PutVarint32 [] v @ rest) = (Some v, rest)
   \<and> GetVarint64 (PutVarint64 [] w @ rest) = (Some w, rest)"
  by (simp add: GetVarint32_def GetVarint64_def PutVarint32_def PutVarint64_def EncodeVarint32_bytes
      EncodeVarint64_bytes GetVarint32Ptr_bytes GetVarint64Ptr_bytes)

text \<open>The unrolled 32-bit encoder writes the bytes of the loop for 64 bits, at most 5 of them (the
  size of the buffer of \<^verbatim>\<open>PutVarint32\<close>), the loop writes at most 10, and \<^verbatim>\<open>VarintLength\<close> is the
  number of bytes written.\<close>

theorem varint_encoders_agree:
  "EncodeVarint32 v = EncodeVarint64 (ucast v) \<and> length (EncodeVarint32 v) \<le> 5
   \<and> length (EncodeVarint64 w) \<le> 10 \<and> VarintLength w = int (length (EncodeVarint64 w))"
  by (simp add: EncodeVarint32_bytes EncodeVarint64_bytes length_varint_bytes length_varint_bytes_32 VarintLength_def
      VarintLength_loop_bytes)

text \<open>strings of up to 4 GB appended with their length are read back one by one.\<close>

theorem length_prefixed_roundtrip:
  assumes "length s < 2 ^ 32"
  shows "GetLengthPrefixedSlice (PutLengthPrefixedSlice [] s @ rest) = (Some s, rest)
    \<and> GetLengthPrefixedSlicePtr (PutLengthPrefixedSlice [] s @ rest) = Some (s, rest)"
  using GetLengthPrefixed_bytes [OF assms] by (simp add: PutLengthPrefixedSlice_def PutVarint32_def)

theorem length_prefixed_roundtrip_witness:
  "GetLengthPrefixedSlice (PutLengthPrefixedSlice [] [0x61, 0x62] @ [7]) = (Some [0x61, 0x62], [7])"
  using length_prefixed_roundtrip [of "[0x61, 0x62]" "[7]"] by simp

end
