(* ===== verification/Ldb_Comparator.thy ===== *)
theory Ldb_Comparator
  imports Ldb_Coding
begin

text \<open>
  Comparators: the interface of \<^verbatim>\<open>include/leveldb/comparator.h\<close> as a record of its methods and a
  locale of its laws, and the byte-wise comparator of \<^verbatim>\<open>util/comparator.cc\<close>.
\<close>

section \<open>The interface\<close>

record comparator =
  cmp_name :: string
  cmp_compare :: "slice \<Rightarrow> slice \<Rightarrow> int"
  cmp_separator :: "slice \<Rightarrow> slice \<Rightarrow> slice"
  cmp_successor :: "slice \<Rightarrow> slice"

text \<open>A three-way comparison that is a total order up to equivalence on the keys it is used for.\<close>

locale cmp_order =
  fixes compare :: "'k \<Rightarrow> 'k \<Rightarrow> int" and keys :: "'k set"
  assumes compare_sym: "a \<in> keys \<Longrightarrow> b \<in> keys \<Longrightarrow> compare a b < 0 \<longleftrightarrow> compare b a > 0"
    and compare_trans: "a \<in> keys \<Longrightarrow> b \<in> keys \<Longrightarrow> c \<in> keys \<Longrightarrow>
      compare a b \<le> 0 \<Longrightarrow> compare b c \<le> 0 \<Longrightarrow> compare a c \<le> 0"
    and compare_refl: "a \<in> keys \<Longrightarrow> compare a a = 0"
begin

lemma compare_cases:
  assumes "a \<in> keys" "b \<in> keys"
  obtains (less) "compare a b < 0" "compare b a > 0"
  | (equal) "compare a b = 0" "compare b a = 0"
  | (greater) "compare a b > 0" "compare b a < 0"
  using compare_sym [OF assms] compare_sym [OF assms(2,1)] by (cases "compare a b" "0 :: int" rule: linorder_cases) auto

lemma compare_le_iff: "a \<in> keys \<Longrightarrow> b \<in> keys \<Longrightarrow> compare a b \<le> 0 \<longleftrightarrow> \<not> compare b a < 0"
  using compare_sym [of b a] by auto

lemma less_le_trans:
  assumes "a \<in> keys" "b \<in> keys" "c \<in> keys" "compare a b < 0" "compare b c \<le> 0"
  shows "compare a c < 0"
proof (rule ccontr)
  assume "\<not> compare a c < 0"
  then have "compare c a \<le> 0" using assms compare_le_iff [of c a] by simp
  with assms(5) have "compare b a \<le> 0" using compare_trans [of b c a] assms(1-3) by simp
  with assms compare_le_iff [of b a] show False by simp
qed

lemma le_less_trans:
  assumes "a \<in> keys" "b \<in> keys" "c \<in> keys" "compare a b \<le> 0" "compare b c < 0"
  shows "compare a c < 0"
proof (rule ccontr)
  assume "\<not> compare a c < 0"
  then have "compare c a \<le> 0" using assms compare_le_iff [of c a] by simp
  with assms(4) have "compare c b \<le> 0" using compare_trans [of c a b] assms(1-3) by simp
  with assms compare_le_iff [of c b] show False by simp
qed

end

text \<open>The contract of a comparator: such an order, separators between a key and a larger one,
  successors.\<close>

locale key_order = cmp_order "cmp_compare cmp" keys for cmp :: comparator and keys :: "slice set" +
  assumes separator_in: "start \<in> keys \<Longrightarrow> limit \<in> keys \<Longrightarrow> cmp_separator cmp start limit \<in> keys"
    and separator_between: "start \<in> keys \<Longrightarrow> limit \<in> keys \<Longrightarrow> cmp_compare cmp start limit < 0 \<Longrightarrow>
      cmp_compare cmp start (cmp_separator cmp start limit) \<le> 0 \<and> cmp_compare cmp (cmp_separator cmp start limit) limit < 0"
    and separator_same: "start \<in> keys \<Longrightarrow> limit \<in> keys \<Longrightarrow> \<not> cmp_compare cmp start limit < 0 \<Longrightarrow>
      cmp_separator cmp start limit = start"
    and successor_in: "key \<in> keys \<Longrightarrow> cmp_successor cmp key \<in> keys"
    and successor_above: "key \<in> keys \<Longrightarrow> cmp_compare cmp key (cmp_successor cmp key) \<le> 0"

section \<open>The byte-wise comparator\<close>

fun diff_index :: "byte list \<Rightarrow> byte list \<Rightarrow> nat" where
  "diff_index (x # xs) (y # ys) = (if x = y then Suc (diff_index xs ys) else 0)"
| "diff_index _ _ = 0"

definition BytewiseCompare :: "slice \<Rightarrow> slice \<Rightarrow> int" where
  "BytewiseCompare a b = slice_compare a b"

definition BytewiseFindShortestSeparator :: "slice \<Rightarrow> slice \<Rightarrow> slice" where
  "BytewiseFindShortestSeparator start limit =
     (let min_length = min (length start) (length limit); diff_index = diff_index start limit in
      if diff_index \<ge> min_length then start
      else let diff_byte = start ! diff_index in
        if diff_byte < 0xFF \<and> unat diff_byte + 1 < unat (limit ! diff_index)
        then take (diff_index + 1) (start[diff_index := start ! diff_index + 1])
        else start)"

fun short_successor_loop :: "slice \<Rightarrow> nat \<Rightarrow> nat \<Rightarrow> slice" where
  "short_successor_loop key i 0 = key"
| "short_successor_loop key i (Suc n) =
     (if key ! i \<noteq> 0xFF then take (i + 1) (key[i := key ! i + 1]) else short_successor_loop key (i + 1) n)"

definition BytewiseFindShortSuccessor :: "slice \<Rightarrow> slice" where
  "BytewiseFindShortSuccessor key = short_successor_loop key 0 (length key)"

definition BytewiseComparator :: comparator where
  "BytewiseComparator = \<lparr>cmp_name = ''leveldb.BytewiseComparator'', cmp_compare = BytewiseCompare,
     cmp_separator = BytewiseFindShortestSeparator, cmp_successor = BytewiseFindShortSuccessor\<rparr>"

lemma byte_incr: "(b :: byte) \<noteq> 0xFF \<Longrightarrow> unat (b + 1) = unat b + 1"
proof -
  assume "b \<noteq> 0xFF"
  then have "unat b \<noteq> unat (0xFF :: byte)" by (metis unsigned_word_eqI)
  then show ?thesis using unsigned_less [of b, where ?'a = nat] by (simp add: unat_word_ariths)
qed

lemma separator_simps [simp]:
  "BytewiseFindShortestSeparator [] limit = []" "BytewiseFindShortestSeparator start [] = start"
  "BytewiseFindShortestSeparator (x # xs) (y # ys) =
     (if x = y then x # BytewiseFindShortestSeparator xs ys
      else if x < 0xFF \<and> unat x + 1 < unat y then [x + 1] else x # xs)"
  by (auto simp: BytewiseFindShortestSeparator_def Let_def)

lemma separator_between_bytes:
  "bytes_less start limit \<Longrightarrow> \<not> bytes_less (BytewiseFindShortestSeparator start limit) start
     \<and> bytes_less (BytewiseFindShortestSeparator start limit) limit"
proof (induction start limit rule: bytes_less.induct)
  case (4 x xs y ys)
  show ?case
  proof (cases "x = y")
    case True
    with 4 show ?thesis by simp
  next
    case False
    with 4 have "x < y" by auto
    show ?thesis
    proof (cases "x < 0xFF \<and> unat x + 1 < unat y")
      case True
      then have "unat (x + 1) = unat x + 1" by (intro byte_incr) auto
      with True False show ?thesis by (auto simp: word_less_nat_alt)
    next
      case no: False
      with False \<open>x < y\<close> show ?thesis by (auto simp: bytes_less_irrefl)
    qed
  qed
qed auto

lemma separator_same_bytes: "\<not> bytes_less start limit \<Longrightarrow> BytewiseFindShortestSeparator start limit = start"
  by (induction start limit rule: bytes_less.induct) (auto simp: word_less_nat_alt)

lemma short_successor_above:
  "i + n = length key \<Longrightarrow> \<not> bytes_less (short_successor_loop key i n) key"
proof (induction n arbitrary: i)
  case 0
  then show ?case by (simp add: bytes_less_irrefl)
next
  case (Suc n)
  show ?case
  proof (cases "key ! i = 0xFF")
    case True
    with Suc show ?thesis by simp
  next
    case False
    have i: "i < length key" using Suc.prems by simp
    then have "take (i + 1) (key[i := key ! i + 1]) = take i key @ [key ! i + 1]"
      by (simp add: take_Suc_conv_app_nth)
    moreover have "key = take i key @ key ! i # drop (Suc i) key"
      using i by (simp add: id_take_nth_drop [symmetric])
    moreover have "\<not> bytes_less (p @ b # q) (p @ c # r)" if "c < b" for p q r and b c :: byte
      using that by (induction p) auto
    moreover have "key ! i < key ! i + 1" using byte_incr [OF False] by (simp add: word_less_nat_alt)
    ultimately have "\<not> bytes_less (take (i + 1) (key[i := key ! i + 1])) key" by metis
    with False show ?thesis by simp
  qed
qed

lemma bytewise_simps [simp]:
  "cmp_compare BytewiseComparator = slice_compare" "cmp_separator BytewiseComparator = BytewiseFindShortestSeparator"
  "cmp_successor BytewiseComparator = BytewiseFindShortSuccessor"
  by (simp_all add: BytewiseComparator_def BytewiseCompare_def fun_eq_iff)

lemma slice_compare_le: "slice_compare a b \<le> 0 \<longleftrightarrow> \<not> bytes_less b a"
  using slice_compare_iff [of a b] by auto

interpretation bytewise: key_order BytewiseComparator UNIV
proof
  fix a b c :: slice
  show "cmp_compare BytewiseComparator a b < 0 \<longleftrightarrow> cmp_compare BytewiseComparator b a > 0"
    by (simp add: slice_compare_iff)
  show "cmp_compare BytewiseComparator a c \<le> 0"
    if "cmp_compare BytewiseComparator a b \<le> 0" "cmp_compare BytewiseComparator b c \<le> 0"
    using that bytes_less_trans [of c a b] bytes_less_linear [of a b] bytes_less_linear [of b c]
    by (auto simp: slice_compare_le)
qed (simp_all add: slice_compare_iff slice_compare_le separator_between_bytes separator_same_bytes
    BytewiseFindShortSuccessor_def short_successor_above)

end
