(* ===== verification/Ldb_Dbformat.thy ===== *)
theory Ldb_Dbformat
  imports Ldb_Comparator
begin

text \<open>
  Internal keys: a user key with a sequence number and a type packed into 64 bits behind it, from
  \<^verbatim>\<open>db/dbformat.h\<close> and \<^verbatim>\<open>db/dbformat.cc\<close>. The comparator of internal keys is built from a
  comparator of user keys; that it keeps the contract of a comparator is a sublocale.
\<close>

section \<open>Data\<close>

text \<open>A \<^verbatim>\<open>ValueType\<close> is read from a byte of stored data, so it may hold other values than the two of
  the enum.\<close>

type_synonym ValueType = byte

definition kTypeDeletion :: ValueType where "kTypeDeletion = 0"
definition kTypeValue :: ValueType where "kTypeValue = 1"
definition kValueTypeForSeek :: ValueType where "kValueTypeForSeek = kTypeValue"

type_synonym SequenceNumber = u64

definition kMaxSequenceNumber :: SequenceNumber where
  "kMaxSequenceNumber = push_bit 56 1 - 1"

record ParsedInternalKey =
  user_key :: slice
  sequence :: SequenceNumber
  vtype :: ValueType

definition InternalKeyEncodingLength :: "ParsedInternalKey \<Rightarrow> nat" where
  "InternalKeyEncodingLength key = length (user_key key) + 8"

section \<open>Operations\<close>

definition PackSequenceAndType :: "u64 \<Rightarrow> ValueType \<Rightarrow> u64" where
  "PackSequenceAndType seq t = push_bit 8 seq OR ucast t"

definition AppendInternalKey :: "byte list \<Rightarrow> ParsedInternalKey \<Rightarrow> byte list" where
  "AppendInternalKey result key =
     PutFixed64 (result @ user_key key) (PackSequenceAndType (sequence key) (vtype key))"

definition ExtractUserKey :: "slice \<Rightarrow> slice" where
  "ExtractUserKey internal_key = take (length internal_key - 8) internal_key"

definition ExtractValueType :: "slice \<Rightarrow> ValueType" where
  "ExtractValueType internal_key =
     (let num = DecodeFixed64 (drop (length internal_key - 8) internal_key) in ucast (num AND 0xFF))"

definition ParseInternalKey :: "slice \<Rightarrow> ParsedInternalKey option" where
  "ParseInternalKey internal_key =
     (let n = length internal_key in
      if n < 8 then None
      else let num = DecodeFixed64 (drop (n - 8) internal_key); c = ucast (num AND 0xFF) :: byte in
        if c \<le> kTypeValue
        then Some \<lparr>user_key = take (n - 8) internal_key, sequence = drop_bit 8 num, vtype = c\<rparr>
        else None)"

definition InternalKeyCompare :: "comparator \<Rightarrow> slice \<Rightarrow> slice \<Rightarrow> int" where
  "InternalKeyCompare user_comparator akey bkey =
     (let r = cmp_compare user_comparator (ExtractUserKey akey) (ExtractUserKey bkey) in
      if r = 0
      then let anum = DecodeFixed64 (drop (length akey - 8) akey); bnum = DecodeFixed64 (drop (length bkey - 8) bkey) in
        if anum > bnum then -1 else if anum < bnum then 1 else r
      else r)"

definition InternalFindShortestSeparator :: "comparator \<Rightarrow> slice \<Rightarrow> slice \<Rightarrow> slice" where
  "InternalFindShortestSeparator user_comparator start limit =
     (let user_start = ExtractUserKey start; user_limit = ExtractUserKey limit;
          tmp = cmp_separator user_comparator user_start user_limit
      in if length tmp < length user_start \<and> cmp_compare user_comparator user_start tmp < 0
         then PutFixed64 tmp (PackSequenceAndType kMaxSequenceNumber kValueTypeForSeek)
         else start)"

definition InternalFindShortSuccessor :: "comparator \<Rightarrow> slice \<Rightarrow> slice" where
  "InternalFindShortSuccessor user_comparator key =
     (let ukey = ExtractUserKey key; tmp = cmp_successor user_comparator ukey in
      if length tmp < length ukey \<and> cmp_compare user_comparator ukey tmp < 0
      then PutFixed64 tmp (PackSequenceAndType kMaxSequenceNumber kValueTypeForSeek)
      else key)"

definition InternalKeyComparator :: "comparator \<Rightarrow> comparator" where
  "InternalKeyComparator user_comparator =
     \<lparr>cmp_name = ''leveldb.InternalKeyComparator'', cmp_compare = InternalKeyCompare user_comparator,
      cmp_separator = InternalFindShortestSeparator user_comparator,
      cmp_successor = InternalFindShortSuccessor user_comparator\<rparr>"

text \<open>A lookup key is one array; the keys it hands out are parts of it. The length of the user key is
  converted to 32 bits.\<close>

record LookupKey =
  lk_array :: "byte list"
  lk_kstart :: nat

definition LookupKey_new :: "slice \<Rightarrow> SequenceNumber \<Rightarrow> LookupKey" where
  "LookupKey_new ukey s =
     (let usize = length ukey; prefix = EncodeVarint32 (of_nat (usize + 8)) in
      \<lparr>lk_array = prefix @ ukey @ EncodeFixed64 (PackSequenceAndType s kValueTypeForSeek), lk_kstart = length prefix\<rparr>)"

definition lk_memtable_key :: "LookupKey \<Rightarrow> slice" where
  "lk_memtable_key k = lk_array k"

definition lk_internal_key :: "LookupKey \<Rightarrow> slice" where
  "lk_internal_key k = drop (lk_kstart k) (lk_array k)"

definition lk_user_key :: "LookupKey \<Rightarrow> slice" where
  "lk_user_key k = take (length (lk_array k) - lk_kstart k - 8) (drop (lk_kstart k) (lk_array k))"

section \<open>Packing\<close>

lemma unat_ucast_byte: "unat (ucast (x :: u64) :: byte) = unat x mod 256"
  by (simp only: unsigned_ucast_eq take_bit_eq_mod) simp

lemma pack_fields:
  assumes "seq \<le> kMaxSequenceNumber"
  shows "drop_bit 8 (PackSequenceAndType seq t) = seq" "(ucast (PackSequenceAndType seq t) :: byte) = t"
proof -
  have "unat kMaxSequenceNumber < 2 ^ 56" by (simp add: kMaxSequenceNumber_def push_bit_eq_mult)
  then have lt: "unat seq < 2 ^ 56" using assms by (simp add: word_le_nat_alt)
  have top: "\<not> bit seq n" if "56 \<le> n" for n
  proof
    assume "bit seq n"
    then have "bit (unat seq) n" by (simp add: bit_unsigned_iff)
    moreover have "unat seq < 2 ^ n" using lt that by (meson order_less_le_trans one_le_numeral power_increasing)
    ultimately show False by (simp add: bit_iff_odd)
  qed
  show "drop_bit 8 (PackSequenceAndType seq t) = seq"
    unfolding PackSequenceAndType_def
    by (rule bit_word_eqI) (use top not_le_imp_less in \<open>auto simp: bit_simps dest: bit_imp_le_length\<close>)
  show "(ucast (PackSequenceAndType seq t) :: byte) = t"
    unfolding PackSequenceAndType_def by (rule bit_word_eqI) (auto simp: bit_simps)
qed

lemma unat_pack:
  assumes "seq \<le> kMaxSequenceNumber"
  shows "unat (PackSequenceAndType seq t) = 256 * unat seq + unat t"
proof -
  let ?p = "PackSequenceAndType seq t"
  have "unat ?p = 256 * (unat ?p div 256) + unat ?p mod 256" by simp
  moreover have "unat ?p div 256 = unat seq"
    using arg_cong [OF pack_fields(1) [OF assms, of t], of unat] by (simp add: unat_drop_bit)
  moreover have "unat ?p mod 256 = unat t"
    using arg_cong [OF pack_fields(2) [OF assms, of t], of unat] by (simp add: unat_ucast_byte)
  ultimately show ?thesis by metis
qed

section \<open>Encoding and parsing\<close>

definition encode_internal :: "ParsedInternalKey \<Rightarrow> slice" where
  "encode_internal key = AppendInternalKey [] key"

lemma encode_internal_parts:
  "length (encode_internal key) = length (user_key key) + 8" "ExtractUserKey (encode_internal key) = user_key key"
  "drop (length (encode_internal key) - 8) (encode_internal key)
     = EncodeFixed64 (PackSequenceAndType (sequence key) (vtype key))"
  by (simp_all add: encode_internal_def AppendInternalKey_def PutFixed64_def ExtractUserKey_def)

definition valid_key :: "ParsedInternalKey \<Rightarrow> bool" where
  "valid_key key \<longleftrightarrow> sequence key \<le> kMaxSequenceNumber \<and> vtype key \<le> kTypeValue"

lemma type_cases: "t \<le> kTypeValue \<longleftrightarrow> t = kTypeValue \<or> t = kTypeDeletion"
proof
  assume "t \<le> kTypeValue"
  then have "unat t = 0 \<or> unat t = 1" by (auto simp: kTypeValue_def word_le_nat_alt)
  moreover have "t = of_nat (unat t)" by simp
  ultimately have "t = of_nat 0 \<or> t = of_nat 1" by metis
  then show "t = kTypeValue \<or> t = kTypeDeletion"
    by (auto simp: kTypeValue_def kTypeDeletion_def)
qed (auto simp: kTypeValue_def kTypeDeletion_def)

lemma Parse_encode:
  assumes "valid_key key"
  shows "ParseInternalKey (encode_internal key) = Some key"
  using assms encode_internal_parts [of key]
  by (simp add: ParseInternalKey_def Let_def valid_key_def pack_fields ExtractUserKey_def)

lemma Parse_None_iff:
  "ParseInternalKey k = None \<longleftrightarrow> length k < 8 \<or> ExtractValueType k > kTypeValue"
  by (auto simp: ParseInternalKey_def ExtractValueType_def Let_def not_le)

section \<open>The order of internal keys\<close>

abbreviation internal_keys :: "slice set" where
  "internal_keys \<equiv> {k. 8 \<le> length k}"

abbreviation (input) key_tag :: "slice \<Rightarrow> u64" where
  "key_tag k \<equiv> DecodeFixed64 (drop (length k - 8) k)"

lemma InternalKeyComparator_simps [simp]:
  "cmp_compare (InternalKeyComparator u) = InternalKeyCompare u"
  "cmp_separator (InternalKeyComparator u) = InternalFindShortestSeparator u"
  "cmp_successor (InternalKeyComparator u) = InternalFindShortSuccessor u"
  by (simp_all add: InternalKeyComparator_def)

lemma PutFixed64_parts:
  "ExtractUserKey (PutFixed64 k v) = k" "key_tag (PutFixed64 k v) = v" "8 \<le> length (PutFixed64 k v)"
  by (simp_all add: PutFixed64_def ExtractUserKey_def)

locale internal_order = key_order user UNIV for user :: comparator
begin

lemma internal_sign:
  "InternalKeyCompare user a b < 0 \<longleftrightarrow> cmp_compare user (ExtractUserKey a) (ExtractUserKey b) < 0
     \<or> cmp_compare user (ExtractUserKey a) (ExtractUserKey b) = 0 \<and> key_tag a > key_tag b"
  "InternalKeyCompare user a b > 0 \<longleftrightarrow> cmp_compare user (ExtractUserKey a) (ExtractUserKey b) > 0
     \<or> cmp_compare user (ExtractUserKey a) (ExtractUserKey b) = 0 \<and> key_tag a < key_tag b"
  "InternalKeyCompare user a b \<le> 0 \<longleftrightarrow> cmp_compare user (ExtractUserKey a) (ExtractUserKey b) < 0
     \<or> cmp_compare user (ExtractUserKey a) (ExtractUserKey b) = 0 \<and> key_tag a \<ge> key_tag b"
  by (auto simp: InternalKeyCompare_def Let_def not_less)

lemma internal_compare_sym: "InternalKeyCompare user a b < 0 \<longleftrightarrow> InternalKeyCompare user b a > 0"
  by (cases rule: compare_cases [of "ExtractUserKey a" "ExtractUserKey b"]) (simp_all add: internal_sign)

lemma internal_compare_trans:
  assumes "InternalKeyCompare user a b \<le> 0" "InternalKeyCompare user b c \<le> 0"
  shows "InternalKeyCompare user a c \<le> 0"
proof -
  let ?a = "ExtractUserKey a" and ?b = "ExtractUserKey b" and ?c = "ExtractUserKey c"
  from assms have ab: "cmp_compare user ?a ?b \<le> 0" and bc: "cmp_compare user ?b ?c \<le> 0"
    by (auto simp: internal_sign)
  show ?thesis
  proof (cases "cmp_compare user ?a ?b < 0 \<or> cmp_compare user ?b ?c < 0")
    case True
    then have "cmp_compare user ?a ?c < 0"
      using less_le_trans [of ?a ?b ?c] le_less_trans [of ?a ?b ?c] ab bc by auto
    then show ?thesis by (simp add: internal_sign)
  next
    case False
    with assms ab bc have "key_tag a \<ge> key_tag c" by (auto simp: internal_sign)
    moreover have "cmp_compare user ?a ?c \<le> 0" using compare_trans [of ?a ?b ?c] ab bc by simp
    ultimately show ?thesis by (auto simp: internal_sign)
  qed
qed

text \<open>A shortened user key is strictly larger than the old one, so the tag does not matter below it.\<close>

lemma internal_separator_between:
  assumes "InternalKeyCompare user start limit < 0"
  shows "InternalKeyCompare user start (InternalFindShortestSeparator user start limit) \<le> 0
    \<and> InternalKeyCompare user (InternalFindShortestSeparator user start limit) limit < 0"
proof -
  let ?s = "ExtractUserKey start" and ?l = "ExtractUserKey limit"
  let ?tmp = "cmp_separator user ?s ?l"
  show ?thesis
  proof (cases "length ?tmp < length ?s \<and> cmp_compare user ?s ?tmp < 0")
    case False
    then have "InternalFindShortestSeparator user start limit = start"
      unfolding InternalFindShortestSeparator_def Let_def by auto
    then show ?thesis
      using assms compare_refl [of ?s] by (simp add: internal_sign)
  next
    case True
    then have "cmp_compare user ?s ?l < 0"
      using separator_same [of ?s ?l] by fastforce
    then have "cmp_compare user ?tmp ?l < 0" using separator_between [of ?s ?l] by simp
    with True show ?thesis
      unfolding InternalFindShortestSeparator_def Let_def by (simp add: internal_sign PutFixed64_parts)
  qed
qed

lemma internal_separator_same:
  assumes "\<not> InternalKeyCompare user start limit < 0"
  shows "InternalFindShortestSeparator user start limit = start"
  using assms separator_same [of "ExtractUserKey start" "ExtractUserKey limit"]
  by (auto simp: InternalFindShortestSeparator_def Let_def internal_sign)

lemma internal_successor_above:
  "InternalKeyCompare user key (InternalFindShortSuccessor user key) \<le> 0"
  using compare_refl [of "ExtractUserKey key"]
  by (auto simp: InternalFindShortSuccessor_def Let_def internal_sign PutFixed64_parts)

lemma internal_compare_refl: "InternalKeyCompare user a a = 0"
  using compare_refl [of "ExtractUserKey a"] by (simp add: InternalKeyCompare_def Let_def)

sublocale internal: key_order "InternalKeyComparator user" internal_keys
proof (unfold_locales, unfold InternalKeyComparator_simps, goal_cases)
  case (1 a b)
  show ?case by (rule internal_compare_sym)
next
  case (2 a b c)
  from 2(4,5) show ?case by (rule internal_compare_trans)
next
  case (3 a)
  show ?case by (rule internal_compare_refl)
next
  case (4 start limit)
  then show ?case
    by (auto simp: InternalFindShortestSeparator_def Let_def PutFixed64_parts)
next
  case (5 start limit)
  from 5(3) show ?case by (rule internal_separator_between)
next
  case (6 start limit)
  from 6(3) show ?case by (rule internal_separator_same)
next
  case (7 key)
  then show ?case
    by (auto simp: InternalFindShortSuccessor_def Let_def PutFixed64_parts)
next
  case (8 key)
  show ?case by (rule internal_successor_above)
qed

end

interpretation ikeys: internal_order BytewiseComparator ..

section \<open>Properties\<close>

text \<open>The order that the comment on \<^verbatim>\<open>InternalKeyComparator::Compare\<close> gives.\<close>

definition internal_less :: "ParsedInternalKey \<Rightarrow> ParsedInternalKey \<Rightarrow> bool" where
  "internal_less a b \<longleftrightarrow> bytes_less (user_key a) (user_key b)
     \<or> user_key a = user_key b \<and> (sequence a > sequence b \<or> sequence a = sequence b \<and> vtype a > vtype b)"

lemma pack_less:
  assumes "s \<le> kMaxSequenceNumber" "s' \<le> kMaxSequenceNumber"
  shows "PackSequenceAndType s t < PackSequenceAndType s' t' \<longleftrightarrow> s < s' \<or> s = s' \<and> t < t'"
proof -
  have "unat t < 256" "unat t' < 256"
    using unsigned_less [of t, where ?'a = nat] unsigned_less [of t', where ?'a = nat] by simp_all
  then have "256 * unat s + unat t < 256 * unat s' + unat t' \<longleftrightarrow> unat s < unat s' \<or> unat s = unat s' \<and> unat t < unat t'"
    by (cases "unat s" "unat s'" rule: linorder_cases) auto
  then show ?thesis
    by (simp add: word_less_nat_alt word_unat_eq_iff unat_pack assms)
qed

lemma encode_internal_tag:
  "key_tag (encode_internal key) = PackSequenceAndType (sequence key) (vtype key)"
  using encode_internal_parts(3) [of key] by simp

lemma InternalKeyCompare_less:
  assumes "valid_key c" and "valid_key d"
  shows "InternalKeyCompare BytewiseComparator (encode_internal c) (encode_internal d) < 0 \<longleftrightarrow> internal_less c d"
  using assms unfolding ikeys.internal_sign(1) encode_internal_tag encode_internal_parts(2)
  by (auto simp: slice_compare_iff internal_less_def valid_key_def pack_less)

lemma internal_less_linear: "internal_less a b \<or> a = b \<or> internal_less b a"
proof (cases "user_key a = user_key b \<and> sequence a = sequence b \<and> vtype a = vtype b")
  case True
  then show ?thesis by simp
next
  case False
  then show ?thesis
    using bytes_less_linear [of "user_key a" "user_key b"] by (auto simp: internal_less_def neq_iff)
qed

lemma internal_less_irrefl: "\<not> internal_less a a"
  by (simp add: internal_less_def bytes_less_irrefl)

lemma InternalKeyCompare_eq:
  assumes "valid_key a" and "valid_key b"
  shows "InternalKeyCompare BytewiseComparator (encode_internal a) (encode_internal b) = 0 \<longleftrightarrow> a = b"
  using InternalKeyCompare_less [OF assms] InternalKeyCompare_less [OF assms(2,1)] internal_less_linear [of a b]
    internal_less_irrefl [of a] ikeys.internal_compare_sym [of "encode_internal b" "encode_internal a"] by auto

text \<open>C8: the comparator of internal keys over the byte-wise one orders encoded keys by increasing
  user key, then decreasing sequence number, then decreasing type, and finds them equal exactly when
  they are the same.\<close>

theorem internal_key_order:
  assumes "valid_key a" and "valid_key b"
  shows "(InternalKeyCompare BytewiseComparator (encode_internal a) (encode_internal b) < 0 \<longleftrightarrow> internal_less a b)
    \<and> (InternalKeyCompare BytewiseComparator (encode_internal a) (encode_internal b) = 0 \<longleftrightarrow> a = b)"
  using InternalKeyCompare_less [OF assms] InternalKeyCompare_eq [OF assms] by simp

theorem internal_key_order_witness:
  "InternalKeyCompare BytewiseComparator
     (encode_internal \<lparr>user_key = [0x61], sequence = 9, vtype = kTypeValue\<rparr>)
     (encode_internal \<lparr>user_key = [0x61], sequence = 5, vtype = kTypeDeletion\<rparr>) < 0"
proof -
  have "valid_key \<lparr>user_key = [0x61], sequence = 9, vtype = kTypeValue\<rparr>"
    "valid_key \<lparr>user_key = [0x61], sequence = 5, vtype = kTypeDeletion\<rparr>"
    "internal_less \<lparr>user_key = [0x61], sequence = 9, vtype = kTypeValue\<rparr>
       \<lparr>user_key = [0x61], sequence = 5, vtype = kTypeDeletion\<rparr>"
    by code_simp+
  with internal_key_order [OF this(1,2)] show ?thesis by simp
qed

text \<open>C32: parsing an encoded internal key gives it back; parsing fails exactly on inputs of fewer
  than 8 bytes and on unknown types.\<close>

theorem parse_internal_key_correct:
  assumes "valid_key key"
  shows "ParseInternalKey (AppendInternalKey [] key) = Some key
    \<and> length (AppendInternalKey [] key) = InternalKeyEncodingLength key
    \<and> (\<forall>k. ParseInternalKey k = None \<longleftrightarrow> length k < 8 \<or> ExtractValueType k > kTypeValue)"
  using Parse_encode [OF assms] Parse_None_iff encode_internal_parts(1) [of key]
  by (simp add: encode_internal_def InternalKeyEncodingLength_def)

theorem parse_internal_key_witness:
  "ParseInternalKey (AppendInternalKey [] \<lparr>user_key = [0x61], sequence = 9, vtype = kTypeValue\<rparr>)
     = Some \<lparr>user_key = [0x61], sequence = 9, vtype = kTypeValue\<rparr>"
proof -
  have "valid_key \<lparr>user_key = [0x61], sequence = 9, vtype = kTypeValue\<rparr>" by code_simp
  from parse_internal_key_correct [OF this] show ?thesis by simp
qed

text \<open>C31: for internal keys \<open>start\<close> before \<open>limit\<close>, the separator that an index block stores lies in
  \<open>[start, limit)\<close>, so a search for any key up to \<open>start\<close> still finds it and one from \<open>limit\<close> on does
  not; the successor of a key is not below it.\<close>

theorem internal_separator_correct:
  assumes "8 \<le> length start" and "8 \<le> length limit" and "InternalKeyCompare BytewiseComparator start limit < 0"
  shows "InternalKeyCompare BytewiseComparator start (InternalFindShortestSeparator BytewiseComparator start limit) \<le> 0
    \<and> InternalKeyCompare BytewiseComparator (InternalFindShortestSeparator BytewiseComparator start limit) limit < 0
    \<and> length (InternalFindShortestSeparator BytewiseComparator start limit) \<le> length start
    \<and> InternalKeyCompare BytewiseComparator start (InternalFindShortSuccessor BytewiseComparator start) \<le> 0"
proof -
  have "length (InternalFindShortestSeparator BytewiseComparator start limit) \<le> length start"
    using assms(1) by (auto simp: InternalFindShortestSeparator_def Let_def PutFixed64_def ExtractUserKey_def)
  with ikeys.internal.separator_between [of start limit] ikeys.internal.successor_above [of start] assms show ?thesis
    by simp
qed

theorem internal_separator_witness:
  "InternalKeyCompare BytewiseComparator (InternalFindShortestSeparator BytewiseComparator
     (encode_internal \<lparr>user_key = [0x61, 0x62, 0x63], sequence = 9, vtype = kTypeValue\<rparr>)
     (encode_internal \<lparr>user_key = [0x67], sequence = 5, vtype = kTypeValue\<rparr>))
     (encode_internal \<lparr>user_key = [0x67], sequence = 5, vtype = kTypeValue\<rparr>) < 0"
proof -
  have "InternalKeyCompare BytewiseComparator
     (encode_internal \<lparr>user_key = [0x61, 0x62, 0x63], sequence = 9, vtype = kTypeValue\<rparr>)
     (encode_internal \<lparr>user_key = [0x67], sequence = 5, vtype = kTypeValue\<rparr>) < 0"
    by code_simp
  from internal_separator_correct [OF _ _ this] show ?thesis by (simp add: encode_internal_parts)
qed

text \<open>The parts that a lookup key hands out are the memtable key (length prefix, user key, tag for
  a seek), the internal key and the user key, and they fit in the space the constructor reserves.\<close>

theorem lookup_key_parts:
  "lk_user_key (LookupKey_new ukey s) = ukey
   \<and> lk_internal_key (LookupKey_new ukey s) = AppendInternalKey [] \<lparr>user_key = ukey, sequence = s, vtype = kValueTypeForSeek\<rparr>
   \<and> lk_memtable_key (LookupKey_new ukey s)
       = EncodeVarint32 (of_nat (length ukey + 8)) @ lk_internal_key (LookupKey_new ukey s)
   \<and> length (lk_memtable_key (LookupKey_new ukey s)) \<le> length ukey + 13"
proof -
  have "length (EncodeVarint32 (of_nat (length ukey + 8))) \<le> 5"
    unfolding EncodeVarint32_bytes by (rule length_varint_bytes_32)
  then show ?thesis
    by (simp add: LookupKey_new_def lk_user_key_def lk_internal_key_def lk_memtable_key_def Let_def AppendInternalKey_def
        PutFixed64_def)
qed

end
