(* ===== verification/Ldb_Bloom.thy ===== *)
theory Ldb_Bloom
  imports Ldb_Dbformat
begin

text \<open>
  Filters: the hash of \<^verbatim>\<open>util/hash.cc\<close>, the interface of \<^verbatim>\<open>include/leveldb/filter_policy.h\<close> with
  its contract as a locale, the Bloom filter of \<^verbatim>\<open>util/bloom.cc\<close> and the wrapper for internal keys
  of \<^verbatim>\<open>db/dbformat.cc\<close>. The contract is that a filter never denies a key it was made from.
\<close>

section \<open>Hashing\<close>

fun hash_words :: "u32 \<Rightarrow> byte list \<Rightarrow> u32 \<times> byte list" where
  "hash_words h (a # b # c # d # rest) =
     (let w = DecodeFixed32 [a, b, c, d]; h = h + w; h = h * 0xc6a4a793; h = h XOR drop_bit 16 h
      in hash_words h rest)"
| "hash_words h rest = (h, rest)"

definition Hash :: "byte list \<Rightarrow> u32 \<Rightarrow> u32" where
  "Hash d seed =
     (let m = 0xc6a4a793; r = 24;
          h = seed XOR (of_nat (length d) * m);
          (h, rest) = hash_words h d;
          h = (if length rest = 3 then h + push_bit 16 (ucast (rest ! 2)) else h);
          h = (if length rest = 3 \<or> length rest = 2 then h + push_bit 8 (ucast (rest ! 1)) else h)
      in if length rest = 3 \<or> length rest = 2 \<or> length rest = 1
         then let h = h + ucast (rest ! 0); h = h * m in h XOR drop_bit r h
         else h)"

section \<open>The interface\<close>

record FilterPolicy =
  fp_Name :: string
  fp_CreateFilter :: "slice list \<Rightarrow> byte list \<Rightarrow> byte list"
  fp_KeyMayMatch :: "slice \<Rightarrow> slice \<Rightarrow> bool"

locale filter_contract =
  fixes policy :: FilterPolicy
  assumes create_appends: "fp_CreateFilter policy keys dst = dst @ fp_CreateFilter policy keys []"
    and no_false_negative: "key \<in> set keys \<Longrightarrow> fp_KeyMayMatch policy key (fp_CreateFilter policy keys [])"

section \<open>Bloom filters\<close>

definition BloomHash :: "slice \<Rightarrow> u32" where
  "BloomHash key = Hash key 0xbc9f1d34"

text \<open>\<^verbatim>\<open>bits_per_key * 0.69\<close> is rounded down; below 100 the product of doubles is never an integer, and
  above 43 the result is cut to 30 in any case, so the integers give the same.\<close>

definition bloom_k :: "nat \<Rightarrow> nat" where
  "bloom_k bits_per_key = (let k = bits_per_key * 69 div 100; k = (if k < 1 then 1 else k) in if k > 30 then 30 else k)"

definition bloom_delta :: "u32 \<Rightarrow> u32" where
  "bloom_delta h = drop_bit 17 h OR push_bit 15 h"

fun bloom_set :: "nat \<Rightarrow> nat \<Rightarrow> u32 \<Rightarrow> u32 \<Rightarrow> byte list \<Rightarrow> byte list" where
  "bloom_set 0 bits h delta array = array"
| "bloom_set (Suc k) bits h delta array =
     (let bitpos = unat h mod bits;
          array = array[bitpos div 8 := array ! (bitpos div 8) OR push_bit (bitpos mod 8) 1]
      in bloom_set k bits (h + delta) delta array)"

definition bloom_CreateFilter :: "nat \<Rightarrow> slice list \<Rightarrow> byte list \<Rightarrow> byte list" where
  "bloom_CreateFilter bits_per_key keys dst =
     (let k = bloom_k bits_per_key;
          bits = length keys * bits_per_key mod 2 ^ 64;
          bits = (if bits < 64 then 64 else bits);
          bytes = (bits + 7) div 8;
          bits = bytes * 8;
          array = replicate bytes 0;
          array = fold (\<lambda>key. let h = BloomHash key in bloom_set k bits h (bloom_delta h)) keys array
      in dst @ array @ [of_nat k])"

fun bloom_test :: "nat \<Rightarrow> nat \<Rightarrow> u32 \<Rightarrow> u32 \<Rightarrow> byte list \<Rightarrow> bool" where
  "bloom_test 0 bits h delta array = True"
| "bloom_test (Suc k) bits h delta array =
     (let bitpos = unat h mod bits in
      if array ! (bitpos div 8) AND push_bit (bitpos mod 8) 1 = 0 then False
      else bloom_test k bits (h + delta) delta array)"

text \<open>The stored number of probes is a \<^verbatim>\<open>char\<close>; a negative one becomes a large \<^verbatim>\<open>size_t\<close>.\<close>

definition bloom_KeyMayMatch :: "slice \<Rightarrow> slice \<Rightarrow> bool" where
  "bloom_KeyMayMatch key bloom_filter =
     (let len = length bloom_filter in
      if len < 2 then False
      else let bits = (len - 1) * 8; k = scast (bloom_filter ! (len - 1)) :: size_t in
        if k > 30 then True
        else let h = BloomHash key in bloom_test (unat k) bits h (bloom_delta h) bloom_filter)"

definition BloomFilterPolicy :: "nat \<Rightarrow> FilterPolicy" where
  "BloomFilterPolicy bits_per_key =
     \<lparr>fp_Name = ''leveldb.BuiltinBloomFilter2'', fp_CreateFilter = bloom_CreateFilter bits_per_key,
      fp_KeyMayMatch = bloom_KeyMayMatch\<rparr>"

section \<open>The wrapper for internal keys\<close>

definition InternalFilterPolicy :: "FilterPolicy \<Rightarrow> FilterPolicy" where
  "InternalFilterPolicy user_policy =
     \<lparr>fp_Name = fp_Name user_policy,
      fp_CreateFilter = (\<lambda>keys dst. fp_CreateFilter user_policy (map ExtractUserKey keys) dst),
      fp_KeyMayMatch = (\<lambda>key f. fp_KeyMayMatch user_policy (ExtractUserKey key) f)\<rparr>"

section \<open>Bloom filters never deny a key\<close>

lemma length_bloom_set [simp]: "length (bloom_set k bits h delta array) = length array"
  by (induction k arbitrary: h array) (simp_all add: Let_def)

text \<open>Bits that are set stay set.\<close>

definition bit_set :: "byte list \<Rightarrow> nat \<Rightarrow> bool" where
  "bit_set array pos \<longleftrightarrow> bit (array ! (pos div 8)) (pos mod 8)"

lemma test_bit: "(a :: byte) AND push_bit n 1 = 0 \<longleftrightarrow> \<not> bit a n" if "n < 8"
proof
  assume "a AND push_bit n 1 = 0"
  then have "\<not> bit (a AND push_bit n 1) n" by simp
  with that show "\<not> bit a n" by (simp add: bit_simps)
next
  assume "\<not> bit a n"
  then show "a AND push_bit n 1 = 0" by (intro bit_word_eqI) (auto simp: bit_simps)
qed

lemma probe_in_array: "bits \<le> n * 8 \<Longrightarrow> 0 < bits \<Longrightarrow> h mod bits div 8 < (n :: nat)"
  using mod_less_divisor [of bits h] by linarith

lemma bit_set_or:
  assumes "p div 8 < length array"
  shows "bit_set (array[p div 8 := array ! (p div 8) OR push_bit (p mod 8) 1]) q \<longleftrightarrow> bit_set array q \<or> q = p"
proof (cases "q div 8 = p div 8")
  case True
  have "q = p \<longleftrightarrow> q mod 8 = p mod 8" using True by (metis div_mult_mod_eq)
  with True assms show ?thesis by (auto simp: bit_set_def bit_simps)
next
  case False
  then show ?thesis using assms by (auto simp: bit_set_def)
qed

lemmas probe_simps = bit_set_or [unfolded push_bit_of_1] test_bit [unfolded push_bit_of_1]

lemma bloom_set_keeps: "bits \<le> length array * 8 \<Longrightarrow> 0 < bits \<Longrightarrow> bit_set array q \<Longrightarrow> bit_set (bloom_set k bits h delta array) q"
  by (induction k arbitrary: h array) (simp_all add: Let_def probe_simps probe_in_array)

lemma bloom_set_test:
  assumes "bits \<le> length array * 8" and "0 < bits"
    and "\<And>q. q div 8 < length array \<Longrightarrow> bit_set (bloom_set k bits h delta array) q \<Longrightarrow> bit_set final q"
  shows "bloom_test k bits h delta final"
  using assms
proof (induction k arbitrary: h array)
  case (Suc k)
  let ?p = "unat h mod bits"
  let ?a = "array[?p div 8 := array ! (?p div 8) OR push_bit (?p mod 8) 1]"
  have p: "?p div 8 < length array" using Suc.prems(1,2) by (rule probe_in_array)
  have "bit_set (bloom_set k bits (h + delta) delta ?a) ?p"
    using Suc.prems(1,2) p by (intro bloom_set_keeps) (simp_all add: probe_simps)
  then have "bit_set final ?p" using Suc.prems(3) [of ?p] p by (simp add: Let_def)
  then have "\<not> final ! (?p div 8) AND push_bit (?p mod 8) 1 = 0" by (simp add: probe_simps bit_set_def)
  moreover have "bloom_test k bits (h + delta) delta final"
    using Suc.prems by (intro Suc.IH [of ?a]) (simp_all add: Let_def)
  ultimately show ?case by (simp add: Let_def)
qed simp

lemma bloom_fold_keeps:
  assumes "bits \<le> length array * 8" and "0 < bits" and "bit_set array q"
  shows "bit_set (fold (\<lambda>key. let h = BloomHash key in bloom_set k bits h (bloom_delta h)) keys array) q"
  using assms by (induction keys arbitrary: array) (simp_all add: Let_def bloom_set_keeps)

lemma bloom_fold_length: "length (fold (\<lambda>key. let h = BloomHash key in bloom_set k bits h (bloom_delta h)) keys array) = length array"
  by (induction keys arbitrary: array) (simp_all add: Let_def)

lemma bloom_fold_test:
  assumes "key \<in> set keys" and "bits = length array * 8" and "0 < bits"
  shows "bloom_test k bits (BloomHash key) (bloom_delta (BloomHash key))
    (fold (\<lambda>key. let h = BloomHash key in bloom_set k bits h (bloom_delta h)) keys array @ [x])"
  using assms
proof (induction keys arbitrary: array)
  case (Cons a keys)
  let ?f = "\<lambda>key. let h = BloomHash key in bloom_set k bits h (bloom_delta h)"
  show ?case
  proof (cases "key = a")
    case True
    let ?array = "?f a array"
    have "bit_set (fold ?f keys ?array @ [x]) q" if "bit_set ?array q" "q div 8 < length array" for q
      using bloom_fold_keeps [of bits ?array q k keys] that Cons.prems(2,3) bloom_fold_length [of k bits keys ?array]
      by (simp add: Let_def bit_set_def nth_append)
    then have "bloom_test k bits (BloomHash a) (bloom_delta (BloomHash a)) (fold ?f keys ?array @ [x])"
      using Cons.prems(2,3) by (intro bloom_set_test [of _ array]) (simp_all add: Let_def)
    with True show ?thesis by (simp only: fold_Cons comp_apply)
  next
    case False
    with Cons.prems have "bloom_test k bits (BloomHash key) (bloom_delta (BloomHash key)) (fold ?f keys (?f a array) @ [x])"
      by (intro Cons.IH) (simp_all add: Let_def)
    then show ?thesis by (simp only: fold_Cons comp_apply)
  qed
qed simp

lemma bloom_k_le: "bloom_k n \<le> 30"
  by (simp add: bloom_k_def Let_def)

lemma stored_probes: "k \<le> 30 \<Longrightarrow> (scast (of_nat k :: byte) :: size_t) = of_nat k"
proof -
  assume "k \<le> 30"
  then have "\<forall>k \<in> {0..<31}. (scast (of_nat k :: byte) :: size_t) = of_nat k \<Longrightarrow> ?thesis" by simp
  then show ?thesis by (simp add: atLeastLessThan_nat_numeral)
qed

lemma bloom_CreateFilter_append: "bloom_CreateFilter n keys dst = dst @ bloom_CreateFilter n keys []"
  by (simp add: bloom_CreateFilter_def Let_def)

lemma bloom_CreateFilter_length:
  "length (bloom_CreateFilter n keys []) = (max 64 (length keys * n mod 2 ^ 64) + 7) div 8 + 1"
  unfolding bloom_CreateFilter_def Let_def by (simp add: bloom_fold_length [unfolded Let_def] max_def)

lemma bloom_match:
  assumes "key \<in> set keys"
  shows "bloom_KeyMayMatch key (bloom_CreateFilter n keys [])"
proof -
  define bits where "bits = (let bits = length keys * n mod 2 ^ 64 in if bits < 64 then 64 else bits)"
  define bytes where "bytes = (bits + 7) div 8"
  let ?k = "bloom_k n"
  let ?f = "\<lambda>key. let h = BloomHash key in bloom_set ?k (bytes * 8) h (bloom_delta h)"
  let ?array = "fold ?f keys (replicate bytes 0)"
  have bits: "64 \<le> bits" by (simp add: bits_def Let_def)
  then have bytes: "8 \<le> bytes" by (simp add: bytes_def)
  have len: "length ?array = bytes" by (simp only: bloom_fold_length length_replicate)
  have create: "bloom_CreateFilter n keys [] = ?array @ [of_nat ?k]"
    by (simp add: bloom_CreateFilter_def bytes_def bits_def Let_def)
  have k: "unat (of_nat ?k :: size_t) = ?k" using bloom_k_le [of n] by (simp add: unat_of_nat)
  have "bloom_test ?k (bytes * 8) (BloomHash key) (bloom_delta (BloomHash key)) (?array @ [of_nat ?k])"
    using assms bytes by (intro bloom_fold_test) simp_all
  then show ?thesis
    unfolding create using bytes len k bloom_k_le [of n]
    by (simp add: bloom_KeyMayMatch_def Let_def nth_append stored_probes)
qed

interpretation bloom: filter_contract "BloomFilterPolicy n"
  by unfold_locales (auto simp: BloomFilterPolicy_def bloom_match intro: bloom_CreateFilter_append)

text \<open>The wrapper keeps the contract, for any policy of the user's.\<close>

context filter_contract
begin

lemma internal_contract: "filter_contract (InternalFilterPolicy policy)"
  by unfold_locales (auto simp: InternalFilterPolicy_def no_false_negative intro: create_appends)

end

interpretation internal_bloom: filter_contract "InternalFilterPolicy (BloomFilterPolicy n)"
  by (rule bloom.internal_contract)

text \<open>The Bloom filter that \<^verbatim>\<open>CreateFilter\<close> appends for a list of keys, with any number of bits per key,
  is the same whatever it is appended to and matches every one of those keys, and so does the filter made
  through the wrapper for internal keys, for every internal key with the same user key.\<close>

theorem bloom_no_false_negative:
  "bloom_CreateFilter n keys dst = dst @ bloom_CreateFilter n keys []
   \<and> list_all (\<lambda>key. bloom_KeyMayMatch key (bloom_CreateFilter n keys [])) keys
   \<and> list_all (\<lambda>ikey. fp_KeyMayMatch (InternalFilterPolicy (BloomFilterPolicy n)) (ExtractUserKey ikey @ tag)
         (fp_CreateFilter (InternalFilterPolicy (BloomFilterPolicy n)) keys [])) keys"
  if "length tag = 8"
proof -
  have "fp_KeyMayMatch (InternalFilterPolicy (BloomFilterPolicy n)) (ExtractUserKey ikey @ tag)
      (fp_CreateFilter (InternalFilterPolicy (BloomFilterPolicy n)) keys [])" if "ikey \<in> set keys" for ikey
    using internal_bloom.no_false_negative [OF that, of n] \<open>length tag = 8\<close>
    by (simp add: InternalFilterPolicy_def ExtractUserKey_def)
  then show ?thesis by (auto simp: list_all_iff bloom_match intro: bloom_CreateFilter_append)
qed

theorem bloom_no_false_negative_witness:
  "length (replicate 8 (1 :: byte)) = 8
   \<and> list_all (\<lambda>key. bloom_KeyMayMatch key (bloom_CreateFilter 10 [[97], [98, 99]] [])) [[97], [98, 99]]"
  using bloom_no_false_negative [of "replicate 8 1" 10 "[[97], [98, 99]]" "[]"] by simp

end
