(* ===== verification/Ldb_Cache.thy ===== *)
theory Ldb_Cache
  imports Ldb_Bloom "HOL-Library.Multiset"
begin

text \<open>
  Caches: the interface of \<^verbatim>\<open>include/leveldb/cache.h\<close> with its contract, and the sharded LRU cache of \<^verbatim>\<open>util/cache.cc\<close>.
  Entries are objects with an address; the circular list of the entries in LRU order, the list of the entries in use
  and the chains of the hash table are lists of addresses, oldest first. The mutexes make every operation atomic. Charges, capacities,
  reference counts and the number of entries have the width of their machine integers and wrap around. \<^const>\<open>None\<close> is
  the use of an entry that has been freed, the read of a pointer that was never set, or no return.
\<close>

section \<open>The interface\<close>

record ('c, 'h, 'v) Cache =
  c_Insert :: "slice \<Rightarrow> 'v \<Rightarrow> u64 \<Rightarrow> 'c \<Rightarrow> ('h \<times> 'c) option"
  c_Lookup :: "slice \<Rightarrow> 'c \<Rightarrow> ('h option \<times> 'c) option"
  c_Release :: "'h \<Rightarrow> 'c \<Rightarrow> 'c option"
  c_Value :: "'h \<Rightarrow> 'c \<Rightarrow> 'v option"
  c_Erase :: "slice \<Rightarrow> 'c \<Rightarrow> 'c option"
  c_NewId :: "'c \<Rightarrow> u64 \<times> 'c"
  c_Prune :: "'c \<Rightarrow> 'c option"
  c_TotalCharge :: "'c \<Rightarrow> u64"

text \<open>The references of an entry and the entries of the table are counted in 32 bits.\<close>

definition max_handles :: nat where "max_handles = 2 ^ 32 - 2"

definition max_entries :: nat where "max_entries = 2 ^ 31"

definition countable_handles :: "('h \<Rightarrow> 'v multiset) \<Rightarrow> bool" where
  "countable_handles held \<longleftrightarrow> (\<forall>h. size (held h) < max_handles)"

definition countable_entries :: "(slice \<Rightarrow> 'v \<Rightarrow> bool) \<Rightarrow> bool" where
  "countable_entries has \<longleftrightarrow> finite {k. \<exists>v. has k v} \<and> card {k. \<exists>v. has k v} < max_entries"

text \<open>What a client relies on as long as these counts fit: operations return; a handle that was returned has its value until it
  is released; the cache has nothing but what was inserted last under a key.\<close>

locale cache_contract =
  fixes cache :: "('c, 'h, 'v) Cache" and cok :: "'c \<Rightarrow> bool" and held :: "'c \<Rightarrow> 'h \<Rightarrow> 'v multiset"
    and has :: "'c \<Rightarrow> slice \<Rightarrow> 'v \<Rightarrow> bool"
  assumes lookup: "cok c \<Longrightarrow> countable_handles (held c) \<Longrightarrow> \<exists>r c'. c_Lookup cache key c = Some (r, c') \<and> cok c' \<and> (\<forall>k v. has c' k v \<longleftrightarrow> has c k v)
      \<and> (case r of None \<Rightarrow> (\<forall>v. \<not> has c key v) \<and> held c' = held c
          | Some h \<Rightarrow> \<exists>v. has c key v \<and> held c' = (held c)(h := add_mset v (held c h)))"
    and insert_entry: "cok c \<Longrightarrow> countable_entries (has c) \<Longrightarrow> \<exists>h c'. c_Insert cache key v n c = Some (h, c') \<and> cok c'
      \<and> (\<forall>k w. has c' k w \<longrightarrow> (if k = key then w = v else has c k w)) \<and> held c h = {#} \<and> held c' = (held c)(h := {#v#})"
    and release: "cok c \<Longrightarrow> v \<in># held c h \<Longrightarrow> \<exists>c'. c_Release cache h c = Some c' \<and> cok c'
      \<and> (\<forall>k w. has c' k w \<longleftrightarrow> has c k w) \<and> held c' = (held c)(h := held c h - {#v#})"
    and held_value: "cok c \<Longrightarrow> v \<in># held c h \<Longrightarrow> c_Value cache h c = Some v"
    and erase: "cok c \<Longrightarrow> \<exists>c'. c_Erase cache key c = Some c' \<and> cok c' \<and> (\<forall>k w. has c' k w \<longleftrightarrow> k \<noteq> key \<and> has c k w) \<and> held c' = held c"
    and prune: "cok c \<Longrightarrow> \<exists>c'. c_Prune cache c = Some c' \<and> cok c' \<and> (\<forall>k w. has c' k w \<longrightarrow> has c k w) \<and> held c' = held c"
    and new_id: "cok c \<Longrightarrow> cok (snd (c_NewId cache c)) \<and> (\<forall>k w. has (snd (c_NewId cache c)) k w \<longleftrightarrow> has c k w)
      \<and> held (snd (c_NewId cache c)) = held c"

section \<open>Entries and the hash table\<close>

text \<open>\<^verbatim>\<open>lh_linked\<close> tells whether \<^verbatim>\<open>next\<close> has been set, by putting the entry on a list; it then points to the head of the list or to
  another entry, also when the entry has been taken off, and never to the entry itself.\<close>

record 'v LRUHandle =
  lh_value :: 'v
  lh_key :: slice
  lh_charge :: u64
  lh_in_cache :: bool
  lh_refs :: u32
  lh_hash :: u32
  lh_linked :: bool

type_synonym 'v handles = "nat \<Rightarrow> 'v LRUHandle option"

text \<open>\<^verbatim>\<open>key()\<close> reads \<^verbatim>\<open>next\<close>.\<close>

definition handle_key :: "'v LRUHandle \<Rightarrow> slice option" where
  "handle_key e = (if lh_linked e then Some (lh_key e) else None)"

text \<open>\<^verbatim>\<open>length_\<close> is the length of the list.\<close>

record HandleTable =
  ht_elems :: u32
  ht_list :: "nat list list"

text \<open>The chain of a hash is split where \<^verbatim>\<open>FindPointer\<close> stops.\<close>

definition bucket_of :: "HandleTable \<Rightarrow> u32 \<Rightarrow> nat" where
  "bucket_of t hash = unat (hash AND of_nat (length (ht_list t) - 1))"

fun find_pointer :: "'v handles \<Rightarrow> slice \<Rightarrow> u32 \<Rightarrow> nat list \<Rightarrow> (nat list \<times> nat list) option" where
  "find_pointer hs key hash [] = Some ([], [])"
| "find_pointer hs key hash (a # chain) =
     do {e \<leftarrow> hs a;
         found \<leftarrow> (if lh_hash e \<noteq> hash then Some False else do {k \<leftarrow> handle_key e; Some (slice_eq key k)});
         if found then Some ([], a # chain)
         else do {(before, after) \<leftarrow> find_pointer hs key hash chain; Some (a # before, after)}}"

definition FindPointer :: "'v handles \<Rightarrow> slice \<Rightarrow> u32 \<Rightarrow> HandleTable \<Rightarrow> (nat list \<times> nat list) option" where
  "FindPointer hs key hash t = find_pointer hs key hash (ht_list t ! bucket_of t hash)"

definition table_Lookup :: "'v handles \<Rightarrow> slice \<Rightarrow> u32 \<Rightarrow> HandleTable \<Rightarrow> nat option option" where
  "table_Lookup hs key hash t =
     do {(before, after) \<leftarrow> FindPointer hs key hash t; Some (case after of [] \<Rightarrow> None | a # _ \<Rightarrow> Some a)}"

text \<open>For more than \<open>2 ^ 31\<close> elements the loop over \<^verbatim>\<open>new_length\<close> does not end.\<close>

partial_function (option) new_length :: "u32 \<Rightarrow> u32 \<Rightarrow> u32 option" where
  "new_length n elems = (if n < elems then new_length (n * 2) elems else Some n)"

definition table_Resize :: "'v handles \<Rightarrow> HandleTable \<Rightarrow> HandleTable option" where
  "table_Resize hs t =
     do {n \<leftarrow> new_length 4 (ht_elems t);
         let push = (\<lambda>h new_list. case hs h of None \<Rightarrow> new_list
           | Some e \<Rightarrow> let i = unat (lh_hash e AND (n - 1)) in new_list[i := h # new_list ! i]);
         if list_all (\<lambda>h. hs h \<noteq> None) (concat (ht_list t))
         then Some (t\<lparr>ht_list := fold push (concat (ht_list t)) (replicate (unat n) [])\<rparr>) else None}"

definition HandleTable_new :: HandleTable where
  "HandleTable_new = \<lparr>ht_elems = 0, ht_list = replicate 4 []\<rparr>"

definition table_Insert :: "'v handles \<Rightarrow> nat \<Rightarrow> HandleTable \<Rightarrow> (nat option \<times> HandleTable) option" where
  "table_Insert hs h t =
     do {e \<leftarrow> hs h;
         key \<leftarrow> handle_key e;
         (before, after) \<leftarrow> FindPointer hs key (lh_hash e) t;
         (case after of
            old # after \<Rightarrow> Some (Some old, t\<lparr>ht_list := (ht_list t)[bucket_of t (lh_hash e) := before @ h # after]\<rparr>)
          | [] \<Rightarrow>
              let t = t\<lparr>ht_list := (ht_list t)[bucket_of t (lh_hash e) := before @ [h]], ht_elems := ht_elems t + 1\<rparr>
              in if unat (ht_elems t) > length (ht_list t) then do {t \<leftarrow> table_Resize hs t; Some (None, t)} else Some (None, t))}"

definition table_Remove :: "'v handles \<Rightarrow> slice \<Rightarrow> u32 \<Rightarrow> HandleTable \<Rightarrow> (nat option \<times> HandleTable) option" where
  "table_Remove hs key hash t =
     do {(before, after) \<leftarrow> FindPointer hs key hash t;
         Some (case after of
           [] \<Rightarrow> (None, t)
         | old # after \<Rightarrow>
             (Some old, t\<lparr>ht_list := (ht_list t)[bucket_of t hash := before @ after], ht_elems := ht_elems t - 1\<rparr>))}"

section \<open>A shard\<close>

text \<open>The source puts an entry on a list by setting its pointers. \<^verbatim>\<open>lc_deleted\<close> lists the calls of deleters.\<close>

record 'v LRUCache =
  lc_capacity :: u64
  lc_usage :: u64
  lc_lru :: "nat list"
  lc_in_use :: "nat list"
  lc_table :: HandleTable
  lc_handles :: "'v handles"
  lc_next :: nat
  lc_deleted :: "(slice \<times> 'v) list"

definition LRUCache_new :: "'v LRUCache" where
  "LRUCache_new = \<lparr>lc_capacity = 0, lc_usage = 0, lc_lru = [], lc_in_use = [], lc_table = HandleTable_new,
     lc_handles = (\<lambda>_. None), lc_next = 0, lc_deleted = []\<rparr>"

definition SetCapacity :: "u64 \<Rightarrow> 'v LRUCache \<Rightarrow> 'v LRUCache" where
  "SetCapacity capacity c = c\<lparr>lc_capacity := capacity\<rparr>"

definition LRU_Remove :: "nat \<Rightarrow> 'v LRUCache \<Rightarrow> 'v LRUCache" where
  "LRU_Remove a c = c\<lparr>lc_lru := filter (\<lambda>b. b \<noteq> a) (lc_lru c), lc_in_use := filter (\<lambda>b. b \<noteq> a) (lc_in_use c)\<rparr>"

definition set_linked :: "nat \<Rightarrow> 'v LRUCache \<Rightarrow> 'v LRUCache" where
  "set_linked a c = c\<lparr>lc_handles := (lc_handles c)(a := map_option (\<lambda>e. e\<lparr>lh_linked := True\<rparr>) (lc_handles c a))\<rparr>"

definition LRU_Append_lru :: "nat \<Rightarrow> 'v LRUCache \<Rightarrow> 'v LRUCache" where
  "LRU_Append_lru a c = set_linked a (c\<lparr>lc_lru := lc_lru c @ [a]\<rparr>)"

definition LRU_Append_in_use :: "nat \<Rightarrow> 'v LRUCache \<Rightarrow> 'v LRUCache" where
  "LRU_Append_in_use a c = set_linked a (c\<lparr>lc_in_use := lc_in_use c @ [a]\<rparr>)"

definition lru_Ref :: "nat \<Rightarrow> 'v LRUCache \<Rightarrow> 'v LRUCache option" where
  "lru_Ref a c =
     (case lc_handles c a of None \<Rightarrow> None
      | Some e \<Rightarrow>
          let c = (if lh_refs e = 1 \<and> lh_in_cache e then LRU_Append_in_use a (LRU_Remove a c) else c) in
          do {e \<leftarrow> lc_handles c a;
              Some (c\<lparr>lc_handles := (lc_handles c)(a \<mapsto> e\<lparr>lh_refs := lh_refs e + 1\<rparr>)\<rparr>)})"

definition lru_Unref :: "nat \<Rightarrow> 'v LRUCache \<Rightarrow> 'v LRUCache option" where
  "lru_Unref a c =
     (case lc_handles c a of None \<Rightarrow> None
      | Some e \<Rightarrow>
          let e = e\<lparr>lh_refs := lh_refs e - 1\<rparr> in
          if lh_refs e = 0
          then do {key \<leftarrow> handle_key e;
                   Some (c\<lparr>lc_deleted := lc_deleted c @ [(key, lh_value e)], lc_handles := (lc_handles c)(a := None)\<rparr>)}
          else
            let c = c\<lparr>lc_handles := (lc_handles c)(a \<mapsto> e)\<rparr>
            in Some (if lh_in_cache e \<and> lh_refs e = 1 then LRU_Append_lru a (LRU_Remove a c) else c))"

definition FinishErase :: "nat option \<Rightarrow> 'v LRUCache \<Rightarrow> 'v LRUCache option" where
  "FinishErase h c =
     (case h of None \<Rightarrow> Some c
      | Some a \<Rightarrow>
          (case lc_handles c a of None \<Rightarrow> None
           | Some e \<Rightarrow>
               let c = LRU_Remove a c;
                   c = c\<lparr>lc_handles := (lc_handles c)(a \<mapsto> e\<lparr>lh_in_cache := False\<rparr>), lc_usage := lc_usage c - lh_charge e\<rparr>
               in lru_Unref a c))"

definition erase_key :: "slice \<Rightarrow> u32 \<Rightarrow> 'v LRUCache \<Rightarrow> 'v LRUCache option" where
  "erase_key key hash c =
     do {(h, t) \<leftarrow> table_Remove (lc_handles c) key hash (lc_table c); FinishErase h (c\<lparr>lc_table := t\<rparr>)}"

definition lru_Lookup :: "slice \<Rightarrow> u32 \<Rightarrow> 'v LRUCache \<Rightarrow> (nat option \<times> 'v LRUCache) option" where
  "lru_Lookup key hash c =
     do {e \<leftarrow> table_Lookup (lc_handles c) key hash (lc_table c);
         (case e of
            None \<Rightarrow> Some (None, c)
          | Some a \<Rightarrow> do {c \<leftarrow> lru_Ref a c; Some (Some a, c)})}"

definition lru_Release :: "nat \<Rightarrow> 'v LRUCache \<Rightarrow> 'v LRUCache option" where
  "lru_Release a c = lru_Unref a c"

text \<open>\<^verbatim>\<open>while (usage_ > capacity_ && lru_.next != &lru_)\<close>, and the loop of \<^verbatim>\<open>Prune\<close>.\<close>

partial_function (option) evict_loop :: "('v LRUCache \<Rightarrow> bool) \<Rightarrow> 'v LRUCache \<Rightarrow> 'v LRUCache option" where
  "evict_loop go c =
     (case lc_lru c of
        [] \<Rightarrow> Some c
      | old # _ \<Rightarrow>
          if go c
          then do {e \<leftarrow> lc_handles c old; key \<leftarrow> handle_key e; c \<leftarrow> erase_key key (lh_hash e) c; evict_loop go c}
          else Some c)"

definition lru_Insert :: "slice \<Rightarrow> u32 \<Rightarrow> 'v \<Rightarrow> u64 \<Rightarrow> 'v LRUCache \<Rightarrow> (nat \<times> 'v LRUCache) option" where
  "lru_Insert key hash v charge c =
     (let a = lc_next c;
          e = \<lparr>lh_value = v, lh_key = key, lh_charge = charge, lh_in_cache = False, lh_refs = 1, lh_hash = hash, lh_linked = False\<rparr>;
          c = c\<lparr>lc_next := a + 1, lc_handles := (lc_handles c)(a \<mapsto> e)\<rparr> in
      do {c \<leftarrow>
            (if lc_capacity c > 0
             then
               let c = c\<lparr>lc_handles := (lc_handles c)(a \<mapsto> e\<lparr>lh_refs := lh_refs e + 1, lh_in_cache := True\<rparr>)\<rparr>;
                   c = LRU_Append_in_use a c;
                   c = c\<lparr>lc_usage := lc_usage c + charge\<rparr>
               in do {(old, t) \<leftarrow> table_Insert (lc_handles c) a (lc_table c); FinishErase old (c\<lparr>lc_table := t\<rparr>)}
             else Some c);
          c \<leftarrow> evict_loop (\<lambda>c. lc_usage c > lc_capacity c) c;
          Some (a, c)})"

definition lru_Erase :: "slice \<Rightarrow> u32 \<Rightarrow> 'v LRUCache \<Rightarrow> 'v LRUCache option" where
  "lru_Erase key hash c = erase_key key hash c"

definition lru_Prune :: "'v LRUCache \<Rightarrow> 'v LRUCache option" where
  "lru_Prune c = evict_loop (\<lambda>c. True) c"

text \<open>The destructor.\<close>

fun destroy_loop :: "nat list \<Rightarrow> 'v LRUCache \<Rightarrow> 'v LRUCache option" where
  "destroy_loop [] c = Some c"
| "destroy_loop (a # as) c =
     do {e \<leftarrow> lc_handles c a;
         c \<leftarrow> lru_Unref a (c\<lparr>lc_handles := (lc_handles c)(a \<mapsto> e\<lparr>lh_in_cache := False\<rparr>)\<rparr>);
         destroy_loop as c}"

definition lru_destroy :: "'v LRUCache \<Rightarrow> 'v LRUCache option" where
  "lru_destroy c = destroy_loop (lc_lru c) c"

section \<open>The sharded cache\<close>

definition kNumShardBits :: nat where "kNumShardBits = 4"

definition kNumShards :: nat where "kNumShards = 2 ^ kNumShardBits"

record 'v ShardedLRUCache =
  sc_shard :: "'v LRUCache list"
  sc_last_id :: u64

text \<open>A handle is the address of an entry of the shard of its hash, which is constant.\<close>

datatype cache_handle = Handle (handle_hash: u32) (handle_entry: nat)

definition HashSlice :: "slice \<Rightarrow> u32" where
  "HashSlice s = Hash s 0"

definition Shard :: "u32 \<Rightarrow> nat" where
  "Shard hash = unat (drop_bit (32 - kNumShardBits) hash)"

definition per_shard :: "u64 \<Rightarrow> u64" where
  "per_shard capacity = (capacity + (of_nat kNumShards - 1)) div of_nat kNumShards"

definition NewLRUCache :: "u64 \<Rightarrow> 'v ShardedLRUCache" where
  "NewLRUCache capacity =
     (let per_shard = per_shard capacity in
      \<lparr>sc_shard = replicate kNumShards (SetCapacity per_shard LRUCache_new), sc_last_id = 0\<rparr>)"

definition set_shard :: "'v ShardedLRUCache \<Rightarrow> nat \<Rightarrow> 'v LRUCache \<Rightarrow> 'v ShardedLRUCache" where
  "set_shard c i s = c\<lparr>sc_shard := (sc_shard c)[i := s]\<rparr>"

definition sharded_Insert :: "slice \<Rightarrow> 'v \<Rightarrow> u64 \<Rightarrow> 'v ShardedLRUCache \<Rightarrow> (cache_handle \<times> 'v ShardedLRUCache) option" where
  "sharded_Insert key v charge c =
     (let hash = HashSlice key in
      do {(a, s) \<leftarrow> lru_Insert key hash v charge (sc_shard c ! Shard hash); Some (Handle hash a, set_shard c (Shard hash) s)})"

definition sharded_Lookup :: "slice \<Rightarrow> 'v ShardedLRUCache \<Rightarrow> (cache_handle option \<times> 'v ShardedLRUCache) option" where
  "sharded_Lookup key c =
     (let hash = HashSlice key in
      do {(r, s) \<leftarrow> lru_Lookup key hash (sc_shard c ! Shard hash);
          Some (map_option (Handle hash) r, set_shard c (Shard hash) s)})"

definition sharded_Release :: "cache_handle \<Rightarrow> 'v ShardedLRUCache \<Rightarrow> 'v ShardedLRUCache option" where
  "sharded_Release h c =
     (let i = Shard (handle_hash h) in
      do {s \<leftarrow> lru_Release (handle_entry h) (sc_shard c ! i); Some (set_shard c i s)})"

definition sharded_Erase :: "slice \<Rightarrow> 'v ShardedLRUCache \<Rightarrow> 'v ShardedLRUCache option" where
  "sharded_Erase key c =
     (let hash = HashSlice key in
      do {s \<leftarrow> lru_Erase key hash (sc_shard c ! Shard hash); Some (set_shard c (Shard hash) s)})"

definition sharded_Value :: "cache_handle \<Rightarrow> 'v ShardedLRUCache \<Rightarrow> 'v option" where
  "sharded_Value h c = map_option lh_value (lc_handles (sc_shard c ! Shard (handle_hash h)) (handle_entry h))"

definition sharded_NewId :: "'v ShardedLRUCache \<Rightarrow> u64 \<times> 'v ShardedLRUCache" where
  "sharded_NewId c = (let n = sc_last_id c + 1 in (n, c\<lparr>sc_last_id := n\<rparr>))"

fun prune_shards :: "'v LRUCache list \<Rightarrow> 'v LRUCache list option" where
  "prune_shards [] = Some []"
| "prune_shards (s # ss) = do {s \<leftarrow> lru_Prune s; ss \<leftarrow> prune_shards ss; Some (s # ss)}"

definition sharded_Prune :: "'v ShardedLRUCache \<Rightarrow> 'v ShardedLRUCache option" where
  "sharded_Prune c = do {ss \<leftarrow> prune_shards (sc_shard c); Some (c\<lparr>sc_shard := ss\<rparr>)}"

text \<open>The destructors of the shards.\<close>

fun destroy_shards :: "'v LRUCache list \<Rightarrow> 'v LRUCache list option" where
  "destroy_shards [] = Some []"
| "destroy_shards (s # ss) = do {s \<leftarrow> lru_destroy s; ss \<leftarrow> destroy_shards ss; Some (s # ss)}"

definition sharded_TotalCharge :: "'v ShardedLRUCache \<Rightarrow> u64" where
  "sharded_TotalCharge c = sum_list (map lc_usage (sc_shard c))"

definition ShardedLRU :: "('v ShardedLRUCache, cache_handle, 'v) Cache" where
  "ShardedLRU = \<lparr>c_Insert = sharded_Insert, c_Lookup = sharded_Lookup, c_Release = sharded_Release, c_Value = sharded_Value,
     c_Erase = sharded_Erase, c_NewId = sharded_NewId, c_Prune = sharded_Prune, c_TotalCharge = sharded_TotalCharge\<rparr>"

end
