(* ===== verification/Ldb_Cache_Correct.thy ===== *)
theory Ldb_Cache_Correct
  imports Ldb_Cache "HOL-Library.Multiset"
begin

text \<open>
  The sharded LRU cache keeps its invariant and the contract of a cache: an entry that a client holds is never freed,
  the charges add up modulo \<open>2 ^ 64\<close>, and entries are evicted from the oldest on. A cache without capacity does not.
\<close>

section \<open>The hash table\<close>

definition members :: "HandleTable \<Rightarrow> nat set" where
  "members t = set (concat (ht_list t))"

definition entry_matches :: "'v handles \<Rightarrow> slice \<Rightarrow> u32 \<Rightarrow> nat \<Rightarrow> bool" where
  "entry_matches hs key hash a = (case hs a of None \<Rightarrow> False | Some e \<Rightarrow> lh_hash e = hash \<and> lh_key e = key)"

text \<open>All entries of the table have been put on a list.\<close>

definition chained :: "'v handles \<Rightarrow> HandleTable \<Rightarrow> bool" where
  "chained hs t \<longleftrightarrow> (\<forall>i < length (ht_list t). \<forall>a \<in> set (ht_list t ! i). \<exists>e. hs a = Some e \<and> lh_linked e \<and> bucket_of t (lh_hash e) = i)"

definition unique_keys :: "'v handles \<Rightarrow> nat set \<Rightarrow> bool" where
  "unique_keys hs A \<longleftrightarrow> (\<forall>key hash. \<forall>a \<in> A. \<forall>b \<in> A. entry_matches hs key hash a \<longrightarrow> entry_matches hs key hash b \<longrightarrow> a = b)"

definition table_ok :: "'v handles \<Rightarrow> HandleTable \<Rightarrow> bool" where
  "table_ok hs t \<longleftrightarrow> ht_list t \<noteq> [] \<and> distinct (concat (ht_list t)) \<and> unat (ht_elems t) = length (concat (ht_list t))
     \<and> chained hs t \<and> unique_keys hs (members t)"

lemma unique_keys_mono: "unique_keys hs B \<Longrightarrow> A \<subseteq> B \<Longrightarrow> unique_keys hs A"
  unfolding unique_keys_def by blast

lemma entry_matchesD: "entry_matches hs key hash a \<Longrightarrow> \<exists>e. hs a = Some e \<and> lh_hash e = hash \<and> lh_key e = key"
  by (simp add: entry_matches_def split: option.splits)

lemma entry_matchesI: "hs a = Some e \<Longrightarrow> entry_matches hs (lh_key e) (lh_hash e) a"
  by (simp add: entry_matches_def)

lemma unat_and_less: "unat (h AND of_nat n :: u32) \<le> n"
proof -
  have "unat (h AND of_nat n :: u32) \<le> unat (of_nat n :: u32)" by (simp add: word_and_le1 flip: word_le_nat_alt)
  also have "\<dots> \<le> n" by (simp add: unat_of_nat)
  finally show ?thesis .
qed

lemma bucket_less: "ht_list t \<noteq> [] \<Longrightarrow> bucket_of t hash < length (ht_list t)"
  using unat_and_less [of hash "length (ht_list t) - 1"] by (cases "ht_list t") (simp_all add: bucket_of_def le_imp_less_Suc)

lemma bucket_of_list: "length (ht_list t) = length (ht_list t') \<Longrightarrow> bucket_of t h = bucket_of t' h"
  by (simp add: bucket_of_def)

lemma members_bucket: "i < length (ht_list t) \<Longrightarrow> a \<in> set (ht_list t ! i) \<Longrightarrow> a \<in> members t"
  by (auto simp: members_def)

lemma member_bucket:
  assumes "table_ok hs t" "a \<in> members t"
  obtains e where "hs a = Some e" "lh_linked e" "a \<in> set (ht_list t ! bucket_of t (lh_hash e))"
proof -
  obtain i where "i < length (ht_list t)" "a \<in> set (ht_list t ! i)" using assms(2) by (auto simp: members_def in_set_conv_nth [of _ "ht_list t"])
  with assms(1) that show ?thesis unfolding table_ok_def chained_def by metis
qed

lemma find_pointer_split:
  assumes "\<forall>a \<in> set chain. \<exists>e. hs a = Some e \<and> lh_linked e"
  shows "find_pointer hs key hash chain = Some (takeWhile (\<lambda>a. \<not> entry_matches hs key hash a) chain,
    dropWhile (\<lambda>a. \<not> entry_matches hs key hash a) chain)"
  using assms
proof (induction chain)
  case (Cons a chain)
  obtain e where e: "hs a = Some e" "lh_linked e" using Cons.prems by auto
  then have "entry_matches hs key hash a \<longleftrightarrow> lh_hash e = hash \<and> slice_eq key (lh_key e)" by (auto simp: entry_matches_def slice_eq_iff)
  with Cons e show ?case by (simp add: handle_key_def)
qed simp

lemma find_cases:
  assumes "table_ok hs t"
  obtains (none) before where "FindPointer hs key hash t = Some (before, [])" "before = ht_list t ! bucket_of t hash"
      "\<forall>a \<in> members t. \<not> entry_matches hs key hash a"
  | (found) before a after where "FindPointer hs key hash t = Some (before, a # after)" "ht_list t ! bucket_of t hash = before @ a # after"
      "a \<in> members t" "entry_matches hs key hash a" "\<forall>b \<in> members t. entry_matches hs key hash b \<longrightarrow> b = a"
proof -
  let ?chain = "ht_list t ! bucket_of t hash" and ?stop = "\<lambda>a. \<not> entry_matches hs key hash a"
  have len: "bucket_of t hash < length (ht_list t)" using assms by (simp add: bucket_less table_ok_def)
  have inchain: "b \<in> set ?chain" if "b \<in> members t" "entry_matches hs key hash b" for b
    using that member_bucket [OF assms that(1)] entry_matchesD [OF that(2)] by force
  have "\<forall>b \<in> set ?chain. \<exists>e. hs b = Some e \<and> lh_linked e" using assms len unfolding table_ok_def chained_def by blast
  then have run: "FindPointer hs key hash t = Some (takeWhile ?stop ?chain, dropWhile ?stop ?chain)"
    by (simp only: FindPointer_def find_pointer_split)
  show ?thesis
  proof (cases "dropWhile ?stop ?chain")
    case Nil
    then have stop: "\<forall>b \<in> set ?chain. ?stop b" by simp
    then have "takeWhile ?stop ?chain = ?chain" unfolding takeWhile_eq_all_conv .
    with Nil have "FindPointer hs key hash t = Some (?chain, [])" unfolding run by simp
    then show ?thesis using stop inchain by (intro none [of ?chain]) blast+
  next
    case (Cons a after)
    then have parts: "?chain = takeWhile ?stop ?chain @ a # after" by (metis takeWhile_dropWhile_id)
    have a: "entry_matches hs key hash a" using Cons by (metis hd_dropWhile list.distinct(1) list.sel(1))
    have mem: "a \<in> members t" using parts members_bucket [OF len] by (metis in_set_conv_decomp)
    have "\<forall>b \<in> members t. entry_matches hs key hash b \<longrightarrow> b = a"
      using assms a mem unfolding table_ok_def unique_keys_def by blast
    moreover have "FindPointer hs key hash t = Some (takeWhile ?stop ?chain, a # after)" using Cons unfolding run by simp
    ultimately show ?thesis using parts a mem by (intro found [of "takeWhile ?stop ?chain" a after]) blast+
  qed
qed

lemma table_Lookup_spec:
  assumes "table_ok hs t"
  shows "\<exists>r. table_Lookup hs key hash t = Some r \<and> (case r of None \<Rightarrow> \<forall>a \<in> members t. \<not> entry_matches hs key hash a
    | Some a \<Rightarrow> a \<in> members t \<and> entry_matches hs key hash a)"
proof (rule find_cases [OF assms, of key hash])
  fix before
  assume "FindPointer hs key hash t = Some (before, [])" "\<forall>a \<in> members t. \<not> entry_matches hs key hash a"
  then show ?thesis by (simp add: table_Lookup_def)
next
  fix before a after
  assume "FindPointer hs key hash t = Some (before, a # after)" "a \<in> members t" "entry_matches hs key hash a"
  then show ?thesis by (simp add: table_Lookup_def)
qed

text \<open>Replacing the chain of a hash.\<close>

lemma concat_update:
  assumes "i < length xss"
  shows "mset (concat (xss[i := ys])) + mset (xss ! i) = mset (concat xss) + mset ys"
proof -
  have "xss = take i xss @ xss ! i # drop (Suc i) xss" by (rule id_take_nth_drop [OF assms])
  then have "mset (concat xss) = mset (concat (take i xss)) + mset (xss ! i) + mset (concat (drop (Suc i) xss))"
    by (metis concat.simps(2) concat_append mset_append add.assoc)
  then show ?thesis using assms by (simp add: upd_conv_take_nth_drop)
qed

lemma table_Remove_runs:
  assumes "table_ok hs t"
  obtains r t' where "table_Remove hs key hash t = Some (r, t')"
proof (rule find_cases [OF assms, of key hash])
  fix before
  assume "FindPointer hs key hash t = Some (before, [])"
  then show ?thesis by (intro that [of None t]) (simp add: table_Remove_def)
next
  fix before a after
  assume "FindPointer hs key hash t = Some (before, a # after)"
  then show ?thesis by (intro that [of "Some a"]) (simp add: table_Remove_def)
qed

lemma table_Remove_spec:
  assumes "table_ok hs t" "table_Remove hs key hash t = Some (r, t')"
  shows "table_ok hs t' \<and> (case r of None \<Rightarrow> t' = t \<and> (\<forall>a \<in> members t. \<not> entry_matches hs key hash a)
    | Some a \<Rightarrow> a \<in> members t \<and> entry_matches hs key hash a \<and> members t' = members t - {a})"
proof (rule find_cases [OF assms(1), of key hash])
  fix before
  assume "FindPointer hs key hash t = Some (before, [])" "\<forall>a \<in> members t. \<not> entry_matches hs key hash a"
  with assms show ?thesis by (auto simp: table_Remove_def)
next
  fix before a after
  let ?i = "bucket_of t hash"
  assume f: "FindPointer hs key hash t = Some (before, a # after)" "ht_list t ! ?i = before @ a # after" "a \<in> members t"
    "entry_matches hs key hash a"
  have i: "?i < length (ht_list t)" using assms(1) by (simp add: bucket_less table_ok_def)
  have t': "r = Some a" "t' = t\<lparr>ht_list := (ht_list t)[?i := before @ after], ht_elems := ht_elems t - 1\<rparr>"
    using assms(2) f(1) by (auto simp: table_Remove_def)
  have "mset (concat (ht_list t')) + {#a#} = mset (concat (ht_list t))"
    using concat_update [OF i, of "before @ after"] f(2) t'(2) by simp
  then have m: "mset (concat (ht_list t')) = mset (concat (ht_list t)) - {#a#}" by (metis add_diff_cancel_right')
  have dist: "distinct (concat (ht_list t))" using assms(1) by (simp add: table_ok_def)
  have "set (concat (ht_list t')) = set (concat (ht_list t)) - {a}"
    by (metis m dist distinct_remove1_removeAll mset_remove1 set_mset_mset set_removeAll)
  moreover have "distinct (concat (ht_list t'))" by (metis m dist distinct_remove1 mset_eq_imp_distinct_iff mset_remove1)
  moreover have "length (concat (ht_list t')) = unat (ht_elems t')"
  proof -
    have "length (concat (ht_list t')) = length (concat (ht_list t)) - 1"
      using m f(3) by (metis members_def set_mset_mset size_Diff_singleton size_mset)
    moreover have elems: "unat (ht_elems t) = length (concat (ht_list t))" using assms(1) by (simp add: table_ok_def)
    moreover have "concat (ht_list t) \<noteq> []" using f(3) unfolding members_def by (metis empty_iff list.set(1))
    moreover from this elems have "ht_elems t \<noteq> 0" by (metis length_0_conv unat_0)
    ultimately show ?thesis using t'(2) by (simp add: unat_minus_one)
  qed
  moreover have "unique_keys hs (members t')"
    using assms(1) calculation(1) unique_keys_mono [of hs "members t" "members t'"] by (auto simp: table_ok_def members_def)
  moreover have "\<exists>e. hs b = Some e \<and> lh_linked e \<and> bucket_of t' (lh_hash e) = j" if "j < length (ht_list t')" "b \<in> set (ht_list t' ! j)" for j b
  proof -
    have "b \<in> set (ht_list t ! j)" "j < length (ht_list t)" using that i f(2) t'(2) by (cases "j = ?i"; auto)+
    then show ?thesis using assms(1) bucket_of_list [of t' t] t'(2) by (auto simp: table_ok_def chained_def)
  qed
  then have "chained hs t'" by (simp add: chained_def)
  ultimately show ?thesis
    using assms(1) t' f(3,4) by (auto simp: table_ok_def members_def)
qed

lemma new_length_some:
  assumes "unat elems \<le> 2 ^ 31" "k \<le> 31"
  shows "\<exists>m. new_length (2 ^ k) elems = Some m \<and> m \<noteq> 0"
  using assms(2)
proof (induction "31 - k" arbitrary: k)
  case (Suc n)
  then have k: "Suc k \<le> 31" "n = 31 - Suc k" by simp_all
  from Suc.hyps(1) [OF k(2,1)] have "\<exists>m. new_length (2 ^ k * 2) elems = Some m \<and> m \<noteq> 0" by (simp add: mult.commute)
  moreover have "(2 :: u32) ^ k \<noteq> 0" using k(1) by simp
  ultimately show ?case by (subst new_length.simps) auto
next
  case 0
  then have "k = 31" using assms(2) by simp
  with assms(1) show ?case by (subst new_length.simps) (simp add: word_less_nat_alt)
qed

definition placed :: "'v handles \<Rightarrow> nat list list \<Rightarrow> bool" where
  "placed hs L \<longleftrightarrow> (\<forall>i < length L. \<forall>a \<in> set (L ! i). \<exists>e. hs a = Some e \<and> unat (lh_hash e AND of_nat (length L - 1)) = i)"

definition push_entry :: "'v handles \<Rightarrow> nat \<Rightarrow> nat \<Rightarrow> nat list list \<Rightarrow> nat list list" where
  "push_entry hs n h L = (case hs h of None \<Rightarrow> L
     | Some e \<Rightarrow> let i = unat (lh_hash e AND of_nat (n - 1)) in L[i := h # L ! i])"

lemma push_entries:
  assumes "0 < length L" "\<forall>h \<in> set xs. hs h \<noteq> None" "placed hs L"
  shows "placed hs (fold (push_entry hs (length L)) xs L) \<and> length (fold (push_entry hs (length L)) xs L) = length L
    \<and> mset (concat (fold (push_entry hs (length L)) xs L)) = mset (concat L) + mset xs"
  using assms
proof (induction xs arbitrary: L)
  case (Cons h xs)
  obtain e where e: "hs h = Some e" using Cons.prems(2) by auto
  define i where "i = unat (lh_hash e AND of_nat (length L - 1))"
  have i: "i < length L" unfolding i_def using le_less_trans [OF unat_and_less [of "lh_hash e" "length L - 1"], of "length L"] Cons.prems(1) by linarith
  have push: "push_entry hs (length L) h L = L[i := h # L ! i]" by (simp add: push_entry_def e Let_def i_def)
  have len: "length (L[i := h # L ! i]) = length L" by simp
  have "\<exists>e. hs a = Some e \<and> unat (lh_hash e AND of_nat (length L - 1)) = j" if "j < length L" "a \<in> set (L[i := h # L ! i] ! j)" for j a
    using that Cons.prems(3) e i i_def by (cases "j = i") (auto simp only: placed_def nth_list_update_eq nth_list_update_neq set_simps)
  then have "placed hs (L[i := h # L ! i])" by (simp only: placed_def length_list_update) blast
  moreover have "mset (concat (L[i := h # L ! i])) = mset (concat L) + {#h#}" using concat_update [OF i, of "h # L ! i"] by simp
  ultimately show ?case using Cons.IH [of "L[i := h # L ! i]"] Cons.prems(1,2) push by simp
qed simp

lemma table_Resize_spec:
  assumes "table_ok hs t" "unat (ht_elems t) \<le> 2 ^ 31"
  shows "\<exists>t'. table_Resize hs t = Some t' \<and> table_ok hs t' \<and> members t' = members t"
proof -
  let ?xs = "concat (ht_list t)"
  obtain n where n: "new_length 4 (ht_elems t) = Some n" "n \<noteq> 0" using new_length_some [OF assms(2), of 2] by auto
  let ?n = "unat n"
  have pos: "0 < ?n" using n(2) by (simp add: unat_gt_0)
  then have mask: "of_nat (?n - 1) = n - 1" by (simp add: of_nat_diff)
  let ?L = "fold (push_entry hs ?n) ?xs (replicate ?n [])"
  have live: "\<forall>h \<in> set ?xs. hs h \<noteq> None" using member_bucket [OF assms(1)] by (metis members_def option.distinct(1))
  moreover have "placed hs (replicate ?n [])" by (simp add: placed_def)
  ultimately have L: "placed hs ?L" "length ?L = ?n" "mset (concat ?L) = mset ?xs"
    using push_entries [of "replicate ?n []" ?xs hs] pos by simp_all
  have t': "table_Resize hs t = Some (t\<lparr>ht_list := ?L\<rparr>)"
    using live unfolding table_Resize_def push_entry_def [abs_def] Let_def n(1) mask list_all_iff by simp
  have "distinct (concat ?L)" "set (concat ?L) = set ?xs" "length (concat ?L) = length ?xs"
    using L(3) assms(1) mset_eq_imp_distinct_iff [OF L(3)] mset_eq_setD [OF L(3)] mset_eq_length [OF L(3)] by (simp_all only: table_ok_def)
  moreover have "?L \<noteq> []" using L(2) pos by auto
  moreover have "\<exists>e. hs a = Some e \<and> lh_linked e" if "a \<in> set (concat ?L)" for a
    using that \<open>set (concat ?L) = set ?xs\<close> member_bucket [OF assms(1), of a] by (metis members_def)
  ultimately show ?thesis
    using assms(1) L(1) unfolding t' by (fastforce simp: table_ok_def members_def chained_def placed_def bucket_of_def)
qed

lemma swap_element: "M + {#a#} = N + {#h#} \<Longrightarrow> N = add_mset a Q \<Longrightarrow> M = add_mset h Q"
  by simp

lemma table_Insert_spec:
  assumes "table_ok hs t" "unat (ht_elems t) < max_entries" "hs h = Some e" "h \<notin> members t" and linked: "lh_linked e"
  shows "\<exists>r t'. table_Insert hs h t = Some (r, t') \<and> table_ok hs t' \<and> (case r of
      None \<Rightarrow> (\<forall>a \<in> members t. \<not> entry_matches hs (lh_key e) (lh_hash e) a) \<and> members t' = insert h (members t)
    | Some a \<Rightarrow> a \<in> members t \<and> entry_matches hs (lh_key e) (lh_hash e) a \<and> members t' = insert h (members t - {a}))"
proof -
  let ?i = "bucket_of t (lh_hash e)"
  have i: "?i < length (ht_list t)" using assms(1) by (simp add: bucket_less table_ok_def)
  have dist: "distinct (concat (ht_list t))" and elems: "unat (ht_elems t) = length (concat (ht_list t))" using assms(1) by (simp_all add: table_ok_def)
  have chained: "chained hs (t\<lparr>ht_list := (ht_list t)[?i := c], ht_elems := n\<rparr>)" if "set c \<subseteq> insert h (set (ht_list t ! ?i))" for c n
  proof -
    have "\<exists>e. hs a = Some e \<and> lh_linked e \<and> bucket_of t (lh_hash e) = j" if "j < length (ht_list t)" "a \<in> set ((ht_list t)[?i := c] ! j)" for j a
      using assms(1,3) linked i that \<open>set c \<subseteq> _\<close> by (cases "j = ?i") (auto simp: table_ok_def chained_def)
    then show ?thesis by (simp add: chained_def bucket_of_def)
  qed
  show ?thesis
  proof (rule find_cases [OF assms(1), of "lh_key e" "lh_hash e"])
    fix before
    assume f: "FindPointer hs (lh_key e) (lh_hash e) t = Some (before, [])" "before = ht_list t ! ?i"
      "\<forall>a \<in> members t. \<not> entry_matches hs (lh_key e) (lh_hash e) a"
    let ?t = "t\<lparr>ht_list := (ht_list t)[?i := before @ [h]], ht_elems := ht_elems t + 1\<rparr>"
    have run: "table_Insert hs h t = (if unat (ht_elems ?t) > length (ht_list ?t) then do {t \<leftarrow> table_Resize hs ?t; Some (None, t)} else Some (None, ?t))"
      using assms(3) linked f(1) by (simp add: table_Insert_def Let_def handle_key_def)
    have succ: "unat (ht_elems t + 1) = Suc (unat (ht_elems t))"
      using assms(2) by (subst unat_add_lem [THEN iffD1]) (simp_all add: max_entries_def)
    have m: "mset (concat (ht_list ?t)) = mset (concat (ht_list t)) + {#h#}"
      using concat_update [OF i, of "before @ [h]"] f(2) by simp
    then have set: "members ?t = insert h (members t)" unfolding members_def by (metis set_mset_add_mset_insert add_mset_add_single set_mset_mset)
    have "mset (concat (ht_list ?t)) = mset (h # concat (ht_list t))" using m by simp
    moreover have "distinct (h # concat (ht_list t))" using dist assms(4) by (simp add: members_def)
    ultimately have d: "distinct (concat (ht_list ?t))" "length (concat (ht_list ?t)) = Suc (length (concat (ht_list t)))"
      by (metis mset_eq_imp_distinct_iff, metis mset_eq_length length_Cons)
    have "unique_keys hs (members ?t)"
      using assms(1,3) f(3) entry_matchesD unfolding table_ok_def unique_keys_def set by (metis insert_iff option.inject)
    then have ok: "table_ok hs ?t" using d elems succ i chained [of "before @ [h]"] f(2) by (auto simp: table_ok_def)
    show ?thesis
    proof (cases "unat (ht_elems ?t) > length (ht_list ?t)")
      case False
      then show ?thesis using run ok set f(3) by simp
    next
      case True
      have "unat (ht_elems ?t) \<le> 2 ^ 31" using assms(2) succ by (simp add: max_entries_def)
      from table_Resize_spec [OF ok this] obtain t' where "table_Resize hs ?t = Some t'" "table_ok hs t'" "members t' = members ?t" by blast
      then show ?thesis using True run set f(3) by simp
    qed
  next
    fix before a after
    assume f: "FindPointer hs (lh_key e) (lh_hash e) t = Some (before, a # after)" "ht_list t ! ?i = before @ a # after" "a \<in> members t"
      "entry_matches hs (lh_key e) (lh_hash e) a" "\<forall>b \<in> members t. entry_matches hs (lh_key e) (lh_hash e) b \<longrightarrow> b = a"
    let ?t = "t\<lparr>ht_list := (ht_list t)[?i := before @ h # after]\<rparr>"
    have run: "table_Insert hs h t = Some (Some a, ?t)" using assms(3) linked f(1) by (simp add: table_Insert_def handle_key_def)
    have "mset (concat (ht_list ?t)) + {#a#} = mset (concat (ht_list t)) + {#h#}"
      using concat_update [OF i, of "before @ h # after"] f(2) by simp
    moreover have "mset (concat (ht_list t)) = add_mset a (mset (remove1 a (concat (ht_list t))))"
      using f(3) by (simp add: members_def)
    ultimately have "mset (concat (ht_list ?t)) = add_mset h (mset (remove1 a (concat (ht_list t))))" by (rule swap_element)
    then have m: "mset (concat (ht_list ?t)) = mset (h # remove1 a (concat (ht_list t)))" by (simp only: mset.simps)
    have set1: "set (remove1 a (concat (ht_list t))) = members t - {a}" using dist by (simp add: members_def)
    then have set: "members ?t = insert h (members t - {a})" using mset_eq_setD [OF m] by (simp add: members_def)
    have "distinct (h # remove1 a (concat (ht_list t)))" using dist assms(4) set1 by simp
    then have d: "distinct (concat (ht_list ?t))" "length (concat (ht_list ?t)) = length (concat (ht_list t))"
      using mset_eq_imp_distinct_iff [OF m] mset_eq_length [OF m] f(3) length_pos_if_in_set [of a "concat (ht_list t)"]
      by (simp_all only: members_def length_remove1 length_Cons if_True Suc_pred One_nat_def)
    have "unique_keys hs (members ?t)"
      using assms(1,3) f(5) entry_matchesD unfolding table_ok_def unique_keys_def set by (metis insert_iff option.inject Diff_iff)
    moreover have "chained hs ?t" using chained [of "before @ h # after" "ht_elems t"] f(2) by auto
    ultimately have "table_ok hs ?t" using d elems i by (auto simp: table_ok_def)
    then show ?thesis using run set f(3,4) by simp
  qed
qed

lemma table_ok_cong:
  assumes "table_ok hs t" "\<And>a. a \<in> members t \<Longrightarrow> map_option (\<lambda>e. (lh_key e, lh_hash e, lh_linked e)) (hs' a)
    = map_option (\<lambda>e. (lh_key e, lh_hash e, lh_linked e)) (hs a)"
  shows "table_ok hs' t"
proof -
  have "entry_matches hs' key hash a = entry_matches hs key hash a" if "a \<in> members t" for key hash a
    using assms(2) [OF that] by (auto simp: entry_matches_def split: option.splits)
  then have "unique_keys hs' (members t)" using assms(1) by (simp add: table_ok_def unique_keys_def)
  moreover have "chained hs' t"
    using assms members_bucket [of _ t] by (fastforce simp: table_ok_def chained_def map_option_eq_Some)
  ultimately show ?thesis using assms(1) by (simp add: table_ok_def)
qed

section \<open>A shard\<close>

text \<open>The sum of the charges, which the usage is modulo \<open>2 ^ 64\<close>.\<close>

definition charges :: "'v LRUCache \<Rightarrow> nat" where
  "charges c = (\<Sum>a \<in> members (lc_table c). case lc_handles c a of None \<Rightarrow> 0 | Some e \<Rightarrow> unat (lh_charge e))"

definition entry_ok :: "'v LRUCache \<Rightarrow> nat \<Rightarrow> 'v LRUHandle \<Rightarrow> bool" where
  "entry_ok c a e \<longleftrightarrow> a < lc_next c \<and> lh_refs e \<noteq> 0 \<and> lh_linked e \<and> (lh_in_cache e \<longleftrightarrow> a \<in> members (lc_table c)) \<and> lh_hash e = HashSlice (lh_key e)
     \<and> (a \<in> set (lc_lru c) \<longleftrightarrow> lh_in_cache e \<and> lh_refs e = 1) \<and> (a \<in> set (lc_in_use c) \<longleftrightarrow> lh_in_cache e \<and> lh_refs e \<noteq> 1)"

definition lru_ok :: "'v LRUCache \<Rightarrow> bool" where
  "lru_ok c \<longleftrightarrow> table_ok (lc_handles c) (lc_table c) \<and> distinct (lc_lru c @ lc_in_use c)
     \<and> set (lc_lru c @ lc_in_use c) = members (lc_table c)
     \<and> (\<forall>a e. lc_handles c a = Some e \<longrightarrow> entry_ok c a e) \<and> lc_usage c = of_nat (charges c)"

definition lru_has :: "'v LRUCache \<Rightarrow> slice \<Rightarrow> 'v \<Rightarrow> bool" where
  "lru_has c k v \<longleftrightarrow> (\<exists>a e. lc_handles c a = Some e \<and> lh_in_cache e \<and> lh_key e = k \<and> lh_value e = v)"

lemma replicate_mset_add: "Suc 0 \<le> n \<Longrightarrow> replicate_mset n v = add_mset v (replicate_mset (n - Suc 0) v)"
  by (cases n) simp_all

lemma replicate_mset_sub: "replicate_mset n v - {#v#} = replicate_mset (n - Suc 0) v"
  by (cases n) simp_all

text \<open>What clients hold through a handle, one element per reference; and the entries that have been deleted or are still there.\<close>

definition clients :: "'v LRUCache \<Rightarrow> cache_handle \<Rightarrow> 'v multiset" where
  "clients c h = (case lc_handles c (handle_entry h) of None \<Rightarrow> {#}
     | Some e \<Rightarrow> if lh_hash e = handle_hash h then replicate_mset (unat (lh_refs e) - (if lh_in_cache e then 1 else 0)) (lh_value e) else {#})"

definition accounted :: "'v LRUCache \<Rightarrow> (slice \<times> 'v) multiset" where
  "accounted c = mset (lc_deleted c)
     + image_mset (\<lambda>a. (lh_key (the (lc_handles c a)), lh_value (the (lc_handles c a)))) (mset_set (dom (lc_handles c)))"

text \<open>The parts that only \<^verbatim>\<open>Insert\<close> changes, and that no other handle is touched.\<close>

definition same_rest :: "nat set \<Rightarrow> 'v LRUCache \<Rightarrow> 'v LRUCache \<Rightarrow> bool" where
  "same_rest A c c' \<longleftrightarrow> (\<forall>b. b \<notin> A \<longrightarrow> lc_handles c' b = lc_handles c b) \<and> lc_next c' = lc_next c \<and> lc_capacity c' = lc_capacity c
     \<and> accounted c' = accounted c"

lemma accounted_upd:
  assumes "lc_handles c a = Some e" "lc_handles c' = (lc_handles c)(a \<mapsto> d)" "lh_key d = lh_key e" "lh_value d = lh_value e"
    "lc_deleted c' = lc_deleted c"
  shows "accounted c' = accounted c"
proof -
  have "dom (lc_handles c') = dom (lc_handles c)" using assms(1,2) by auto
  then show ?thesis using assms by (auto simp: accounted_def intro: image_mset_cong)
qed

lemma finite_handles:
  assumes "lru_ok c"
  shows "finite (dom (lc_handles c))"
proof (rule finite_subset)
  show "dom (lc_handles c) \<subseteq> {..<lc_next c}" using assms by (auto simp: lru_ok_def entry_ok_def)
qed simp

lemma accounted_free:
  assumes "finite (dom (lc_handles c))" "lc_handles c a = Some e" "lc_handles c' = (lc_handles c)(a := None)" "lc_deleted c' = lc_deleted c @ [(lh_key e, lh_value e)]"
  shows "accounted c' = accounted c"
proof -
  let ?f = "\<lambda>c a. (lh_key (the (lc_handles c a)), lh_value (the (lc_handles c a)))"
  have "mset_set (dom (lc_handles c)) = add_mset a (mset_set (dom (lc_handles c) - {a}))"
    using assms(1,2) by (simp add: mset_set.remove domI)
  moreover have "image_mset (?f c') (mset_set (dom (lc_handles c) - {a})) = image_mset (?f c) (mset_set (dom (lc_handles c) - {a}))"
    using assms(1,3) by (intro image_mset_cong) auto
  moreover have "dom (lc_handles c') = dom (lc_handles c) - {a}" using assms(3) by auto
  ultimately show ?thesis using assms(2,4) by (simp add: accounted_def)
qed

lemma accounted_new:
  assumes "lru_ok c" "lc_handles c a = None" "lc_handles c' = (lc_handles c)(a \<mapsto> e)" "lc_deleted c' = lc_deleted c"
  shows "accounted c' = add_mset (lh_key e, lh_value e) (accounted c)"
proof -
  let ?f = "\<lambda>c a. (lh_key (the (lc_handles c a)), lh_value (the (lc_handles c a)))"
  have "dom (lc_handles c') = insert a (dom (lc_handles c))" using assms(3) by auto
  moreover have "image_mset (?f c') (mset_set (dom (lc_handles c))) = image_mset (?f c) (mset_set (dom (lc_handles c)))"
    using finite_handles [OF assms(1)] assms(2,3) by (intro image_mset_cong) auto
  ultimately show ?thesis using finite_handles [OF assms(1)] assms(2-4) by (simp add: accounted_def domIff)
qed

lemma member_entry:
  assumes "lru_ok c" "a \<in> members (lc_table c)"
  obtains e where "lc_handles c a = Some e" "lh_in_cache e"
  using assms member_bucket [of "lc_handles c" "lc_table c" a] by (metis entry_ok_def lru_ok_def)

lemma new_ok: "lru_ok (SetCapacity n LRUCache_new)" "\<not> lru_has (SetCapacity n LRUCache_new) k v"
  by (auto simp: lru_ok_def SetCapacity_def LRUCache_new_def table_ok_def chained_def unique_keys_def members_def HandleTable_new_def
      charges_def lru_has_def)

text \<open>Putting an entry on a list once more only changes the list.\<close>

lemma linked_append:
  assumes "lc_handles c a = Some e" "lh_linked e"
  shows "LRU_Append_lru a c = c\<lparr>lc_lru := lc_lru c @ [a]\<rparr>" "LRU_Append_in_use a c = c\<lparr>lc_in_use := lc_in_use c @ [a]\<rparr>"
proof -
  have "e\<lparr>lh_linked := True\<rparr> = e" using assms(2) by (cases e) simp
  then have "(lc_handles c)(a := map_option (\<lambda>e. e\<lparr>lh_linked := True\<rparr>) (lc_handles c a)) = lc_handles c"
    using assms(1) by auto
  then show "LRU_Append_lru a c = c\<lparr>lc_lru := lc_lru c @ [a]\<rparr>" "LRU_Append_in_use a c = c\<lparr>lc_in_use := lc_in_use c @ [a]\<rparr>"
    by (simp_all add: LRU_Append_lru_def LRU_Append_in_use_def set_linked_def)
qed

text \<open>An entry is given back by a client or by the cache.\<close>

lemma Unref_ok:
  assumes "lru_ok c" "lc_handles c a = Some e" "lh_in_cache e \<Longrightarrow> lh_refs e \<noteq> 1"
  shows "\<exists>c'. lru_Unref a c = Some c' \<and> lru_ok c' \<and> same_rest {a} c c' \<and> lc_table c' = lc_table c \<and> lc_usage c' = lc_usage c
    \<and> (lh_refs e \<noteq> 1 \<longrightarrow> lc_handles c' a = Some (e\<lparr>lh_refs := lh_refs e - 1\<rparr>))
    \<and> (lh_refs e = 1 \<longrightarrow> lc_handles c' a = None)
    \<and> (\<not> lh_in_cache e \<longrightarrow> lc_lru c' = lc_lru c)"
proof -
  have e: "entry_ok c a e" and tab: "table_ok (lc_handles c) (lc_table c)" and lists: "distinct (lc_lru c @ lc_in_use c)"
    "set (lc_lru c @ lc_in_use c) = members (lc_table c)" and others: "\<And>b d. lc_handles c b = Some d \<Longrightarrow> entry_ok c b d"
    and usage: "lc_usage c = of_nat (charges c)"
    using assms(1,2) by (auto simp: lru_ok_def)
  show ?thesis
  proof (cases "lh_refs e = 1")
    case True
    then have out: "a \<notin> members (lc_table c)" using assms(3) e by (auto simp: entry_ok_def)
    let ?c = "c\<lparr>lc_deleted := lc_deleted c @ [(lh_key e, lh_value e)], lc_handles := (lc_handles c)(a := None)\<rparr>"
    have "table_ok (lc_handles ?c) (lc_table ?c)" using tab out by (auto intro: table_ok_cong)
    moreover have "charges ?c = charges c" using out by (auto simp: charges_def intro: sum.cong)
    moreover have "entry_ok ?c b d" if "lc_handles ?c b = Some d" for b d
      using that others by (auto simp: entry_ok_def split: if_splits)
    ultimately have "lru_ok ?c" using lists usage by (simp add: lru_ok_def)
    moreover have "lru_Unref a c = Some ?c" using True assms(2) e by (simp add: lru_Unref_def handle_key_def entry_ok_def)
    moreover have "accounted ?c = accounted c" by (rule accounted_free [OF finite_handles [OF assms(1)] assms(2)]) simp_all
    ultimately show ?thesis using True by (auto simp: same_rest_def)
  next
    case False
    let ?e = "e\<lparr>lh_refs := lh_refs e - 1\<rparr>"
    let ?h = "(lc_handles c)(a \<mapsto> ?e)"
    let ?c = "c\<lparr>lc_handles := ?h\<rparr>"
    have refs: "lh_refs e \<noteq> 0" "lh_linked e" using e by (simp_all add: entry_ok_def)
    have tab': "table_ok ?h (lc_table c)" using tab assms(2) by (auto intro: table_ok_cong)
    have ch: "charges ?c = charges c" using assms(2) by (auto simp: charges_def intro: sum.cong)
    show ?thesis
    proof (cases "lh_in_cache e \<and> lh_refs e = 2")
      case True
      then have in_use: "a \<in> set (lc_in_use c)" "a \<notin> set (lc_lru c)" using e lists(1) by (auto simp: entry_ok_def)
      let ?d = "(LRU_Remove a ?c)\<lparr>lc_lru := lc_lru (LRU_Remove a ?c) @ [a]\<rparr>"
      have append: "LRU_Append_lru a (LRU_Remove a ?c) = ?d" using refs(2) by (intro linked_append [of _ a ?e]) (simp_all add: LRU_Remove_def)
      have "lc_lru ?d = lc_lru c @ [a]" "lc_in_use ?d = filter (\<lambda>b. b \<noteq> a) (lc_in_use c)"
        using in_use(2) by (auto simp: LRU_Remove_def filter_id_conv)
      moreover have "entry_ok ?d b d" if "lc_handles ?d b = Some d" for b d
        using that others [of b] e True in_use
        by (cases "b = a") (auto simp: entry_ok_def LRU_Remove_def)
      moreover have "charges ?d = charges c" using ch by (simp add: charges_def LRU_Remove_def)
      ultimately have "lru_ok ?d"
        using tab' lists usage in_use by (auto simp: lru_ok_def LRU_Remove_def)
      moreover have "lru_Unref a c = Some ?d" using True assms(2) unfolding append [symmetric] by (simp add: lru_Unref_def Let_def)
      moreover have "accounted ?d = accounted c" by (rule accounted_upd [OF assms(2), where d = ?e]) (simp_all add: LRU_Remove_def)
      ultimately show ?thesis using True by (auto simp: same_rest_def LRU_Remove_def)
    next
      case no: False
      have "entry_ok ?c b d" if "lc_handles ?c b = Some d" for b d
        using that others [of b] e no refs False by (cases "b = a") (auto simp: entry_ok_def)
      then have "lru_ok ?c" using tab' lists usage ch by (simp add: lru_ok_def)
      moreover have "lru_Unref a c = Some ?c" using no refs False assms(2) by (auto simp: lru_Unref_def Let_def)
      moreover have "accounted ?c = accounted c" by (rule accounted_upd [OF assms(2), where d = ?e]) simp_all
      ultimately show ?thesis using False by (auto simp: same_rest_def)
    qed
  qed
qed

lemma Ref_ok:
  assumes "lru_ok c" "lc_handles c a = Some e" "lh_refs e \<noteq> - 1"
  shows "\<exists>c'. lru_Ref a c = Some c' \<and> lru_ok c' \<and> same_rest {a} c c' \<and> lc_handles c' a = Some (e\<lparr>lh_refs := lh_refs e + 1\<rparr>)
    \<and> lc_table c' = lc_table c \<and> lc_usage c' = lc_usage c"
proof -
  have e: "entry_ok c a e" and tab: "table_ok (lc_handles c) (lc_table c)" and lists: "distinct (lc_lru c @ lc_in_use c)"
    "set (lc_lru c @ lc_in_use c) = members (lc_table c)" and others: "\<And>b d. lc_handles c b = Some d \<Longrightarrow> entry_ok c b d"
    and usage: "lc_usage c = of_nat (charges c)"
    using assms(1,2) by (auto simp: lru_ok_def)
  define h where "h = (lc_handles c)(a \<mapsto> e\<lparr>lh_refs := lh_refs e + 1\<rparr>)"
  have tab': "table_ok h (lc_table c)" using tab assms(2) by (auto simp: h_def intro: table_ok_cong)
  have ch: "charges (c\<lparr>lc_handles := h\<rparr>) = charges c" using assms(2) by (auto simp: charges_def h_def intro: sum.cong)
  have refs: "lh_refs e + 1 \<noteq> 0" "lh_refs e + 1 = 1 \<longleftrightarrow> lh_refs e = 0" using assms(3) by (metis eq_neg_iff_add_eq_0, simp)
  have linked: "lh_linked e" using e by (simp add: entry_ok_def)
  show ?thesis
  proof (cases "lh_refs e = 1 \<and> lh_in_cache e")
    case True
    then have in_lru: "a \<in> set (lc_lru c)" "a \<notin> set (lc_in_use c)" using e lists(1) by (auto simp: entry_ok_def)
    let ?d = "(LRU_Remove a c)\<lparr>lc_in_use := lc_in_use (LRU_Remove a c) @ [a], lc_handles := h\<rparr>"
    have append: "LRU_Append_in_use a (LRU_Remove a c) = (LRU_Remove a c)\<lparr>lc_in_use := lc_in_use (LRU_Remove a c) @ [a]\<rparr>"
      using linked assms(2) by (intro linked_append) (simp_all add: LRU_Remove_def)
    have "entry_ok ?d b d" if "lc_handles ?d b = Some d" for b d
      using that others [of b] e True in_lru refs
      by (cases "b = a") (auto simp: entry_ok_def LRU_Remove_def h_def)
    moreover have "charges ?d = charges c" using ch by (simp add: charges_def LRU_Remove_def)
    ultimately have "lru_ok ?d"
      using tab' lists usage in_lru by (auto simp: lru_ok_def LRU_Remove_def)
    moreover have "lru_Ref a c = Some ?d" using True assms(2) by (simp add: lru_Ref_def append) (simp add: h_def LRU_Remove_def)
    moreover have "accounted ?d = accounted c" by (rule accounted_upd [OF assms(2), where d = "e\<lparr>lh_refs := lh_refs e + 1\<rparr>"]) (simp_all add: LRU_Remove_def h_def)
    ultimately show ?thesis by (auto simp: same_rest_def LRU_Remove_def h_def)
  next
    case False
    let ?d = "c\<lparr>lc_handles := h\<rparr>"
    have "entry_ok ?d b d" if "lc_handles ?d b = Some d" for b d
      using that others [of b] e False refs by (cases "b = a") (auto simp: entry_ok_def h_def)
    then have "lru_ok ?d" using tab' lists usage ch by (simp add: lru_ok_def)
    moreover have "lru_Ref a c = Some ?d" using False assms(2) by (auto simp: lru_Ref_def h_def Let_def)
    moreover have "accounted ?d = accounted c" by (rule accounted_upd [OF assms(2), where d = "e\<lparr>lh_refs := lh_refs e + 1\<rparr>"]) (simp_all add: h_def)
    ultimately show ?thesis by (auto simp: same_rest_def h_def)
  qed
qed

text \<open>The cache gives up an entry that the table does not have any more. The state before is described without the
  entry: it may be the old one of a key that has just been inserted again.\<close>

definition detached :: "nat \<Rightarrow> 'v LRUHandle \<Rightarrow> HandleTable \<Rightarrow> 'v LRUCache \<Rightarrow> 'v LRUCache" where
  "detached a e t c = (LRU_Remove a (c\<lparr>lc_table := t\<rparr>))\<lparr>lc_handles := (lc_handles c)(a \<mapsto> e\<lparr>lh_in_cache := False\<rparr>),
     lc_usage := lc_usage c - lh_charge e\<rparr>"

lemma detached_ok:
  assumes "lru_ok c" "a \<in> members (lc_table c)" "lc_handles c a = Some e" "table_ok (lc_handles c) t" "members t = members (lc_table c) - {a}"
  shows "lru_ok (detached a e t c)"
proof -
  have e: "entry_ok c a e" and lists: "distinct (lc_lru c @ lc_in_use c)"
    "set (lc_lru c @ lc_in_use c) = members (lc_table c)" and others: "\<And>b d. lc_handles c b = Some d \<Longrightarrow> entry_ok c b d"
    and usage: "lc_usage c = of_nat (charges c)"
    using assms(1,3) by (auto simp: lru_ok_def)
  let ?d = "detached a e t c"
  have "table_ok (lc_handles ?d) t" using assms(3,4) by (auto simp: detached_def intro: table_ok_cong)
  moreover have "entry_ok ?d b d" if "lc_handles ?d b = Some d" for b d
    using that others [of b] e assms(5) by (cases "b = a") (auto simp: entry_ok_def detached_def LRU_Remove_def)
  moreover have "lc_usage ?d = of_nat (charges ?d)"
  proof -
    have fin: "finite (members (lc_table c))" by (simp add: members_def)
    have "charges c = unat (lh_charge e) + (\<Sum>b \<in> members (lc_table c) - {a}. case lc_handles c b of None \<Rightarrow> 0 | Some e \<Rightarrow> unat (lh_charge e))"
      unfolding charges_def using assms(3) by (subst sum.remove [OF fin assms(2)]) simp
    moreover have "charges ?d = (\<Sum>b \<in> members (lc_table c) - {a}. case lc_handles c b of None \<Rightarrow> 0 | Some e \<Rightarrow> unat (lh_charge e))"
    proof -
      have "members (lc_table ?d) = members (lc_table c) - {a}" "\<And>b. b \<noteq> a \<Longrightarrow> lc_handles ?d b = lc_handles c b"
        using assms(5) by (simp_all add: detached_def LRU_Remove_def)
      then show ?thesis unfolding charges_def by (intro sum.cong) simp_all
    qed
    ultimately have "charges c = unat (lh_charge e) + charges ?d" by simp
    then have "lc_usage c - lh_charge e = of_nat (charges ?d)" using usage by simp
    moreover have "lc_usage ?d = lc_usage c - lh_charge e" by (simp add: detached_def LRU_Remove_def)
    ultimately show ?thesis by metis
  qed
  ultimately show ?thesis using lists assms(5) by (auto simp: lru_ok_def detached_def LRU_Remove_def)
qed

lemma clients_after:
  assumes "same_rest {a} c c'" "lc_handles c a = Some e" "lh_in_cache e" "lh_refs e \<noteq> 0"
    "lh_refs e \<noteq> 1 \<longrightarrow> lc_handles c' a = Some (e\<lparr>lh_in_cache := False, lh_refs := lh_refs e - 1\<rparr>)" "lh_refs e = 1 \<longrightarrow> lc_handles c' a = None"
  shows "clients c' h = clients c h"
  using assms by (cases "handle_entry h = a"; cases "lh_refs e = 1") (auto simp: clients_def same_rest_def unat_minus_one)

lemma finish_detach:
  assumes "lru_ok c" "a \<in> members (lc_table c)" "lc_handles c a = Some e" "table_ok (lc_handles c) t" "members t = members (lc_table c) - {a}"
  shows "\<exists>c'. FinishErase (Some a) (c\<lparr>lc_table := t\<rparr>) = Some c' \<and> lru_ok c' \<and> same_rest {a} c c' \<and> lc_table c' = t
    \<and> (\<forall>d. lc_handles c' a = Some d \<longrightarrow> \<not> lh_in_cache d) \<and> lc_lru c' = filter (\<lambda>b. b \<noteq> a) (lc_lru c)
    \<and> (\<forall>h. clients c' h = clients c h)"
proof -
  have "FinishErase (Some a) (c\<lparr>lc_table := t\<rparr>) = lru_Unref a (detached a e t c)"
    using assms(3) by (simp add: FinishErase_def detached_def LRU_Remove_def)
  moreover have "accounted (detached a e t c) = accounted c" by (rule accounted_upd [OF assms(3), where d = "e\<lparr>lh_in_cache := False\<rparr>"]) (simp_all add: detached_def LRU_Remove_def)
  moreover obtain c' where c': "lru_Unref a (detached a e t c) = Some c'" "lru_ok c'" "same_rest {a} (detached a e t c) c'"
    "lc_table c' = t" "lc_lru c' = lc_lru (detached a e t c)"
    "lh_refs e \<noteq> 1 \<longrightarrow> lc_handles c' a = Some (e\<lparr>lh_in_cache := False, lh_refs := lh_refs e - 1\<rparr>)" "lh_refs e = 1 \<longrightarrow> lc_handles c' a = None"
    using Unref_ok [OF detached_ok [OF assms], of a "e\<lparr>lh_in_cache := False\<rparr>"] by (auto simp: detached_def LRU_Remove_def)
  ultimately have "same_rest {a} c c'" "FinishErase (Some a) (c\<lparr>lc_table := t\<rparr>) = Some c'" "lc_lru c' = filter (\<lambda>b. b \<noteq> a) (lc_lru c)"
    by (simp_all add: same_rest_def detached_def LRU_Remove_def)
  moreover from this c'(6,7) assms(1-3) have "clients c' h = clients c h" for h
    by (intro clients_after [of a c c' e]) (auto simp: lru_ok_def entry_ok_def)
  moreover have "\<forall>d. lc_handles c' a = Some d \<longrightarrow> \<not> lh_in_cache d" using c'(6,7) by (cases "lh_refs e = 1") auto
  ultimately show ?thesis using c'(2,4) by blast
qed

lemma has_after:
  assumes "same_rest {a} c c'" "lc_handles c a = Some e" "\<forall>d. lc_handles c' a = Some d \<longrightarrow> \<not> lh_in_cache d"
    and "\<And>b d. lc_handles c b = Some d \<Longrightarrow> lh_in_cache d \<Longrightarrow> lh_key d = lh_key e \<Longrightarrow> b = a"
  shows "lru_has c' k v \<longleftrightarrow> k \<noteq> lh_key e \<and> lru_has c k v"
proof
  assume "lru_has c' k v"
  then obtain b d where d: "lc_handles c' b = Some d" "lh_in_cache d" "lh_key d = k" "lh_value d = v" by (auto simp: lru_has_def)
  then have "b \<noteq> a" using assms(3) by auto
  then have "lc_handles c b = Some d" using assms(1) d(1) by (auto simp: same_rest_def)
  with d assms(4) \<open>b \<noteq> a\<close> show "k \<noteq> lh_key e \<and> lru_has c k v" by (auto simp: lru_has_def)
next
  assume "k \<noteq> lh_key e \<and> lru_has c k v"
  then obtain b d where d: "lc_handles c b = Some d" "lh_in_cache d" "lh_key d = k" "lh_value d = v" "k \<noteq> lh_key e" by (auto simp: lru_has_def)
  then have "b \<noteq> a" using assms(2) by auto
  with d assms(1) have "lc_handles c' b = Some d" by (auto simp: same_rest_def)
  with d show "lru_has c' k v" by (auto simp: lru_has_def)
qed

lemma same_key_entry:
  assumes "lru_ok c" "lc_handles c a = Some e" "lh_in_cache e" "lc_handles c b = Some d" "lh_in_cache d" "lh_key d = lh_key e"
  shows "b = a"
proof -
  have "entry_ok c a e" "entry_ok c b d" "unique_keys (lc_handles c) (members (lc_table c))" using assms(1,2,4) by (auto simp: lru_ok_def table_ok_def)
  moreover have "entry_matches (lc_handles c) (lh_key e) (lh_hash e) a" "entry_matches (lc_handles c) (lh_key d) (lh_hash d) b"
    using assms(2,4) by (auto intro: entry_matchesI)
  ultimately show ?thesis using assms(3,5,6) unfolding unique_keys_def entry_ok_def by metis
qed

lemma erase_key_ok:
  assumes "lru_ok c"
  shows "\<exists>c'. erase_key key (HashSlice key) c = Some c' \<and> lru_ok c' \<and> (\<forall>k v. lru_has c' k v \<longleftrightarrow> k \<noteq> key \<and> lru_has c k v)
    \<and> (\<forall>h. clients c' h = clients c h) \<and> lc_next c' = lc_next c \<and> lc_capacity c' = lc_capacity c \<and> accounted c' = accounted c
    \<and> lc_lru c' = filter (\<lambda>a. \<forall>e. lc_handles c a = Some e \<longrightarrow> lh_key e \<noteq> key) (lc_lru c)"
proof -
  have tab: "table_ok (lc_handles c) (lc_table c)" using assms by (simp add: lru_ok_def)
  obtain r t where rt: "table_Remove (lc_handles c) key (HashSlice key) (lc_table c) = Some (r, t)" by (rule table_Remove_runs [OF tab])
  note spec = table_Remove_spec [OF tab rt]
  show ?thesis
  proof (cases r)
    case None
    then have t: "t = lc_table c" and no: "\<forall>a \<in> members (lc_table c). \<not> entry_matches (lc_handles c) key (HashSlice key) a"
      using spec by auto
    have "\<not> (lh_in_cache e \<and> lh_key e = key)" if "lc_handles c a = Some e" for a e
      using that no entry_matchesI [of "lc_handles c", OF that] assms by (auto simp: lru_ok_def entry_ok_def)
    moreover from this have "lh_key e \<noteq> key" if "lc_handles c a = Some e" "a \<in> set (lc_lru c)" for a e
      using that assms by (auto simp: lru_ok_def entry_ok_def)
    ultimately show ?thesis using None rt t assms by (auto simp: erase_key_def FinishErase_def lru_has_def filter_id_conv)
  next
    case (Some a)
    then have sp: "table_ok (lc_handles c) t" "a \<in> members (lc_table c)" "members t = members (lc_table c) - {a}"
      "entry_matches (lc_handles c) key (HashSlice key) a" using spec by auto
    obtain e where e: "lc_handles c a = Some e" "lh_in_cache e" by (rule member_entry [OF assms sp(2)])
    have key: "lh_key e = key" using entry_matchesD [OF sp(4)] e(1) by simp
    obtain c' where c': "FinishErase (Some a) (c\<lparr>lc_table := t\<rparr>) = Some c'" "lru_ok c'" "same_rest {a} c c'"
      "\<forall>d. lc_handles c' a = Some d \<longrightarrow> \<not> lh_in_cache d" "lc_lru c' = filter (\<lambda>b. b \<noteq> a) (lc_lru c)"
      "\<forall>h. clients c' h = clients c h"
      using finish_detach [OF assms sp(2) e(1) sp(1,3)] by blast
    have same: "b = a" if "lc_handles c b = Some d" "lh_in_cache d" "lh_key d = lh_key e" for b d
      using same_key_entry [OF assms e that] .
    have "(b \<noteq> a) = (\<forall>d. lc_handles c b = Some d \<longrightarrow> lh_key d \<noteq> key)" if "b \<in> set (lc_lru c)" for b
    proof -
      have "b \<in> members (lc_table c)" using that assms by (auto simp: lru_ok_def)
      then obtain d where d: "lc_handles c b = Some d" "lh_in_cache d" by (rule member_entry [OF assms])
      then show ?thesis using same [of b d] e(1) key by auto
    qed
    then have "lc_lru c' = filter (\<lambda>a. \<forall>e. lc_handles c a = Some e \<longrightarrow> lh_key e \<noteq> key) (lc_lru c)"
      unfolding c'(5) by (rule filter_cong [OF refl])
    with c' Some rt has_after [OF c'(3) e(1) c'(4) same] key show ?thesis
      by (auto simp: erase_key_def same_rest_def)
  qed
qed

lemma evict_loop_ok:
  assumes "lru_ok c"
  shows "\<exists>c' n. evict_loop go c = Some c' \<and> lru_ok c' \<and> (\<forall>k v. lru_has c' k v \<longrightarrow> lru_has c k v)
    \<and> (\<forall>h. clients c' h = clients c h) \<and> lc_next c' = lc_next c \<and> lc_capacity c' = lc_capacity c \<and> accounted c' = accounted c
    \<and> lc_lru c' = drop n (lc_lru c) \<and> (lc_lru c' = [] \<or> \<not> go c')"
  using assms
proof (induction "length (lc_lru c)" arbitrary: c)
  case 0
  then show ?case by (subst evict_loop.simps) (auto intro: exI [of _ 0])
next
  case (Suc m)
  obtain old rest where lru: "lc_lru c = old # rest" using Suc.hyps(2) by (cases "lc_lru c") auto
  show ?case
  proof (cases "go c")
    case False
    with lru Suc.prems show ?thesis by (subst evict_loop.simps) (auto intro: exI [of _ 0])
  next
    case True
    have "old \<in> members (lc_table c)" using lru Suc.prems by (auto simp: lru_ok_def)
    then obtain e where e: "lc_handles c old = Some e" "lh_in_cache e" by (rule member_entry [OF Suc.prems])
    have hash: "lh_hash e = HashSlice (lh_key e)" "handle_key e = Some (lh_key e)"
      using e Suc.prems by (auto simp: lru_ok_def entry_ok_def handle_key_def)
    obtain c1 where c1: "erase_key (lh_key e) (HashSlice (lh_key e)) c = Some c1" "lru_ok c1"
      "\<forall>k v. lru_has c1 k v \<longleftrightarrow> k \<noteq> lh_key e \<and> lru_has c k v" "\<forall>h. clients c1 h = clients c h" "accounted c1 = accounted c"
      "lc_next c1 = lc_next c" "lc_capacity c1 = lc_capacity c"
      "lc_lru c1 = filter (\<lambda>a. \<forall>d. lc_handles c a = Some d \<longrightarrow> lh_key d \<noteq> lh_key e) (lc_lru c)"
      using erase_key_ok [OF Suc.prems, of "lh_key e"] by blast
    have "\<forall>d. lc_handles c b = Some d \<longrightarrow> lh_key d \<noteq> lh_key e" if "b \<in> set rest" for b
    proof (intro allI impI notI)
      fix d
      assume d: "lc_handles c b = Some d" "lh_key d = lh_key e"
      have "lh_in_cache d" using d(1) that lru Suc.prems by (auto simp: lru_ok_def entry_ok_def)
      then have "b = old" using same_key_entry [OF Suc.prems e d(1)] d(2) by simp
      then show False using that lru Suc.prems by (simp add: lru_ok_def)
    qed
    then have rest: "lc_lru c1 = rest" using c1(8) lru e(1) by (simp add: filter_id_conv)
    obtain c2 n where "evict_loop go c1 = Some c2" "lru_ok c2" "\<forall>k v. lru_has c2 k v \<longrightarrow> lru_has c1 k v"
      "\<forall>h. clients c2 h = clients c1 h" "accounted c2 = accounted c1" "lc_next c2 = lc_next c1" "lc_capacity c2 = lc_capacity c1"
      "lc_lru c2 = drop n (lc_lru c1)" "lc_lru c2 = [] \<or> \<not> go c2"
      using Suc.hyps(1) [of c1] Suc.hyps(2) c1(2) rest lru by auto
    with True lru e c1 rest hash show ?thesis
      by (subst evict_loop.simps) (auto intro!: exI [of _ "Suc n"])
  qed
qed

definition attached :: "nat \<Rightarrow> 'v LRUHandle \<Rightarrow> HandleTable \<Rightarrow> 'v LRUCache \<Rightarrow> 'v LRUCache" where
  "attached a e t c = c\<lparr>lc_in_use := lc_in_use c @ [a], lc_handles := (lc_handles c)(a \<mapsto> e\<lparr>lh_refs := 2, lh_in_cache := True\<rparr>),
     lc_usage := lc_usage c + lh_charge e, lc_table := t\<rparr>"

lemma attached_ok:
  assumes "lru_ok c" "lc_handles c a = Some e" "\<not> lh_in_cache e"
    and "table_ok (lc_handles (attached a e t c)) t" "members t = insert a (members (lc_table c))"
  shows "lru_ok (attached a e t c)"
proof -
  have e: "entry_ok c a e" and lists: "distinct (lc_lru c @ lc_in_use c)"
    "set (lc_lru c @ lc_in_use c) = members (lc_table c)" and others: "\<And>b d. lc_handles c b = Some d \<Longrightarrow> entry_ok c b d"
    and usage: "lc_usage c = of_nat (charges c)"
    using assms(1,2) by (auto simp: lru_ok_def)
  have out: "a \<notin> members (lc_table c)" using e assms(3) by (simp add: entry_ok_def)
  let ?d = "attached a e t c"
  have "entry_ok ?d b d" if "lc_handles ?d b = Some d" for b d
    using that others [of b] e assms(5) lists(2) out by (cases "b = a") (auto simp: entry_ok_def attached_def)
  moreover have "lc_usage ?d = of_nat (charges ?d)"
  proof -
    have fin: "finite (members (lc_table c))" by (simp add: members_def)
    have d: "members (lc_table ?d) = insert a (members (lc_table c))" "lc_handles ?d a = Some (e\<lparr>lh_refs := 2, lh_in_cache := True\<rparr>)"
      using assms(5) by (simp_all add: attached_def)
    have "lc_handles ?d b = lc_handles c b" if "b \<in> members (lc_table c)" for b using that out by (auto simp: attached_def)
    then have "(\<Sum>b \<in> members (lc_table c). case lc_handles ?d b of None \<Rightarrow> 0 | Some e \<Rightarrow> unat (lh_charge e)) = charges c"
      unfolding charges_def by (intro sum.cong) simp_all
    with d have "charges ?d = unat (lh_charge e) + charges c" by (simp add: charges_def sum.insert [OF fin out])
    then show ?thesis using usage by (simp add: attached_def)
  qed
  ultimately show ?thesis using lists assms(4,5) out by (auto simp: lru_ok_def attached_def)
qed

lemma fresh_ok:
  assumes "lru_ok c" "lh_refs e = 1" "\<not> lh_in_cache e" "lh_hash e = HashSlice (lh_key e)" "lh_linked e"
  shows "lru_ok (c\<lparr>lc_next := lc_next c + 1, lc_handles := (lc_handles c)(lc_next c \<mapsto> e)\<rparr>)" "lc_handles c (lc_next c) = None"
    "lc_next c \<notin> members (lc_table c)"
proof -
  let ?a = "lc_next c" and ?c = "c\<lparr>lc_next := lc_next c + 1, lc_handles := (lc_handles c)(lc_next c \<mapsto> e)\<rparr>"
  have others: "\<And>b d. lc_handles c b = Some d \<Longrightarrow> entry_ok c b d" using assms(1) by (simp add: lru_ok_def)
  show none: "lc_handles c ?a = None"
  proof (cases "lc_handles c ?a")
    case (Some d)
    then show ?thesis using others [OF Some] by (simp add: entry_ok_def)
  qed
  then show out: "?a \<notin> members (lc_table c)" using member_entry [OF assms(1), of ?a] by (metis option.distinct(1))
  have lists: "?a \<notin> set (lc_lru c)" "?a \<notin> set (lc_in_use c)" using out assms(1) by (auto simp: lru_ok_def)
  have "table_ok (lc_handles ?c) (lc_table c)" using assms(1) out by (auto simp: lru_ok_def intro: table_ok_cong)
  moreover have "charges ?c = charges c" using out by (auto simp: charges_def intro: sum.cong)
  moreover have "entry_ok ?c b d" if "lc_handles ?c b = Some d" for b d
    using that others [of b] assms(2-5) out lists by (cases "b = ?a") (auto simp: entry_ok_def less_Suc_eq)
  ultimately show "lru_ok ?c" using assms(1) by (simp add: lru_ok_def)
qed

lemma FinishErase_detached:
  "lc_handles c a = Some e \<Longrightarrow> FinishErase (Some a) (c\<lparr>lc_table := t\<rparr>) = lru_Unref a (detached a e t c)"
  by (simp add: FinishErase_def detached_def LRU_Remove_def)

lemma replaced_ok:
  assumes "lru_ok c" "lc_handles c a = Some e" "\<not> lh_in_cache e" "b \<in> members (lc_table c)" "lc_handles c b = Some d"
    and t: "table_ok (lc_handles (attached a e t c)) t" "members t = insert a (members (lc_table c) - {b})"
  shows "lru_ok (detached b d t (attached a e t c))"
proof -
  have tab: "table_ok (lc_handles c) (lc_table c)" and a: "a \<notin> members (lc_table c)" and d: "entry_ok c b d"
    using assms(1-3,5) by (auto simp: lru_ok_def entry_ok_def)
  then have ab: "b \<noteq> a" "entry_matches (lc_handles c) (lh_key d) (lh_hash d) b" using assms(4,5) by (auto intro: entry_matchesI)
  obtain r t0 where rt: "table_Remove (lc_handles c) (lh_key d) (lh_hash d) (lc_table c) = Some (r, t0)" by (rule table_Remove_runs [OF tab])
  have "r = Some b"
    using table_Remove_spec [OF tab rt] ab(2) assms(4) tab by (auto simp: table_ok_def unique_keys_def split: option.splits)
  then have t0: "table_ok (lc_handles c) t0" "members t0 = members (lc_table c) - {b}" using table_Remove_spec [OF tab rt] by auto
  let ?c = "detached b d t0 c"
  have "lru_ok ?c" by (rule detached_ok [OF assms(1,4,5) t0])
  moreover have "lc_handles ?c a = Some e" using assms(2) ab(1) by (simp add: detached_def)
  moreover have "table_ok (lc_handles (attached a e t ?c)) t"
    using t ab(1) by (intro table_ok_cong [OF t(1)]) (auto simp: attached_def detached_def LRU_Remove_def)
  moreover have "members t = insert a (members (lc_table ?c))" using t(2) t0(2) by (simp add: detached_def LRU_Remove_def)
  ultimately have "lru_ok (attached a e t ?c)" using assms(3) by (intro attached_ok)
  moreover have "attached a e t ?c = detached b d t (attached a e t c)"
    using ab(1) by (simp add: attached_def detached_def LRU_Remove_def fun_upd_twist)
  ultimately show ?thesis by simp
qed

lemma inserted_ok:
  assumes "lru_ok c" "lc_handles c a = Some e" "\<not> lh_in_cache e" "lh_refs e = 1" "unat (ht_elems (lc_table c)) < max_entries"
  shows "\<exists>old t c'. table_Insert (lc_handles (attached a e t0 c)) a (lc_table c) = Some (old, t) \<and> FinishErase old (attached a e t c) = Some c' \<and> lru_ok c' \<and> lc_handles c' a = Some (e\<lparr>lh_refs := 2, lh_in_cache := True\<rparr>)
    \<and> (\<forall>x d. x \<noteq> a \<longrightarrow> lc_handles c' x = Some d \<longrightarrow> lh_in_cache d \<longrightarrow> lc_handles c x = Some d)
    \<and> (\<forall>h. clients c' h = clients c h) \<and> lc_capacity c' = lc_capacity c \<and> lc_next c' = lc_next c \<and> accounted c' = accounted c"
proof -
  let ?e = "e\<lparr>lh_refs := 2, lh_in_cache := True\<rparr>"
  have linked: "lh_linked ?e" using assms(1,2) by (auto simp: lru_ok_def entry_ok_def)
  have a: "a \<notin> members (lc_table c)" using assms(1-3) by (auto simp: lru_ok_def entry_ok_def)
  have hs: "lc_handles (attached a e s c) = (lc_handles c)(a \<mapsto> ?e)" for s by (simp add: attached_def)
  have "table_ok (lc_handles c) (lc_table c)" using assms(1) by (simp add: lru_ok_def)
  then have "table_ok ((lc_handles c)(a \<mapsto> ?e)) (lc_table c)" by (rule table_ok_cong) (use a in auto)
  from table_Insert_spec [OF this assms(5) _ a linked] obtain old t where
    run: "table_Insert ((lc_handles c)(a \<mapsto> ?e)) a (lc_table c) = Some (old, t)" and spec: "table_ok ((lc_handles c)(a \<mapsto> ?e)) t"
    "case old of None \<Rightarrow> members t = insert a (members (lc_table c)) | Some b \<Rightarrow> b \<in> members (lc_table c) \<and> members t = insert a (members (lc_table c) - {b})"
    by (fastforce split: option.splits)
  let ?d = "attached a e t c"
  have run: "table_Insert (lc_handles (attached a e t0 c)) a (lc_table c) = Some (old, t)" using run by (simp add: hs)
  have acc: "accounted ?d = accounted c" by (rule accounted_upd [OF assms(2), where d = ?e]) (simp_all add: attached_def)
  have cl: "clients ?d h = clients c h" for h using assms(2-4) by (auto simp: clients_def attached_def)
  show ?thesis
  proof (cases old)
    case None
    then have "lru_ok ?d" using spec a assms by (intro attached_ok) (auto simp: hs)
    then show ?thesis using None run acc cl by (auto simp: FinishErase_def attached_def)
  next
    case (Some b)
    then have b: "table_ok (lc_handles ?d) t" "b \<in> members (lc_table c)" "members t = insert a (members (lc_table c) - {b})"
      using spec by (auto simp: hs)
    obtain d where d: "lc_handles c b = Some d" "lh_in_cache d" by (rule member_entry [OF assms(1) b(2)])
    have ab: "b \<noteq> a" using a b(2) by auto
    have refs: "lh_refs d \<noteq> 0" using d(1) assms(1) by (auto simp: lru_ok_def entry_ok_def)
    let ?u = "detached b d t ?d"
    have "lru_ok ?u" by (rule replaced_ok [OF assms(1-3) b(2) d(1) b(1,3)])
    then obtain c' where c': "lru_Unref b ?u = Some c'" "lru_ok c'" "same_rest {b} ?u c'"
      "lh_refs d \<noteq> 1 \<longrightarrow> lc_handles c' b = Some (d\<lparr>lh_in_cache := False, lh_refs := lh_refs d - 1\<rparr>)" "lh_refs d = 1 \<longrightarrow> lc_handles c' b = None"
      using Unref_ok [of ?u b "d\<lparr>lh_in_cache := False\<rparr>"] by (auto simp: detached_def)
    have "FinishErase old ?d = Some c'"
      using FinishErase_detached [of ?d b d t] Some c'(1) d(1) ab by (simp add: attached_def)
    moreover have x: "lc_handles c' x = lc_handles c x" if "x \<noteq> b" "x \<noteq> a" for x
      using that c'(3) by (simp add: same_rest_def detached_def attached_def)
    moreover have "lc_handles c' a = Some ?e" "lc_next c' = lc_next c" "lc_capacity c' = lc_capacity c"
      using c'(3) ab by (simp_all add: same_rest_def detached_def attached_def LRU_Remove_def)
    moreover have "lc_handles c x = Some y" if "x \<noteq> a" "lc_handles c' x = Some y" "lh_in_cache y" for x y
      using that x c'(4,5) by (cases "x = b"; cases "lh_refs d = 1") auto
    moreover have rest: "same_rest {b} ?d c'" using c'(3) accounted_upd [of ?d b d ?u "d\<lparr>lh_in_cache := False\<rparr>"] d ab
      by (simp add: same_rest_def detached_def attached_def LRU_Remove_def)
    moreover from this have "clients c' h = clients c h" for h
      using clients_after [of b ?d c' d h] cl d ab c'(4,5) refs by (simp add: attached_def)
    moreover have "accounted c' = accounted c" using rest acc by (simp add: same_rest_def)
    ultimately show ?thesis using c'(2) run by blast
  qed
qed

lemma lru_Insert_ok:
  assumes "lru_ok c" "lc_capacity c \<noteq> 0" "unat (ht_elems (lc_table c)) < max_entries"
  shows "\<exists>c'. lru_Insert key (HashSlice key) v n c = Some (lc_next c, c') \<and> lru_ok c' \<and> clients c (Handle (HashSlice key) (lc_next c)) = {#}
    \<and> clients c' = (clients c)(Handle (HashSlice key) (lc_next c) := {#v#}) \<and> accounted c' = add_mset (key, v) (accounted c)
    \<and> (\<forall>k w. lru_has c' k w \<longrightarrow> (if k = key then w = v else lru_has c k w))
    \<and> lc_capacity c' = lc_capacity c \<and> (lc_usage c' \<le> lc_capacity c \<or> lc_lru c' = [])"
proof -
  define a where "a = lc_next c"
  define e where "e = \<lparr>lh_value = v, lh_key = key, lh_charge = n, lh_in_cache = False, lh_refs = 1, lh_hash = HashSlice key, lh_linked = True\<rparr>"
  define c0 where "c0 = c\<lparr>lc_next := a + 1, lc_handles := (lc_handles c)(a \<mapsto> e)\<rparr>"
  note defs = a_def e_def c0_def
  have c0: "lru_ok c0" and none: "lc_handles c a = None"
    using fresh_ok [OF assms(1), of e] by (simp_all add: defs)
  have e0: "lc_handles c0 a = Some e" "\<not> lh_in_cache e" "lh_refs e = 1" "lh_key e = key" "lh_hash e = HashSlice key" "lh_value e = v"
    by (simp_all add: c0_def e_def)
  have old: "lc_handles c0 x = lc_handles c x" if "x \<noteq> a" for x using that by (simp add: c0_def)
  have cl0: "clients c0 h = (if h = Handle (HashSlice key) a then {#v#} else clients c h)" for h
    using none by (cases h) (auto simp: clients_def c0_def e_def)
  have no_client: "clients c (Handle (HashSlice key) a) = {#}" using none by (simp add: clients_def)
  have acc0: "accounted c0 = add_mset (key, v) (accounted c)" using accounted_new [OF assms(1) none, of c0 e] e0 by (simp add: c0_def)
  have elems: "unat (ht_elems (lc_table c0)) < max_entries" using assms(3) by (simp add: c0_def)
  obtain old' t c1 where c1: "table_Insert (lc_handles (attached a e (lc_table c0) c0)) a (lc_table c0) = Some (old', t)"
    "FinishErase old' (attached a e t c0) = Some c1" "lru_ok c1" "lc_handles c1 a = Some (e\<lparr>lh_refs := 2, lh_in_cache := True\<rparr>)"
    "\<forall>x d. x \<noteq> a \<longrightarrow> lc_handles c1 x = Some d \<longrightarrow> lh_in_cache d \<longrightarrow> lc_handles c0 x = Some d"
    "\<forall>h. clients c1 h = clients c0 h" "lc_capacity c1 = lc_capacity c0" "accounted c1 = accounted c0"
    using inserted_ok [OF c0 e0(1-3) elems, of "lc_table c0"] by blast
  have run: "lru_Insert key (HashSlice key) v n c = do {c \<leftarrow> evict_loop (\<lambda>c. lc_usage c > lc_capacity c) c1; Some (a, c)}"
    using c1(1,2) assms(2)
    by (simp add: lru_Insert_def attached_def LRU_Append_in_use_def set_linked_def c0_def e_def a_def Let_def word_gt_0)
  have has: "if k = key then w = v else lru_has c k w" if has: "lru_has c1 k w" for k w
  proof -
    obtain x d where x: "lc_handles c1 x = Some d" "lh_in_cache d" "lh_key d = k" "lh_value d = w" using has by (auto simp: lru_has_def)
    have "x = a" if "k = key" using same_key_entry [OF c1(3,4) _ x(1,2)] that x(3) e0(4) by simp
    then show ?thesis using x c1(4,5) e0(4,6) old by (cases "x = a") (auto simp: lru_has_def)
  qed
  have cap: "lc_capacity c1 = lc_capacity c" using c1(7) by (simp add: c0_def)
  from evict_loop_ok [OF c1(3), of "\<lambda>c. lc_usage c > lc_capacity c"] run cl0 acc0 no_client c1(6,8) has cap show ?thesis
    unfolding fun_eq_iff fun_upd_apply a_def [symmetric] by (fastforce simp: not_less)
qed

lemma unat_Suc_small: "unat (w :: u32) < max_handles + 1 \<Longrightarrow> w \<noteq> - 1 \<and> unat (w + 1) = Suc (unat w)"
  by (auto simp: max_handles_def unat_word_ariths unsigned_minus_1_eq_mask mask_eq_exp_minus_1)

lemma refs_one: "(w :: u32) = 1 \<longleftrightarrow> unat w = 1"
  by (metis unsigned_1 unsigned_word_eqI)

lemma lru_Lookup_ok:
  assumes "lru_ok c" "\<forall>h. size (clients c h) < max_handles"
  shows "\<exists>r c'. lru_Lookup key (HashSlice key) c = Some (r, c') \<and> lru_ok c' \<and> (\<forall>k v. lru_has c' k v \<longleftrightarrow> lru_has c k v)
    \<and> (case r of None \<Rightarrow> (\<forall>v. \<not> lru_has c key v) \<and> clients c' = clients c
        | Some a \<Rightarrow> \<exists>v. lru_has c key v \<and> clients c' = (clients c)(Handle (HashSlice key) a := add_mset v (clients c (Handle (HashSlice key) a))))
    \<and> accounted c' = accounted c \<and> lc_capacity c' = lc_capacity c \<and> lc_usage c' = lc_usage c"
proof -
  have tab: "table_ok (lc_handles c) (lc_table c)" using assms(1) by (simp add: lru_ok_def)
  obtain r where run: "table_Lookup (lc_handles c) key (HashSlice key) (lc_table c) = Some r" and spec:
    "case r of None \<Rightarrow> \<forall>a \<in> members (lc_table c). \<not> entry_matches (lc_handles c) key (HashSlice key) a
      | Some a \<Rightarrow> a \<in> members (lc_table c) \<and> entry_matches (lc_handles c) key (HashSlice key) a"
    using table_Lookup_spec [OF tab, of key "HashSlice key"] by blast
  show ?thesis
  proof (cases r)
    case None
    have "\<not> lru_has c key v" for v
    proof
      assume "lru_has c key v"
      then obtain a e where e: "lc_handles c a = Some e" "lh_in_cache e" "lh_key e = key" by (auto simp: lru_has_def)
      then have "a \<in> members (lc_table c)" "lh_hash e = HashSlice key" using assms(1) by (auto simp: lru_ok_def entry_ok_def)
      then show False using spec None e entry_matchesI [of "lc_handles c" a e] by auto
    qed
    then show ?thesis using None run assms(1) by (auto simp: lru_Lookup_def)
  next
    case (Some a)
    then have a: "a \<in> members (lc_table c)" "entry_matches (lc_handles c) key (HashSlice key) a" using spec by auto
    obtain e where e: "lc_handles c a = Some e" "lh_in_cache e" by (rule member_entry [OF assms(1) a(1)])
    then have key: "lh_key e = key" "lh_refs e \<noteq> 0" "lh_hash e = HashSlice key" using entry_matchesD [OF a(2)] assms(1) by (auto simp: lru_ok_def entry_ok_def)
    have "unat (lh_refs e) - 1 < max_handles" using assms(2) [rule_format, of "Handle (HashSlice key) a"] e key(3) by (simp add: clients_def)
    then have refs: "lh_refs e \<noteq> - 1" "unat (lh_refs e + 1) = Suc (unat (lh_refs e))" using unat_Suc_small [of "lh_refs e"] by auto
    have pos: "Suc 0 \<le> unat (lh_refs e)" using key(2) by (simp add: Suc_le_eq unat_gt_0)
    obtain c' where c': "lru_Ref a c = Some c'" "lru_ok c'" "same_rest {a} c c'" "lc_handles c' a = Some (e\<lparr>lh_refs := lh_refs e + 1\<rparr>)"
      "lc_usage c' = lc_usage c" using Ref_ok [OF assms(1) e(1) refs(1)] by blast
    have x: "lc_handles c' x = (if x = a then Some (e\<lparr>lh_refs := lh_refs e + 1\<rparr>) else lc_handles c x)" for x
      using c'(3,4) by (simp add: same_rest_def)
    have "lru_has c' k v \<longleftrightarrow> lru_has c k v" for k v
      unfolding lru_has_def x using e(1) by (metis (no_types, lifting) LRUHandle.select_convs LRUHandle.surjective LRUHandle.update_convs(5) option.inject)
    moreover have "clients c' h = ((clients c)(Handle (HashSlice key) a := add_mset (lh_value e) (clients c (Handle (HashSlice key) a)))) h" for h
      using e key(3) pos refs(2) x by (cases h) (auto simp: clients_def replicate_mset_add)
    moreover have "lru_has c key (lh_value e)" using e key(1) by (auto simp: lru_has_def)
    ultimately show ?thesis using Some run c' by (fastforce simp: lru_Lookup_def same_rest_def fun_eq_iff)
  qed
qed

lemma lru_Release_ok:
  assumes "lru_ok c" "v \<in># clients c h"
  shows "\<exists>c'. lru_Release (handle_entry h) c = Some c' \<and> lru_ok c' \<and> (\<forall>k w. lru_has c' k w \<longleftrightarrow> lru_has c k w) \<and> lc_capacity c' = lc_capacity c
    \<and> lc_usage c' = lc_usage c \<and> accounted c' = accounted c \<and> clients c' = (clients c)(h := clients c h - {#v#})"
proof -
  define a where "a = handle_entry h"
  obtain e where e: "lc_handles c a = Some e" "(if lh_in_cache e then 2 else 1) \<le> unat (lh_refs e)" "lh_value e = v" "lh_hash e = handle_hash h"
    using assms(2) by (auto simp: clients_def a_def in_replicate_mset split: option.splits if_splits)
  obtain c' where c': "lru_Unref a c = Some c'" "lru_ok c'" "same_rest {a} c c'" "lc_usage c' = lc_usage c"
    "lh_refs e \<noteq> 1 \<longrightarrow> lc_handles c' a = Some (e\<lparr>lh_refs := lh_refs e - 1\<rparr>)" "lh_refs e = 1 \<longrightarrow> lc_handles c' a = None"
    using Unref_ok [OF assms(1) e(1)] e(2) by (auto simp: refs_one split: if_splits)
  have refs: "unat (lh_refs e - 1) = unat (lh_refs e) - 1" "lh_refs e = 1 \<longleftrightarrow> unat (lh_refs e) = 1"
  proof -
    have "lh_refs e \<noteq> 0" using e(2) by (auto split: if_splits)
    then show "unat (lh_refs e - 1) = unat (lh_refs e) - 1" by (rule unat_minus_one)
  qed (rule refs_one)
  have x: "lc_handles c' x = (if x = a then if lh_refs e = 1 then None else Some (e\<lparr>lh_refs := lh_refs e - 1\<rparr>) else lc_handles c x)" for x
    using c'(3,5,6) by (simp add: same_rest_def)
  have "lru_has c' k w \<longleftrightarrow> lru_has c k w" for k w
  proof
    assume "lru_has c' k w"
    then show "lru_has c k w" unfolding lru_has_def x using e(1) by (fastforce split: if_splits)
  next
    assume "lru_has c k w"
    then obtain b d where b: "lc_handles c b = Some d" "lh_in_cache d" "lh_key d = k" "lh_value d = w" by (auto simp: lru_has_def)
    then show "lru_has c' k w" unfolding lru_has_def x using e
      by (cases "b = a") (auto intro!: exI [of _ b])
  qed
  moreover have "clients c' b = ((clients c)(h := clients c h - {#v#})) b" for b
    using e x refs by (cases b; cases h) (auto simp: clients_def a_def replicate_mset_sub numeral_2_eq_2)
  ultimately show ?thesis using c' by (auto simp: lru_Release_def same_rest_def a_def [symmetric] fun_eq_iff)
qed

section \<open>The shards\<close>

definition shard_ok :: "'v LRUCache \<Rightarrow> bool" where
  "shard_ok s \<longleftrightarrow> lru_ok s \<and> lc_capacity s \<noteq> 0"

definition sharded_ok :: "'v ShardedLRUCache \<Rightarrow> bool" where
  "sharded_ok c \<longleftrightarrow> length (sc_shard c) = kNumShards \<and> (\<forall>s \<in> set (sc_shard c). shard_ok s)
     \<and> (\<forall>i < kNumShards. \<forall>(k, v) \<in># accounted (sc_shard c ! i). Shard (HashSlice k) = i)"

definition sharded_has :: "'v ShardedLRUCache \<Rightarrow> slice \<Rightarrow> 'v \<Rightarrow> bool" where
  "sharded_has c k v \<longleftrightarrow> lru_has (sc_shard c ! Shard (HashSlice k)) k v"

definition sharded_clients :: "'v ShardedLRUCache \<Rightarrow> cache_handle \<Rightarrow> 'v multiset" where
  "sharded_clients c h = clients (sc_shard c ! Shard (handle_hash h)) h"

definition sharded_accounted :: "'v ShardedLRUCache \<Rightarrow> (slice \<times> 'v) multiset" where
  "sharded_accounted c = sum_list (map accounted (sc_shard c))"

lemma Shard_less: "Shard hash < kNumShards"
proof -
  have "unat (drop_bit 28 hash) = unat hash div 2 ^ 28" by (subst unat_drop_bit_eq) (simp only: drop_bit_eq_div)
  moreover have "unat hash < 2 ^ 32" using unsigned_less [of hash] by simp
  ultimately show ?thesis by (simp add: Shard_def kNumShards_def kNumShardBits_def less_mult_imp_div_less)
qed

lemma shard_member: "sharded_ok c \<Longrightarrow> shard_ok (sc_shard c ! Shard hash)"
  using Shard_less [of hash] by (simp add: sharded_ok_def)

lemma set_shard_ok:
  assumes "sharded_ok c" "shard_ok s" "\<And>k v. (k, v) \<in># accounted s \<Longrightarrow> (k, v) \<in># accounted (sc_shard c ! Shard hash) \<or> Shard (HashSlice k) = Shard hash"
  shows "sharded_ok (set_shard c (Shard hash) s)"
proof -
  have "Shard (HashSlice k) = i" if "i < kNumShards" "(k, v) \<in># accounted (sc_shard (set_shard c (Shard hash) s) ! i)" for i k v
    using that assms(1) assms(3) [of k v] by (cases "i = Shard hash") (auto simp: sharded_ok_def set_shard_def)
  then show ?thesis using assms(1,2) by (auto simp: sharded_ok_def set_shard_def dest!: set_update_subset_insert [THEN subsetD])
qed

lemma set_shard_nth:
  "sharded_ok c \<Longrightarrow> sc_shard (set_shard c (Shard hash) s) ! i = (if i = Shard hash then s else sc_shard c ! i)"
  using Shard_less [of hash] by (auto simp: set_shard_def sharded_ok_def)

lemma sum_list_set:
  fixes xs :: "'a multiset list"
  assumes "i < length xs"
  shows "sum_list (xs[i := x]) + xs ! i = sum_list xs + x"
proof -
  have "sum_list xs = sum_list (take i xs) + xs ! i + sum_list (drop (Suc i) xs)"
    using arg_cong [OF id_take_nth_drop [OF assms], of sum_list] by (simp add: add.assoc)
  then show ?thesis using assms by (simp add: upd_conv_take_nth_drop)
qed

lemma set_shard_accounted:
  assumes "sharded_ok c" "accounted s = M + accounted (sc_shard c ! Shard hash)"
  shows "sharded_accounted (set_shard c (Shard hash) s) = M + sharded_accounted c"
  using assms Shard_less [of hash] sum_list_set [of "Shard hash" "map accounted (sc_shard c)" "accounted s"]
  by (simp add: sharded_accounted_def set_shard_def sharded_ok_def map_update)

lemma set_shard_clients:
  assumes "sharded_ok c" "clients s = (clients (sc_shard c ! Shard (handle_hash h)))(h := M)"
  shows "sharded_clients (set_shard c (Shard (handle_hash h)) s) = (sharded_clients c)(h := M)"
  using assms by (auto simp: fun_eq_iff sharded_clients_def set_shard_nth)

lemma set_shard_same_clients:
  assumes "sharded_ok c" "clients s = clients (sc_shard c ! Shard hash)"
  shows "sharded_clients (set_shard c (Shard hash) s) = sharded_clients c"
  using assms by (auto simp: fun_eq_iff sharded_clients_def set_shard_nth)

lemma new_accounted: "accounted (SetCapacity n LRUCache_new) = {#}"
  by (simp add: accounted_def SetCapacity_def LRUCache_new_def)

lemma capacity_set: "lc_capacity (SetCapacity n c) = n"
  by (simp add: SetCapacity_def)

lemma NewLRUCache_ok: "per_shard n \<noteq> 0 \<Longrightarrow> sharded_ok (NewLRUCache n)" "\<not> sharded_has (NewLRUCache n) k v"
    "sharded_clients (NewLRUCache n) h = {#}" "sharded_accounted (NewLRUCache n) = {#}"
proof -
  show "per_shard n \<noteq> 0 \<Longrightarrow> sharded_ok (NewLRUCache n)" "\<not> sharded_has (NewLRUCache n) k v"
    by (auto simp: new_ok Shard_less sharded_ok_def shard_ok_def NewLRUCache_def Let_def sharded_has_def set_replicate_conv_if
        new_accounted capacity_set)
  show "sharded_clients (NewLRUCache n) h = {#}"
    by (simp add: sharded_clients_def NewLRUCache_def Let_def Shard_less clients_def SetCapacity_def LRUCache_new_def)
  have "sum_list (replicate m {#}) = {#}" for m by (induction m) simp_all
  then show "sharded_accounted (NewLRUCache n) = {#}"
    by (simp add: sharded_accounted_def NewLRUCache_def Let_def new_accounted)
qed

text \<open>The capacity of a shard is 0 if the rounding wraps around.\<close>

lemma per_shard_zero: "per_shard n = 0 \<longleftrightarrow> n = 0 \<or> 2 ^ 64 \<le> unat n + 15"
proof -
  have "unat (per_shard n) = (unat n + 15) mod 2 ^ 64 div 16"
    by (simp add: per_shard_def kNumShards_def kNumShardBits_def unat_div unat_word_ariths)
  moreover have "(unat n + 15) mod 2 ^ 64 div 16 = 0 \<longleftrightarrow> unat n = 0 \<or> 2 ^ 64 \<le> unat n + 15"
  proof (cases "unat n + 15 < 2 ^ 64")
    case False
    then have "(unat n + 15) mod 2 ^ 64 = unat n + 15 - 2 ^ 64"
      using unat_less_64 [of n] by (subst mod_if) simp
    then show ?thesis using False unat_less_64 [of n] by simp
  qed auto
  ultimately show ?thesis by (metis unat_eq_zero)
qed

text \<open>The entries of a shard are no more than the keys that the cache has.\<close>

lemma few_entries:
  assumes "sharded_ok c" "countable_entries (sharded_has c)"
  shows "unat (ht_elems (lc_table (sc_shard c ! Shard hash))) < max_entries"
proof -
  let ?s = "sc_shard c ! Shard hash" and ?K = "{k. \<exists>v. sharded_has c k v}"
  have s: "lru_ok ?s" using shard_member [OF assms(1), of hash] by (simp add: shard_ok_def)
  define key where "key a = lh_key (the (lc_handles ?s a))" for a
  have entry: "\<exists>e. lc_handles ?s a = Some e \<and> lh_in_cache e" if "a \<in> members (lc_table ?s)" for a
    using member_entry [OF s that] by metis
  have "inj_on key (members (lc_table ?s))"
    unfolding inj_on_def key_def using entry same_key_entry [OF s] by (metis option.sel)
  moreover have "key ` members (lc_table ?s) \<subseteq> ?K"
  proof
    fix k
    assume "k \<in> key ` members (lc_table ?s)"
    then obtain a e where e: "lc_handles ?s a = Some e" "lh_in_cache e" "k = lh_key e" using entry by (fastforce simp: key_def)
    have "(lh_key e, lh_value e) \<in># accounted ?s" using e(1) finite_handles [OF s] by (force simp: accounted_def)
    then have "Shard (HashSlice (lh_key e)) = Shard hash" using assms(1) Shard_less [of hash] by (auto simp: sharded_ok_def)
    then show "k \<in> ?K" using e by (auto simp: sharded_has_def lru_has_def)
  qed
  ultimately have "card (members (lc_table ?s)) \<le> card ?K"
    using assms(2) by (intro card_inj_on_le [of key]) (simp_all add: countable_entries_def)
  moreover have "card (members (lc_table ?s)) = unat (ht_elems (lc_table ?s))"
    using s unfolding lru_ok_def table_ok_def members_def by (metis distinct_card)
  ultimately show ?thesis using assms(2) by (simp add: countable_entries_def)
qed

text \<open>Each operation on the shards.\<close>

lemma sharded_Lookup_ok:
  assumes "sharded_ok c" "countable_handles (sharded_clients c)"
  shows "\<exists>r c'. sharded_Lookup key c = Some (r, c') \<and> sharded_ok c' \<and> (\<forall>k v. sharded_has c' k v \<longleftrightarrow> sharded_has c k v)
    \<and> (case r of None \<Rightarrow> (\<forall>v. \<not> sharded_has c key v) \<and> sharded_clients c' = sharded_clients c
        | Some h \<Rightarrow> \<exists>v. sharded_has c key v \<and> sharded_clients c' = (sharded_clients c)(h := add_mset v (sharded_clients c h)))
    \<and> sharded_accounted c' = sharded_accounted c"
proof -
  let ?hash = "HashSlice key"
  let ?s = "sc_shard c ! Shard ?hash"
  have s0: "shard_ok ?s" by (rule shard_member [OF assms(1)])
  have few: "\<forall>h. size (clients ?s h) < max_handles"
  proof
    fix h
    show "size (clients ?s h) < max_handles"
    proof (cases "lc_handles ?s (handle_entry h)")
      case (Some e)
      have ok: "lru_ok ?s" using s0 by (simp add: shard_ok_def)
      have "(lh_key e, lh_value e) \<in># accounted ?s" using Some finite_handles [OF ok] by (force simp: accounted_def)
      then have "Shard (HashSlice (lh_key e)) = Shard ?hash" using assms(1) Shard_less [of ?hash] by (auto simp: sharded_ok_def)
      moreover have "lh_hash e = HashSlice (lh_key e)" using Some ok by (auto simp: lru_ok_def entry_ok_def)
      moreover have "size (sharded_clients c h) < max_handles" using assms(2) by (simp add: countable_handles_def)
      ultimately show ?thesis using Some by (auto simp: sharded_clients_def clients_def max_handles_def)
    qed (simp add: clients_def max_handles_def)
  qed
  from s0 obtain r s where s: "lru_Lookup key ?hash ?s = Some (r, s)" "lru_ok s" "\<forall>k v. lru_has s k v \<longleftrightarrow> lru_has ?s k v"
    "case r of None \<Rightarrow> (\<forall>v. \<not> lru_has ?s key v) \<and> clients s = clients ?s
      | Some a \<Rightarrow> \<exists>v. lru_has ?s key v \<and> clients s = (clients ?s)(Handle ?hash a := add_mset v (clients ?s (Handle ?hash a)))"
    "accounted s = accounted ?s" "lc_capacity s = lc_capacity ?s"
    using lru_Lookup_ok [of ?s key] few unfolding shard_ok_def by blast
  have "shard_ok s" using s0 s by (simp add: shard_ok_def)
  then have "sharded_ok (set_shard c (Shard ?hash) s)" using s by (intro set_shard_ok [OF assms(1)]) auto
  moreover have "sharded_accounted (set_shard c (Shard ?hash) s) = sharded_accounted c"
    using set_shard_accounted [OF assms(1), of s "{#}" ?hash] s(5) by simp
  moreover have "sharded_has (set_shard c (Shard ?hash) s) k v \<longleftrightarrow> sharded_has c k v" for k v
    using s(3) by (simp add: sharded_has_def set_shard_nth [OF assms(1)])
  moreover have "case map_option (Handle ?hash) r of
      None \<Rightarrow> (\<forall>v. \<not> sharded_has c key v) \<and> sharded_clients (set_shard c (Shard ?hash) s) = sharded_clients c
    | Some h \<Rightarrow> \<exists>v. sharded_has c key v \<and> sharded_clients (set_shard c (Shard ?hash) s) = (sharded_clients c)(h := add_mset v (sharded_clients c h))"
  proof (cases r)
    case None
    with s(4) show ?thesis using set_shard_same_clients [OF assms(1), of s ?hash] by (simp add: sharded_has_def)
  next
    case (Some a)
    with s(4) obtain v where v: "lru_has ?s key v" "clients s = (clients ?s)(Handle ?hash a := add_mset v (clients ?s (Handle ?hash a)))" by auto
    have "sharded_clients (set_shard c (Shard ?hash) s) = (sharded_clients c)(Handle ?hash a := add_mset v (sharded_clients c (Handle ?hash a)))"
      using set_shard_clients [OF assms(1), of s "Handle ?hash a"] v(2) by (simp add: sharded_clients_def)
    with v(1) Some show ?thesis by (auto simp: sharded_has_def)
  qed
  ultimately show ?thesis using s(1) by (simp add: sharded_Lookup_def Let_def)
qed

lemma sharded_Insert_ok:
  assumes "sharded_ok c" "unat (ht_elems (lc_table (sc_shard c ! Shard (HashSlice key)))) < max_entries"
  shows "\<exists>h c'. sharded_Insert key v n c = Some (h, c') \<and> sharded_ok c'
    \<and> (\<forall>k w. sharded_has c' k w \<longrightarrow> (if k = key then w = v else sharded_has c k w))
    \<and> sharded_clients c h = {#} \<and> sharded_clients c' = (sharded_clients c)(h := {#v#})
    \<and> sharded_accounted c' = add_mset (key, v) (sharded_accounted c)
    \<and> (let s = sc_shard c' ! Shard (HashSlice key) in lc_usage s \<le> lc_capacity s \<or> lc_lru s = [])"
proof -
  let ?hash = "HashSlice key"
  let ?s = "sc_shard c ! Shard ?hash"
  let ?h = "Handle ?hash (lc_next ?s)"
  have s0: "lru_ok ?s" "lc_capacity ?s \<noteq> 0"
    using shard_member [OF assms(1)] unfolding shard_ok_def by blast+
  from s0 obtain s where s: "lru_Insert key ?hash v n ?s = Some (lc_next ?s, s)" "lru_ok s" "clients ?s ?h = {#}"
    "clients s = (clients ?s)(?h := {#v#})" "accounted s = add_mset (key, v) (accounted ?s)"
    "\<forall>k w. lru_has s k w \<longrightarrow> (if k = key then w = v else lru_has ?s k w)" "lc_capacity s = lc_capacity ?s"
    "lc_usage s \<le> lc_capacity ?s \<or> lc_lru s = []"
    using lru_Insert_ok [OF s0 assms(2), of key v n] by (elim exE conjE) (rule that)
  have "shard_ok s" using s s0(2) by (simp add: shard_ok_def)
  then have "sharded_ok (set_shard c (Shard ?hash) s)" using s by (intro set_shard_ok [OF assms(1)]) auto
  moreover have "sharded_accounted (set_shard c (Shard ?hash) s) = add_mset (key, v) (sharded_accounted c)"
    using set_shard_accounted [OF assms(1), of s "{#(key, v)#}" ?hash] s(5) by simp
  moreover have "if k = key then w = v else sharded_has c k w" if "sharded_has (set_shard c (Shard ?hash) s) k w" for k w
    using that s(6) by (auto simp: sharded_has_def set_shard_nth [OF assms(1)] split: if_splits)
  moreover have "sharded_clients (set_shard c (Shard ?hash) s) = (sharded_clients c)(?h := {#v#})"
    using set_shard_clients [OF assms(1), of s ?h] s(4) by simp
  moreover have "sharded_clients c ?h = {#}" using s(3) by (simp add: sharded_clients_def)
  ultimately show ?thesis using s(1,7,8) set_shard_nth [OF assms(1), of ?hash s]
    by (auto simp: sharded_Insert_def Let_def)
qed

lemma sharded_Release_ok:
  assumes "sharded_ok c" "v \<in># sharded_clients c h"
  shows "\<exists>c'. sharded_Release h c = Some c' \<and> sharded_ok c' \<and> (\<forall>k w. sharded_has c' k w \<longleftrightarrow> sharded_has c k w)
    \<and> sharded_clients c' = (sharded_clients c)(h := sharded_clients c h - {#v#}) \<and> sharded_accounted c' = sharded_accounted c"
proof -
  let ?hash = "handle_hash h"
  let ?s = "sc_shard c ! Shard ?hash"
  have s0: "shard_ok ?s" by (rule shard_member [OF assms(1)])
  then obtain s where s: "lru_Release (handle_entry h) ?s = Some s" "lru_ok s" "\<forall>k w. lru_has s k w \<longleftrightarrow> lru_has ?s k w"
    "lc_capacity s = lc_capacity ?s" "accounted s = accounted ?s" "clients s = (clients ?s)(h := clients ?s h - {#v#})"
    using lru_Release_ok [of ?s v h] assms(2) unfolding shard_ok_def sharded_clients_def by blast
  have "shard_ok s" using s0 s by (simp add: shard_ok_def)
  then have "sharded_ok (set_shard c (Shard ?hash) s)" using s by (intro set_shard_ok [OF assms(1)]) auto
  moreover have "sharded_accounted (set_shard c (Shard ?hash) s) = sharded_accounted c"
    using set_shard_accounted [OF assms(1), of s "{#}" ?hash] s(5) by simp
  moreover have "sharded_has (set_shard c (Shard ?hash) s) k v \<longleftrightarrow> sharded_has c k v" for k v
    using s(3) by (simp add: sharded_has_def set_shard_nth [OF assms(1)])
  moreover have "sharded_clients (set_shard c (Shard ?hash) s) = (sharded_clients c)(h := sharded_clients c h - {#v#})"
    using set_shard_clients [OF assms(1) s(6)] by (simp add: sharded_clients_def)
  ultimately show ?thesis using s(1) by (simp add: sharded_Release_def Let_def)
qed

lemma sharded_Erase_ok:
  assumes "sharded_ok c"
  shows "\<exists>c'. sharded_Erase key c = Some c' \<and> sharded_ok c' \<and> (\<forall>k w. sharded_has c' k w \<longleftrightarrow> k \<noteq> key \<and> sharded_has c k w)
    \<and> sharded_clients c' = sharded_clients c \<and> sharded_accounted c' = sharded_accounted c"
proof -
  let ?hash = "HashSlice key"
  let ?s = "sc_shard c ! Shard ?hash"
  have s0: "shard_ok ?s" by (rule shard_member [OF assms])
  then obtain s where s: "lru_Erase key ?hash ?s = Some s" "lru_ok s" "\<forall>k v. lru_has s k v \<longleftrightarrow> k \<noteq> key \<and> lru_has ?s k v"
    "\<forall>h. clients s h = clients ?s h" "lc_capacity s = lc_capacity ?s" "accounted s = accounted ?s"
    using erase_key_ok [of ?s key] unfolding shard_ok_def lru_Erase_def by blast
  have "shard_ok s" using s0 s by (simp add: shard_ok_def)
  then have "sharded_ok (set_shard c (Shard ?hash) s)" using s by (intro set_shard_ok [OF assms]) auto
  moreover have "sharded_accounted (set_shard c (Shard ?hash) s) = sharded_accounted c"
    using set_shard_accounted [OF assms, of s "{#}" ?hash] s(6) by simp
  moreover have "sharded_has (set_shard c (Shard ?hash) s) k v \<longleftrightarrow> k \<noteq> key \<and> sharded_has c k v" for k v
    using s(3) by (auto simp: sharded_has_def set_shard_nth [OF assms])
  moreover have "sharded_clients (set_shard c (Shard ?hash) s) = sharded_clients c"
    using set_shard_same_clients [OF assms, of s ?hash] s(4) by (simp add: fun_eq_iff)
  ultimately show ?thesis using s(1) by (simp add: sharded_Erase_def Let_def)
qed

lemma prune_shards_ok:
  assumes "\<forall>s \<in> set ss. shard_ok s"
  shows "\<exists>ss'. prune_shards ss = Some ss' \<and> list_all2 (\<lambda>s s'. shard_ok s' \<and> (\<forall>k v. lru_has s' k v \<longrightarrow> lru_has s k v)
    \<and> (\<forall>h. clients s' h = clients s h) \<and> accounted s' = accounted s) ss ss'"
  using assms
proof (induction ss)
  case (Cons s ss)
  have s: "lru_ok s" "lc_capacity s \<noteq> 0" using Cons.prems by (auto simp: shard_ok_def)
  obtain s' where "lru_Prune s = Some s'" "lru_ok s'" "\<forall>k v. lru_has s' k v \<longrightarrow> lru_has s k v" "\<forall>h. clients s' h = clients s h"
    "lc_capacity s' = lc_capacity s" "accounted s' = accounted s"
    using evict_loop_ok [OF s(1), of "\<lambda>c. True"] unfolding lru_Prune_def by blast
  with s Cons show ?case by (auto simp: shard_ok_def)
qed simp

lemma sharded_Prune_ok:
  assumes "sharded_ok c"
  shows "\<exists>c'. sharded_Prune c = Some c' \<and> sharded_ok c' \<and> (\<forall>k w. sharded_has c' k w \<longrightarrow> sharded_has c k w)
    \<and> sharded_clients c' = sharded_clients c \<and> sharded_accounted c' = sharded_accounted c"
proof -
  obtain ss where ss: "prune_shards (sc_shard c) = Some ss"
    and all: "list_all2 (\<lambda>s s'. shard_ok s' \<and> (\<forall>k v. lru_has s' k v \<longrightarrow> lru_has s k v)
      \<and> (\<forall>h. clients s' h = clients s h) \<and> accounted s' = accounted s) (sc_shard c) ss"
    using prune_shards_ok [of "sc_shard c"] assms by (auto simp: sharded_ok_def)
  have len: "length ss = kNumShards" "length (sc_shard c) = kNumShards" using all assms by (auto simp: sharded_ok_def list_all2_lengthD)
  have "map accounted ss = map accounted (sc_shard c)" using all by (induction rule: list_all2_induct) auto
  then have acc: "sharded_accounted (c\<lparr>sc_shard := ss\<rparr>) = sharded_accounted c" by (simp add: sharded_accounted_def)
  have ok: "sharded_ok (c\<lparr>sc_shard := ss\<rparr>)" using all len assms by (auto simp: sharded_ok_def list_all2_conv_all_nth in_set_conv_nth)
  have each: "(\<forall>k v. lru_has (ss ! Shard hash) k v \<longrightarrow> lru_has (sc_shard c ! Shard hash) k v)
      \<and> (\<forall>h. clients (ss ! Shard hash) h = clients (sc_shard c ! Shard hash) h)" for hash
    using list_all2_nthD [OF all, of "Shard hash"] Shard_less [of hash] len by auto
  then have "sharded_clients (c\<lparr>sc_shard := ss\<rparr>) = sharded_clients c" by (auto simp: fun_eq_iff sharded_clients_def)
  with ss acc ok each show ?thesis by (auto simp: sharded_Prune_def sharded_has_def)
qed

lemma sharded_Value_ok: "v \<in># sharded_clients c h \<Longrightarrow> sharded_Value h c = Some v"
  by (auto simp: sharded_clients_def clients_def sharded_Value_def in_replicate_mset split: option.splits if_splits)

lemma sharded_NewId_ok:
  "sharded_ok c \<Longrightarrow> sharded_ok (snd (sharded_NewId c))" "sharded_has (snd (sharded_NewId c)) k v = sharded_has c k v"
  "sharded_clients (snd (sharded_NewId c)) = sharded_clients c" "sharded_accounted (snd (sharded_NewId c)) = sharded_accounted c"
  by (auto simp: sharded_NewId_def Let_def sharded_ok_def sharded_has_def sharded_clients_def sharded_accounted_def)

interpretation lru_cache: cache_contract ShardedLRU sharded_ok sharded_clients sharded_has
proof (unfold_locales, goal_cases)
  case (1 c key)
  then show ?case using sharded_Lookup_ok [of c key] by (auto simp: ShardedLRU_def)
next
  case (2 c key v n)
  then show ?case using sharded_Insert_ok [OF _ few_entries, of c key v n] by (auto simp: ShardedLRU_def)
next
  case (3 c v h)
  then show ?case using sharded_Release_ok [of c v h] by (auto simp: ShardedLRU_def)
next
  case (4 c v h)
  then show ?case using sharded_Value_ok [of v c h] by (auto simp: ShardedLRU_def)
next
  case (5 c key)
  then show ?case using sharded_Erase_ok [of c key] by (auto simp: ShardedLRU_def)
next
  case (6 c)
  then show ?case using sharded_Prune_ok [of c] by (auto simp: ShardedLRU_def)
next
  case (7 c)
  then show ?case using sharded_NewId_ok [of c] by (auto simp: ShardedLRU_def)
qed

section \<open>The destructor\<close>

lemma destroy_loop_ok:
  assumes "finite (dom (lc_handles c))" "distinct as" "\<forall>a \<in> set as. \<exists>e. lc_handles c a = Some e \<and> lh_refs e = 1 \<and> lh_linked e"
  shows "\<exists>c'. destroy_loop as c = Some c' \<and> lc_handles c' = (\<lambda>a. if a \<in> set as then None else lc_handles c a) \<and> accounted c' = accounted c"
  using assms
proof (induction as arbitrary: c)
  case (Cons a as)
  obtain e where e: "lc_handles c a = Some e" "lh_refs e = 1" "lh_linked e" using Cons.prems(3) by auto
  let ?c = "c\<lparr>lc_deleted := lc_deleted c @ [(lh_key e, lh_value e)], lc_handles := (lc_handles c)(a := None)\<rparr>"
  have "lru_Unref a (c\<lparr>lc_handles := (lc_handles c)(a \<mapsto> e\<lparr>lh_in_cache := False\<rparr>)\<rparr>) = Some ?c" using e by (simp add: lru_Unref_def handle_key_def)
  moreover have "accounted ?c = accounted c" by (rule accounted_free [OF Cons.prems(1) e(1)]) simp_all
  moreover have "\<exists>c'. destroy_loop as ?c = Some c' \<and> lc_handles c' = (\<lambda>b. if b \<in> set as then None else lc_handles ?c b)
      \<and> accounted c' = accounted ?c"
  proof (rule Cons.IH)
    show "finite (dom (lc_handles ?c))" using Cons.prems(1) by simp
  qed (use Cons.prems in auto)
  ultimately show ?case using e by (auto simp: fun_eq_iff)
qed simp

lemma lru_destroy_ok:
  assumes "lru_ok c" "\<And>h. clients c h = {#}"
  shows "\<exists>c'. lru_destroy c = Some c' \<and> mset (lc_deleted c') = accounted c"
proof -
  have cached: "lh_in_cache e \<and> lh_refs e = 1 \<and> lh_linked e" if "lc_handles c a = Some e" for a e
  proof -
    have "lh_refs e \<noteq> 0" "lh_linked e" using assms(1) that by (auto simp: lru_ok_def entry_ok_def)
    moreover from this have "unat (lh_refs e) \<noteq> 0" by (simp add: unat_eq_zero)
    ultimately show ?thesis using assms(2) [of "Handle (lh_hash e) a"] that by (auto simp: clients_def refs_one split: if_splits)
  qed
  have in_lru: "a \<in> set (lc_lru c)" if "lc_handles c a = Some e" for a e
    using cached [OF that] that assms(1) by (auto simp: lru_ok_def entry_ok_def)
  have "\<forall>a \<in> set (lc_lru c). \<exists>e. lc_handles c a = Some e \<and> lh_refs e = 1 \<and> lh_linked e"
  proof
    fix a
    assume "a \<in> set (lc_lru c)"
    then have "a \<in> members (lc_table c)" using assms(1) by (auto simp: lru_ok_def)
    then obtain e where "lc_handles c a = Some e" by (rule member_entry [OF assms(1)])
    with cached show "\<exists>e. lc_handles c a = Some e \<and> lh_refs e = 1 \<and> lh_linked e" by blast
  qed
  moreover have "distinct (lc_lru c)" using assms(1) by (simp add: lru_ok_def)
  ultimately obtain c' where c': "destroy_loop (lc_lru c) c = Some c'" "accounted c' = accounted c"
    "lc_handles c' = (\<lambda>a. if a \<in> set (lc_lru c) then None else lc_handles c a)"
    using destroy_loop_ok [OF finite_handles [OF assms(1)]] by blast
  have "lc_handles c' = (\<lambda>a. None)"
  proof
    fix a
    show "lc_handles c' a = None" using c'(3) in_lru [of a] by (cases "lc_handles c a") auto
  qed
  then have "mset (lc_deleted c') = accounted c" using c'(2) by (simp add: accounted_def [of c'])
  with c'(1) show ?thesis by (simp add: lru_destroy_def)
qed

lemma destroy_shards_ok:
  assumes "\<forall>s \<in> set ss. lru_ok s \<and> (\<forall>h. clients s h = {#})"
  shows "\<exists>ss'. destroy_shards ss = Some ss' \<and> sum_list (map (\<lambda>s. mset (lc_deleted s)) ss') = sum_list (map accounted ss)"
  using assms
proof (induction ss)
  case (Cons s ss)
  then obtain s' where "lru_destroy s = Some s'" "mset (lc_deleted s') = accounted s" using lru_destroy_ok [of s] by auto
  with Cons show ?case by auto
qed simp

section \<open>Clients\<close>

definition entries_fit :: "'v ShardedLRUCache \<Rightarrow> bool" where
  "entries_fit c \<longleftrightarrow> (\<forall>s \<in> set (sc_shard c). unat (ht_elems (lc_table s)) < max_entries)"

text \<open>
  What clients do, in any order: the cache, the handles that have been returned and not yet been given back with the value
  that each was returned for, and all that was ever inserted. Clients look up only while fewer than \<open>2 ^ 32 - 2\<close> handles are
  out, and insert only while the tables have fewer than \<open>2 ^ 31\<close> entries: beyond that the 32-bit counts of the source
  wrap around. Charges and keys are arbitrary.
\<close>

inductive client_step :: "'v ShardedLRUCache \<times> (cache_handle \<times> 'v) multiset \<times> (slice \<times> 'v) multiset
    \<Rightarrow> 'v ShardedLRUCache \<times> (cache_handle \<times> 'v) multiset \<times> (slice \<times> 'v) multiset \<Rightarrow> bool" where
  client_insert: "entries_fit c \<Longrightarrow> sharded_Insert key v n c = Some (h, c') \<Longrightarrow> client_step (c, H, I) (c', add_mset (h, v) H, add_mset (key, v) I)"
| client_hit: "size H < max_handles \<Longrightarrow> sharded_Lookup key c = Some (Some h, c') \<Longrightarrow> sharded_Value h c' = Some v \<Longrightarrow> client_step (c, H, I) (c', add_mset (h, v) H, I)"
| client_miss: "size H < max_handles \<Longrightarrow> sharded_Lookup key c = Some (None, c') \<Longrightarrow> client_step (c, H, I) (c', H, I)"
| client_release: "(h, v) \<in># H \<Longrightarrow> sharded_Release h c = Some c' \<Longrightarrow> client_step (c, H, I) (c', H - {#(h, v)#}, I)"
| client_erase: "sharded_Erase key c = Some c' \<Longrightarrow> client_step (c, H, I) (c', H, I)"
| client_prune: "sharded_Prune c = Some c' \<Longrightarrow> client_step (c, H, I) (c', H, I)"
| client_id: "sharded_NewId c = (n, c') \<Longrightarrow> client_step (c, H, I) (c', H, I)"

definition client_ok :: "'v ShardedLRUCache \<times> (cache_handle \<times> 'v) multiset \<times> (slice \<times> 'v) multiset \<Rightarrow> bool" where
  "client_ok = (\<lambda>(c, H, I). sharded_ok c \<and> sharded_accounted c = I \<and> (\<forall>h v. count (sharded_clients c h) v = count H (h, v)))"

lemma entries_fit_shard: "sharded_ok c \<Longrightarrow> entries_fit c \<Longrightarrow> unat (ht_elems (lc_table (sc_shard c ! Shard hash))) < max_entries"
  using Shard_less [of hash] by (simp add: entries_fit_def sharded_ok_def)

text \<open>The references through one handle are some of the handles that are out.\<close>

lemma count_image_Pair: "count (image_mset (Pair h) M) (h, v) = count M v"
  by (induction M) auto

lemma handles_fit:
  assumes "client_ok (c, H, I)"
  shows "size (sharded_clients c h) \<le> size H"
proof -
  have "image_mset (Pair h) (sharded_clients c h) \<subseteq># H"
  proof (rule mset_subset_eqI)
    fix x :: "cache_handle \<times> 'a"
    obtain h' v where x: "x = (h', v)" by (cases x)
    show "count (image_mset (Pair h) (sharded_clients c h)) x \<le> count H x"
    proof (cases "h' = h")
      case True
      then have "count (image_mset (Pair h) (sharded_clients c h)) x = count (sharded_clients c h) v"
        by (simp add: x count_image_Pair)
      then show ?thesis using assms True by (simp add: client_ok_def x)
    next
      case False
      then have "x \<notin># image_mset (Pair h) (sharded_clients c h)" by (auto simp: x)
      then have "count (image_mset (Pair h) (sharded_clients c h)) x = 0" by (simp only: not_in_iff)
      then show ?thesis by simp
    qed
  qed
  from size_mset_mono [OF this] show ?thesis by simp
qed

lemma client_countable: "client_ok (c, H, I) \<Longrightarrow> size H < max_handles \<Longrightarrow> countable_handles (sharded_clients c)"
  using handles_fit [of c H I] by (auto simp: countable_handles_def intro: le_less_trans)

lemma client_step_ok:
  assumes "client_step x y" "client_ok x"
  shows "client_ok y"
  using assms
proof (induction rule: client_step.induct)
  case (client_insert c key v n h c' H I)
  have "count H (h, w) = 0" if "sharded_clients c h = {#}" for w
    using that client_insert(3) by (auto simp: client_ok_def) (metis count_empty)
  moreover have "sharded_ok c" using client_insert(3) by (simp add: client_ok_def)
  moreover note sharded_Insert_ok [OF this entries_fit_shard [OF this client_insert(1)], of key v n]
  ultimately show ?case using client_insert(2,3) by (auto simp: client_ok_def)
next
  case (client_hit H key c h c' v I)
  have ok: "sharded_ok c" using client_hit(4) by (simp add: client_ok_def)
  from sharded_Lookup_ok [OF ok client_countable [OF client_hit(4,1)], of key] client_hit(2,4) obtain w where w: "sharded_ok c'" "sharded_accounted c' = I"
    "sharded_clients c' = (sharded_clients c)(h := add_mset w (sharded_clients c h))" by (auto simp: client_ok_def)
  then have "w = v" using sharded_Value_ok [of w c' h] client_hit(3) by simp
  with w client_hit(4) show ?case by (auto simp: client_ok_def)
next
  case (client_miss H key c c' I)
  have ok: "sharded_ok c" using client_miss(3) by (simp add: client_ok_def)
  from sharded_Lookup_ok [OF ok client_countable [OF client_miss(3,1)], of key] client_miss(2,3) show ?case
    by (auto simp: client_ok_def)
next
  case (client_release h v H c c' I)
  then have "v \<in># sharded_clients c h" by (auto simp: client_ok_def simp flip: count_greater_zero_iff)
  then show ?case using client_release sharded_Release_ok [of c v h] by (auto simp: client_ok_def)
next
  case (client_erase key c c' H I)
  then show ?case using sharded_Erase_ok [of c key] by (auto simp: client_ok_def)
next
  case (client_prune c c' H I)
  then show ?case using sharded_Prune_ok [of c] by (auto simp: client_ok_def)
next
  case (client_id c n c' H I)
  then show ?case using sharded_NewId_ok [of c] by (auto simp: client_ok_def)
qed

lemma client_reachable_ok:
  assumes "client_step\<^sup>*\<^sup>* (NewLRUCache n, {#}, {#}) x" "per_shard n \<noteq> 0"
  shows "client_ok x"
  using assms(1)
proof (induction rule: rtranclp_induct)
  case base
  show ?case using assms(2) by (simp add: client_ok_def NewLRUCache_ok)
next
  case (step y z)
  then show ?case by (blast intro: client_step_ok)
qed

lemma client_ok_destroy:
  assumes "client_ok (c, {#}, I)"
  shows "\<exists>ss. destroy_shards (sc_shard c) = Some ss \<and> sum_list (map (\<lambda>s. mset (lc_deleted s)) ss) = I"
proof -
  have ok: "sharded_ok c" "sharded_accounted c = I" "\<And>h. sharded_clients c h = {#}" using assms by (auto simp: client_ok_def multiset_eq_iff)
  have "clients s h = {#}" if s: "s \<in> set (sc_shard c)" for s h
  proof (cases "clients s h")
    case (add v M)
    obtain i where i: "i < kNumShards" "s = sc_shard c ! i" using s ok(1) by (auto simp: in_set_conv_nth sharded_ok_def)
    obtain e where e: "lc_handles s (handle_entry h) = Some e" "lh_hash e = handle_hash h" using add by (auto simp: clients_def split: option.splits if_splits)
    have s_ok: "lru_ok s" using s ok(1) by (auto simp: sharded_ok_def shard_ok_def)
    then have "(lh_key e, lh_value e) \<in># accounted s"
      using e(1) finite_handles [OF s_ok] by (force simp: accounted_def)
    then have "Shard (HashSlice (lh_key e)) = i" using i ok(1) by (auto simp: sharded_ok_def)
    then have "Shard (handle_hash h) = i" using e s_ok by (auto simp: lru_ok_def entry_ok_def)
    then show ?thesis using ok(3) [of h] i(2) by (simp add: sharded_clients_def)
  qed simp
  then show ?thesis using destroy_shards_ok [of "sc_shard c"] ok by (auto simp: sharded_ok_def shard_ok_def sharded_accounted_def)
qed

lemma total_charge:
  assumes "sharded_ok c"
  shows "sharded_TotalCharge c = of_nat (sum_list (map charges (sc_shard c)))"
proof -
  have "\<forall>s \<in> set (sc_shard c). lc_usage s = of_nat (charges s)" using assms by (auto simp: sharded_ok_def shard_ok_def lru_ok_def)
  then have "sum_list (map lc_usage ss) = of_nat (sum_list (map charges ss))" if "set ss \<subseteq> set (sc_shard c)" for ss
    using that by (induction ss) auto
  then show ?thesis by (simp add: sharded_TotalCharge_def)
qed

lemma insert_then_hit:
  assumes "client_ok (c, H, I)" "sharded_ok c" "entries_fit c"
  shows "\<exists>h c'. sharded_Insert key v m c = Some (h, c')
    \<and> (let s = sc_shard c' ! Shard (HashSlice key) in
         (lc_usage s \<le> lc_capacity s \<or> lc_lru s = []) \<and> lc_usage s = of_nat (charges s))
    \<and> (size H < max_handles \<longrightarrow> (\<forall>h' c''. sharded_Lookup key c' = Some (Some h', c'') \<longrightarrow> sharded_Value h' c'' = Some v))"
proof -
  obtain h c' where c': "sharded_Insert key v m c = Some (h, c')" "sharded_ok c'"
    "\<forall>k w. sharded_has c' k w \<longrightarrow> (if k = key then w = v else sharded_has c k w)"
    "sharded_clients c' = (sharded_clients c)(h := {#v#})"
    "let s = sc_shard c' ! Shard (HashSlice key) in lc_usage s \<le> lc_capacity s \<or> lc_lru s = []"
    using sharded_Insert_ok [OF assms(2) entries_fit_shard [OF assms(2,3)], of key v m] by (elim exE conjE) (rule that)
  have usage: "lc_usage (sc_shard c' ! Shard (HashSlice key)) = of_nat (charges (sc_shard c' ! Shard (HashSlice key)))"
    using shard_member [OF c'(2), of "HashSlice key"] by (simp add: shard_ok_def lru_ok_def)
  have "sharded_Value h' c'' = Some v" if few: "size H < max_handles" and hit: "sharded_Lookup key c' = Some (Some h', c'')" for h' c''
  proof -
    have "countable_handles (sharded_clients c')"
      using client_countable [OF assms(1) few] by (simp add: c'(4) countable_handles_def max_handles_def)
    then obtain w where w: "sharded_has c' key w" "sharded_clients c'' = (sharded_clients c')(h' := add_mset w (sharded_clients c' h'))"
      using sharded_Lookup_ok [OF c'(2), of key] hit by auto
    then have "w = v" using c'(3) by auto
    then show ?thesis using w(2) sharded_Value_ok [of v c'' h'] by simp
  qed
  with c'(1,5) usage show ?thesis by (auto simp: Let_def)
qed

lemma new_entries_fit: "entries_fit (NewLRUCache n)"
  by (simp add: entries_fit_def NewLRUCache_def Let_def SetCapacity_def LRUCache_new_def HandleTable_new_def max_entries_def)



section \<open>A cache that caches nothing\<close>

text \<open>A cache of capacity 0, by which callers turn caching off, and one whose capacity is among the 15 largest integers, where
  the division among the shards wraps around to 0: an insertion of any key returns a handle that reads the value, but giving it
  back makes \<^verbatim>\<open>key()\<close> read a pointer that was never set.\<close>

theorem cache_without_capacity:
  assumes "n = 0 \<or> 2 ^ 64 \<le> unat n + 15"
  shows "\<exists>h c. sharded_Insert key v charge (NewLRUCache n) = Some (h, c) \<and> sharded_Value h c = Some v
    \<and> sharded_Release h c = None"
proof -
  define s where "s = (SetCapacity 0 LRUCache_new :: 'a LRUCache)"
  define e where "e = \<lparr>lh_value = v, lh_key = key, lh_charge = charge, lh_in_cache = False, lh_refs = 1, lh_hash = HashSlice key, lh_linked = False\<rparr>"
  define s' where "s' = s\<lparr>lc_next := 1, lc_handles := [0 \<mapsto> e]\<rparr>"
  have "per_shard n = 0" using assms by (simp add: per_shard_zero)
  then have shard: "sc_shard (NewLRUCache n) ! Shard hash = s" for hash
    by (simp add: NewLRUCache_def s_def Shard_less)
  have "evict_loop go s' = Some s'" for go
    by (subst evict_loop.simps) (simp add: s'_def s_def SetCapacity_def LRUCache_new_def)
  then have ins: "lru_Insert key (HashSlice key) v charge s = Some (0, s')"
    by (simp add: lru_Insert_def s'_def s_def e_def SetCapacity_def LRUCache_new_def Let_def)
  have "Shard (HashSlice key) < length (sc_shard (NewLRUCache n :: 'a ShardedLRUCache))"
    using Shard_less by (simp add: NewLRUCache_def Let_def)
  then have nth: "sc_shard (set_shard (NewLRUCache n) (Shard (HashSlice key)) s') ! Shard (HashSlice key) = s'"
    by (simp add: set_shard_def)
  have "lru_Unref 0 s' = None" by (simp add: lru_Unref_def s'_def e_def handle_key_def)
  then show ?thesis
    using ins shard nth
    by (auto simp: sharded_Insert_def sharded_Value_def sharded_Release_def lru_Release_def Let_def s'_def e_def)
qed

theorem cache_without_capacity_witness:
  "\<exists>h c. sharded_Insert [97] (7 :: nat) 1 (NewLRUCache (- 1)) = Some (h, c) \<and> sharded_Release h c = None"
  using cache_without_capacity [of "- 1" "[97]" "7 :: nat" 1] by (auto simp: unsigned_minus_1_eq_mask mask_eq_exp_minus_1)

end
