(* ===== verification/Ldb_Status.thy ===== *)
theory Ldb_Status
  imports Ldb_Coding
begin

text \<open>
  Results of storage operations, from \<^verbatim>\<open>include/leveldb/status.h\<close> and \<^verbatim>\<open>util/status.cc\<close>. A status
  is a null pointer or an array that holds the length of the message, the code and the message, and
  it is kept as that array here.
\<close>

type_synonym Status = "byte list option"

definition cstr :: "string \<Rightarrow> slice" where
  "cstr s = map of_char s"

type_synonym Code = byte

definition kOk :: Code where "kOk = 0"
definition kNotFound :: Code where "kNotFound = 1"
definition kCorruption :: Code where "kCorruption = 2"
definition kNotSupported :: Code where "kNotSupported = 3"
definition kInvalidArgument :: Code where "kInvalidArgument = 4"
definition kIOError :: Code where "kIOError = 5"

definition Status_new :: "Code \<Rightarrow> slice \<Rightarrow> slice \<Rightarrow> Status" where
  "Status_new code msg msg2 =
     (let len1 = of_nat (length msg) :: u32; len2 = of_nat (length msg2) :: u32;
          size = len1 + (if len2 \<noteq> 0 then 2 + len2 else 0)
      in Some (bytes_of_word 4 size @ code # take (unat len1) msg
           @ (if len2 \<noteq> 0 then cstr '': '' @ take (unat len2) msg2 else [])))"

definition Status_OK :: Status where "Status_OK = None"
definition Status_NotFound :: "slice \<Rightarrow> slice \<Rightarrow> Status" where
  "Status_NotFound msg msg2 = Status_new kNotFound msg msg2"
definition Status_Corruption :: "slice \<Rightarrow> slice \<Rightarrow> Status" where
  "Status_Corruption msg msg2 = Status_new kCorruption msg msg2"
definition Status_NotSupported :: "slice \<Rightarrow> slice \<Rightarrow> Status" where
  "Status_NotSupported msg msg2 = Status_new kNotSupported msg msg2"
definition Status_InvalidArgument :: "slice \<Rightarrow> slice \<Rightarrow> Status" where
  "Status_InvalidArgument msg msg2 = Status_new kInvalidArgument msg msg2"
definition Status_IOError :: "slice \<Rightarrow> slice \<Rightarrow> Status" where
  "Status_IOError msg msg2 = Status_new kIOError msg msg2"

definition status_ok :: "Status \<Rightarrow> bool" where
  "status_ok s \<longleftrightarrow> s = None"

definition status_code :: "Status \<Rightarrow> Code" where
  "status_code s = (case s of None \<Rightarrow> kOk | Some state \<Rightarrow> state ! 4)"

definition IsNotFound :: "Status \<Rightarrow> bool" where "IsNotFound s \<longleftrightarrow> status_code s = kNotFound"
definition IsCorruption :: "Status \<Rightarrow> bool" where "IsCorruption s \<longleftrightarrow> status_code s = kCorruption"
definition IsIOError :: "Status \<Rightarrow> bool" where "IsIOError s \<longleftrightarrow> status_code s = kIOError"

text \<open>A copy reads the length from the array and copies that many bytes and the header.\<close>

definition CopyState :: "byte list \<Rightarrow> byte list" where
  "CopyState state = (let size = word_of_bytes (take 4 state) :: u32 in take (unat (size + 5)) state)"

definition Status_copy :: "Status \<Rightarrow> Status" where
  "Status_copy s = map_option CopyState s"

text \<open>The branch for unknown codes prints the number; the five codes and zero are the only ones that
  the class can hold.\<close>

definition status_type :: "Code \<Rightarrow> string option" where
  "status_type c =
     (if c = kOk then Some ''OK'' else if c = kNotFound then Some ''NotFound: ''
      else if c = kCorruption then Some ''Corruption: '' else if c = kNotSupported then Some ''Not implemented: ''
      else if c = kInvalidArgument then Some ''Invalid argument: '' else if c = kIOError then Some ''IO error: ''
      else None)"

definition Status_ToString :: "Status \<Rightarrow> slice option" where
  "Status_ToString s =
     (case s of
        None \<Rightarrow> Some (cstr ''OK'')
      | Some state \<Rightarrow>
          (case status_type (status_code s) of
             None \<Rightarrow> None
           | Some type \<Rightarrow>
               let len = word_of_bytes (take 4 state) :: u32 in Some (cstr type @ take (unat len) (drop 5 state))))"

section \<open>Facts\<close>

lemma length_cstr [simp]: "length (cstr s) = length s"
  by (simp add: cstr_def)

lemma Status_OK_ok [simp]: "status_ok Status_OK"
  by (simp add: status_ok_def Status_OK_def)

lemma Status_new_code [simp]: "status_code (Status_new c msg msg2) = c" "\<not> status_ok (Status_new c msg msg2)"
  by (simp_all add: status_code_def Status_new_def status_ok_def Let_def nth_append)

lemma Status_Corruption_neq_OK [simp]:
  "Status_Corruption a b \<noteq> Status_OK" "Status_OK \<noteq> Status_Corruption a b" "\<not> status_ok (Status_Corruption a b)"
  "IsCorruption (Status_Corruption a b)"
  by (simp_all add: Status_Corruption_def Status_OK_def Status_new_def IsCorruption_def status_ok_def Let_def
      status_code_def nth_append)

lemma not_Corruption_OK [simp]: "\<not> IsCorruption Status_OK"
  by (simp add: IsCorruption_def status_code_def Status_OK_def kOk_def kCorruption_def)

text \<open>The array of a status whose message is shorter than 4 GB.\<close>

definition status_message :: "slice \<Rightarrow> slice \<Rightarrow> slice" where
  "status_message msg msg2 = msg @ (if msg2 = [] then [] else cstr '': '' @ msg2)"

lemma Status_new_state:
  assumes "length msg + 2 + length msg2 < 2 ^ 32"
  shows "Status_new c msg msg2
     = Some (bytes_of_word 4 (of_nat (length (status_message msg msg2)) :: u32) @ c # status_message msg msg2)"
proof -
  have "unat (of_nat (length msg) :: u32) = length msg" "unat (of_nat (length msg2) :: u32) = length msg2"
    using assms by (simp_all add: unat_of_nat_small)
  moreover have "(of_nat (length msg2) :: u32) \<noteq> 0 \<longleftrightarrow> msg2 \<noteq> []"
    using calculation(2) by (metis length_0_conv unat_eq_zero)
  ultimately show ?thesis
    by (simp add: Status_new_def status_message_def Let_def)
qed

lemma byte_le_5: "(c :: byte) \<le> 5 \<Longrightarrow> c \<in> {0, 1, 2, 3, 4, 5}"
proof -
  assume "c \<le> 5"
  then have "unat c \<le> 5" by (simp add: word_le_nat_alt)
  then have "unat c = 0 \<or> unat c = 1 \<or> unat c = 2 \<or> unat c = 3 \<or> unat c = 4 \<or> unat c = 5" by arith
  moreover have "c = of_nat (unat c)" by simp
  ultimately have "c = of_nat 0 \<or> c = of_nat 1 \<or> c = of_nat 2 \<or> c = of_nat 3 \<or> c = of_nat 4 \<or> c = of_nat 5"
    by metis
  then show ?thesis by simp
qed

lemma status_type_Some: "c \<le> 5 \<Longrightarrow> status_type c \<noteq> None"
  by (drule byte_le_5)
    (auto simp: status_type_def kOk_def kNotFound_def kCorruption_def kNotSupported_def kInvalidArgument_def kIOError_def)

text \<open>A status built from a code and messages prints as the name of the code followed by the
  message (the second message after a colon, when there is one), and so does a copy of it, which is
  the same array.\<close>

theorem status_to_string:
  assumes "length msg + 2 + length msg2 < 2 ^ 31" and "c \<le> kIOError"
  shows "Status_ToString (Status_new c msg msg2)
      = Some (cstr (the (status_type c)) @ msg @ (if msg2 = [] then [] else cstr '': '' @ msg2))
    \<and> Status_copy (Status_new c msg msg2) = Status_new c msg msg2"
proof -
  let ?m = "status_message msg msg2"
  have "length ?m < 2 ^ 31" using assms(1) by (simp add: status_message_def)
  then have n: "unat (of_nat (length ?m) :: u32) = length ?m" "unat (of_nat (length ?m) + 5 :: u32) = length ?m + 5"
    by (simp_all add: unat_of_nat_small unat_word_ariths)
  have st: "Status_new c msg msg2 = Some (bytes_of_word 4 (of_nat (length ?m) :: u32) @ c # ?m)"
    using assms(1) by (intro Status_new_state) simp
  have "status_code (Status_new c msg msg2) = c" by simp
  moreover have "status_type c \<noteq> None" using assms(2) by (intro status_type_Some) (simp add: kIOError_def)
  ultimately show ?thesis
    using st n by (auto simp: Status_ToString_def Status_copy_def CopyState_def Let_def status_message_def)
qed

theorem status_to_string_witness:
  "Status_ToString (Status_Corruption (cstr ''bad block'') (cstr ''x'')) = Some (cstr ''Corruption: bad block: x'')"
proof -
  have "status_type kCorruption = Some ''Corruption: ''" by code_simp
  with status_to_string [of "cstr ''bad block''" "cstr ''x''" kCorruption] show ?thesis
    by (simp add: Status_Corruption_def kCorruption_def kIOError_def cstr_def)
qed

end
