(* ===== verification/Ldb_File.thy ===== *)
theory Ldb_File
  imports Ldb_Status
begin

text \<open>
  Files as the log reader and writer see them. The interfaces \<^verbatim>\<open>SequentialFile\<close> and
  \<^verbatim>\<open>WritableFile\<close> of \<^verbatim>\<open>include/leveldb/env.h\<close> are records of operations on a state; the
  implementations are \<^verbatim>\<open>PosixSequentialFile\<close> and \<^verbatim>\<open>PosixWritableFile\<close> of \<^verbatim>\<open>util/env_posix.cc\<close>
  over C streams. The documented behaviour of the interfaces is stated as two locales that the
  implementations are shown to satisfy.
\<close>

section \<open>C streams\<close>

text \<open>A stream has the bytes of its file, a position, and may have a limit behind which the device
  fails to read or write. Reading stops at the end of the file, where it sets the end-of-file
  indicator, or at the limit, where it does not.\<close>

record FILE =
  f_data :: "byte list"
  f_pos :: nat
  f_limit :: "nat option"
  f_eof :: bool
  f_strerror :: slice

definition fread_unlocked :: "nat \<Rightarrow> FILE \<Rightarrow> byte list \<times> FILE" where
  "fread_unlocked n f =
     (let readable = (case f_limit f of None \<Rightarrow> f_data f | Some k \<Rightarrow> take k (f_data f));
          got = take n (drop (f_pos f) readable)
      in (got, f\<lparr>f_pos := f_pos f + length got,
                 f_eof := f_eof f \<or> length got < n \<and> length readable = length (f_data f)\<rparr>))"

text \<open>\<^verbatim>\<open>fseek\<close> with \<^verbatim>\<open>SEEK_CUR\<close> takes a \<^verbatim>\<open>long\<close>, fails on a negative target, and clears the indicator.\<close>

definition fseek_cur :: "u64 \<Rightarrow> FILE \<Rightarrow> bool \<times> FILE" where
  "fseek_cur n f =
     (if int (f_pos f) + sint n < 0 then (False, f)
      else (True, f\<lparr>f_pos := nat (int (f_pos f) + sint n), f_eof := False\<rparr>))"

definition fwrite_unlocked :: "byte list \<Rightarrow> FILE \<Rightarrow> nat \<times> FILE" where
  "fwrite_unlocked d f =
     (let written = (case f_limit f of None \<Rightarrow> d | Some k \<Rightarrow> take (k - length (f_data f)) d)
      in (length written, f\<lparr>f_data := f_data f @ written\<rparr>))"

text \<open>Writes go through to the file here; flushing fails once the limit is reached.\<close>

definition fflush_unlocked :: "FILE \<Rightarrow> bool \<times> FILE" where
  "fflush_unlocked f = (case f_limit f of None \<Rightarrow> (True, f) | Some k \<Rightarrow> (length (f_data f) < k, f))"

section \<open>The interfaces and their implementations\<close>

record 'f SequentialFile =
  sf_Read :: "nat \<Rightarrow> 'f \<Rightarrow> Status \<times> slice \<times> 'f"
  sf_Skip :: "u64 \<Rightarrow> 'f \<Rightarrow> Status \<times> 'f"

record 'f WritableFile =
  wf_Append :: "slice \<Rightarrow> 'f \<Rightarrow> Status \<times> 'f"
  wf_Flush :: "'f \<Rightarrow> Status \<times> 'f"

definition posix_IOError :: "slice \<Rightarrow> FILE \<Rightarrow> Status" where
  "posix_IOError context_name f = Status_IOError context_name (f_strerror f)"

definition posix_seq_Read :: "slice \<Rightarrow> nat \<Rightarrow> FILE \<Rightarrow> Status \<times> slice \<times> FILE" where
  "posix_seq_Read filename n f =
     (let (got, f) = fread_unlocked n f in
      if length got < n
      then if f_eof f then (Status_OK, got, f) else (posix_IOError filename f, got, f)
      else (Status_OK, got, f))"

definition posix_seq_Skip :: "slice \<Rightarrow> u64 \<Rightarrow> FILE \<Rightarrow> Status \<times> FILE" where
  "posix_seq_Skip filename n f =
     (let (ok, f) = fseek_cur n f in if \<not> ok then (posix_IOError filename f, f) else (Status_OK, f))"

definition PosixSequentialFile :: "slice \<Rightarrow> FILE SequentialFile" where
  "PosixSequentialFile filename = \<lparr>sf_Read = posix_seq_Read filename, sf_Skip = posix_seq_Skip filename\<rparr>"

definition posix_Append :: "slice \<Rightarrow> slice \<Rightarrow> FILE \<Rightarrow> Status \<times> FILE" where
  "posix_Append filename d f =
     (let (r, f) = fwrite_unlocked d f in
      if r \<noteq> length d then (posix_IOError filename f, f) else (Status_OK, f))"

definition posix_Flush :: "slice \<Rightarrow> FILE \<Rightarrow> Status \<times> FILE" where
  "posix_Flush filename f =
     (let (ok, f) = fflush_unlocked f in if \<not> ok then (posix_IOError filename f, f) else (Status_OK, f))"

definition PosixWritableFile :: "slice \<Rightarrow> FILE WritableFile" where
  "PosixWritableFile filename = \<lparr>wf_Append = posix_Append filename, wf_Flush = posix_Flush filename\<rparr>"

section \<open>Contracts\<close>

text \<open>A file that is written: a successful append adds the data; a failed one adds a part of it and
  the file is full from then on, which later appends notice.\<close>

locale append_file =
  fixes out :: "'f WritableFile" and contents :: "'f \<Rightarrow> byte list" and full :: "'f \<Rightarrow> bool"
  assumes append_result:
    "wf_Append out d f = (s, f') \<Longrightarrow>
       if status_ok s then contents f' = contents f @ d else full f' \<and> (\<exists>p q. d = p @ q \<and> contents f' = contents f @ p)"
  and append_full: "full f \<Longrightarrow> d \<noteq> [] \<Longrightarrow> wf_Append out d f = (s, f') \<Longrightarrow> \<not> status_ok s \<and> contents f' = contents f \<and> full f'"
  and flush_result: "wf_Flush out f = (s, f') \<Longrightarrow> contents f' = contents f \<and> (full f' \<longleftrightarrow> full f)"

text \<open>A file that is read: what has not been read comes in order, \<open>n\<close> bytes at a time as long as
  there are as many.\<close>

locale finite_file =
  fixes sf :: "'f SequentialFile" and rest :: "'f \<Rightarrow> byte list" and good :: "'f \<Rightarrow> bool"
  assumes read_result: "good f \<Longrightarrow>
    \<exists>f'. sf_Read sf n f = (Status_OK, take n (rest f), f') \<and> good f' \<and> rest f' = drop n (rest f)"

section \<open>The implementations satisfy the contracts\<close>

definition no_room :: "FILE \<Rightarrow> bool" where
  "no_room f \<longleftrightarrow> (\<exists>k. f_limit f = Some k \<and> k \<le> length (f_data f))"

lemma PosixSequentialFile_simps [simp]:
  "sf_Read (PosixSequentialFile n) = posix_seq_Read n" "sf_Skip (PosixSequentialFile n) = posix_seq_Skip n"
  by (simp_all add: PosixSequentialFile_def)

lemma PosixWritableFile_simps [simp]:
  "wf_Append (PosixWritableFile n) = posix_Append n" "wf_Flush (PosixWritableFile n) = posix_Flush n"
  by (simp_all add: PosixWritableFile_def)

lemma posix_IOError_not_ok [simp]: "\<not> status_ok (posix_IOError c f)"
  by (simp add: posix_IOError_def Status_IOError_def)

definition readable_file :: "FILE \<Rightarrow> bool" where
  "readable_file f \<longleftrightarrow> f_limit f = None"

definition unread :: "FILE \<Rightarrow> byte list" where
  "unread f = drop (f_pos f) (f_data f)"

interpretation posix_in: finite_file "PosixSequentialFile filename" unread readable_file
proof (unfold_locales, goal_cases)
  case (1 f n)
  then show ?case
    by (auto simp: posix_seq_Read_def fread_unlocked_def readable_file_def unread_def Let_def add.commute min_def)
qed

lemma fwrite_parts:
  assumes "fwrite_unlocked d f = (r, f')"
  obtains p q where "d = p @ q" "r = length p" "f_data f' = f_data f @ p" "f_limit f' = f_limit f"
    "q \<noteq> [] \<longrightarrow> no_room f'" "no_room f \<longrightarrow> p = [] \<and> no_room f'"
proof (cases "f_limit f")
  case None
  then show ?thesis using assms by (intro that [of d "[]"]) (auto simp: fwrite_unlocked_def no_room_def)
next
  case (Some k)
  let ?n = "k - length (f_data f)"
  have "r = length (take ?n d)" "f' = f\<lparr>f_data := f_data f @ take ?n d\<rparr>"
    using assms Some by (auto simp: fwrite_unlocked_def)
  then show ?thesis using Some by (intro that [of "take ?n d" "drop ?n d"]) (auto simp: no_room_def)
qed

lemma posix_AppendE:
  assumes "posix_Append filename d f = (s, f')"
  obtains p q where "d = p @ q" "status_ok s \<longleftrightarrow> q = []" "f_data f' = f_data f @ p"
    "q \<noteq> [] \<longrightarrow> no_room f'" "no_room f \<longrightarrow> p = [] \<and> no_room f'"
proof -
  obtain r where w: "fwrite_unlocked d f = (r, f')" "s = (if r \<noteq> length d then posix_IOError filename f' else Status_OK)"
    using assms by (auto simp: posix_Append_def split: prod.splits if_splits)
  from w(1) show ?thesis
  proof (rule fwrite_parts)
    fix p q
    assume "d = p @ q" "r = length p" "f_data f' = f_data f @ p" "q \<noteq> [] \<longrightarrow> no_room f'"
      "no_room f \<longrightarrow> p = [] \<and> no_room f'"
    with w(2) show thesis by (intro that [of p q]) simp_all
  qed
qed

interpretation posix_out: append_file "PosixWritableFile filename" f_data no_room
proof (unfold_locales, unfold PosixWritableFile_simps, goal_cases)
  case (1 d f s f')
  then show ?case by (rule posix_AppendE) auto
next
  case (2 f d s f')
  from 2(3) show ?case by (rule posix_AppendE) (use 2(1,2) in auto)
next
  case (3 f s f')
  then show ?case
    by (auto simp: posix_Flush_def fflush_unlocked_def split: option.splits if_splits)
qed

text \<open>A device without a limit.\<close>

lemma posix_unlimited:
  assumes "f_limit f = None"
  shows "posix_Append name d f = (Status_OK, f\<lparr>f_data := f_data f @ d\<rparr>)" "posix_Flush name f = (Status_OK, f)"
  using assms by (simp_all add: posix_Append_def posix_Flush_def fwrite_unlocked_def fflush_unlocked_def)

end
