(* ===== verification/Ldb_Log_Writer.thy ===== *)
theory Ldb_Log_Writer
  imports Ldb_Crc32c Ldb_File
begin

text \<open>
  The writer of the write-ahead log, from \<^verbatim>\<open>db/log_format.h\<close> and \<^verbatim>\<open>db/log_writer.cc\<close>. A log is a
  sequence of blocks of 32 KB; a record is cut into fragments that do not cross a block, each with a
  checksum, a length and a type. What the writer puts into the file is compared with the bytes of
  the list of fragments.
\<close>

section \<open>The format\<close>

type_synonym RecordType = byte

definition kZeroType :: RecordType where "kZeroType = 0"
definition kFullType :: RecordType where "kFullType = 1"
definition kFirstType :: RecordType where "kFirstType = 2"
definition kMiddleType :: RecordType where "kMiddleType = 3"
definition kLastType :: RecordType where "kLastType = 4"
definition kMaxRecordType :: nat where "kMaxRecordType = unat kLastType"
definition kBlockSize :: nat where "kBlockSize = 32768"
definition kHeaderSize :: nat where "kHeaderSize = 4 + 2 + 1"

section \<open>Operations\<close>

record 'f Writer =
  lw_dest :: 'f
  lw_block_offset :: nat
  lw_type_crc :: "u32 list"

definition InitTypeCrc :: "u32 list" where
  "InitTypeCrc = map (\<lambda>i. Value [of_nat i]) [0..<kMaxRecordType + 1]"

definition Writer_new :: "'f \<Rightarrow> 'f Writer" where
  "Writer_new dest = \<lparr>lw_dest = dest, lw_block_offset = 0, lw_type_crc = InitTypeCrc\<rparr>"

definition Writer_reopen :: "'f \<Rightarrow> u64 \<Rightarrow> 'f Writer" where
  "Writer_reopen dest dest_length =
     \<lparr>lw_dest = dest, lw_block_offset = unat dest_length mod kBlockSize, lw_type_crc = InitTypeCrc\<rparr>"

definition EmitPhysicalRecord :: "'f WritableFile \<Rightarrow> RecordType \<Rightarrow> slice \<Rightarrow> 'f Writer \<Rightarrow> Status \<times> 'f Writer" where
  "EmitPhysicalRecord out t ptr w =
     (let n = of_nat (length ptr) :: size_t;
          crc = Extend (lw_type_crc w ! unat t) ptr;
          crc = Mask crc;
          buf = EncodeFixed32 crc @ [ucast (n AND 0xff), ucast (drop_bit 8 n), t];
          (s, dest) = wf_Append out buf (lw_dest w);
          (s, dest) =
            (if status_ok s
             then let (s, dest) = wf_Append out ptr dest in if status_ok s then wf_Flush out dest else (s, dest)
             else (s, dest))
      in (s, w\<lparr>lw_dest := dest, lw_block_offset := lw_block_offset w + kHeaderSize + length ptr\<rparr>))"

text \<open>The switch to a new block; the result of filling the trailer is not looked at.\<close>

definition switch_block :: "'f WritableFile \<Rightarrow> 'f Writer \<Rightarrow> 'f Writer" where
  "switch_block out w =
     (let leftover = int kBlockSize - int (lw_block_offset w) in
      if leftover < int kHeaderSize
      then let dest = (if leftover > 0 then snd (wf_Append out (replicate (nat leftover) 0) (lw_dest w)) else lw_dest w)
           in w\<lparr>lw_dest := dest, lw_block_offset := 0\<rparr>
      else w)"

definition fragment_type :: "bool \<Rightarrow> bool \<Rightarrow> RecordType" where
  "fragment_type begins ends =
     (if begins \<and> ends then kFullType else if begins then kFirstType else if ends then kLastType else kMiddleType)"

lemma Emit_offset:
  "EmitPhysicalRecord out t ptr w = (s, w') \<Longrightarrow> lw_block_offset w' = lw_block_offset w + kHeaderSize + length ptr"
  by (auto simp: EmitPhysicalRecord_def Let_def split: prod.splits if_splits)

lemma switch_offset:
  "lw_block_offset (switch_block out w) = (if kBlockSize < lw_block_offset w + kHeaderSize then 0 else lw_block_offset w)"
  by (auto simp: switch_block_def Let_def)

function add_record_loop :: "'f WritableFile \<Rightarrow> slice \<Rightarrow> bool \<Rightarrow> 'f Writer \<Rightarrow> Status \<times> 'f Writer" where
  "add_record_loop out left begins w =
     (let w = switch_block out w;
          avail = kBlockSize - lw_block_offset w - kHeaderSize;
          fragment_length = (if length left < avail then length left else avail);
          ends = (length left = fragment_length);
          (s, w) = EmitPhysicalRecord out (fragment_type begins ends) (take fragment_length left) w;
          left = drop fragment_length left
      in if status_ok s \<and> length left > 0 then add_record_loop out left False w else (s, w))"
  by pat_completeness auto
termination
proof (relation "measure (\<lambda>(out, left, _, w). 2 * length left + (if lw_block_offset w + kHeaderSize = kBlockSize then 1 else 0))",
    goal_cases)
  case (2 out left begins w w1 avail len ends p s w2 left')
  define off where "off = lw_block_offset w1"
  have o: "off = (if kBlockSize < lw_block_offset w + kHeaderSize then 0 else lw_block_offset w)"
    using 2(1) by (simp add: off_def switch_offset)
  have "length (take len left) = len" using 2(3) by (auto simp: min_def)
  then have "lw_block_offset w2 = off + kHeaderSize + len"
    using Emit_offset [of out _ "take len left" w1 s w2] 2(5,6) by (simp add: off_def)
  moreover have "length left' = length left - len" using 2(7) by simp
  moreover have "len = 0 \<Longrightarrow> off + kHeaderSize = kBlockSize \<and> off = lw_block_offset w"
    using 2(2,3,7,8) o by (auto simp: off_def kBlockSize_def kHeaderSize_def split: if_splits)
  ultimately show ?case
    using 2(7,8) by (cases "len = 0") (auto simp: kHeaderSize_def)
qed simp

declare add_record_loop.simps [simp del]

definition AddRecord :: "'f WritableFile \<Rightarrow> slice \<Rightarrow> 'f Writer \<Rightarrow> Status \<times> 'f Writer" where
  "AddRecord out record_data w = add_record_loop out record_data True w"

section \<open>The bytes of fragments\<close>

text \<open>Where the next header goes, and what fills the block before it.\<close>

definition next_offset :: "nat \<Rightarrow> nat" where
  "next_offset off = (if kBlockSize < off + kHeaderSize then 0 else off)"

definition trailer :: "nat \<Rightarrow> byte list" where
  "trailer off = (if kBlockSize < off + kHeaderSize then replicate (kBlockSize - off) 0 else [])"

definition physical_record :: "RecordType \<Rightarrow> slice \<Rightarrow> byte list" where
  "physical_record t d =
     EncodeFixed32 (Mask (Value (t # d))) @ [of_nat (length d), of_nat (length d div 256), t] @ d"

type_synonym fragment = "RecordType \<times> slice"

fun physical_bytes :: "nat \<Rightarrow> fragment list \<Rightarrow> byte list" where
  "physical_bytes off [] = []"
| "physical_bytes off ((t, d) # frs) =
     trailer off @ physical_record t d @ physical_bytes (next_offset off + kHeaderSize + length d) frs"

fun physical_end :: "nat \<Rightarrow> fragment list \<Rightarrow> nat" where
  "physical_end off [] = off"
| "physical_end off ((t, d) # frs) = physical_end (next_offset off + kHeaderSize + length d) frs"

text \<open>The fragments of a record that starts at an offset in a block.\<close>

function fragments :: "nat \<Rightarrow> bool \<Rightarrow> slice \<Rightarrow> fragment list" where
  "fragments off begins left =
     (let avail = kBlockSize - next_offset off - kHeaderSize; n = min (length left) avail
      in (fragment_type begins (length left = n), take n left)
         # (if n < length left then fragments (next_offset off + kHeaderSize + n) False (drop n left) else []))"
  by pat_completeness auto
termination
  by (relation "measure (\<lambda>(off, _, left). 2 * length left + (if off + kHeaderSize = kBlockSize then 1 else 0))")
    (auto simp: next_offset_def kHeaderSize_def kBlockSize_def min_def split: if_splits)

declare fragments.simps [simp del]

definition log_bytes :: "nat \<Rightarrow> slice \<Rightarrow> byte list" where
  "log_bytes off d = physical_bytes off (fragments off True d)"

definition log_end :: "nat \<Rightarrow> slice \<Rightarrow> nat" where
  "log_end off d = physical_end off (fragments off True d)"

section \<open>The writer writes the fragments\<close>

lemma InitTypeCrc_nth: "unat t \<le> 4 \<Longrightarrow> InitTypeCrc ! unat t = Value [t]"
  by (simp add: InitTypeCrc_def kMaxRecordType_def kLastType_def del: upt_Suc)

lemma fragment_type_le: "unat (fragment_type b e) \<le> 4" "fragment_type b e \<noteq> kZeroType"
  by (simp_all add: fragment_type_def kFullType_def kFirstType_def kLastType_def kMiddleType_def kZeroType_def)

lemma header_bytes:
  assumes "lw_type_crc w = InitTypeCrc" and "unat t \<le> 4" and "length d < 2 ^ 16"
  shows "EncodeFixed32 (Mask (Extend (lw_type_crc w ! unat t) d))
      @ [ucast ((of_nat (length d) :: size_t) AND 0xff), ucast (drop_bit 8 (of_nat (length d) :: size_t)), t] @ d
    = physical_record t d"
proof -
  have "Extend (Value [t]) d = Value (t # d)" by (simp add: Value_def Extend_append)
  moreover have "(ucast ((of_nat (length d) :: size_t) AND 0xff) :: byte) = of_nat (length d)"
    by (rule bit_word_eqI) (auto simp: bit_simps and_FF)
  moreover have "(ucast (drop_bit 8 (of_nat (length d) :: size_t)) :: byte) = of_nat (length d div 256)"
  proof -
    have "drop_bit 8 (of_nat (length d) :: size_t) = of_nat (length d div 256)"
      using assms(3) by (simp add: word_unat_eq_iff unat_drop_bit unat_of_nat_small)
    moreover have "(ucast (of_nat n :: size_t) :: byte) = of_nat n" for n
      by (rule bit_word_eqI) (auto simp: bit_simps)
    ultimately show ?thesis by simp
  qed
  ultimately show ?thesis
    using assms InitTypeCrc_nth [of t] by (simp add: physical_record_def)
qed

text \<open>What a call that may fail leaves in the file.\<close>

definition prefix_of :: "'a list \<Rightarrow> 'a list \<Rightarrow> bool" where
  "prefix_of p xs \<longleftrightarrow> (\<exists>q. xs = p @ q)"

lemma prefix_ofI [intro]: "xs = p @ q \<Longrightarrow> prefix_of p xs"
  by (auto simp: prefix_of_def)

lemma prefix_of_append:
  "prefix_of p xs \<Longrightarrow> prefix_of p (xs @ ys)" "prefix_of q ys \<Longrightarrow> prefix_of (xs @ q) (xs @ ys)" "prefix_of xs xs"
  by (auto simp: prefix_of_def)

context append_file
begin

lemma emit_bytes:
  assumes "lw_type_crc w = InitTypeCrc" and "unat t \<le> 4" and "length d < 2 ^ 16"
    and "EmitPhysicalRecord out t d w = (s, w')"
  shows "\<exists>p. prefix_of p (physical_record t d) \<and> contents (lw_dest w') = contents (lw_dest w) @ p
    \<and> (status_ok s \<longrightarrow> p = physical_record t d) \<and> (full (lw_dest w) \<longrightarrow> \<not> status_ok s \<and> p = [])"
    "lw_type_crc w' = InitTypeCrc"
proof -
  define h where "h = EncodeFixed32 (Mask (Extend (lw_type_crc w ! unat t) d))
    @ [ucast ((of_nat (length d) :: size_t) AND 0xff), ucast (drop_bit 8 (of_nat (length d) :: size_t)), t]"
  have phys: "physical_record t d = h @ d"
    using header_bytes [OF assms(1-3)] by (simp add: h_def)
  show "lw_type_crc w' = InitTypeCrc"
    using assms(1,4) by (auto simp: EmitPhysicalRecord_def Let_def split: prod.splits if_splits)
  obtain s1 f1 where a1: "wf_Append out h (lw_dest w) = (s1, f1)" by fastforce
  have "h \<noteq> []" by (simp add: h_def)
  note r1 = append_result [OF a1] append_full [OF _ this a1]
  obtain s2 f2 where a2: "wf_Append out d f1 = (s2, f2)" by fastforce
  note r2 = append_result [OF a2]
  obtain s3 f3 where a3: "wf_Flush out f2 = (s3, f3)" by fastforce
  note r3 = flush_result [OF a3]
  have res: "s = (if status_ok s1 then if status_ok s2 then s3 else s2 else s1)
      \<and> lw_dest w' = (if status_ok s1 then if status_ok s2 then f3 else f2 else f1)"
    using assms(4) a1 a2 a3 by (auto simp: EmitPhysicalRecord_def Let_def h_def)
  show "\<exists>p. prefix_of p (physical_record t d) \<and> contents (lw_dest w') = contents (lw_dest w) @ p
    \<and> (status_ok s \<longrightarrow> p = physical_record t d) \<and> (full (lw_dest w) \<longrightarrow> \<not> status_ok s \<and> p = [])"
  proof (cases "status_ok s1")
    case False
    then show ?thesis using res r1 phys by (auto intro!: prefix_of_append)
  next
    case True
    with r1 have nf: "\<not> full (lw_dest w)" "contents f1 = contents (lw_dest w) @ h" by auto
    show ?thesis
    proof (cases "status_ok s2")
      case True
      then show ?thesis using res r2 r3 nf phys \<open>status_ok s1\<close> prefix_of_append(3) by auto
    next
      case False
      with r2 obtain p q where "d = p @ q" "contents f2 = contents f1 @ p" by auto
      with False show ?thesis
        using res nf phys \<open>status_ok s1\<close> by (intro exI [of _ "h @ p"]) auto
    qed
  qed
qed

lemma switch_bytes:
  assumes "lw_block_offset w \<le> kBlockSize"
  shows "contents (lw_dest (switch_block out w)) = contents (lw_dest w) @ trailer (lw_block_offset w)
    \<or> full (lw_dest (switch_block out w))
      \<and> (\<exists>p. prefix_of p (trailer (lw_block_offset w)) \<and> contents (lw_dest (switch_block out w)) = contents (lw_dest w) @ p)"
    "lw_block_offset (switch_block out w) = next_offset (lw_block_offset w)"
    "lw_type_crc (switch_block out w) = lw_type_crc w"
proof -
  obtain s f where a: "wf_Append out (replicate (kBlockSize - lw_block_offset w) 0) (lw_dest w) = (s, f)" by fastforce
  have n: "nat (int kBlockSize - int (lw_block_offset w)) = kBlockSize - lw_block_offset w" by simp
  show "contents (lw_dest (switch_block out w)) = contents (lw_dest w) @ trailer (lw_block_offset w)
    \<or> full (lw_dest (switch_block out w))
      \<and> (\<exists>p. prefix_of p (trailer (lw_block_offset w)) \<and> contents (lw_dest (switch_block out w)) = contents (lw_dest w) @ p)"
    using append_result [OF a] a assms
    unfolding switch_block_def trailer_def Let_def n
    by (cases "status_ok s") (auto split: if_splits)
  show "lw_block_offset (switch_block out w) = next_offset (lw_block_offset w)"
    by (simp add: switch_offset next_offset_def)
  show "lw_type_crc (switch_block out w) = lw_type_crc w"
    by (simp add: switch_block_def Let_def)
qed

lemma add_record_loop_bytes:
  assumes "lw_type_crc w = InitTypeCrc" and "lw_block_offset w \<le> kBlockSize"
    and "add_record_loop out left begins w = (s, w')"
  shows "\<exists>p. prefix_of p (physical_bytes (lw_block_offset w) (fragments (lw_block_offset w) begins left))
    \<and> contents (lw_dest w') = contents (lw_dest w) @ p \<and> lw_type_crc w' = InitTypeCrc
    \<and> (status_ok s \<longrightarrow> p = physical_bytes (lw_block_offset w) (fragments (lw_block_offset w) begins left)
          \<and> lw_block_offset w' = physical_end (lw_block_offset w) (fragments (lw_block_offset w) begins left)
          \<and> lw_block_offset w' \<le> kBlockSize)"
  using assms
proof (induction "lw_block_offset w" begins left arbitrary: w s w' rule: fragments.induct)
  case (1 begins left)
  let ?off = "lw_block_offset w"
  let ?avail = "kBlockSize - next_offset ?off - kHeaderSize"
  define n where "n = min (length left) ?avail"
  define t where "t = fragment_type begins (length left = n)"
  define w1 where "w1 = switch_block out w"
  obtain s2 w2 where e: "EmitPhysicalRecord out t (take n left) w1 = (s2, w2)" by fastforce
  note sw = switch_bytes [OF 1(3), folded w1_def]
  have len: "length (take n left) = n" "n < 2 ^ 16"
    by (auto simp: n_def kBlockSize_def)
  have off2: "lw_block_offset w2 = next_offset ?off + kHeaderSize + n"
    using Emit_offset [OF e] sw(2) len(1) by simp
  have fit: "lw_block_offset w2 \<le> kBlockSize"
    unfolding off2 n_def by (auto simp: next_offset_def kHeaderSize_def kBlockSize_def)
  have crc1: "lw_type_crc w1 = InitTypeCrc" using sw(3) 1(2) by simp
  from emit_bytes(1) [OF crc1 _ _ e] fragment_type_le(1) len obtain p where
    p: "prefix_of p (physical_record t (take n left))" "contents (lw_dest w2) = contents (lw_dest w1) @ p"
      "status_ok s2 \<longrightarrow> p = physical_record t (take n left)" "full (lw_dest w1) \<longrightarrow> \<not> status_ok s2 \<and> p = []"
    by (auto simp: t_def)
  have crc2: "lw_type_crc w2 = InitTypeCrc"
    using emit_bytes(2) [OF crc1 _ _ e] fragment_type_le(1) len by (auto simp: t_def)
  define frs where "frs = (if n < length left then fragments (lw_block_offset w2) False (drop n left) else [])"
  have frags: "fragments ?off begins left = (t, take n left) # frs"
    unfolding frs_def off2 by (subst fragments.simps) (simp add: Let_def n_def t_def)
  have bytes: "physical_bytes ?off (fragments ?off begins left)
      = trailer ?off @ physical_record t (take n left) @ physical_bytes (lw_block_offset w2) frs"
    "physical_end ?off (fragments ?off begins left) = physical_end (lw_block_offset w2) frs"
    using len(1) by (simp_all add: frags off2)
  have loop: "(if status_ok s2 \<and> n < length left then add_record_loop out (drop n left) False w2 else (s2, w2)) = (s, w')"
  proof -
    have n: "(if length left < ?avail then length left else ?avail) = n" by (simp add: n_def min_def)
    have "add_record_loop out left begins w = (case EmitPhysicalRecord out t (take n left) w1 of (s, w) \<Rightarrow>
        if status_ok s \<and> 0 < length (drop n left) then add_record_loop out (drop n left) False w else (s, w))"
      unfolding add_record_loop.simps [of out left begins w] Let_def w1_def [symmetric] sw(2) n t_def ..
    then show ?thesis
      using 1(4) e by simp
  qed
  show ?case
  proof (cases "status_ok s2")
    case False
    then have "s = s2" "w' = w2" using loop by simp_all
    with False p sw(1) show ?thesis
      unfolding bytes by (auto simp: crc2 intro!: prefix_of_append)
  next
    case True
    with p sw(1) have w2: "contents (lw_dest w2) = contents (lw_dest w) @ trailer ?off @ physical_record t (take n left)"
      by auto
    show ?thesis
    proof (cases "n < length left")
      case False
      with True loop w2 crc2 fit show ?thesis
        unfolding bytes by (auto simp: frs_def prefix_of_append)
    next
      case True
      from loop True \<open>status_ok s2\<close> have "add_record_loop out (drop n left) False w2 = (s, w')" by simp
      from 1(1) [OF refl n_def True _ crc2 fit this] off2 obtain q where
        "prefix_of q (physical_bytes (lw_block_offset w2) frs)" "contents (lw_dest w') = contents (lw_dest w2) @ q"
        "lw_type_crc w' = InitTypeCrc"
        "status_ok s \<longrightarrow> q = physical_bytes (lw_block_offset w2) frs \<and> lw_block_offset w' = physical_end (lw_block_offset w2) frs
          \<and> lw_block_offset w' \<le> kBlockSize"
        using True by (auto simp: frs_def)
      then show ?thesis
        unfolding bytes using w2
        by (intro exI [of _ "trailer ?off @ physical_record t (take n left) @ q"]) (auto intro: prefix_of_append)
    qed
  qed
qed

end

section \<open>Properties\<close>

definition writer_ok :: "'f Writer \<Rightarrow> bool" where
  "writer_ok w \<longleftrightarrow> lw_type_crc w = InitTypeCrc \<and> lw_block_offset w \<le> kBlockSize"

lemma writer_ok_new: "writer_ok (Writer_new f)" "writer_ok (Writer_reopen f n)"
  by (simp_all add: writer_ok_def Writer_new_def Writer_reopen_def kBlockSize_def less_imp_le)

lemma AddRecord_posix:
  assumes "writer_ok w" and "AddRecord (PosixWritableFile name) d w = (s, w')"
  shows "\<exists>p. prefix_of p (log_bytes (lw_block_offset w) d) \<and> f_data (lw_dest w') = f_data (lw_dest w) @ p
    \<and> (status_ok s \<longrightarrow> p = log_bytes (lw_block_offset w) d \<and> lw_block_offset w' = log_end (lw_block_offset w) d
          \<and> writer_ok w')"
  using posix_out.add_record_loop_bytes [of w name d True s w'] assms
  by (auto simp: writer_ok_def AddRecord_def log_bytes_def log_end_def)

text \<open>C26: \<^verbatim>\<open>AddRecord\<close> on a file of the posix environment adds the fragments of the record, with the
  trailer of a block that has no room for a header. If the device fails at any point (also while the
  trailer is filled, whose result the code ignores) a part of these bytes has been added and the
  status is an error; on success all have been, and the writer's offset is again inside a block.\<close>

theorem add_record_writes:
  assumes "writer_ok w" and "AddRecord (PosixWritableFile name) d w = (s, w')"
  shows "\<exists>p. prefix_of p (log_bytes (lw_block_offset w) d) \<and> f_data (lw_dest w') = f_data (lw_dest w) @ p
    \<and> (status_ok s \<longrightarrow> p = log_bytes (lw_block_offset w) d \<and> lw_block_offset w' = log_end (lw_block_offset w) d
          \<and> lw_block_offset w' \<le> kBlockSize)"
  using AddRecord_posix [OF assms] by (auto simp: writer_ok_def)

theorem add_record_writes_witness:
  "prefix_of (f_data (lw_dest (snd (AddRecord (PosixWritableFile []) [1, 2]
      (Writer_new \<lparr>f_data = [], f_pos = 0, f_limit = Some 5, f_eof = False, f_strerror = []\<rparr>)))))
    (log_bytes 0 [1, 2])"
proof -
  let ?w = "Writer_new \<lparr>f_data = [], f_pos = 0, f_limit = Some 5, f_eof = False, f_strerror = []\<rparr>"
  have "AddRecord (PosixWritableFile []) [1, 2] ?w
      = (fst (AddRecord (PosixWritableFile []) [1, 2] ?w), snd (AddRecord (PosixWritableFile []) [1, 2] ?w))" by simp
  from add_record_writes [OF writer_ok_new(1) this] show ?thesis by (auto simp: Writer_new_def)
qed

end
