(* ===== verification/Ldb_Log_Reader.thy ===== *)
theory Ldb_Log_Reader
  imports Ldb_Log_Writer
begin

text \<open>
  The reader of the write-ahead log, from \<^verbatim>\<open>db/log_reader.h\<close> and \<^verbatim>\<open>db/log_reader.cc\<close>. The calls of
  the reporter are kept as a list in the state. The loop of \<^verbatim>\<open>ReadRecord\<close> has the value
  \<^const>\<open>None\<close> if it does not end.
\<close>

section \<open>State\<close>

record 'f Reader =
  lr_file :: 'f
  lr_reporter :: bool
  lr_reports :: "(u64 \<times> Status) list"
  lr_checksum :: bool
  lr_buffer :: slice
  lr_eof :: bool
  lr_last_record_offset :: u64
  lr_end_of_buffer_offset :: u64
  lr_initial_offset :: u64
  lr_resyncing :: bool

definition Reader_new :: "'f \<Rightarrow> bool \<Rightarrow> bool \<Rightarrow> u64 \<Rightarrow> 'f Reader" where
  "Reader_new f reporter checksum initial_offset =
     \<lparr>lr_file = f, lr_reporter = reporter, lr_reports = [], lr_checksum = checksum, lr_buffer = [], lr_eof = False,
      lr_last_record_offset = 0, lr_end_of_buffer_offset = 0, lr_initial_offset = initial_offset,
      lr_resyncing = (initial_offset > 0)\<rparr>"

text \<open>The types of records as the reader handles them, with its two special values.\<close>

definition kEof :: u32 where "kEof = of_nat (kMaxRecordType + 1)"
definition kBadRecord :: u32 where "kBadRecord = of_nat (kMaxRecordType + 2)"

section \<open>Operations\<close>

definition ReportDrop :: "u64 \<Rightarrow> Status \<Rightarrow> 'f Reader \<Rightarrow> 'f Reader" where
  "ReportDrop bytes reason r =
     (if lr_reporter r
        \<and> lr_end_of_buffer_offset r - of_nat (length (lr_buffer r)) - bytes \<ge> lr_initial_offset r
      then r\<lparr>lr_reports := lr_reports r @ [(bytes, reason)]\<rparr> else r)"

definition ReportCorruption :: "u64 \<Rightarrow> slice \<Rightarrow> 'f Reader \<Rightarrow> 'f Reader" where
  "ReportCorruption bytes reason r = ReportDrop bytes (Status_Corruption reason []) r"

definition SkipToInitialBlock :: "'f SequentialFile \<Rightarrow> 'f Reader \<Rightarrow> bool \<times> 'f Reader" where
  "SkipToInitialBlock sf r =
     (let offset_in_block = lr_initial_offset r mod of_nat kBlockSize;
          block_start_location = lr_initial_offset r - offset_in_block;
          block_start_location =
            (if offset_in_block > of_nat (kBlockSize - 6) then block_start_location + of_nat kBlockSize
             else block_start_location);
          r = r\<lparr>lr_end_of_buffer_offset := block_start_location\<rparr>
      in if block_start_location > 0
         then let (skip_status, f) = sf_Skip sf block_start_location (lr_file r); r = r\<lparr>lr_file := f\<rparr> in
           if \<not> status_ok skip_status then (False, ReportDrop block_start_location skip_status r) else (True, r)
         else (True, r))"

text \<open>The part of \<^verbatim>\<open>ReadPhysicalRecord\<close> that parses a header in the buffer. The type is a \<^verbatim>\<open>char\<close>
  that is converted to \<^verbatim>\<open>unsigned int\<close>; \<open>result\<close> is the caller's slice.\<close>

definition parse_physical :: "slice \<Rightarrow> 'f Reader \<Rightarrow> u32 \<times> slice \<times> 'f Reader" where
  "parse_physical result r =
     (let header = lr_buffer r;
          a = (scast (header ! 4) :: u32) AND 0xff;
          b = (scast (header ! 5) :: u32) AND 0xff;
          type = scast (header ! 6) :: u32;
          len = a OR push_bit 8 b
      in if kHeaderSize + unat len > length (lr_buffer r)
         then let drop_size = length (lr_buffer r); r = r\<lparr>lr_buffer := []\<rparr> in
           if \<not> lr_eof r
           then (kBadRecord, result, ReportCorruption (of_nat drop_size) (cstr ''bad record length'') r)
           else (kEof, result, r)
         else if type = ucast kZeroType \<and> len = 0 then (kBadRecord, result, r\<lparr>lr_buffer := []\<rparr>)
         else if lr_checksum r \<and> Value (take (1 + unat len) (drop 6 header)) \<noteq> Unmask (DecodeFixed32 header)
         then let drop_size = length (lr_buffer r); r = r\<lparr>lr_buffer := []\<rparr> in
           (kBadRecord, result, ReportCorruption (of_nat drop_size) (cstr ''checksum mismatch'') r)
         else let r = r\<lparr>lr_buffer := drop (kHeaderSize + unat len) (lr_buffer r)\<rparr> in
           if lr_end_of_buffer_offset r - of_nat (length (lr_buffer r)) - of_nat kHeaderSize - ucast len
                < lr_initial_offset r
           then (kBadRecord, [], r)
           else (type, take (unat len) (drop kHeaderSize header), r))"

function ReadPhysicalRecord :: "'f SequentialFile \<Rightarrow> slice \<Rightarrow> 'f Reader \<Rightarrow> u32 \<times> slice \<times> 'f Reader" where
  "ReadPhysicalRecord sf result r =
     (if length (lr_buffer r) < kHeaderSize
      then if \<not> lr_eof r
        then let (status, buf, f) = sf_Read sf kBlockSize (lr_file r);
                 r = r\<lparr>lr_file := f, lr_buffer := buf,
                       lr_end_of_buffer_offset := lr_end_of_buffer_offset r + of_nat (length buf)\<rparr>
             in if \<not> status_ok status
                then let r = r\<lparr>lr_buffer := []\<rparr>; r = ReportDrop (of_nat kBlockSize) status r
                     in (kEof, result, r\<lparr>lr_eof := True\<rparr>)
                else let r = (if length buf < kBlockSize then r\<lparr>lr_eof := True\<rparr> else r)
                     in ReadPhysicalRecord sf result r
        else (kEof, result, r\<lparr>lr_buffer := []\<rparr>)
      else parse_physical result r)"
  by pat_completeness auto
termination
  by (relation "measure (\<lambda>(sf, result, r). if length (lr_buffer r) < kHeaderSize \<and> \<not> lr_eof r then 1 else 0)")
    (auto simp: kHeaderSize_def kBlockSize_def)

declare ReadPhysicalRecord.simps [simp del]

text \<open>\<^verbatim>\<open>%u\<close>\<close>

function decimal :: "nat \<Rightarrow> string" where
  "decimal n = (if n < 10 then [] else decimal (n div 10)) @ [char_of (48 + n mod 10)]"
  by pat_completeness auto
termination by (relation "measure id") auto

declare decimal.simps [simp del]

text \<open>One pass of the loop of \<^verbatim>\<open>ReadRecord\<close> after the physical record has been read: it returns, with
  a record or at the end of the log, or goes on with new values of \<^verbatim>\<open>in_fragmented_record\<close>,
  \<^verbatim>\<open>scratch\<close> and \<^verbatim>\<open>prospective_record_offset\<close>.\<close>

datatype pass = Return "slice option" | Continue bool slice u64

text \<open>The report of a record that is cut off by the start of another.\<close>

definition report_partial :: "bool \<Rightarrow> slice \<Rightarrow> string \<Rightarrow> 'f Reader \<Rightarrow> 'f Reader" where
  "report_partial in_fragmented_record scratch reason r =
     (if in_fragmented_record \<and> scratch \<noteq> [] then ReportCorruption (of_nat (length scratch)) (cstr reason) r else r)"

definition record_switch ::
    "u32 \<Rightarrow> slice \<Rightarrow> u64 \<Rightarrow> bool \<Rightarrow> slice \<Rightarrow> u64 \<Rightarrow> 'f Reader \<Rightarrow> pass \<times> 'f Reader" where
  "record_switch record_type fragment physical_record_offset in_fragmented_record scratch prospective r =
     (if record_type = ucast kFullType
      then let r = report_partial in_fragmented_record scratch ''partial record without end(1)'' r in
        (Return (Some fragment), r\<lparr>lr_last_record_offset := physical_record_offset\<rparr>)
      else if record_type = ucast kFirstType
      then let r = report_partial in_fragmented_record scratch ''partial record without end(2)'' r in
        (Continue True fragment physical_record_offset, r)
      else if record_type = ucast kMiddleType
      then if \<not> in_fragmented_record
        then (Continue in_fragmented_record scratch prospective,
              ReportCorruption (of_nat (length fragment)) (cstr ''missing start of fragmented record(1)'') r)
        else (Continue in_fragmented_record (scratch @ fragment) prospective, r)
      else if record_type = ucast kLastType
      then if \<not> in_fragmented_record
        then (Continue in_fragmented_record scratch prospective,
              ReportCorruption (of_nat (length fragment)) (cstr ''missing start of fragmented record(2)'') r)
        else (Return (Some (scratch @ fragment)), r\<lparr>lr_last_record_offset := prospective\<rparr>)
      else if record_type = kEof then (Return None, r)
      else if record_type = kBadRecord
      then if in_fragmented_record
        then (Continue False [] prospective,
              ReportCorruption (of_nat (length scratch)) (cstr ''error in middle of record'') r)
        else (Continue in_fragmented_record scratch prospective, r)
      else (Continue False [] prospective,
            ReportCorruption (of_nat (length fragment + (if in_fragmented_record then length scratch else 0)))
              (cstr (''unknown record type '' @ decimal (unat record_type))) r))"

definition record_pass ::
    "u32 \<Rightarrow> slice \<Rightarrow> u64 \<Rightarrow> bool \<Rightarrow> slice \<Rightarrow> u64 \<Rightarrow> 'f Reader \<Rightarrow> pass \<times> 'f Reader" where
  "record_pass record_type fragment physical_record_offset in_fragmented_record scratch prospective r =
     (if lr_resyncing r
      then if record_type = ucast kMiddleType then (Continue in_fragmented_record scratch prospective, r)
        else if record_type = ucast kLastType
        then (Continue in_fragmented_record scratch prospective, r\<lparr>lr_resyncing := False\<rparr>)
        else record_switch record_type fragment physical_record_offset in_fragmented_record scratch prospective
               (r\<lparr>lr_resyncing := False\<rparr>)
      else record_switch record_type fragment physical_record_offset in_fragmented_record scratch prospective r)"

partial_function (option) read_record_loop ::
    "'f SequentialFile \<Rightarrow> slice \<Rightarrow> bool \<Rightarrow> slice \<Rightarrow> u64 \<Rightarrow> 'f Reader \<Rightarrow> (slice option \<times> 'f Reader) option" where
  "read_record_loop sf fragment in_fragmented_record scratch prospective r =
     (case ReadPhysicalRecord sf fragment r of (record_type, fragment, r) \<Rightarrow>
        let physical_record_offset =
              lr_end_of_buffer_offset r - of_nat (length (lr_buffer r)) - of_nat kHeaderSize - of_nat (length fragment)
        in (case record_pass record_type fragment physical_record_offset in_fragmented_record scratch prospective r of
             (Return res, r) \<Rightarrow> Some (res, r)
           | (Continue in_frag scr prosp, r) \<Rightarrow> read_record_loop sf fragment in_frag scr prosp r))"

definition ReadRecord :: "'f SequentialFile \<Rightarrow> 'f Reader \<Rightarrow> (slice option \<times> 'f Reader) option" where
  "ReadRecord sf r =
     (let (ok, r) = (if lr_last_record_offset r < lr_initial_offset r then SkipToInitialBlock sf r else (True, r))
      in if \<not> ok then Some (None, r) else read_record_loop sf [] False [] 0 r)"

end
