(* ===== verification/Ldb_Log.thy ===== *)
theory Ldb_Log
  imports Ldb_Log_Reader
begin

text \<open>
  The writer and the reader of the log together: what has been written is read back, a log that was
  cut at any byte gives the records that are whole and no report of corruption, and the reader ends
  on any file.
\<close>

section \<open>Physical records\<close>

lemma length_physical_record [simp]: "length (physical_record t d) = kHeaderSize + length d"
  by (simp add: physical_record_def kHeaderSize_def)

lemma length_trailer: "length (trailer off) = (if kBlockSize < off + kHeaderSize then kBlockSize - off else 0)"
  by (simp add: trailer_def)

lemma physical_record_nth:
  "(physical_record t d @ r) ! 4 = of_nat (length d)" "(physical_record t d @ r) ! 5 = of_nat (length d div 256)"
  "(physical_record t d @ r) ! 6 = t"
  by (simp_all add: physical_record_def nth_append)

lemma scast_and_FF: "(scast (x :: byte) :: u32) AND 0xff = ucast x"
proof (rule bit_word_eqI)
  fix n
  assume "n < LENGTH(32)"
  moreover have "min 7 n = n" if "n < 8" using that by simp
  ultimately show "bit ((scast x :: u32) AND 0xff) n \<longleftrightarrow> bit (ucast x :: u32) n"
    unfolding and_FF by (cases "n < 8") (auto simp: bit_simps dest: bit_imp_le_length)
qed

lemma join_bytes: "(of_nat (n mod 256) OR push_bit 8 (of_nat (n div 256)) :: u32) = of_nat n"
proof -
  have "n mod 256 = take_bit 8 n" "n div 256 = drop_bit 8 n" by (simp_all add: take_bit_eq_mod drop_bit_eq_div)
  then show ?thesis by (simp only:) (rule bit_word_eqI, auto simp: bit_simps)
qed

lemma length_bytes:
  assumes "n < 2 ^ 16"
  shows "(scast (of_nat n :: byte) :: u32) AND 0xff OR push_bit 8 ((scast (of_nat (n div 256) :: byte) :: u32) AND 0xff) = of_nat n"
proof -
  have "(ucast (of_nat n :: byte) :: u32) = of_nat (n mod 256)"
    by (simp add: word_unat_eq_iff unat_of_nat)
  moreover have "(ucast (of_nat (n div 256) :: byte) :: u32) = of_nat (n div 256)"
    using assms by (simp add: word_unat_eq_iff unat_of_nat)
  ultimately show ?thesis using join_bytes [of n] by (simp add: scast_and_FF)
qed

lemma scast_type: "unat t \<le> 4 \<Longrightarrow> (scast (t :: byte) :: u32) = ucast t"
proof -
  assume "unat t \<le> 4"
  then have "t \<le> 5" by (simp add: word_le_nat_alt)
  then show ?thesis by (drule_tac byte_le_5) auto
qed

text \<open>A record type that the writer uses.\<close>

definition written_type :: "RecordType \<Rightarrow> bool" where
  "written_type t \<longleftrightarrow> unat t \<le> 4 \<and> t \<noteq> kZeroType"

lemma written_fragment_type: "written_type (fragment_type b e)"
  using fragment_type_le by (simp add: written_type_def)

lemma parse_physical_whole:
  assumes "written_type t" and "length d < 2 ^ 16" and "lr_initial_offset r = 0"
    and "lr_buffer r = physical_record t d @ rest"
  shows "parse_physical result r = (ucast t, d, r\<lparr>lr_buffer := rest\<rparr>)"
proof -
  have len: "unat (of_nat (length d) :: u32) = length d" using assms(2) by (simp add: unat_of_nat_small)
  have ty: "(scast t :: u32) = ucast t" "(ucast t :: u32) \<noteq> ucast kZeroType"
    using assms(1) by (auto simp: written_type_def scast_type kZeroType_def ucast_byte_eq_0)
  have crc: "Value (take (1 + length d) (drop 6 (physical_record t d @ rest)))
      = Unmask (DecodeFixed32 (physical_record t d @ rest))"
    by (simp add: physical_record_def)
  have d: "take (length d) (drop kHeaderSize (physical_record t d @ rest)) = d"
    by (simp add: physical_record_def kHeaderSize_def)
  show ?thesis
    unfolding parse_physical_def Let_def assms(4) physical_record_nth length_bytes [OF assms(2)] len
    using ty crc d assms(3) by simp
qed

lemma parse_physical_cut:
  assumes "length d < 2 ^ 16" and "lr_eof r" and "physical_record t d = lr_buffer r @ q" and "q \<noteq> []"
    and "kHeaderSize \<le> length (lr_buffer r)"
  shows "parse_physical result r = (kEof, result, r\<lparr>lr_buffer := []\<rparr>)"
proof -
  have len: "unat (of_nat (length d) :: u32) = length d" using assms(1) by (simp add: unat_of_nat_small)
  have "lr_buffer r ! k = (physical_record t d @ []) ! k" if "k < 7" for k
    using assms(3,5) that by (simp add: nth_append kHeaderSize_def)
  from this [of 4] this [of 5] have h: "lr_buffer r ! 4 = of_nat (length d)" "lr_buffer r ! 5 = of_nat (length d div 256)"
    unfolding physical_record_nth by simp_all
  have "length (lr_buffer r) < kHeaderSize + length d"
    using arg_cong [OF assms(3), of length] assms(4) by (simp add: neq_Nil_conv)
  then show ?thesis
    unfolding parse_physical_def Let_def h length_bytes [OF assms(1)] len using assms(2) by simp
qed

section \<open>What the reader has before it\<close>

context finite_file
begin

text \<open>The reader is at an offset of a block and has these bytes before it: those in its buffer, which
  ends with the block, and those that have not been read.\<close>

definition at :: "'f Reader \<Rightarrow> nat \<Rightarrow> byte list \<Rightarrow> bool" where
  "at r off bs \<longleftrightarrow> good (lr_file r) \<and> off \<le> kBlockSize \<and> lr_initial_offset r = 0 \<and> \<not> lr_resyncing r
     \<and> (if lr_eof r then lr_buffer r = bs \<and> length bs \<le> kBlockSize - off
        else lr_buffer r @ rest (lr_file r) = bs \<and> length (lr_buffer r) = kBlockSize - off)"

lemma at_new: "good f \<Longrightarrow> at (Reader_new f reporter checksum 0) kBlockSize (rest f)"
  by (simp add: at_def Reader_new_def)

text \<open>A buffer with no room for a header is dropped with the trailer in it, and the next block read.\<close>

lemma refill:
  assumes "at r off bs" and "\<not> lr_eof r" and "kBlockSize < off + kHeaderSize"
  obtains r' where "ReadPhysicalRecord sf result r = ReadPhysicalRecord sf result r'"
    "at r' 0 (drop (kBlockSize - off) bs)" "lr_reports r' = lr_reports r"
proof -
  have b: "length (lr_buffer r) < kHeaderSize" "drop (kBlockSize - off) bs = rest (lr_file r)"
    using assms by (auto simp: at_def)
  have "good (lr_file r)" using assms(1) by (simp add: at_def)
  from read_result [OF this, of kBlockSize] obtain f where
    f: "sf_Read sf kBlockSize (lr_file r) = (Status_OK, take kBlockSize (rest (lr_file r)), f)" "good f"
      "rest f = drop kBlockSize (rest (lr_file r))" by blast
  define r1 where "r1 = r\<lparr>lr_file := f, lr_buffer := take kBlockSize (rest (lr_file r)),
    lr_end_of_buffer_offset := lr_end_of_buffer_offset r + of_nat (length (take kBlockSize (rest (lr_file r))))\<rparr>"
  define r' where "r' = (if length (take kBlockSize (rest (lr_file r))) < kBlockSize then r1\<lparr>lr_eof := True\<rparr> else r1)"
  show ?thesis
  proof
    show "ReadPhysicalRecord sf result r = ReadPhysicalRecord sf result r'"
      using b(1) assms(2) f(1) by (subst ReadPhysicalRecord.simps) (simp add: Let_def r'_def r1_def)
    show "at r' 0 (drop (kBlockSize - off) bs)"
      unfolding b(2) using assms(1,2) f(2,3) by (auto simp: at_def r'_def r1_def)
    show "lr_reports r' = lr_reports r" by (simp add: r'_def r1_def)
  qed
qed

lemma ReadPhysical_parse:
  "kHeaderSize \<le> length (lr_buffer r) \<Longrightarrow> ReadPhysicalRecord sf result r = parse_physical result r"
  by (subst ReadPhysicalRecord.simps) simp

lemma ReadPhysical_eof:
  "length (lr_buffer r) < kHeaderSize \<Longrightarrow> lr_eof r \<Longrightarrow> ReadPhysicalRecord sf result r = (kEof, result, r\<lparr>lr_buffer := []\<rparr>)"
  by (subst ReadPhysicalRecord.simps) simp

text \<open>A physical record that is all there is returned; of one that is cut short the reader sees the
  end of the file.\<close>

lemma read_whole_here:
  assumes "at r off (physical_record t d @ bs)" and "written_type t" and "off + kHeaderSize + length d \<le> kBlockSize"
  obtains r' where "ReadPhysicalRecord sf result r = (ucast t, d, r')" "at r' (off + kHeaderSize + length d) bs"
    "lr_reports r' = lr_reports r"
proof -
  have d: "length d < 2 ^ 16" using assms(3) by (simp add: kBlockSize_def)
  have "\<exists>bs'. lr_buffer r = physical_record t d @ bs' \<and> at (r\<lparr>lr_buffer := bs'\<rparr>) (off + kHeaderSize + length d) bs"
  proof (cases "lr_eof r")
    case True
    then show ?thesis using assms(1,3) by (auto simp: at_def)
  next
    case False
    let ?n = "length (physical_record t d)"
    have eq: "lr_buffer r @ rest (lr_file r) = physical_record t d @ bs" and n: "?n \<le> length (lr_buffer r)"
      using assms(1,3) False by (auto simp: at_def)
    then have "lr_buffer r = physical_record t d @ drop ?n (lr_buffer r)"
      by (metis append_eq_conv_conj take_append take_all_iff)
    then obtain bs' where "lr_buffer r = physical_record t d @ bs'" by blast
    with eq assms False show ?thesis by (auto simp: at_def)
  qed
  then obtain bs' where m: "lr_buffer r = physical_record t d @ bs'"
    "at (r\<lparr>lr_buffer := bs'\<rparr>) (off + kHeaderSize + length d) bs" by blast
  have "lr_initial_offset r = 0" using assms(1) by (simp add: at_def)
  from parse_physical_whole [OF assms(2) d this m(1)] m ReadPhysical_parse [of r result] show ?thesis
    by (intro that [of "r\<lparr>lr_buffer := bs'\<rparr>"]) simp_all
qed

lemma next_fits:
  assumes "kBlockSize < off + kHeaderSize"
  shows "next_offset off = 0" "length (trailer off) = kBlockSize - off"
  using assms by (simp_all add: next_offset_def length_trailer)

lemma next_here:
  assumes "\<not> kBlockSize < off + kHeaderSize"
  shows "next_offset off = off" "trailer off = []"
  using assms by (simp_all add: next_offset_def trailer_def)

lemma read_whole:
  assumes "at r off (trailer off @ physical_record t d @ bs)" and "written_type t"
    and "next_offset off + kHeaderSize + length d \<le> kBlockSize"
  obtains r' where "ReadPhysicalRecord sf result r = (ucast t, d, r')"
    "at r' (next_offset off + kHeaderSize + length d) bs" "lr_reports r' = lr_reports r"
proof (cases "kBlockSize < off + kHeaderSize")
  case True
  note off = next_fits [OF True]
  have "\<not> lr_eof r"
    using assms(1) off(2) by (auto simp: at_def kHeaderSize_def)
  from refill [OF assms(1) this True, of result] obtain r1 where
    r1: "ReadPhysicalRecord sf result r = ReadPhysicalRecord sf result r1" "at r1 0 (physical_record t d @ bs)"
      "lr_reports r1 = lr_reports r" using off(2) by auto
  from read_whole_here [OF r1(2) assms(2), of result] assms(3) r1 off(1) show ?thesis
    by (metis that)
next
  case False
  note off = next_here [OF False]
  show ?thesis
    using read_whole_here [of r off t d bs result] assms off that by auto
qed

lemma read_cut_here:
  assumes "at r off bs" and "physical_record t d = bs @ q" and "q \<noteq> []" and "off + kHeaderSize + length d \<le> kBlockSize"
  obtains r' where "ReadPhysicalRecord sf result r = (kEof, result, r')" "lr_reports r' = lr_reports r"
    "lr_resyncing r' = lr_resyncing r"
proof -
  have len: "length bs < kHeaderSize + length d"
    using arg_cong [OF assms(2), of length] assms(3) by (simp add: neq_Nil_conv)
  have eof: "lr_eof r"
  proof (rule ccontr)
    assume "\<not> lr_eof r"
    with assms(1) have "kBlockSize - off \<le> length bs" by (auto simp: at_def)
    with len assms(4) show False by linarith
  qed
  then have buf: "lr_buffer r = bs" using assms(1) by (simp add: at_def)
  have "length d < 2 ^ 16" using assms(4) by (simp add: kBlockSize_def)
  note cut = parse_physical_cut [OF this eof assms(2) [folded buf] assms(3), of result]
  have "ReadPhysicalRecord sf result r = (kEof, result, r\<lparr>lr_buffer := []\<rparr>)"
  proof (cases "length (lr_buffer r) < kHeaderSize")
    case True
    then show ?thesis using eof by (rule ReadPhysical_eof)
  next
    case False
    then show ?thesis using cut ReadPhysical_parse [of r result] by simp
  qed
  then show ?thesis by (intro that [of "r\<lparr>lr_buffer := []\<rparr>"]) simp_all
qed

lemma read_cut:
  assumes "at r off bs" and "trailer off @ physical_record t d = bs @ q" and "q \<noteq> []"
    and "next_offset off + kHeaderSize + length d \<le> kBlockSize"
  obtains r' where "ReadPhysicalRecord sf result r = (kEof, result, r')" "lr_reports r' = lr_reports r"
    "lr_resyncing r' = lr_resyncing r"
proof (cases "kBlockSize < off + kHeaderSize")
  case True
  note off = next_fits [OF True]
  show ?thesis
  proof (cases "lr_eof r")
    case eof: True
    with assms(1) True have "length (lr_buffer r) < kHeaderSize" by (auto simp: at_def)
    with eof show ?thesis by (intro that [OF ReadPhysical_eof]) simp_all
  next
    case False
    from refill [OF assms(1) False True, of result] obtain r1 where
      r1: "ReadPhysicalRecord sf result r = ReadPhysicalRecord sf result r1" "at r1 0 (drop (kBlockSize - off) bs)"
        "lr_reports r1 = lr_reports r" by blast
    have "kBlockSize - off \<le> length bs" using assms(1) False by (auto simp: at_def)
    then have "physical_record t d = drop (kBlockSize - off) bs @ q"
      using arg_cong [OF assms(2), of "drop (kBlockSize - off)"] off(2) by simp
    from read_cut_here [OF r1(2) this assms(3), of result] assms(4) off(1) obtain r' where
      "ReadPhysicalRecord sf result r1 = (kEof, result, r')" "lr_reports r' = lr_reports r1"
      "lr_resyncing r' = lr_resyncing r1" by auto
    moreover have "lr_resyncing r1 = lr_resyncing r" using r1(2) assms(1) by (simp add: at_def)
    ultimately show ?thesis using r1 that by simp
  qed
next
  case False
  note off = next_here [OF False]
  show ?thesis
    using read_cut_here [of r off bs t d q result] assms off that by auto
qed

end

section \<open>Records\<close>

text \<open>Every fragment fits into its block.\<close>

lemma fragments_step:
  obtains n t frs off' where "n \<le> length left" "off' = next_offset off + kHeaderSize + n" "off' \<le> kBlockSize"
    "t = fragment_type begins (length left = n)" "fragments off begins left = (t, take n left) # frs"
    "n < length left \<Longrightarrow> frs = fragments off' False (drop n left)"
    "n = min (length left) (kBlockSize - next_offset off - kHeaderSize)" "\<not> n < length left \<Longrightarrow> frs = []"
proof -
  define n where "n = min (length left) (kBlockSize - next_offset off - kHeaderSize)"
  define off' where "off' = next_offset off + kHeaderSize + n"
  have "fragments off begins left = (fragment_type begins (length left = n), take n left)
       # (if n < length left then fragments off' False (drop n left) else [])"
    unfolding n_def off'_def by (subst fragments.simps) (simp only: Let_def)
  moreover have "off' \<le> kBlockSize" "n \<le> length left"
    by (auto simp: off'_def n_def next_offset_def kHeaderSize_def kBlockSize_def)
  ultimately show ?thesis
    by (intro that [OF _ off'_def _ refl _ _ n_def, of "if n < length left then fragments off' False (drop n left) else []"])
      simp_all
qed

lemma record_switch_fragment:
  assumes "\<not> lr_resyncing r"
  shows "record_pass (ucast (fragment_type begins ends)) d po (\<not> begins) scratch prosp r
    = (if ends then (Return (Some (if begins then d else scratch @ d)),
          r\<lparr>lr_last_record_offset := (if begins then po else prosp)\<rparr>)
       else (Continue True (if begins then d else scratch @ d) (if begins then po else prosp), r))"
  using assms
  by (simp add: record_pass_def record_switch_def fragment_type_def report_partial_def kFullType_def kFirstType_def
      kMiddleType_def kLastType_def)

lemma record_pass_eof: "\<not> lr_resyncing r \<Longrightarrow> record_pass kEof d po f s p r = (Return None, r)"
  by (simp add: record_pass_def record_switch_def kEof_def kMaxRecordType_def kFullType_def kFirstType_def
      kMiddleType_def kLastType_def)

context finite_file
begin

lemma loop_unfold:
  assumes "ReadPhysicalRecord sf fragment r = (ty, d, r1)"
    and "\<And>po. record_pass ty d po in_frag scratch prosp r1 = (Continue in_frag' scratch' (prosp' po), r1)"
  shows "\<exists>p. read_record_loop sf fragment in_frag scratch prosp r = read_record_loop sf d in_frag' scratch' p r1"
  using assms by (subst read_record_loop.simps) (auto simp: Let_def)

lemma at_last [simp]: "at (r\<lparr>lr_last_record_offset := x\<rparr>) off bs = at r off bs"
  by (simp add: at_def)

lemma at_not_resyncing: "at r off bs \<Longrightarrow> \<not> lr_resyncing r"
  by (simp add: at_def)

lemma loop_whole:
  assumes "at r off (physical_bytes off (fragments off begins left) @ bs)"
  shows "\<exists>r'. read_record_loop sf fragment (\<not> begins) scratch prosp r
      = Some (Some ((if begins then [] else scratch) @ left), r')
    \<and> lr_reports r' = lr_reports r \<and> at r' (physical_end off (fragments off begins left)) bs"
  using assms
proof (induction off begins left arbitrary: r fragment scratch prosp rule: fragments.induct)
  case (1 off begins left)
  obtain n t frs off' where n: "n \<le> length left" "off' = next_offset off + kHeaderSize + n" "off' \<le> kBlockSize"
    "t = fragment_type begins (length left = n)" "fragments off begins left = (t, take n left) # frs"
    "n < length left \<Longrightarrow> frs = fragments off' False (drop n left)"
    and min: "n = min (length left) (kBlockSize - next_offset off - kHeaderSize)" and last: "\<not> n < length left \<Longrightarrow> frs = []"
    by (rule fragments_step [of left off begins]) blast
  have "at r off (trailer off @ physical_record t (take n left) @ physical_bytes off' frs @ bs)"
    using 1(2) n(1) by (simp add: n(2,5))
  then obtain r1 where r1: "ReadPhysicalRecord sf fragment r = (ucast t, take n left, r1)"
    "at r1 off' (physical_bytes off' frs @ bs)" "lr_reports r1 = lr_reports r"
    using read_whole [of r off t "take n left" "physical_bytes off' frs @ bs" fragment] n(1-4) written_fragment_type
    by auto
  note pass = record_switch_fragment [OF at_not_resyncing [OF r1(2)], of begins "length left = n" "take n left" _ scratch prosp,
      folded n(4)]
  show ?case
  proof (cases "n < length left")
    case True
    then have "\<exists>p. read_record_loop sf fragment (\<not> begins) scratch prosp r
        = read_record_loop sf (take n left) True (if begins then take n left else scratch @ take n left) p r1"
      by (intro loop_unfold [OF r1(1)]) (simp add: pass)
    then obtain p where loop: "read_record_loop sf fragment (\<not> begins) scratch prosp r
        = read_record_loop sf (take n left) (\<not> False) (if begins then take n left else scratch @ take n left) p r1" by auto
    from 1(1) [OF refl min True, folded n(2), of r1 "take n left"
        "if begins then take n left else scratch @ take n left" p] r1(2,3) n(6) [OF True]
    show ?thesis
      unfolding loop n(5) using n(1,2) by (cases begins) simp_all
  next
    case False
    with n(1) have eq: "length left = n" by simp
    have "read_record_loop sf fragment (\<not> begins) scratch prosp r
        = Some (Some ((if begins then [] else scratch) @ left),
            r1\<lparr>lr_last_record_offset := (if begins then lr_end_of_buffer_offset r1 - of_nat (length (lr_buffer r1))
               - of_nat kHeaderSize - of_nat (length (take n left)) else prosp)\<rparr>)"
      using eq by (subst read_record_loop.simps) (simp only: r1(1) prod.case Let_def pass, simp)
    then show ?thesis
      unfolding n(5) last [OF False] using r1(2,3) last [OF False] eq n(2) by auto
  qed
qed

lemma loop_cut:
  assumes "at r off bs" and "physical_bytes off (fragments off begins left) = bs @ q" and "q \<noteq> []"
  shows "\<exists>r'. read_record_loop sf fragment (\<not> begins) scratch prosp r = Some (None, r') \<and> lr_reports r' = lr_reports r"
  using assms
proof (induction off begins left arbitrary: r bs fragment scratch prosp rule: fragments.induct)
  case (1 off begins left)
  obtain n t frs off' where n: "n \<le> length left" "off' = next_offset off + kHeaderSize + n" "off' \<le> kBlockSize"
    "t = fragment_type begins (length left = n)" "fragments off begins left = (t, take n left) # frs"
    "n < length left \<Longrightarrow> frs = fragments off' False (drop n left)"
    and min: "n = min (length left) (kBlockSize - next_offset off - kHeaderSize)" and last: "\<not> n < length left \<Longrightarrow> frs = []"
    by (rule fragments_step [of left off begins]) blast
  let ?head = "trailer off @ physical_record t (take n left)"
  have "bs @ q = ?head @ physical_bytes off' frs"
    using 1(3) n(1) by (simp add: n(2,5))
  then show ?case
  proof (cases rule: append_cut)
    case (inside z)
    from read_cut [OF 1(2) this(1,2), of fragment] n(1-3) obtain r1 where
      r1: "ReadPhysicalRecord sf fragment r = (kEof, fragment, r1)" "lr_reports r1 = lr_reports r" "lr_resyncing r1 = lr_resyncing r"
      by auto
    then have "read_record_loop sf fragment (\<not> begins) scratch prosp r = Some (None, r1)"
      using at_not_resyncing [OF 1(2)] by (subst read_record_loop.simps) (simp add: record_pass_eof Let_def)
    with r1 show ?thesis by auto
  next
    case (behind z)
    then obtain r1 where r1: "ReadPhysicalRecord sf fragment r = (ucast t, take n left, r1)" "at r1 off' z"
      "lr_reports r1 = lr_reports r"
      using read_whole [of r off t "take n left" z fragment] 1(2) n(1-4) written_fragment_type by auto
    have more: "n < length left"
    proof (rule ccontr)
      assume "\<not> n < length left"
      from behind(2) 1(4) show False by (simp add: last [OF \<open>\<not> n < length left\<close>])
    qed
    note pass = record_switch_fragment [OF at_not_resyncing [OF r1(2)], of begins "length left = n" "take n left" _ scratch prosp,
        folded n(4)]
    have "\<exists>p. read_record_loop sf fragment (\<not> begins) scratch prosp r
        = read_record_loop sf (take n left) True (if begins then take n left else scratch @ take n left) p r1"
      using more by (intro loop_unfold [OF r1(1)]) (simp add: pass)
    then obtain p where "read_record_loop sf fragment (\<not> begins) scratch prosp r
        = read_record_loop sf (take n left) (\<not> False) (if begins then take n left else scratch @ take n left) p r1" by auto
    with 1(1) [OF refl min more, folded n(2), OF r1(2) _ 1(4), of "take n left"
        "if begins then take n left else scratch @ take n left" p] behind(2) r1(3) n(6) [OF more]
    show ?thesis by simp
  qed
qed

end

section \<open>Logs\<close>

text \<open>The bytes of a log that holds these records.\<close>

fun log_stream :: "nat \<Rightarrow> slice list \<Rightarrow> byte list" where
  "log_stream off [] = []"
| "log_stream off (d # ds) = log_bytes off d @ log_stream (log_end off d) ds"

lemma log_stream_append:
  "\<exists>off'. log_stream off (ds @ es) = log_stream off ds @ log_stream off' es"
  by (induction ds arbitrary: off) auto

text \<open>Offsets 0 and 32768 are the same place.\<close>

lemma log_stream_wrap: "log_stream kBlockSize ds = log_stream 0 ds"
proof -
  have n: "next_offset kBlockSize = 0" "next_offset 0 = 0" "trailer kBlockSize = []" "trailer 0 = []"
    by (simp_all add: next_offset_def trailer_def kHeaderSize_def kBlockSize_def)
  have f: "fragments kBlockSize True d = fragments 0 True d" for d
    by (subst (1 2) fragments.simps) (simp only: n)
  have "physical_bytes kBlockSize frs = physical_bytes 0 frs" for frs
    by (cases frs) (auto simp: n)
  moreover have "frs \<noteq> [] \<Longrightarrow> physical_end kBlockSize frs = physical_end 0 frs" for frs
    by (cases frs) (auto simp: n)
  moreover have "fragments 0 True d \<noteq> []" for d
    by (subst fragments.simps) (simp add: Let_def)
  ultimately have "log_bytes kBlockSize d = log_bytes 0 d" "log_end kBlockSize d = log_end 0 d" for d
    by (simp_all add: log_bytes_def log_end_def f)
  then show ?thesis by (cases ds) simp_all
qed

text \<open>A client reads records until it is told that there are no more, as recovery does.\<close>

inductive reads_log :: "'f SequentialFile \<Rightarrow> 'f Reader \<Rightarrow> slice list \<Rightarrow> 'f Reader \<Rightarrow> bool" for sf where
  done_reading: "ReadRecord sf r = Some (None, r') \<Longrightarrow> reads_log sf r [] r'"
| read_one: "ReadRecord sf r = Some (Some d, r1) \<Longrightarrow> reads_log sf r1 ds r' \<Longrightarrow> reads_log sf r (d # ds) r'"

inductive_cases reads_logE: "reads_log sf r ds r'"

lemma reads_log_determ: "reads_log sf r ds r' \<Longrightarrow> reads_log sf r es r'' \<Longrightarrow> ds = es \<and> r' = r''"
proof (induction arbitrary: es r'' rule: reads_log.induct)
  case (done_reading r r')
  from done_reading(2) show ?case by (cases rule: reads_log.cases) (use done_reading(1) in auto)
next
  case (read_one r d r1 ds r')
  from read_one(4) show ?case
    by (cases rule: reads_log.cases) (use read_one(1) in \<open>auto dest: read_one(3)\<close>)
qed

context finite_file
begin

lemma ReadRecord_at: "at r off bs \<Longrightarrow> ReadRecord sf r = read_record_loop sf [] (\<not> True) [] 0 r"
  by (simp add: ReadRecord_def at_def)

lemma reads_prefix:
  assumes "at r off bs" and "log_stream off ds = bs @ q"
  shows "\<exists>k r'. reads_log sf r (take k ds) r' \<and> lr_reports r' = lr_reports r
    \<and> (\<forall>j \<le> length ds. length (log_stream off (take j ds)) \<le> length bs \<longrightarrow> j \<le> k)"
  using assms
proof (induction ds arbitrary: r off bs)
  case Nil
  have "physical_bytes off (fragments off True []) \<noteq> []"
    by (subst fragments.simps) (simp add: Let_def physical_record_def)
  moreover have "bs = []" using Nil(2) by simp
  ultimately obtain r' where "read_record_loop sf [] (\<not> True) [] 0 r = Some (None, r')" "lr_reports r' = lr_reports r"
    using loop_cut [OF Nil(1), of True "[]" "physical_bytes off (fragments off True [])" "[]" "[]" 0] by auto
  then show ?case
    using ReadRecord_at [OF Nil(1)] done_reading [of sf r r'] by auto
next
  case (Cons d ds)
  from Cons(3) have "bs @ q = log_bytes off d @ log_stream (log_end off d) ds" by simp
  then show ?case
  proof (cases rule: append_cut)
    case (inside z)
    then obtain r' where "read_record_loop sf [] (\<not> True) [] 0 r = Some (None, r')" "lr_reports r' = lr_reports r"
      using loop_cut [OF Cons(2), of True d z "[]" "[]" 0] by (auto simp: log_bytes_def)
    moreover have "\<not> length (log_bytes off d) \<le> length bs" using inside(1,2) by (simp add: neq_Nil_conv)
    ultimately show ?thesis
      using ReadRecord_at [OF Cons(2)] done_reading [of sf r r']
      by (intro exI [of _ 0] exI [of _ r']) (auto simp: take_Cons split: nat.splits)
  next
    case (behind z)
    then obtain r1 where r1: "ReadRecord sf r = Some (Some d, r1)" "lr_reports r1 = lr_reports r" "at r1 (log_end off d) z"
      using loop_whole [of r off True d z "[]" "[]" 0] Cons(2) ReadRecord_at [OF Cons(2)]
      by (auto simp: log_bytes_def log_end_def)
    from Cons.IH [OF r1(3) behind(2)] obtain k r' where
      k: "reads_log sf r1 (take k ds) r'" "lr_reports r' = lr_reports r1"
        "\<forall>j \<le> length ds. length (log_stream (log_end off d) (take j ds)) \<le> length z \<longrightarrow> j \<le> k" by blast
    have "j \<le> Suc k" if "j \<le> length (d # ds)" "length (log_stream off (take j (d # ds))) \<le> length bs" for j
      using that k(3) behind(1) by (cases j) auto
    moreover have "reads_log sf r (take (Suc k) (d # ds)) r'" using read_one [OF r1(1) k(1)] by simp
    ultimately show ?thesis
      using k(2) r1(2) by (intro exI [of _ "Suc k"] exI [of _ r']) auto
  qed
qed

end

section \<open>The reader ends\<close>

text \<open>Whatever a file holds and however reading it fails, reading uses it up.\<close>

locale bounded_file =
  fixes sf :: "'f SequentialFile" and left :: "'f \<Rightarrow> nat"
  assumes read_uses: "sf_Read sf n f = (s, b, f') \<Longrightarrow> length b + left f' \<le> left f"
begin

definition work :: "'f Reader \<Rightarrow> nat" where
  "work r = length (lr_buffer r) + (if lr_eof r then 0 else Suc (left (lr_file r)))"

lemma ReportDrop_work [simp]: "work (ReportDrop n s r) = work r" "lr_eof (ReportDrop n s r) = lr_eof r"
  "work (ReportCorruption n m r) = work r"
  by (simp_all add: ReportCorruption_def ReportDrop_def work_def)

lemma parse_work:
  assumes "kHeaderSize \<le> length (lr_buffer r)" and "parse_physical result r = (ty, d, r')"
  shows "work r' < work r"
proof -
  have "0 < length (lr_buffer r)" using assms(1) by (auto simp: kHeaderSize_def)
  then have "work (r\<lparr>lr_buffer := []\<rparr>) < work r" "work (r\<lparr>lr_buffer := drop (kHeaderSize + n) (lr_buffer r)\<rparr>) < work r" for n
    by (auto simp: work_def kHeaderSize_def)
  with assms(2) show ?thesis
    by (auto simp: parse_physical_def Let_def split: if_splits)
qed

lemma physical_work:
  assumes "ReadPhysicalRecord sf result r = (ty, d, r')"
  shows "work r' \<le> work r \<and> (ty = kEof \<or> work r' < work r)"
  using assms
proof (induction "if length (lr_buffer r) < kHeaderSize \<and> \<not> lr_eof r then 1 else 0 :: nat" arbitrary: r rule: less_induct)
  case less
  show ?case
  proof (cases "length (lr_buffer r) < kHeaderSize")
    case False
    then show ?thesis
      using less(2) parse_work [of r result ty d r'] by (subst (asm) ReadPhysicalRecord.simps) simp
  next
    case True
    show ?thesis
    proof (cases "lr_eof r")
      case eof: True
      with True less(2) show ?thesis by (subst (asm) ReadPhysicalRecord.simps) (auto simp: work_def)
    next
      case False
      obtain s b f where rd: "sf_Read sf kBlockSize (lr_file r) = (s, b, f)" by (metis prod_cases3)
      define r1 where "r1 = r\<lparr>lr_file := f, lr_buffer := b,
        lr_end_of_buffer_offset := lr_end_of_buffer_offset r + of_nat (length b)\<rparr>"
      define r2 where "r2 = (if length b < kBlockSize then r1\<lparr>lr_eof := True\<rparr> else r1)"
      have w2: "work r2 \<le> work r" "work (r1\<lparr>lr_buffer := [], lr_eof := True\<rparr>) \<le> work r"
        using read_uses [OF rd] False by (auto simp: work_def r2_def r1_def)
      show ?thesis
      proof (cases "status_ok s")
        case True
        with \<open>length (lr_buffer r) < kHeaderSize\<close> False rd less(2) have "ReadPhysicalRecord sf result r2 = (ty, d, r')"
          by (subst (asm) ReadPhysicalRecord.simps) (cases "length b < kBlockSize"; simp add: Let_def r2_def r1_def)
        moreover have "\<not> (length (lr_buffer r2) < kHeaderSize \<and> \<not> lr_eof r2)"
          by (auto simp: r2_def r1_def kHeaderSize_def kBlockSize_def)
        ultimately show ?thesis
          using less(1) [of r2] \<open>length (lr_buffer r) < kHeaderSize\<close> False w2(1) by auto
      next
        case bad: False
        with True False rd less(2) have "ty = kEof" "work r' \<le> work r"
          using w2(2) by (subst (asm) ReadPhysicalRecord.simps, auto simp: Let_def r1_def work_def ReportDrop_def)+
        then show ?thesis by simp
      qed
    qed
  qed
qed

lemma switch_work:
  "work (snd (record_pass ty d po f s p r)) = work r"
  "fst (record_pass kEof d po f s p r) = Return None"
  by (simp_all add: record_pass_def record_switch_def report_partial_def Let_def kEof_def kMaxRecordType_def kFullType_def
      kFirstType_def kMiddleType_def kLastType_def)
    (simp_all add: work_def ReportCorruption_def ReportDrop_def)

lemma loop_ends: "\<exists>res r'. read_record_loop sf fragment f s p r = Some (res, r') \<and> work r' \<le> work r
  \<and> (res = None \<or> work r' < work r)"
proof (induction "work r" arbitrary: fragment f s p r rule: less_induct)
  case less
  obtain ty d r1 where rd: "ReadPhysicalRecord sf fragment r = (ty, d, r1)" by (metis prod_cases3)
  define po where "po = lr_end_of_buffer_offset r1 - of_nat (length (lr_buffer r1)) - of_nat kHeaderSize - of_nat (length d)"
  obtain out r2 where pass: "record_pass ty d po f s p r1 = (out, r2)" by fastforce
  have w2: "work r2 = work r1" "ty = kEof \<Longrightarrow> out = Return None"
    using switch_work(1) [of ty d po f s p r1] switch_work(2) [of d po f s p r1] pass by auto
  have w1: "work r1 \<le> work r" "ty = kEof \<or> work r1 < work r" using physical_work [OF rd] by auto
  have loop: "read_record_loop sf fragment f s p r
      = (case out of Return res \<Rightarrow> Some (res, r2) | Continue f s p \<Rightarrow> read_record_loop sf d f s p r2)"
    using rd pass by (subst read_record_loop.simps) (simp add: Let_def po_def split: pass.splits)
  show ?case
  proof (cases out)
    case (Return res)
    with loop w1 w2 show ?thesis by auto
  next
    case (Continue f' s' p')
    with w1 w2 have "work r2 < work r" by auto
    from less(1) [OF this, of d f' s' p'] Continue loop \<open>work r2 < work r\<close> show ?thesis by fastforce
  qed
qed

lemma ReadRecord_ends: "\<exists>res r'. ReadRecord sf r = Some (res, r')"
proof -
  obtain ok r1 where "(if lr_last_record_offset r < lr_initial_offset r then SkipToInitialBlock sf r else (True, r)) = (ok, r1)"
    by fastforce
  with loop_ends [of "[]" False "[]" 0 r1] show ?thesis by (cases ok) (auto simp: ReadRecord_def)
qed

end

interpretation posix_bounded: bounded_file "PosixSequentialFile filename" "\<lambda>f. length (unread f)"
proof (unfold_locales, goal_cases)
  case (1 n f s b f')
  then have b: "b = fst (fread_unlocked n f)" "f' = snd (fread_unlocked n f)"
    by (auto simp: posix_seq_Read_def split: prod.splits if_splits)
  have "length b \<le> length (f_data f) - f_pos f"
    unfolding b(1) by (auto simp: fread_unlocked_def Let_def split: option.splits)
  moreover have "unread f' = drop (length b) (unread f)"
    unfolding b by (simp add: fread_unlocked_def Let_def unread_def add.commute)
  ultimately show ?case by (simp add: unread_def)
qed

section \<open>Properties\<close>

text \<open>Records are added until one fails; the number of those that succeeded is kept.\<close>

fun AddRecords :: "slice \<Rightarrow> slice list \<Rightarrow> FILE Writer \<Rightarrow> nat \<times> FILE Writer" where
  "AddRecords name [] w = (0, w)"
| "AddRecords name (d # ds) w =
     (let (s, w) = AddRecord (PosixWritableFile name) d w in
      if status_ok s then let (k, w) = AddRecords name ds w in (Suc k, w) else (0, w))"

definition disk_file :: "nat option \<Rightarrow> byte list \<Rightarrow> FILE" where
  "disk_file limit bs = \<lparr>f_data = bs, f_pos = 0, f_limit = limit, f_eof = False, f_strerror = []\<rparr>"

lemma AddRecords_bytes:
  assumes "writer_ok w" and "AddRecords name ds w = (k, w')"
  shows "\<exists>p. prefix_of p (log_stream (lw_block_offset w) ds) \<and> f_data (lw_dest w') = f_data (lw_dest w) @ p
    \<and> k \<le> length ds \<and> prefix_of (log_stream (lw_block_offset w) (take k ds)) p"
  using assms
proof (induction ds arbitrary: w k)
  case Nil
  then show ?case by (auto simp: prefix_of_def)
next
  case (Cons d ds)
  obtain s w1 where a: "AddRecord (PosixWritableFile name) d w = (s, w1)" by fastforce
  from AddRecord_posix [OF Cons(2) a] obtain p where
    p: "prefix_of p (log_bytes (lw_block_offset w) d)" "f_data (lw_dest w1) = f_data (lw_dest w) @ p"
      "status_ok s \<Longrightarrow> p = log_bytes (lw_block_offset w) d \<and> lw_block_offset w1 = log_end (lw_block_offset w) d \<and> writer_ok w1"
    by blast
  show ?case
  proof (cases "status_ok s")
    case False
    with Cons(3) a have "k = 0" "w' = w1" by auto
    with p(1,2) show ?thesis by (auto simp: prefix_of_def)
  next
    case True
    with Cons(3) a obtain k1 where k1: "AddRecords name ds w1 = (k1, w')" "k = Suc k1" by (auto split: prod.splits)
    from Cons.IH [OF _ k1(1)] p(3) [OF True] obtain q where
      "prefix_of q (log_stream (lw_block_offset w1) ds)" "f_data (lw_dest w') = f_data (lw_dest w1) @ q"
      "k1 \<le> length ds" "prefix_of (log_stream (lw_block_offset w1) (take k1 ds)) q" by blast
    with p(2) p(3) [OF True] k1(2) show ?thesis
      by (intro exI [of _ "p @ q"]) (auto simp: prefix_of_append)
  qed
qed

lemma AddRecords_new:
  assumes "AddRecords name ds (Writer_new (disk_file limit [])) = (k, w')"
  obtains q where "log_stream kBlockSize ds = f_data (lw_dest w') @ q" "k \<le> length ds"
    "length (log_stream kBlockSize (take k ds)) \<le> length (f_data (lw_dest w'))"
  using AddRecords_bytes [OF writer_ok_new(1) assms]
  by (auto simp: Writer_new_def disk_file_def log_stream_wrap prefix_of_def)

text \<open>A device without a limit never fails.\<close>

lemma emit_unlimited:
  assumes "f_limit (lw_dest w) = None" and "EmitPhysicalRecord (PosixWritableFile name) t d w = (s, w')"
  shows "status_ok s" "f_limit (lw_dest w') = None"
  using assms by (auto simp: EmitPhysicalRecord_def Let_def posix_unlimited)

lemma add_unlimited:
  assumes "f_limit (lw_dest w) = None" and "add_record_loop (PosixWritableFile name) left begins w = (s, w')"
  shows "status_ok s \<and> f_limit (lw_dest w') = None"
  using assms
proof (induction "PosixWritableFile name" left begins w rule: add_record_loop.induct)
  case (1 left begins w)
  define w1 where "w1 = switch_block (PosixWritableFile name) w"
  define n where "n = (if length left < kBlockSize - lw_block_offset w1 - kHeaderSize then length left
    else kBlockSize - lw_block_offset w1 - kHeaderSize)"
  obtain s2 w2 where e: "EmitPhysicalRecord (PosixWritableFile name) (fragment_type begins (length left = n)) (take n left) w1
      = (s2, w2)" by fastforce
  have "f_limit (lw_dest w1) = None"
    using 1(2) by (simp add: w1_def switch_block_def Let_def posix_unlimited)
  note ok = emit_unlimited [OF this e]
  have "(if status_ok s2 \<and> 0 < length (drop n left) then add_record_loop (PosixWritableFile name) (drop n left) False w2
      else (s2, w2)) = (s, w')"
    using 1(3) e unfolding add_record_loop.simps [of _ left] Let_def w1_def [symmetric] n_def [symmetric] by simp
  with 1(1) [OF w1_def refl n_def refl e [symmetric] refl refl] ok show ?case by (auto split: if_splits)
qed

lemma AddRecords_unlimited:
  "f_limit (lw_dest w) = None \<Longrightarrow> fst (AddRecords name ds w) = length ds"
proof (induction ds arbitrary: w)
  case (Cons d ds)
  obtain s w1 where a: "AddRecord (PosixWritableFile name) d w = (s, w1)" by fastforce
  with add_unlimited [OF Cons(2), of name d True s w1] have "status_ok s" "f_limit (lw_dest w1) = None"
    by (simp_all add: AddRecord_def)
  with a Cons.IH [of w1] show ?case by (auto split: prod.splits)
qed simp

text \<open>C5: on a device that does not fail, all records are added, and a reader of the file returns all of
  them in order and then the end of the log, without a report.\<close>

theorem log_roundtrip:
  "fst (AddRecords name ds (Writer_new (disk_file None []))) = length ds
   \<and> (\<exists>r'. reads_log (PosixSequentialFile name2)
        (Reader_new (disk_file None (f_data (lw_dest (snd (AddRecords name ds (Writer_new (disk_file None []))))))) reporter checksum 0)
        ds r' \<and> lr_reports r' = [])"
proof -
  obtain w' where a: "AddRecords name ds (Writer_new (disk_file None [])) = (length ds, w')"
    using AddRecords_unlimited [of "Writer_new (disk_file None [])" name ds]
    by (cases "AddRecords name ds (Writer_new (disk_file None []))") (simp add: Writer_new_def disk_file_def)
  let ?c = "f_data (lw_dest w')"
  obtain q where q: "log_stream kBlockSize ds = ?c @ q" "length (log_stream kBlockSize (take (length ds) ds)) \<le> length ?c"
    using AddRecords_new [OF a] by metis
  let ?r = "Reader_new (disk_file None ?c) reporter checksum 0"
  have "posix_in.at ?r kBlockSize ?c"
    using posix_in.at_new [of "disk_file None ?c" reporter checksum] by (simp add: readable_file_def disk_file_def unread_def)
  then obtain j r' where
    "reads_log (PosixSequentialFile name2) ?r (take j ds) r'" "lr_reports r' = lr_reports ?r"
    "\<forall>i \<le> length ds. length (log_stream kBlockSize (take i ds)) \<le> length ?c \<longrightarrow> i \<le> j"
    using posix_in.reads_prefix [OF _ q(1), of ?r name2] by blast
  with q(2) a show ?thesis by (auto simp: Reader_new_def)
qed

text \<open>C2: crash safety of the log. Records are added to a new log until one fails, on a device with room
  for any number of bytes, and then the file loses any number of bytes at its end. A reader of what
  is left, with checksums or without, returns a prefix of the records in order and then the end of
  the log, and reports no corruption; if no bytes were lost, the prefix has all the records whose
  \<^verbatim>\<open>AddRecord\<close> succeeded.\<close>

theorem log_crash_safe:
  assumes "AddRecords name ds (Writer_new (disk_file limit [])) = (k, w')"
  shows "\<exists>j r'. reads_log (PosixSequentialFile name2)
        (Reader_new (disk_file None (take n (f_data (lw_dest w')))) reporter checksum 0) (take j ds) r'
    \<and> lr_reports r' = [] \<and> (length (f_data (lw_dest w')) \<le> n \<longrightarrow> k \<le> j)"
proof -
  let ?c = "f_data (lw_dest w')"
  obtain q where q: "log_stream kBlockSize ds = ?c @ q" "k \<le> length ds" "length (log_stream kBlockSize (take k ds)) \<le> length ?c"
    using AddRecords_new [OF assms] .
  let ?r = "Reader_new (disk_file None (take n ?c)) reporter checksum 0"
  have "posix_in.at ?r kBlockSize (take n ?c)"
    using posix_in.at_new [of "disk_file None (take n ?c)" reporter checksum]
    by (simp add: readable_file_def disk_file_def unread_def)
  moreover have "log_stream kBlockSize ds = take n ?c @ drop n ?c @ q" using q(1) by simp
  ultimately obtain j r' where
    "reads_log (PosixSequentialFile name2) ?r (take j ds) r'" "lr_reports r' = lr_reports ?r"
    "\<forall>i \<le> length ds. length (log_stream kBlockSize (take i ds)) \<le> length (take n ?c) \<longrightarrow> i \<le> j"
    using posix_in.reads_prefix [of ?r kBlockSize "take n ?c" ds "drop n ?c @ q" name2] by blast
  with q(2,3) show ?thesis
    by (intro exI [of _ j] exI [of _ r']) (auto simp: Reader_new_def)
qed

theorem log_crash_safe_witness:
  "\<exists>j r'. reads_log (PosixSequentialFile [])
      (Reader_new (disk_file None (take 12 (f_data (lw_dest (snd (AddRecords [] [[1, 2], [3]] (Writer_new (disk_file (Some 11) []))))))))
        True True 0) (take j [[1, 2], [3]]) r' \<and> lr_reports r' = []"
proof -
  obtain k w' where a: "AddRecords [] [[1, 2], [3]] (Writer_new (disk_file (Some 11) [])) = (k, w')" by fastforce
  from log_crash_safe [OF a, of "[]" 12 True True] show ?thesis unfolding a snd_conv by blast
qed

text \<open>C27: the reader ends. From any state, on any file, with any initial offset and with read errors at
  any point, \<^verbatim>\<open>ReadRecord\<close> returns.\<close>

theorem read_record_terminates:
  "\<exists>res r'. ReadRecord (PosixSequentialFile name) r = Some (res, r')"
  by (rule posix_bounded.ReadRecord_ends)

end
