(* ===== verification/Ldb_Skiplist.thy ===== *)
theory Ldb_Skiplist
  imports Ldb_Comparator
begin

text \<open>
  The skip list of the memtable, from \<^verbatim>\<open>db/skiplist.h\<close>, with the random numbers of
  \<^verbatim>\<open>util/random.h\<close>. A node is found by its address, here its place in the list of all nodes that
  were allocated; the head is the node 0 and a null pointer is \<^const>\<open>None\<close>. The searches have the
  value \<^const>\<open>None\<close> if they do not end, which the invariant excludes. The memory barriers of
  concurrent readers are not modelled.
\<close>

section \<open>Random numbers\<close>

definition Random_new :: "u32 \<Rightarrow> u32" where
  "Random_new s = (let seed = s AND 0x7fffffff in if seed = 0 \<or> seed = 2147483647 then 1 else seed)"

definition Random_Next :: "u32 \<Rightarrow> u32" where
  "Random_Next seed =
     (let product = ucast seed * 16807 :: u64;
          seed = ucast (drop_bit 31 product + (product AND 2147483647)) :: u32
      in if seed > 2147483647 then seed - 2147483647 else seed)"

section \<open>Nodes and lists\<close>

record 'k node =
  n_key :: 'k
  n_next :: "nat option list"

record 'k SkipList =
  sl_nodes :: "'k node list"
  sl_max_height :: nat
  sl_rnd :: u32

definition kMaxHeight :: nat where "kMaxHeight = 12"

abbreviation (input) head :: nat where "head \<equiv> 0"

definition node_key :: "'k SkipList \<Rightarrow> nat \<Rightarrow> 'k" where
  "node_key sl x = n_key (sl_nodes sl ! x)"

definition Next :: "'k SkipList \<Rightarrow> nat \<Rightarrow> nat \<Rightarrow> nat option" where
  "Next sl x n = n_next (sl_nodes sl ! x) ! n"

definition SetNext :: "nat \<Rightarrow> nat \<Rightarrow> nat option \<Rightarrow> 'k SkipList \<Rightarrow> 'k SkipList" where
  "SetNext x n p sl =
     sl\<lparr>sl_nodes := (sl_nodes sl)[x := (sl_nodes sl ! x)\<lparr>n_next := (n_next (sl_nodes sl ! x))[n := p]\<rparr>]\<rparr>"

text \<open>The links of a new node are set before it is used.\<close>

definition NewNode :: "'k \<Rightarrow> nat \<Rightarrow> 'k SkipList \<Rightarrow> nat \<times> 'k SkipList" where
  "NewNode key height sl =
     (length (sl_nodes sl), sl\<lparr>sl_nodes := sl_nodes sl @ [\<lparr>n_key = key, n_next = replicate height None\<rparr>]\<rparr>)"

text \<open>The constructor: \<open>any_key\<close> is the key of the head, which is never looked at.\<close>

definition SkipList_new :: "'k \<Rightarrow> 'k SkipList" where
  "SkipList_new any_key =
     \<lparr>sl_nodes = [\<lparr>n_key = any_key, n_next = replicate kMaxHeight None\<rparr>], sl_max_height = 1,
      sl_rnd = Random_new 0xdeadbeef\<rparr>"

function random_height_loop :: "nat \<Rightarrow> u32 \<Rightarrow> nat \<times> u32" where
  "random_height_loop height rnd =
     (if height < kMaxHeight
      then let rnd = Random_Next rnd in
        if rnd mod 4 = 0 then random_height_loop (height + 1) rnd else (height, rnd)
      else (height, rnd))"
  by pat_completeness auto
termination by (relation "measure (\<lambda>(h, _). kMaxHeight - h)") auto

declare random_height_loop.simps [simp del]

definition RandomHeight :: "'k SkipList \<Rightarrow> nat \<times> 'k SkipList" where
  "RandomHeight sl = (let (h, rnd) = random_height_loop 1 (sl_rnd sl) in (h, sl\<lparr>sl_rnd := rnd\<rparr>))"

section \<open>Searching\<close>

text \<open>The three searches run the same loop with different tests for going on along a level, and
  return the last node reached or the one behind it. \<open>prev\<close> is the array of the nodes at which the
  levels were left.\<close>

partial_function (option) search_loop ::
    "(nat option \<Rightarrow> bool) \<Rightarrow> 'k SkipList \<Rightarrow> nat \<Rightarrow> nat \<Rightarrow> nat list \<Rightarrow> (nat \<times> nat option \<times> nat list) option" where
  "search_loop go sl x level prev =
     (let nxt = Next sl x level in
      if go nxt then search_loop go sl (the nxt) level prev
      else let prev = prev[level := x] in
        if level = 0 then Some (x, nxt, prev) else search_loop go sl x (level - 1) prev)"

definition KeyIsAfterNode :: "('k \<Rightarrow> 'k \<Rightarrow> int) \<Rightarrow> 'k SkipList \<Rightarrow> 'k \<Rightarrow> nat option \<Rightarrow> bool" where
  "KeyIsAfterNode compare sl key n = (case n of None \<Rightarrow> False | Some n \<Rightarrow> compare (node_key sl n) key < 0)"

definition FindGreaterOrEqual ::
    "('k \<Rightarrow> 'k \<Rightarrow> int) \<Rightarrow> 'k SkipList \<Rightarrow> 'k \<Rightarrow> nat list \<Rightarrow> (nat option \<times> nat list) option" where
  "FindGreaterOrEqual compare sl key prev =
     map_option snd (search_loop (KeyIsAfterNode compare sl key) sl head (sl_max_height sl - 1) prev)"

definition FindLessThan :: "('k \<Rightarrow> 'k \<Rightarrow> int) \<Rightarrow> 'k SkipList \<Rightarrow> 'k \<Rightarrow> nat option" where
  "FindLessThan compare sl key =
     map_option fst (search_loop (\<lambda>nxt. \<not> (case nxt of None \<Rightarrow> True | Some n \<Rightarrow> compare (node_key sl n) key \<ge> 0))
       sl head (sl_max_height sl - 1) [])"

definition FindLast :: "'k SkipList \<Rightarrow> nat option" where
  "FindLast sl = map_option fst (search_loop (\<lambda>nxt. \<not> (nxt = None)) sl head (sl_max_height sl - 1) [])"

section \<open>Operations\<close>

fun link_levels :: "nat list \<Rightarrow> nat \<Rightarrow> nat \<Rightarrow> 'k SkipList \<Rightarrow> 'k SkipList" where
  "link_levels prev x 0 sl = sl"
| "link_levels prev x (Suc i) sl =
     (let sl = link_levels prev x i sl;
          sl = SetNext x i (Next sl (prev ! i) i) sl
      in SetNext (prev ! i) i (Some x) sl)"

fun fill_prev :: "nat \<Rightarrow> nat \<Rightarrow> nat list \<Rightarrow> nat list" where
  "fill_prev i 0 prev = prev"
| "fill_prev i (Suc n) prev = fill_prev (Suc i) n (prev[i := head])"

definition Insert :: "('k \<Rightarrow> 'k \<Rightarrow> int) \<Rightarrow> 'k \<Rightarrow> 'k SkipList \<Rightarrow> 'k SkipList option" where
  "Insert compare key sl =
     (case FindGreaterOrEqual compare sl key (replicate kMaxHeight head) of
        None \<Rightarrow> None
      | Some (x, prev) \<Rightarrow>
          let (height, sl) = RandomHeight sl;
              (prev, sl) =
                (if height > sl_max_height sl
                 then (fill_prev (sl_max_height sl) (height - sl_max_height sl) prev, sl\<lparr>sl_max_height := height\<rparr>)
                 else (prev, sl));
              (x, sl) = NewNode key height sl
          in Some (link_levels prev x height sl))"

definition Contains :: "('k \<Rightarrow> 'k \<Rightarrow> int) \<Rightarrow> 'k \<Rightarrow> 'k SkipList \<Rightarrow> bool option" where
  "Contains compare key sl =
     (case FindGreaterOrEqual compare sl key [] of
        None \<Rightarrow> None
      | Some (None, _) \<Rightarrow> Some False
      | Some (Some x, _) \<Rightarrow> Some (compare key (node_key sl x) = 0))"

text \<open>Iterators hold a node.\<close>

definition iter_Next :: "'k SkipList \<Rightarrow> nat \<Rightarrow> nat option" where
  "iter_Next sl x = Next sl x 0"

definition iter_Prev :: "('k \<Rightarrow> 'k \<Rightarrow> int) \<Rightarrow> 'k SkipList \<Rightarrow> nat \<Rightarrow> nat option option" where
  "iter_Prev compare sl x =
     map_option (\<lambda>y. if y = head then None else Some y) (FindLessThan compare sl (node_key sl x))"

definition iter_Seek :: "('k \<Rightarrow> 'k \<Rightarrow> int) \<Rightarrow> 'k SkipList \<Rightarrow> 'k \<Rightarrow> nat option option" where
  "iter_Seek compare sl target = map_option fst (FindGreaterOrEqual compare sl target [])"

definition iter_SeekToFirst :: "'k SkipList \<Rightarrow> nat option" where
  "iter_SeekToFirst sl = Next sl head 0"

definition iter_SeekToLast :: "'k SkipList \<Rightarrow> nat option option" where
  "iter_SeekToLast sl = map_option (\<lambda>y. if y = head then None else Some y) (FindLast sl)"

section \<open>Chains\<close>

definition hd_option :: "'a list \<Rightarrow> 'a option" where
  "hd_option xs = (case xs of [] \<Rightarrow> None | x # _ \<Rightarrow> Some x)"

lemma hd_option_simps [simp]: "hd_option [] = None" "hd_option (x # xs) = Some x"
  by (simp_all add: hd_option_def)

text \<open>The nodes of a list are linked by a function to the next node.\<close>

fun links :: "(nat \<Rightarrow> nat option) \<Rightarrow> nat list \<Rightarrow> bool" where
  "links nx [] \<longleftrightarrow> True"
| "links nx (x # xs) \<longleftrightarrow> nx x = hd_option xs \<and> links nx xs"

lemma links_next: "links nx (P @ x # Q) \<Longrightarrow> nx x = hd_option Q"
  by (induction P) auto

lemma links_cong: "(\<And>z. z \<in> set zs \<Longrightarrow> nx z = nx' z) \<Longrightarrow> links nx zs = links nx' zs"
  by (induction zs) auto

lemma links_insert:
  assumes "links nx (P @ y # R)" and "x \<notin> set (P @ y # R)" and "distinct (P @ y # R)"
    and "nx' x = nx y" and "nx' y = Some x" and "\<And>z. z \<noteq> x \<Longrightarrow> z \<noteq> y \<Longrightarrow> nx' z = nx z"
  shows "links nx' (P @ y # x # R)"
  using assms
proof (induction P)
  case Nil
  then have "links nx' R = links nx R" by (intro links_cong Nil(6)) auto
  with Nil show ?case by simp
next
  case (Cons p P)
  have "hd_option (P @ y # x # R) = hd_option (P @ y # R)" by (cases P) simp_all
  with Cons show ?case by auto
qed

section \<open>The invariant\<close>

definition node_height :: "'k SkipList \<Rightarrow> nat \<Rightarrow> nat" where
  "node_height sl x = length (n_next (sl_nodes sl ! x))"

text \<open>The nodes of a level, in order.\<close>

definition level_nodes :: "'k SkipList \<Rightarrow> nat \<Rightarrow> nat list \<Rightarrow> nat list" where
  "level_nodes sl l ns = filter (\<lambda>i. l < node_height sl i) ns"

abbreviation links_level :: "'k SkipList \<Rightarrow> nat \<Rightarrow> nat list \<Rightarrow> bool" where
  "links_level sl l \<equiv> links (\<lambda>x. Next sl x l)"

text \<open>The shape of a list whose nodes are \<open>ns\<close>: every level links the nodes that are high enough.\<close>

definition shape :: "'k SkipList \<Rightarrow> nat list \<Rightarrow> bool" where
  "shape sl ns \<longleftrightarrow> distinct (head # ns) \<and> 1 \<le> sl_max_height sl \<and> sl_max_height sl \<le> kMaxHeight
     \<and> node_height sl head = kMaxHeight
     \<and> (\<forall>i \<in> set (head # ns). i < length (sl_nodes sl))
     \<and> (\<forall>i \<in> set ns. 1 \<le> node_height sl i \<and> node_height sl i \<le> sl_max_height sl)
     \<and> (\<forall>l < kMaxHeight. links_level sl l (head # level_nodes sl l ns))"

lemma level_nodes_Nil [simp]: "level_nodes sl l [] = []"
  by (simp add: level_nodes_def)

lemma level_nodes_append: "level_nodes sl l (A @ B) = level_nodes sl l A @ level_nodes sl l B"
  by (simp add: level_nodes_def)

lemma level_0: "shape sl ns \<Longrightarrow> set A \<subseteq> set ns \<Longrightarrow> level_nodes sl 0 A = A"
  by (force simp: shape_def level_nodes_def filter_id_conv)

lemma level_above: "shape sl ns \<Longrightarrow> set A \<subseteq> set ns \<Longrightarrow> sl_max_height sl \<le> l \<Longrightarrow> level_nodes sl l A = []"
  by (fastforce simp: shape_def level_nodes_def filter_empty_conv)

section \<open>Searches end and split the list\<close>

lemma search_walk:
  assumes "links_level sl l (P @ x # Q @ R)" and "\<forall>q \<in> set Q. go (Some q)"
  shows "search_loop go sl x l prev = search_loop go sl (last (x # Q)) l prev"
  using assms
proof (induction Q arbitrary: P x)
  case (Cons q Q)
  have "Next sl x l = Some q" using links_next [OF Cons(2)] by simp
  then have "search_loop go sl x l prev = search_loop go sl q l prev"
    using Cons(3) by (subst search_loop.simps) (simp add: Let_def)
  also have "\<dots> = search_loop go sl (last (q # Q)) l prev"
    using Cons(2,3) by (intro Cons.IH [of "P @ [x]"]) auto
  finally show ?case by simp
qed simp

lemma last_Cons_split: "last (x # xs) = y \<Longrightarrow> \<exists>ys. x # xs = ys @ [y]"
  by (metis append_butlast_last_id list.distinct(1))

lemma search_level:
  assumes "shape sl ns" and "ns = A @ B" and "\<forall>i \<in> set A. go (Some i)" and "\<forall>i \<in> set B. \<not> go (Some i)" and "\<not> go None"
    and "level < kMaxHeight" and "x \<in> set (head # level_nodes sl level A)"
  shows "search_loop go sl x level prev =
    (let y = last (head # level_nodes sl level A); prev = prev[level := y] in
     if level = 0 then Some (y, hd_option (level_nodes sl level B), prev) else search_loop go sl y (level - 1) prev)"
proof -
  let ?A = "level_nodes sl level A" and ?B = "level_nodes sl level B"
  let ?y = "last (head # ?A)"
  obtain P Q where PQ: "head # ?A = P @ x # Q" using split_list [OF assms(7)] by blast
  have chain: "links_level sl level ((head # ?A) @ ?B)"
    using assms(1,2,6) by (simp add: shape_def level_nodes_append)
  then have "links_level sl level (P @ x # Q @ ?B)" unfolding PQ by simp
  moreover have "\<forall>q \<in> set Q. go (Some q)"
  proof
    fix q
    assume "q \<in> set Q"
    then have "q \<in> set ?A" using PQ by (cases P) auto
    then show "go (Some q)" using assms(3) by (auto simp: level_nodes_def)
  qed
  ultimately have "search_loop go sl x level prev = search_loop go sl (last (x # Q)) level prev"
    by (rule search_walk)
  also have "last (x # Q) = ?y" unfolding PQ by simp
  finally have walk: "search_loop go sl x level prev = search_loop go sl ?y level prev" .
  have "head # ?A = butlast (head # ?A) @ [?y]" by simp
  then have "links_level sl level (butlast (head # ?A) @ ?y # ?B)" using chain by (metis append.assoc append_Cons append_Nil)
  then have "Next sl ?y level = hd_option ?B" by (rule links_next)
  moreover have "\<not> go (hd_option ?B)"
  proof (cases ?B)
    case (Cons b bs)
    then have "b \<in> set B" by (metis level_nodes_def filter_is_subset list.set_intros(1) subsetD)
    with Cons assms(4) show ?thesis by simp
  qed (use assms(5) in simp)
  ultimately show ?thesis
    unfolding walk by (subst search_loop.simps) (simp add: Let_def)
qed

lemma search_splits:
  assumes "shape sl ns" and "ns = A @ B" and "\<forall>i \<in> set A. go (Some i)" and "\<forall>i \<in> set B. \<not> go (Some i)" and "\<not> go None"
    and "level < kMaxHeight" and "x \<in> set (head # level_nodes sl level A)"
  shows "\<exists>prev'. search_loop go sl x level prev = Some (last (head # A), hd_option B, prev') \<and> length prev' = length prev
    \<and> (\<forall>l < length prev. prev' ! l = (if l \<le> level then last (head # level_nodes sl l A) else prev ! l))"
  using assms(6,7)
proof (induction level arbitrary: x prev)
  case (0 x prev)
  note step = search_level [OF assms(1-5) 0]
  have "set A \<subseteq> set ns" "set B \<subseteq> set ns" using assms(2) by auto
  note l0 = level_0 [OF assms(1) this(1)] level_0 [OF assms(1) this(2)]
  show ?case
    using step [of prev] by (intro exI [of _ "prev[0 := last (head # A)]"]) (simp add: l0 Let_def)
next
  case (Suc level x prev)
  let ?y = "last (head # level_nodes sl (Suc level) A)"
  note step = search_level [OF assms(1-5) Suc(2,3)]
  have "?y \<in> set (head # level_nodes sl (Suc level) A)" by (rule last_in_set) simp
  then have "?y \<in> set (head # level_nodes sl level A)" by (auto simp: level_nodes_def)
  from Suc.IH [OF _ this, of "prev[Suc level := ?y]"] Suc(2) obtain prev' where
    "search_loop go sl ?y level (prev[Suc level := ?y]) = Some (last (head # A), hd_option B, prev')" "length prev' = length prev"
    "\<forall>l < length prev. prev' ! l = (if l \<le> level then last (head # level_nodes sl l A) else prev[Suc level := ?y] ! l)"
    by auto
  then show ?case using step [of prev] by (auto simp: nth_list_update le_Suc_eq)
qed

section \<open>Insertion\<close>

lemma nth_update_same: "g v = g (xs ! x) \<Longrightarrow> g (xs[x := v] ! y) = g (xs ! y)"
  by (cases "x < length xs"; cases "x = y") (simp_all add: list_update_beyond)

lemma SetNext_simps [simp]:
  "length (sl_nodes (SetNext x n p sl)) = length (sl_nodes sl)" "sl_max_height (SetNext x n p sl) = sl_max_height sl"
  "node_height (SetNext x n p sl) y = node_height sl y" "node_key (SetNext x n p sl) y = node_key sl y"
  by (simp_all add: SetNext_def node_height_def node_key_def nth_update_same [where g = "\<lambda>v. length (n_next v)"]
      nth_update_same [where g = n_key])

lemma Next_SetNext:
  "x < length (sl_nodes sl) \<Longrightarrow> n < node_height sl x \<Longrightarrow>
     Next (SetNext x n p sl) y m = (if y = x \<and> m = n then p else Next sl y m)"
  by (cases "y = x") (auto simp: SetNext_def Next_def node_height_def)

lemma link_levels_simps [simp]:
  "length (sl_nodes (link_levels prev x h sl)) = length (sl_nodes sl)"
  "sl_max_height (link_levels prev x h sl) = sl_max_height sl"
  "node_height (link_levels prev x h sl) y = node_height sl y" "node_key (link_levels prev x h sl) y = node_key sl y"
  by (induction h) (simp_all add: Let_def)

lemma Next_link_levels:
  assumes "x < length (sl_nodes sl)" and "h \<le> node_height sl x"
    and "\<forall>i < h. prev ! i < length (sl_nodes sl) \<and> i < node_height sl (prev ! i) \<and> prev ! i \<noteq> x"
  shows "Next (link_levels prev x h sl) y m
    = (if m < h then if y = x then Next sl (prev ! m) m else if y = prev ! m then Some x else Next sl y m else Next sl y m)"
  using assms
proof (induction h arbitrary: y m)
  case (Suc h)
  then have IH: "Next (link_levels prev x h sl) y m
    = (if m < h then if y = x then Next sl (prev ! m) m else if y = prev ! m then Some x else Next sl y m else Next sl y m)" for y m
    by simp
  from Suc(2-4) show ?case
    by (auto simp: Let_def Next_SetNext IH less_Suc_eq)
qed simp

lemma fill_prev_nth:
  "i + n \<le> length prev \<Longrightarrow> length (fill_prev i n prev) = length prev
     \<and> (\<forall>l < length prev. fill_prev i n prev ! l = (if i \<le> l \<and> l < i + n then head else prev ! l))"
proof (induction i n prev rule: fill_prev.induct)
  case (2 i n prev)
  then show ?case by (auto simp: nth_list_update)
qed simp

lemma random_height: "1 \<le> h \<Longrightarrow> h \<le> kMaxHeight \<Longrightarrow> random_height_loop h rnd = (h', rnd') \<Longrightarrow> 1 \<le> h' \<and> h' \<le> kMaxHeight"
proof (induction h rnd rule: random_height_loop.induct)
  case (1 h rnd)
  from 1(4) show ?case
    by (subst (asm) random_height_loop.simps) (use 1(1-3) in \<open>auto simp: Let_def split: if_splits\<close>)
qed

text \<open>A new node is linked in behind \<open>A\<close> on its levels.\<close>

lemma link_shape:
  assumes "shape sl (A @ B)" and "1 \<le> h" and "h \<le> kMaxHeight"
    and "sl1 = snd (NewNode key h (sl\<lparr>sl_rnd := rnd, sl_max_height := max (sl_max_height sl) h\<rparr>))"
    and "x = length (sl_nodes sl)"
    and "\<forall>l < h. prev ! l = last (head # level_nodes sl l A)"
  shows "shape (link_levels prev x h sl1) (A @ x # B)"
proof -
  let ?sl = "link_levels prev x h sl1"
  have nodes: "sl_nodes sl1 = sl_nodes sl @ [\<lparr>n_key = key, n_next = replicate h None\<rparr>]"
    "sl_max_height sl1 = max (sl_max_height sl) h"
    by (simp_all add: assms(4) NewNode_def)
  have old: "y < length (sl_nodes sl)" if "y \<in> set (head # A @ B)" for y using assms(1) that by (auto simp: shape_def)
  have ht: "node_height sl1 y = node_height sl y" "Next sl1 y l = Next sl y l" if "y \<in> set (head # A @ B)" for y l
    using old [OF that] by (simp_all add: node_height_def Next_def nodes nth_append)
  have x: "x \<notin> set (head # A @ B)" "node_height sl1 x = h" "x < length (sl_nodes sl1)"
    using old assms(5) by (auto simp: nodes node_height_def)
  have lv: "level_nodes ?sl l A = level_nodes sl l A" "level_nodes ?sl l B = level_nodes sl l B" for l
    using ht(1) by (auto simp: level_nodes_def intro!: filter_cong)
  have prev: "prev ! l \<in> set (head # A)" "prev ! l < length (sl_nodes sl1)" "l < node_height sl1 (prev ! l)" "prev ! l \<noteq> x"
    if "l < h" for l
  proof -
    have "prev ! l = last (head # level_nodes sl l A)" using assms(6) that by simp
    then have p: "prev ! l \<in> set (head # level_nodes sl l A)" by (metis last_in_set list.distinct(1))
    then show in_A: "prev ! l \<in> set (head # A)" by (auto simp: level_nodes_def)
    then have in_ns: "prev ! l \<in> set (head # A @ B)" by auto
    then show "prev ! l < length (sl_nodes sl1)" using old [OF in_ns] by (simp add: nodes)
    show "prev ! l \<noteq> x" using x(1) in_ns by auto
    show "l < node_height sl1 (prev ! l)"
      using p assms(1,3) that ht(1) [OF in_ns] by (auto simp: level_nodes_def shape_def)
  qed
  note nx = Next_link_levels [of x sl1 h prev] 
  have links: "links_level ?sl l (head # level_nodes ?sl l (A @ x # B))" if "l < kMaxHeight" for l
  proof -
    let ?A = "level_nodes sl l A" and ?B = "level_nodes sl l B"
    have old_links: "links_level sl l ((head # ?A) @ ?B)"
      using assms(1) that by (simp add: shape_def level_nodes_append)
    have new1: "links_level sl1 l ((head # ?A) @ ?B)"
    proof -
      have "links_level sl1 l ((head # ?A) @ ?B) = links_level sl l ((head # ?A) @ ?B)"
        by (rule links_cong) (auto simp: level_nodes_def intro: ht(2))
      with old_links show ?thesis by simp
    qed
    have dist: "distinct ((head # ?A) @ ?B)" using assms(1) by (auto simp: shape_def level_nodes_def)
    have xin: "x \<notin> set ((head # ?A) @ ?B)" using x(1) by (auto simp: level_nodes_def)
    have sl_nx: "Next ?sl y m = (if m < h then if y = x then Next sl1 (prev ! m) m else if y = prev ! m then Some x
        else Next sl1 y m else Next sl1 y m)" for y m
      using nx [of y m] x(2,3) prev by auto
    show ?thesis
    proof (cases "l < h")
      case True
      then have pl: "prev ! l = last (head # ?A)" using assms(6) by simp
      have "head # ?A = butlast (head # ?A) @ [prev ! l]" unfolding pl by simp
      then have split: "(head # ?A) @ ?B = butlast (head # ?A) @ prev ! l # ?B"
        "(head # ?A) @ x # ?B = butlast (head # ?A) @ prev ! l # x # ?B"
        by (metis append.assoc append_Cons append_Nil)+
      have "links_level ?sl l (butlast (head # ?A) @ prev ! l # x # ?B)"
      proof (rule links_insert)
        show "links_level sl1 l (butlast (head # ?A) @ prev ! l # ?B)" using new1 unfolding split(1) .
        show "x \<notin> set (butlast (head # ?A) @ prev ! l # ?B)" using xin unfolding split(1) .
        show "distinct (butlast (head # ?A) @ prev ! l # ?B)" using dist unfolding split(1) .
      qed (use True prev(4) in \<open>auto simp: sl_nx\<close>)
      then have "links_level ?sl l ((head # ?A) @ x # ?B)" unfolding split(2) .
      moreover have "level_nodes ?sl l (A @ x # B) = ?A @ x # ?B"
        using True x(2) lv [of l] by (simp add: level_nodes_def)
      ultimately show ?thesis by simp
    next
      case False
      then have "links_level ?sl l ((head # ?A) @ ?B) = links_level sl1 l ((head # ?A) @ ?B)"
        by (intro links_cong) (simp add: sl_nx)
      moreover have "level_nodes ?sl l (A @ x # B) = ?A @ ?B"
        using False x(2) lv [of l] by (simp add: level_nodes_def)
      ultimately show ?thesis using new1 by simp
    qed
  qed
  have inA: "i \<in> set (head # A @ B) \<Longrightarrow> i < length (sl_nodes sl1)" for i using old [of i] by (simp add: nodes)
  have head: "node_height sl1 head = kMaxHeight" using ht(1) [of head] assms(1) by (simp add: shape_def)
  have hts: "1 \<le> node_height sl1 i \<and> node_height sl1 i \<le> max (sl_max_height sl) h" if "i \<in> set (A @ B)" for i
    using ht(1) [of i] assms(1) that by (auto simp: shape_def le_max_iff_disj)
  show ?thesis
    unfolding shape_def
  proof (intro conjI ballI allI impI)
    show "distinct (head # A @ x # B)" using assms(1) x(1) by (auto simp: shape_def)
    show "1 \<le> sl_max_height ?sl" "sl_max_height ?sl \<le> kMaxHeight" using assms(1-3) by (auto simp: shape_def nodes)
    show "node_height ?sl head = kMaxHeight" using head by simp
    show "i < length (sl_nodes ?sl)" if "i \<in> set (head # A @ x # B)" for i using that inA [of i] x(3) by auto
    show "1 \<le> node_height ?sl i" "node_height ?sl i \<le> sl_max_height ?sl" if "i \<in> set (A @ x # B)" for i
      using that hts [of i] x(2) assms(2) by (auto simp: nodes)
    show "links_level ?sl l (head # level_nodes ?sl l (A @ x # B))" if "l < kMaxHeight" for l
      using that by (rule links)
  qed
qed

section \<open>Sorted lists\<close>

lemma shape_new: "shape (SkipList_new k) []"
proof -
  have "links_level (SkipList_new k) l [head]" if "l < kMaxHeight" for l
    using that by (simp add: SkipList_new_def Next_def)
  then show ?thesis
    by (simp add: shape_def) (simp add: SkipList_new_def node_height_def kMaxHeight_def)
qed

lemma takeWhile_split:
  "sorted_wrt R xs \<Longrightarrow> (\<And>x y. x \<in> set xs \<Longrightarrow> y \<in> set xs \<Longrightarrow> R x y \<Longrightarrow> P y \<Longrightarrow> P x) \<Longrightarrow>
     \<forall>x \<in> set (dropWhile P xs). \<not> P x"
proof (induction xs)
  case (Cons a xs)
  have "\<forall>x \<in> set (dropWhile P xs). \<not> P x"
    using Cons.prems(1) by (intro Cons.IH) (auto intro: Cons.prems(2))
  moreover have "P a" if "x \<in> set xs" "P x" for x
    using Cons.prems(1) that by (intro Cons.prems(2) [of a x]) auto
  ultimately show ?case by auto
qed simp

lemma hd_option_dropWhile: "hd_option (dropWhile P xs) = find (\<lambda>x. \<not> P x) xs"
  by (induction xs) auto

lemma find_map: "find P (map f xs) = map_option f (find (\<lambda>x. P (f x)) xs)"
  by (induction xs) auto

lemma find_first_sorted:
  "sorted_wrt R xs \<Longrightarrow> find P xs = Some x \<Longrightarrow> y \<in> set xs \<Longrightarrow> P y \<Longrightarrow> y = x \<or> R x y"
  by (induction xs) (auto split: if_splits)

definition ordered_nodes :: "('k \<Rightarrow> 'k \<Rightarrow> int) \<Rightarrow> 'k set \<Rightarrow> 'k SkipList \<Rightarrow> nat list \<Rightarrow> bool" where
  "ordered_nodes compare keys sl ns \<longleftrightarrow> (\<forall>i \<in> set ns. node_key sl i \<in> keys)
     \<and> sorted_wrt (\<lambda>i j. compare (node_key sl i) (node_key sl j) < 0) ns"

text \<open>The list holds the keys \<open>ks\<close>, which are in increasing order.\<close>

definition holds :: "('k \<Rightarrow> 'k \<Rightarrow> int) \<Rightarrow> 'k set \<Rightarrow> 'k SkipList \<Rightarrow> 'k list \<Rightarrow> bool" where
  "holds compare keys sl ks \<longleftrightarrow> (\<exists>ns. shape sl ns \<and> ordered_nodes compare keys sl ns \<and> map (node_key sl) ns = ks)"

context cmp_order
begin

abbreviation below :: "'k SkipList \<Rightarrow> 'k \<Rightarrow> nat \<Rightarrow> bool" where
  "below sl key \<equiv> \<lambda>i. compare (node_key sl i) key < 0"

lemma not_below_rest:
  assumes "ordered_nodes compare keys sl ns" and "key \<in> keys"
  shows "\<forall>i \<in> set (dropWhile (below sl key) ns). \<not> below sl key i"
proof (rule takeWhile_split)
  show "sorted_wrt (\<lambda>i j. compare (node_key sl i) (node_key sl j) < 0) ns" using assms by (simp add: ordered_nodes_def)
  fix i j
  assume "i \<in> set ns" "j \<in> set ns" "compare (node_key sl i) (node_key sl j) < 0" "below sl key j"
  then show "below sl key i"
    using assms le_less_trans [of "node_key sl i" "node_key sl j" key] by (simp add: ordered_nodes_def)
qed

lemma search_below:
  assumes "shape sl ns" and "ordered_nodes compare keys sl ns" and "key \<in> keys"
    and "\<And>i. go (Some i) \<longleftrightarrow> below sl key i" and "\<not> go None"
  shows "\<exists>prev'. search_loop go sl head (sl_max_height sl - 1) prev
      = Some (last (head # takeWhile (below sl key) ns), hd_option (dropWhile (below sl key) ns), prev')
    \<and> length prev' = length prev
    \<and> (\<forall>l < length prev. prev' ! l = (if l < sl_max_height sl
          then last (head # level_nodes sl l (takeWhile (below sl key) ns)) else prev ! l))"
proof -
  have h: "sl_max_height sl - 1 < kMaxHeight" "1 \<le> sl_max_height sl" using assms(1) by (auto simp: shape_def)
  have A: "\<forall>i \<in> set (takeWhile (below sl key) ns). go (Some i)" by (auto simp: assms(4) dest: set_takeWhileD)
  have B: "\<forall>i \<in> set (dropWhile (below sl key) ns). \<not> go (Some i)" using not_below_rest [OF assms(2,3)] unfolding assms(4) .
  have ns: "ns = takeWhile (below sl key) ns @ dropWhile (below sl key) ns" by simp
  have "head \<in> set (head # xs)" for xs :: "nat list" by simp
  note * = search_splits [OF assms(1) ns A B assms(5) h(1) this, of prev]
  have iff: "l \<le> sl_max_height sl - 1 \<longleftrightarrow> l < sl_max_height sl" for l using h(2) by auto
  show ?thesis using * unfolding iff .
qed

lemma FindGreaterOrEqual_split:
  assumes "shape sl ns" and "ordered_nodes compare keys sl ns" and "key \<in> keys"
  shows "\<exists>prev'. FindGreaterOrEqual compare sl key prev = Some (hd_option (dropWhile (below sl key) ns), prev')
    \<and> length prev' = length prev
    \<and> (\<forall>l < length prev. prev' ! l = (if l < sl_max_height sl
          then last (head # level_nodes sl l (takeWhile (below sl key) ns)) else prev ! l))"
proof -
  have "KeyIsAfterNode compare sl key (Some i) \<longleftrightarrow> below sl key i" "\<not> KeyIsAfterNode compare sl key None" for i
    by (simp_all add: KeyIsAfterNode_def)
  from search_below [OF assms this, of prev] show ?thesis
    unfolding FindGreaterOrEqual_def by (elim exE conjE) (simp only: option.map snd_conv, blast)
qed

lemma holds_new: "holds compare keys (SkipList_new k) []"
  using shape_new by (auto simp: holds_def ordered_nodes_def)

lemma ordered_insert:
  assumes "ordered_nodes compare keys sl ns" and "key \<in> keys" and "\<forall>i \<in> set ns. compare (node_key sl i) key \<noteq> 0"
    and "\<forall>i \<in> set ns. node_key sl' i = node_key sl i" and "node_key sl' x = key"
  shows "ordered_nodes compare keys sl' (takeWhile (below sl key) ns @ x # dropWhile (below sl key) ns)"
proof -
  let ?A = "takeWhile (below sl key) ns" and ?B = "dropWhile (below sl key) ns"
  let ?R = "\<lambda>sl i j. compare (node_key sl i) (node_key sl j) < 0"
  have AB: "i \<in> set ns" if "i \<in> set ?A \<union> set ?B" for i using that by (auto dest: set_takeWhileD set_dropWhileD)
  have key: "node_key sl' i = node_key sl i" "node_key sl i \<in> keys" if "i \<in> set ?A \<union> set ?B" for i
    using AB [OF that] assms(1,4) by (auto simp: ordered_nodes_def)
  have "sorted_wrt (?R sl) (?A @ ?B)" using assms(1) by (simp add: ordered_nodes_def)
  then have s: "sorted_wrt (?R sl) ?A" "sorted_wrt (?R sl) ?B" "\<forall>i \<in> set ?A. \<forall>j \<in> set ?B. ?R sl i j"
    by (auto simp: sorted_wrt_append simp del: takeWhile_dropWhile_id)
  have "sorted_wrt (?R sl') ?A" "sorted_wrt (?R sl') ?B"
    using s(1,2) key(1) by (auto elim!: sorted_wrt_mono_rel [rotated])
  moreover have "compare (node_key sl i) key < 0" if "i \<in> set ?A" for i using that by (auto dest: set_takeWhileD)
  moreover have "compare key (node_key sl j) < 0" if "j \<in> set ?B" for j
  proof -
    have "\<not> compare (node_key sl j) key < 0" by (rule bspec [OF not_below_rest [OF assms(1,2)] that])
    moreover have "compare (node_key sl j) key \<noteq> 0" using assms(3) AB [of j] that by auto
    ultimately show ?thesis using compare_sym [OF assms(2) key(2), of j] that by auto
  qed
  ultimately show ?thesis
    using s(3) key assms(2,5) by (auto simp: ordered_nodes_def sorted_wrt_append)
qed

lemma Insert_holds:
  assumes "holds compare keys sl ks" and "key \<in> keys" and "\<forall>k \<in> set ks. compare k key \<noteq> 0"
  shows "\<exists>sl'. Insert compare key sl = Some sl'
    \<and> holds compare keys sl' (takeWhile (\<lambda>k. compare k key < 0) ks @ key # dropWhile (\<lambda>k. compare k key < 0) ks)"
proof -
  from assms(1) obtain ns where ns: "shape sl ns" "ordered_nodes compare keys sl ns" "map (node_key sl) ns = ks"
    by (auto simp: holds_def)
  let ?A = "takeWhile (below sl key) ns" and ?B = "dropWhile (below sl key) ns"
  obtain prev where prev: "FindGreaterOrEqual compare sl key (replicate kMaxHeight head) = Some (hd_option ?B, prev)"
    "length prev = kMaxHeight"
    "\<forall>l < kMaxHeight. prev ! l = (if l < sl_max_height sl then last (head # level_nodes sl l ?A) else head)"
    using FindGreaterOrEqual_split [OF ns(1,2) assms(2), of "replicate kMaxHeight head"] by auto
  obtain h rnd where h: "random_height_loop 1 (sl_rnd sl) = (h, rnd)" by fastforce
  have h1: "1 \<le> h" "h \<le> kMaxHeight" using random_height [OF _ _ h] by (auto simp: kMaxHeight_def)
  define prev' where "prev' = (if sl_max_height sl < h then fill_prev (sl_max_height sl) (h - sl_max_height sl) prev else prev)"
  define sl1 where "sl1 = snd (NewNode key h (sl\<lparr>sl_rnd := rnd, sl_max_height := max (sl_max_height sl) h\<rparr>))"
  define x where "x = length (sl_nodes sl)"
  have sl': "Insert compare key sl = Some (link_levels prev' x h sl1)"
    using prev(1) h by (simp add: Insert_def RandomHeight_def Let_def prev'_def sl1_def x_def NewNode_def max_def)
  have "prev' ! l = last (head # level_nodes sl l ?A)" if "l < h" for l
  proof (cases "l < sl_max_height sl")
    case True
    then show ?thesis
      using that h1(2) prev(2,3) fill_prev_nth [of "sl_max_height sl" "h - sl_max_height sl" prev] by (auto simp: prev'_def)
  next
    case False
    then have "level_nodes sl l ?A = []" by (intro level_above [OF ns(1)]) (auto dest: set_takeWhileD)
    with False that show ?thesis
      using h1(2) prev(2,3) fill_prev_nth [of "sl_max_height sl" "h - sl_max_height sl" prev] by (auto simp: prev'_def)
  qed
  then have shape: "shape (link_levels prev' x h sl1) (?A @ x # ?B)"
    using ns(1) h1 by (intro link_shape [OF _ _ _ sl1_def x_def]) auto
  have "node_key sl1 i = node_key sl i" if "i < length (sl_nodes sl)" for i
    using that by (simp add: node_key_def sl1_def NewNode_def nth_append)
  then have old: "node_key (link_levels prev' x h sl1) i = node_key sl i" if "i \<in> set ns" for i
    using that ns(1) by (simp add: shape_def)
  have "node_key sl1 x = key" by (simp add: node_key_def sl1_def NewNode_def x_def)
  then have new: "node_key (link_levels prev' x h sl1) x = key" by simp
  have "ordered_nodes compare keys (link_levels prev' x h sl1) (?A @ x # ?B)"
    using ns(2,3) assms(2,3) old new by (intro ordered_insert) auto
  moreover have "map (node_key (link_levels prev' x h sl1)) (?A @ x # ?B)
      = takeWhile (\<lambda>k. compare k key < 0) ks @ key # dropWhile (\<lambda>k. compare k key < 0) ks"
    using old new by (auto simp: ns(3) [symmetric] takeWhile_map dropWhile_map comp_def dest: set_takeWhileD set_dropWhileD)
  ultimately show ?thesis using sl' shape unfolding holds_def by blast
qed

lemma Seek_holds:
  assumes "holds compare keys sl ks" and "key \<in> keys"
  shows "\<exists>r prev. FindGreaterOrEqual compare sl key [] = Some (r, prev)
    \<and> map_option (node_key sl) r = find (\<lambda>k. \<not> compare k key < 0) ks"
proof -
  from assms(1) obtain ns where ns: "shape sl ns" "ordered_nodes compare keys sl ns" "map (node_key sl) ns = ks"
    by (auto simp: holds_def)
  from FindGreaterOrEqual_split [OF ns(1,2) assms(2), of "[]"] obtain prev where
    "FindGreaterOrEqual compare sl key [] = Some (hd_option (dropWhile (below sl key) ns), prev)" by blast
  then show ?thesis by (simp add: hd_option_dropWhile find_map ns(3) [symmetric])
qed

lemma holds_sorted:
  assumes "holds compare keys sl ks"
  shows "set ks \<subseteq> keys" "sorted_wrt (\<lambda>a b. compare a b < 0) ks"
  using assms by (auto simp: holds_def ordered_nodes_def sorted_wrt_map)

lemma find_first:
  assumes "sorted_wrt (\<lambda>a b. compare a b < 0) ks" and "set ks \<subseteq> keys" and "key \<in> keys"
  shows "(\<exists>k \<in> set ks. compare key k = 0)
    \<longleftrightarrow> (case find (\<lambda>k. \<not> compare k key < 0) ks of None \<Rightarrow> False | Some k \<Rightarrow> compare key k = 0)"
  using assms(1,2)
proof (induction ks)
  case (Cons a ks)
  show ?case
  proof (cases "compare a key < 0")
    case True
    then have "compare key a \<noteq> 0" using compare_sym [of a key] Cons.prems(2) assms(3) by auto
    with True Cons show ?thesis by simp
  next
    case False
    have "compare key a = 0" if "k \<in> set ks" "compare key k = 0" for k
    proof -
      have "compare a k < 0" "a \<in> keys" "k \<in> keys" using Cons.prems that(1) by auto
      moreover have "compare k key \<le> 0" using compare_sym [of key k] compare_le_iff [of k key] that(2) calculation(3) assms(3) by simp
      ultimately show ?thesis using less_le_trans [of a k key] assms(3) False by simp
    qed
    with False show ?thesis by auto
  qed
qed simp

lemma Contains_holds:
  assumes "holds compare keys sl ks" and "key \<in> keys"
  shows "Contains compare key sl = Some (\<exists>k \<in> set ks. compare key k = 0)"
proof -
  from Seek_holds [OF assms] obtain r prev where
    r: "FindGreaterOrEqual compare sl key [] = Some (r, prev)" "map_option (node_key sl) r = find (\<lambda>k. \<not> compare k key < 0) ks"
    by blast
  show ?thesis
    unfolding find_first [OF holds_sorted(2,1) [OF assms(1)] assms(2)] r(2) [symmetric]
    using r(1) by (cases r) (simp_all add: Contains_def)
qed

end

section \<open>Iteration\<close>

lemma iterator_forward:
  assumes "shape sl ns"
  shows "iter_SeekToFirst sl = hd_option ns" "i < length ns \<Longrightarrow> iter_Next sl (ns ! i) = hd_option (drop (Suc i) ns)"
proof -
  have "links_level sl 0 (head # ns)"
    using assms level_0 [OF assms, of ns] by (force simp: shape_def kMaxHeight_def)
  then show "iter_SeekToFirst sl = hd_option ns" by (simp add: iter_SeekToFirst_def)
  assume "i < length ns"
  then have "head # ns = (head # take i ns) @ ns ! i # drop (Suc i) ns" by (simp add: id_take_nth_drop [symmetric])
  with \<open>links_level sl 0 (head # ns)\<close> links_next show "iter_Next sl (ns ! i) = hd_option (drop (Suc i) ns)"
    unfolding iter_Next_def by metis
qed

lemma iterator_last:
  assumes "shape sl ns"
  shows "iter_SeekToLast sl = Some (if ns = [] then None else Some (last ns))"
proof -
  have "sl_max_height sl - 1 < kMaxHeight" "head \<in> set (head # level_nodes sl (sl_max_height sl - 1) ns)"
    using assms by (auto simp: shape_def)
  from search_splits [OF assms, of ns "[]" "\<lambda>nxt. nxt \<noteq> None" "sl_max_height sl - 1" head "[]", OF _ _ _ _ this]
  have "iter_SeekToLast sl = (if last (head # ns) = head then Some None else Some (Some (last (head # ns))))"
    by (auto simp: iter_SeekToLast_def FindLast_def)
  moreover have "ns \<noteq> [] \<Longrightarrow> last ns \<noteq> head" using assms by (metis last_in_set shape_def distinct.simps(2))
  ultimately show ?thesis by auto
qed

context cmp_order
begin

lemma iterator_back:
  assumes "shape sl ns" and "ordered_nodes compare keys sl ns" and "i < length ns"
  shows "iter_Prev compare sl (ns ! i) = Some (if i = 0 then None else Some (ns ! (i - 1)))"
proof -
  let ?k = "node_key sl (ns ! i)"
  have k: "?k \<in> keys" using assms(2,3) by (simp add: ordered_nodes_def)
  have before: "below sl ?k (ns ! j)" if "j < i" for j
    using assms(2,3) that by (simp add: ordered_nodes_def sorted_wrt_iff_nth_less)
  have "takeWhile (below sl ?k) ns = take i ns"
    using before assms(3) compare_refl [OF k] by (intro takeWhile_eq_take_P_nth) auto
  moreover have "(case nxt of None \<Rightarrow> True | Some n \<Rightarrow> compare (node_key sl n) ?k \<ge> 0) \<longleftrightarrow> \<not> KeyIsAfterNode compare sl ?k nxt" for nxt
    by (auto simp: KeyIsAfterNode_def not_less split: option.split)
  moreover have "KeyIsAfterNode compare sl ?k (Some j) \<longleftrightarrow> below sl ?k j" "\<not> KeyIsAfterNode compare sl ?k None" for j
    by (simp_all add: KeyIsAfterNode_def)
  moreover note search_below [OF assms(1,2) k this, of "[]"]
  ultimately have "FindLessThan compare sl ?k = Some (last (head # take i ns))"
    by (auto simp: FindLessThan_def)
  moreover have "last (take i ns) = ns ! (i - 1)" "take i ns \<noteq> []" if "i \<noteq> 0"
    using assms(3) that by (cases ns; auto simp: last_conv_nth min_def)+
  moreover have "ns ! (i - 1) \<noteq> head" using assms(1,3) by (metis less_imp_diff_less nth_mem shape_def distinct.simps(2))
  ultimately show ?thesis by (auto simp: iter_Prev_def)
qed

end

section \<open>Properties\<close>

text \<open>C14: for any comparison that is a total order on its keys, the skip list refines a sorted list. A
  new list is empty; a search returns, with the first key that is not smaller; \<^verbatim>\<open>Contains\<close> tells
  whether an equal key is held; inserting a key that is not there, whatever height is drawn, puts it
  behind the smaller ones.\<close>

theorem skiplist_refines_sorted_list:
  assumes "cmp_order compare keys" and "holds compare keys sl ks" and "key \<in> keys"
  shows "holds compare keys (SkipList_new any_key) []
    \<and> (\<exists>r. iter_Seek compare sl key = Some r \<and> map_option (node_key sl) r = find (\<lambda>k. \<not> compare k key < 0) ks)
    \<and> Contains compare key sl = Some (\<exists>k \<in> set ks. compare key k = 0)
    \<and> ((\<forall>k \<in> set ks. compare k key \<noteq> 0) \<longrightarrow>
        (\<exists>sl'. Insert compare key sl = Some sl'
          \<and> holds compare keys sl' (takeWhile (\<lambda>k. compare k key < 0) ks @ key # dropWhile (\<lambda>k. compare k key < 0) ks)))"
  using cmp_order.holds_new [OF assms(1)] cmp_order.Seek_holds [OF assms] cmp_order.Contains_holds [OF assms]
    cmp_order.Insert_holds [OF assms]
  by (auto simp: iter_Seek_def)

theorem skiplist_refines_witness:
  "\<exists>sl'. Insert slice_compare [1] (SkipList_new []) = Some sl' \<and> holds slice_compare UNIV sl' [[1]]"
proof -
  have cmp: "cmp_order slice_compare UNIV"
    using bytewise.cmp_order_axioms by (simp add: BytewiseComparator_def BytewiseCompare_def [abs_def])
  from skiplist_refines_sorted_list [OF cmp cmp_order.holds_new [OF cmp, of "[]"], of "[1]"] show ?thesis by simp
qed

text \<open>C24: in a list that holds \<open>ks\<close> there are nodes \<open>ns\<close> with these keys that an iterator visits one by
  one, forwards from \<^verbatim>\<open>SeekToFirst\<close> and backwards from \<^verbatim>\<open>SeekToLast\<close>.\<close>

theorem skiplist_iteration:
  assumes "cmp_order compare keys" and "holds compare keys sl ks"
  shows "\<exists>ns. map (node_key sl) ns = ks \<and> iter_SeekToFirst sl = hd_option ns
    \<and> iter_SeekToLast sl = Some (if ns = [] then None else Some (last ns))
    \<and> (\<forall>i < length ns. iter_Next sl (ns ! i) = hd_option (drop (Suc i) ns)
          \<and> iter_Prev compare sl (ns ! i) = Some (if i = 0 then None else Some (ns ! (i - 1))))"
proof -
  from assms(2) obtain ns where ns: "shape sl ns" "ordered_nodes compare keys sl ns" "map (node_key sl) ns = ks"
    by (auto simp: holds_def)
  show ?thesis
    using ns(3) iterator_forward [OF ns(1)] iterator_last [OF ns(1)] cmp_order.iterator_back [OF assms(1) ns(1,2)]
    by (intro exI [of _ ns]) simp
qed

theorem skiplist_iteration_witness:
  "iter_SeekToFirst (SkipList_new ([] :: slice)) = None"
proof -
  have cmp: "cmp_order slice_compare UNIV"
    using bytewise.cmp_order_axioms by (simp add: BytewiseComparator_def BytewiseCompare_def [abs_def])
  from skiplist_iteration [OF cmp cmp_order.holds_new [OF cmp, of "[]"]] show ?thesis by simp
qed

end
