(* ===== verification/Ldb_Write_Batch.thy ===== *)
theory Ldb_Write_Batch
  imports Ldb_Status Ldb_Dbformat
begin

text \<open>
  Batches of updates, from \<^verbatim>\<open>db/write_batch.cc\<close>: one byte string with a header (sequence number,
  count) and a record for every update, which is also what the log stores. The handler that
  \<^verbatim>\<open>Iterate\<close> calls is a record of functions on a state of its own.
\<close>

section \<open>Operations\<close>

record 'h handler =
  h_put :: "slice \<Rightarrow> slice \<Rightarrow> 'h \<Rightarrow> 'h"
  h_delete :: "slice \<Rightarrow> 'h \<Rightarrow> 'h"

type_synonym WriteBatch = "byte list"

definition kHeader :: nat where "kHeader = 12"

definition batch_Clear :: WriteBatch where
  "batch_Clear = replicate kHeader 0"

text \<open>The count is an \<^verbatim>\<open>int\<close> that is stored and read as 32 bits.\<close>

definition Count :: "WriteBatch \<Rightarrow> int" where
  "Count b = sint (DecodeFixed32 (drop 8 b))"

definition SetCount :: "WriteBatch \<Rightarrow> int \<Rightarrow> WriteBatch" where
  "SetCount b n = take 8 b @ EncodeFixed32 (word_of_int n) @ drop 12 b"

definition Sequence :: "WriteBatch \<Rightarrow> SequenceNumber" where
  "Sequence b = DecodeFixed64 b"

definition SetSequence :: "WriteBatch \<Rightarrow> SequenceNumber \<Rightarrow> WriteBatch" where
  "SetSequence b s = EncodeFixed64 s @ drop 8 b"

definition batch_Put :: "slice \<Rightarrow> slice \<Rightarrow> WriteBatch \<Rightarrow> WriteBatch" where
  "batch_Put key value b =
     (let b = SetCount b (Count b + 1);
          b = b @ [kTypeValue];
          b = PutLengthPrefixedSlice b key
      in PutLengthPrefixedSlice b value)"

definition batch_Delete :: "slice \<Rightarrow> WriteBatch \<Rightarrow> WriteBatch" where
  "batch_Delete key b =
     (let b = SetCount b (Count b + 1);
          b = b @ [kTypeDeletion]
      in PutLengthPrefixedSlice b key)"

text \<open>One record: the tag has been read. The result is the rest of the input with the new state of
  the handler, or the error.\<close>

definition iterate_record :: "'h handler \<Rightarrow> byte \<Rightarrow> slice \<Rightarrow> 'h \<Rightarrow> Status + slice \<times> 'h" where
  "iterate_record handler tag input h =
     (if tag = kTypeValue
      then (case GetLengthPrefixedSlice input of
              (None, input) \<Rightarrow> Inl (Status_Corruption (cstr ''bad WriteBatch Put'') [])
            | (Some key, input) \<Rightarrow>
                (case GetLengthPrefixedSlice input of
                   (None, input) \<Rightarrow> Inl (Status_Corruption (cstr ''bad WriteBatch Put'') [])
                 | (Some value, input) \<Rightarrow> Inr (input, h_put handler key value h)))
      else if tag = kTypeDeletion
      then (case GetLengthPrefixedSlice input of
              (None, input) \<Rightarrow> Inl (Status_Corruption (cstr ''bad WriteBatch Delete'') [])
            | (Some key, input) \<Rightarrow> Inr (input, h_delete handler key h))
      else Inl (Status_Corruption (cstr ''unknown WriteBatch tag'') []))"

lemma iterate_record_shorter: "iterate_record handler tag input h = Inr (rest, h') \<Longrightarrow> length rest < length input"
  by (auto simp: iterate_record_def split: if_splits prod.splits option.splits dest!: GetLengthPrefixedSlice_shorter)

text \<open>\<^verbatim>\<open>found\<close> is an \<^verbatim>\<open>int\<close> of 32 bits, which wraps around.\<close>

function iterate_loop :: "'h handler \<Rightarrow> int \<Rightarrow> slice \<Rightarrow> u32 \<Rightarrow> 'h \<Rightarrow> Status \<times> 'h" where
  "iterate_loop handler count input found h =
     (case input of
        [] \<Rightarrow>
          (if sint found \<noteq> count then (Status_Corruption (cstr ''WriteBatch has wrong count'') [], h) else (Status_OK, h))
      | tag # input \<Rightarrow>
          (case iterate_record handler tag input h of
             Inl e \<Rightarrow> (e, h)
           | Inr (input, h) \<Rightarrow> iterate_loop handler count input (found + 1) h))"
  by pat_completeness auto
termination
proof (relation "measure (\<lambda>(_, _, input, _, _). length input)", goal_cases)
  case (2 handler count input found h tag rest r rest' h')
  then show ?case using iterate_record_shorter [of handler tag rest h rest' h'] by simp
qed simp

declare iterate_loop.simps [simp del]

definition Iterate :: "'h handler \<Rightarrow> WriteBatch \<Rightarrow> 'h \<Rightarrow> Status \<times> 'h" where
  "Iterate handler b h =
     (if length b < kHeader then (Status_Corruption (cstr ''malformed WriteBatch (too small)'') [], h)
      else iterate_loop handler (Count b) (drop kHeader b) 0 h)"

text \<open>\<^verbatim>\<open>SetContents\<close> and \<^verbatim>\<open>Append\<close> assert that the batch has a header.\<close>

definition SetContents :: "slice \<Rightarrow> WriteBatch option" where
  "SetContents contents = (if length contents \<ge> kHeader then Some contents else None)"

definition Contents :: "WriteBatch \<Rightarrow> slice" where
  "Contents b = b"

definition ByteSize :: "WriteBatch \<Rightarrow> nat" where
  "ByteSize b = length b"

definition batch_Append :: "WriteBatch \<Rightarrow> WriteBatch \<Rightarrow> WriteBatch option" where
  "batch_Append dst src =
     (let dst = SetCount dst (Count dst + Count src) in
      if length src \<ge> kHeader then Some (dst @ drop kHeader src) else None)"

section \<open>Batches as lists of updates\<close>

datatype update = Put slice slice | Delete slice

fun apply_update :: "update \<Rightarrow> WriteBatch \<Rightarrow> WriteBatch" where
  "apply_update (Put k v) b = batch_Put k v b"
| "apply_update (Delete k) b = batch_Delete k b"

fun handle :: "'h handler \<Rightarrow> update \<Rightarrow> 'h \<Rightarrow> 'h" where
  "handle handler (Put k v) h = h_put handler k v h"
| "handle handler (Delete k) h = h_delete handler k h"

fun update_bytes :: "update \<Rightarrow> byte list" where
  "update_bytes (Put k v) = kTypeValue # PutLengthPrefixedSlice (PutLengthPrefixedSlice [] k) v"
| "update_bytes (Delete k) = kTypeDeletion # PutLengthPrefixedSlice [] k"

fun fits :: "update \<Rightarrow> bool" where
  "fits (Put k v) \<longleftrightarrow> length k < 2 ^ 32 \<and> length v < 2 ^ 32"
| "fits (Delete k) \<longleftrightarrow> length k < 2 ^ 32"

text \<open>What a batch holds: its sequence number, its count and the bytes of its updates.\<close>

definition batch_bytes :: "SequenceNumber \<Rightarrow> update list \<Rightarrow> WriteBatch" where
  "batch_bytes s us = EncodeFixed64 s @ EncodeFixed32 (of_nat (length us)) @ concat (map update_bytes us)"

lemma batch_parts:
  "drop kHeader (batch_bytes s us) = concat (map update_bytes us)" "kHeader \<le> length (batch_bytes s us)"
  "Sequence (batch_bytes s us) = s"
  by (simp_all add: batch_bytes_def kHeader_def Sequence_def)

lemma sint_of_small: "n < 2 ^ 31 \<Longrightarrow> sint (of_nat n :: u32) = int n"
  by (simp add: signed_of_nat signed_take_bit_int_eq_self)

lemma Count_batch:
  assumes "length us < 2 ^ 31"
  shows "Count (batch_bytes s us) = int (length us)"
  using sint_of_small [OF assms] by (simp add: Count_def batch_bytes_def)

lemma SetCount_batch:
  "SetCount (EncodeFixed64 s @ EncodeFixed32 c @ body) n = EncodeFixed64 s @ EncodeFixed32 (word_of_int n) @ body"
  by (simp add: SetCount_def)

lemma batch_Clear_bytes: "batch_Clear = batch_bytes 0 []"
  by code_simp

lemma SetSequence_batch: "SetSequence (batch_bytes s us) t = batch_bytes t us"
  by (simp add: SetSequence_def batch_bytes_def)

lemma Count_succ: "word_of_int (Count (batch_bytes s us) + 1) = (of_nat (Suc (length us)) :: u32)"
  by (simp add: Count_def batch_bytes_def)

lemma apply_update_bytes: "apply_update u (batch_bytes s us) = batch_bytes s (us @ [u])"
proof -
  have "SetCount (batch_bytes s us) (Count (batch_bytes s us) + 1)
      = EncodeFixed64 s @ EncodeFixed32 (of_nat (Suc (length us))) @ concat (map update_bytes us)"
    using Count_succ [of s us] by (simp add: batch_bytes_def SetCount_batch add.commute)
  then show ?thesis
    by (cases u) (simp_all add: batch_Put_def batch_Delete_def Let_def PutLengthPrefixedSlice_def PutVarint32_def,
        simp_all add: batch_bytes_def add.commute PutLengthPrefixedSlice_def PutVarint32_def)
qed

lemma fold_apply_update: "fold apply_update vs (batch_bytes s us) = batch_bytes s (us @ vs)"
  by (induction vs arbitrary: us) (simp_all add: apply_update_bytes)

lemma Append_batch:
  "batch_Append (batch_bytes s us) (batch_bytes t vs) = Some (batch_bytes s (us @ vs))"
proof -
  have "word_of_int (Count (batch_bytes s us) + Count (batch_bytes t vs)) = (of_nat (length us + length vs) :: u32)"
    by (simp add: Count_def batch_bytes_def)
  then show ?thesis
    using batch_parts(1,2) [of t vs] by (simp add: batch_Append_def batch_bytes_def [of s] SetCount_batch Let_def)
qed

section \<open>Iteration\<close>

lemma GetLengthPrefixed_Put:
  "length s < 2 ^ 32 \<Longrightarrow> GetLengthPrefixedSlice (PutLengthPrefixedSlice [] s @ rest) = (Some s, rest)"
  using GetLengthPrefixed_bytes(1) by (simp add: PutLengthPrefixedSlice_def PutVarint32_def)

lemma PutLengthPrefixed_append: "PutLengthPrefixedSlice dst s = dst @ PutLengthPrefixedSlice [] s"
  by (simp add: PutLengthPrefixedSlice_def PutVarint32_def)

lemma iterate_loop_update:
  assumes "fits u"
  shows "iterate_loop handler c (update_bytes u @ rest) found h
    = iterate_loop handler c rest (found + 1) (handle handler u h)"
proof (cases u)
  case (Put k v)
  then show ?thesis
    using assms by (subst iterate_loop.simps)
      (simp add: iterate_record_def PutLengthPrefixed_append [of "PutLengthPrefixedSlice [] k"] GetLengthPrefixed_Put)
next
  case (Delete k)
  then show ?thesis
    using assms by (subst iterate_loop.simps)
      (simp add: iterate_record_def GetLengthPrefixed_Put kTypeDeletion_def kTypeValue_def)
qed

lemma iterate_loop_updates:
  assumes "list_all fits us"
  shows "iterate_loop handler c (concat (map update_bytes us) @ rest) found h
    = iterate_loop handler c rest (found + of_nat (length us)) (fold (handle handler) us h)"
  using assms by (induction us arbitrary: found h) (simp_all add: iterate_loop_update algebra_simps)

lemma iterate_loop_Nil:
  "iterate_loop handler c [] found h
    = (if sint found \<noteq> c then (Status_Corruption (cstr ''WriteBatch has wrong count'') [], h) else (Status_OK, h))"
  by (subst iterate_loop.simps) simp

lemma Iterate_batch:
  assumes "list_all fits us" and "length us < 2 ^ 31"
  shows "Iterate handler (batch_bytes s us) h = (Status_OK, fold (handle handler) us h)"
  using assms iterate_loop_updates [OF assms(1), of handler "int (length us)" "[]" 0 h] batch_parts(2) [of s us]
  by (simp add: Iterate_def batch_parts(1) Count_batch iterate_loop_Nil sint_of_small)

text \<open>A record that is cut short is refused, so a batch that is cut short is.\<close>

lemma iterate_record_append:
  "iterate_record handler tag p h = Inr (r, h') \<Longrightarrow> iterate_record handler tag (p @ q) h = Inr (r @ q, h')"
  by (auto simp: iterate_record_def GetLengthPrefixedSlice_append split: if_splits prod.splits option.splits)

lemma iterate_record_error: "iterate_record handler tag p h = Inl e \<Longrightarrow> IsCorruption e"
  by (auto simp: iterate_record_def split: if_splits prod.splits option.splits)

lemma iterate_record_update:
  assumes "fits u" and "update_bytes u = tag # bs"
  shows "iterate_record handler tag bs h = Inr ([], handle handler u h)"
proof (cases u)
  case (Put k v)
  then show ?thesis
    using assms GetLengthPrefixed_Put [of k "PutLengthPrefixedSlice [] v"] GetLengthPrefixed_Put [of v "[]"]
    by (auto simp: iterate_record_def PutLengthPrefixed_append [of "PutLengthPrefixedSlice [] k"])
next
  case (Delete k)
  then show ?thesis
    using assms GetLengthPrefixed_Put [of k "[]"] by (auto simp: iterate_record_def kTypeDeletion_def kTypeValue_def)
qed

lemma iterate_record_cut:
  assumes "fits u" and "update_bytes u = tag # p @ q" and "q \<noteq> []"
  shows "\<exists>e. iterate_record handler tag p h = Inl e"
proof (cases "iterate_record handler tag p h")
  case (Inr res)
  obtain r h' where "res = (r, h')" by (cases res)
  with Inr have "iterate_record handler tag (p @ q) h = Inr (r @ q, h')" by (simp add: iterate_record_append)
  with iterate_record_update [OF assms(1,2), of handler h] assms(3) show ?thesis by simp
qed simp

lemma iterate_loop_cut:
  assumes "list_all fits us" and "concat (map update_bytes us) = p @ q" and "q \<noteq> []" and "c = sint (found + of_nat (length us))"
    and "length us < 2 ^ 32"
  shows "IsCorruption (fst (iterate_loop handler c p found h))"
  using assms
proof (induction us arbitrary: p found h)
  case (Cons u us)
  have "p @ q = update_bytes u @ concat (map update_bytes us)" using Cons.prems(2) by simp
  then show ?case
  proof (cases rule: append_cut)
    case (inside z)
    show ?thesis
    proof (cases p)
      case Nil
      have "of_nat (length (u # us)) \<noteq> (0 :: u32)"
        using Cons.prems(5) unat_of_nat_small [of "length (u # us)", where 'a = 32] by fastforce
      then have "found \<noteq> found + of_nat (length (u # us))" by simp
      then have "sint found \<noteq> c" using Cons.prems(4) by (metis signed_word_eqI)
      then show ?thesis using Nil by (simp add: iterate_loop_Nil)
    next
      case (Cons tag p')
      with inside have "update_bytes u = tag # p' @ z" by simp
      with iterate_record_cut [of u tag p' z handler h] inside(2) Cons.prems(1)
      obtain e where e: "iterate_record handler tag p' h = Inl e" by auto
      with iterate_record_error [OF e] Cons show ?thesis by (subst iterate_loop.simps) simp
    qed
  next
    case (behind z)
    with Cons.IH [of z "found + 1" "handle handler u h"] Cons.prems show ?thesis
      by (simp add: iterate_loop_update add.assoc)
  qed
qed simp

text \<open>A handler that records its calls; every other handler sees the calls it records.\<close>

definition recorder :: "update list handler" where
  "recorder = \<lparr>h_put = (\<lambda>k v us. us @ [Put k v]), h_delete = (\<lambda>k us. us @ [Delete k])\<rparr>"

lemma iterate_record_recorder:
  "iterate_record handler tag p h
     = (case iterate_record recorder tag p us of Inl e \<Rightarrow> Inl e
        | Inr (r, us') \<Rightarrow> Inr (r, handle handler (last us') h))"
  "iterate_record recorder tag p us = Inr (r, us') \<Longrightarrow> us' = us @ [last us']"
  by (auto simp: iterate_record_def recorder_def split: prod.splits option.splits if_splits)

lemma iterate_loop_recorder:
  "\<exists>vs. snd (iterate_loop recorder c input found us) = us @ vs
     \<and> iterate_loop handler c input found h
        = (fst (iterate_loop recorder c input found us), fold (handle handler) vs h)
     \<and> (fst (iterate_loop recorder c input found us) = Status_OK \<longrightarrow> sint (found + of_nat (length vs)) = c)
     \<and> 2 * length vs \<le> length input
     \<and> (fst (iterate_loop recorder c input found us) = Status_OK \<or> IsCorruption (fst (iterate_loop recorder c input found us)))"
proof (induction recorder c input found us arbitrary: h rule: iterate_loop.induct)
  case (1 c input found us)
  show ?case
  proof (cases input)
    case Nil
    then show ?thesis by (auto simp: iterate_loop_Nil)
  next
    case (Cons tag rest)
    show ?thesis
    proof (cases "iterate_record recorder tag rest us")
      case (Inl e)
      then show ?thesis
        using Cons iterate_record_recorder(1) [of handler tag rest h us] iterate_record_error [OF Inl]
        by (auto simp: iterate_loop.simps [of _ _ "tag # rest"])
    next
      case (Inr res)
      obtain r us' where res: "res = (r, us')" by (cases res)
      define u where "u = last us'"
      have us': "us' = us @ [u]" using iterate_record_recorder(2) Inr res by (auto simp: u_def)
      have "iterate_record handler tag rest h = Inr (r, handle handler u h)"
        using iterate_record_recorder(1) [of handler tag rest h us] Inr res by (simp add: u_def)
      moreover obtain vs where "snd (iterate_loop recorder c r (found + 1) us') = us' @ vs
          \<and> iterate_loop handler c r (found + 1) (handle handler u h)
            = (fst (iterate_loop recorder c r (found + 1) us'), fold (handle handler) vs (handle handler u h))
          \<and> (fst (iterate_loop recorder c r (found + 1) us') = Status_OK \<longrightarrow> sint (found + 1 + of_nat (length vs)) = c)
          \<and> 2 * length vs \<le> length r
          \<and> (fst (iterate_loop recorder c r (found + 1) us') = Status_OK
              \<or> IsCorruption (fst (iterate_loop recorder c r (found + 1) us')))"
        using 1 [OF Cons Inr res [symmetric], of "handle handler u h"] by blast
      ultimately show ?thesis
        using Cons Inr res us' iterate_record_shorter [of recorder tag rest us r us']
        by (intro exI [of _ "u # vs"]) (auto simp: iterate_loop.simps [of _ _ "tag # rest"] add.assoc)
    qed
  qed
qed

section \<open>Properties\<close>

text \<open>C9: a batch built with any sequence of updates, and given a sequence number, hands exactly these
  updates in this order to the handler that iterates over it, succeeds, and has their number as its
  count.\<close>

theorem write_batch_roundtrip:
  assumes "list_all fits us" and "length us < 2 ^ 31"
  shows "Iterate handler (SetSequence (fold apply_update us batch_Clear) s) h = (Status_OK, fold (handle handler) us h)
    \<and> Count (SetSequence (fold apply_update us batch_Clear) s) = int (length us)
    \<and> Sequence (SetSequence (fold apply_update us batch_Clear) s) = s"
  using Iterate_batch [OF assms] Count_batch [OF assms(2)]
  by (simp add: batch_Clear_bytes fold_apply_update SetSequence_batch batch_parts(3))

theorem write_batch_roundtrip_witness:
  "Iterate recorder (SetSequence (fold apply_update [Put [1] [2], Delete [1]] batch_Clear) 5) []
     = (Status_OK, [Put [1] [2], Delete [1]])"
  using write_batch_roundtrip [of "[Put [1] [2], Delete [1]]" recorder 5 "[]"] by (simp add: recorder_def)

text \<open>C30: appending one batch to another gives the updates of the first followed by those of the
  second, under the sequence number of the first.\<close>

theorem write_batch_append:
  assumes "list_all fits us" and "list_all fits vs" and "length us + length vs < 2 ^ 31"
  shows "\<exists>b. batch_Append (SetSequence (fold apply_update us batch_Clear) s) (fold apply_update vs batch_Clear) = Some b
    \<and> Iterate handler b h = (Status_OK, fold (handle handler) (us @ vs) h) \<and> Sequence b = s"
  using Iterate_batch [of "us @ vs" handler s h] assms
  by (simp add: batch_Clear_bytes fold_apply_update SetSequence_batch Append_batch batch_parts(3))

theorem write_batch_append_witness:
  "\<exists>b. batch_Append (SetSequence (fold apply_update [Put [1] [2]] batch_Clear) 5)
        (fold apply_update [Delete [1]] batch_Clear) = Some b
    \<and> Iterate recorder b [] = (Status_OK, [Put [1] [2], Delete [1]])"
  using write_batch_append [of "[Put [1] [2]]" "[Delete [1]]" 5 recorder "[]"] by (auto simp: recorder_def)

text \<open>C28: a batch that has lost bytes at its end, wherever it is cut, is refused as corrupt.\<close>

theorem write_batch_truncated:
  assumes "list_all fits us" and "length us < 2 ^ 31"
    and "n < length (SetSequence (fold apply_update us batch_Clear) s)"
  shows "IsCorruption (fst (Iterate handler (take n (SetSequence (fold apply_update us batch_Clear) s)) h))"
proof -
  let ?b = "batch_bytes s us"
  have b: "SetSequence (fold apply_update us batch_Clear) s = ?b"
    by (simp add: batch_Clear_bytes fold_apply_update SetSequence_batch)
  show ?thesis
  proof (cases "n < kHeader")
    case True
    then show ?thesis using assms(3) by (simp add: Iterate_def)
  next
    case False
    have split: "concat (map update_bytes us) = drop kHeader (take n ?b) @ drop n ?b"
      using False drop_split [of kHeader n ?b] by (simp add: batch_parts)
    have "Count (take n ?b) = Count ?b"
      using False by (simp add: Count_def DecodeFixed32_def DecodeFixed32_for_def kLittleEndian_def kHeader_def drop_take)
    then have "Count (take n ?b) = sint (0 + of_nat (length us) :: u32)" using Count_batch [OF assms(2)] sint_of_small [OF assms(2)] by simp
    from iterate_loop_cut [OF assms(1) split _ this] assms(2,3) False show ?thesis
      unfolding b by (simp add: Iterate_def)
  qed
qed

theorem write_batch_truncated_witness:
  "IsCorruption (fst (Iterate recorder (take 14 (SetSequence (fold apply_update [Put [1] [2]] batch_Clear) 5)) []))"
proof -
  have "14 < length (SetSequence (fold apply_update [Put [1] [2]] batch_Clear) 5)" by code_simp
  with write_batch_truncated [of "[Put [1] [2]]" 14 5 recorder "[]"] show ?thesis by simp
qed

text \<open>C29: on any bytes at all, iteration ends with success or a corruption error, the handler has seen
  the updates that a recording handler lists, in that order, and on success the count in the header is their number as
  a 32-bit \<^verbatim>\<open>int\<close>: it is their number for every batch below 4 GB, and their number modulo \<open>2 ^ 32\<close> for larger ones.\<close>

theorem write_batch_iterate_any:
  "\<exists>st us. Iterate recorder b [] = (st, us) \<and> Iterate handler b h = (st, fold (handle handler) us h)
     \<and> (st = Status_OK \<or> IsCorruption st)
     \<and> (st = Status_OK \<longrightarrow> kHeader \<le> length b \<and> Count b = sint (of_nat (length us) :: u32)
         \<and> (length b < 2 ^ 32 \<longrightarrow> Count b = int (length us)))"
proof (cases "length b < kHeader")
  case True
  then show ?thesis by (simp add: Iterate_def)
next
  case False
  let ?r = "iterate_loop recorder (Count b) (drop kHeader b) 0 []"
  from iterate_loop_recorder [of "Count b" "drop kHeader b" 0 "[]" handler h] obtain vs where
    vs: "snd ?r = vs" "iterate_loop handler (Count b) (drop kHeader b) 0 h = (fst ?r, fold (handle handler) vs h)"
    "fst ?r = Status_OK \<longrightarrow> sint (of_nat (length vs) :: u32) = Count b" "2 * length vs \<le> length (drop kHeader b)"
    "fst ?r = Status_OK \<or> IsCorruption (fst ?r)" by auto
  have "sint (of_nat (length vs) :: u32) = int (length vs)" if "length b < 2 ^ 32"
    using vs(4) that by (intro sint_of_small) simp
  with False vs show ?thesis
    by (intro exI [of _ "fst ?r"] exI [of _ vs]) (auto simp: Iterate_def prod_eq_iff)
qed

theorem write_batch_iterate_any_witness:
  "\<exists>st. Iterate recorder [1, 2] [] = (st, []) \<and> st \<noteq> Status_OK"
  using write_batch_iterate_any [of "[1, 2]" recorder "[]"] by (auto simp: Iterate_def kHeader_def)

end
