(* ===== verification/Ldb_Memtable.thy ===== *)
theory Ldb_Memtable
  imports Ldb_Skiplist Ldb_Write_Batch
begin

text \<open>
  The memtable, from \<^verbatim>\<open>db/memtable.h\<close> and \<^verbatim>\<open>db/memtable.cc\<close>: a skip list of entries, each a
  length-prefixed internal key followed by a length-prefixed value. A pointer to an entry is the list
  of its bytes. The user comparator is a parameter. The insertion of a write batch, from
  \<^verbatim>\<open>db/write_batch.cc\<close>, is here too.
\<close>

section \<open>Operations\<close>

text \<open>The length is looked for in the first five bytes. An entry that has none is not stored; the code
  would go on with a null pointer.\<close>

definition mem_split :: "slice \<Rightarrow> (u32 \<times> slice) option" where
  "mem_split p =
     (case GetVarint32Ptr (take 5 p) of
        None \<Rightarrow> None
      | Some (len, q) \<Rightarrow> Some (len, drop (length (take 5 p) - length q) p))"

definition mem_GetLengthPrefixedSlice :: "slice \<Rightarrow> slice" where
  "mem_GetLengthPrefixedSlice p = (case mem_split p of None \<Rightarrow> [] | Some (len, p) \<Rightarrow> take (unat len) p)"

definition KeyComparator :: "comparator \<Rightarrow> slice \<Rightarrow> slice \<Rightarrow> int" where
  "KeyComparator user_comparator aptr bptr =
     (let a = mem_GetLengthPrefixedSlice aptr; b = mem_GetLengthPrefixedSlice bptr
      in InternalKeyCompare user_comparator a b)"

record MemTable =
  mt_user_comparator :: comparator
  mt_table :: "slice SkipList"

definition MemTable_new :: "comparator \<Rightarrow> MemTable" where
  "MemTable_new user_comparator = \<lparr>mt_user_comparator = user_comparator, mt_table = SkipList_new []\<rparr>"

definition EncodeKey :: "slice \<Rightarrow> slice" where
  "EncodeKey target = PutVarint32 [] (of_nat (length target)) @ target"

text \<open>The entry that \<^verbatim>\<open>Add\<close> lays out.\<close>

definition memtable_entry :: "SequenceNumber \<Rightarrow> ValueType \<Rightarrow> slice \<Rightarrow> slice \<Rightarrow> byte list" where
  "memtable_entry s type key value =
     (let key_size = length key; val_size = length value; internal_key_size = key_size + 8
      in EncodeVarint32 (of_nat internal_key_size) @ key @ EncodeFixed64 (push_bit 8 s OR ucast type)
         @ EncodeVarint32 (of_nat val_size) @ value)"

definition MemTable_Add :: "SequenceNumber \<Rightarrow> ValueType \<Rightarrow> slice \<Rightarrow> slice \<Rightarrow> MemTable \<Rightarrow> MemTable option" where
  "MemTable_Add s type key value mt =
     map_option (\<lambda>t. mt\<lparr>mt_table := t\<rparr>)
       (Insert (KeyComparator (mt_user_comparator mt)) (memtable_entry s type key value) (mt_table mt))"

text \<open>The result of \<^verbatim>\<open>Get\<close>: nothing if it returns false, otherwise a value or a status.\<close>

definition MemTable_Get :: "MemTable \<Rightarrow> LookupKey \<Rightarrow> (Status + slice) option option" where
  "MemTable_Get mt key =
     (case iter_Seek (KeyComparator (mt_user_comparator mt)) (mt_table mt) (lk_memtable_key key) of
        None \<Rightarrow> None
      | Some None \<Rightarrow> Some None
      | Some (Some n) \<Rightarrow>
          let entry = node_key (mt_table mt) n in
          (case mem_split entry of
            None \<Rightarrow> Some None
          | Some (key_length, key_ptr) \<Rightarrow>
              if cmp_compare (mt_user_comparator mt) (take (unat (key_length - 8)) key_ptr) (lk_user_key key) = 0
              then let tag = DecodeFixed64 (drop (unat (key_length - 8)) key_ptr); type = ucast (tag AND 0xff) :: ValueType in
                if type = kTypeValue
                then Some (Some (Inr (mem_GetLengthPrefixedSlice (drop (unat key_length) key_ptr))))
                else if type = kTypeDeletion then Some (Some (Inl (Status_NotFound [] [])))
                else Some None
              else Some None))"

text \<open>The iterator gives the key and the value of an entry.\<close>

definition mem_iter_key :: "MemTable \<Rightarrow> nat \<Rightarrow> slice" where
  "mem_iter_key mt n = mem_GetLengthPrefixedSlice (node_key (mt_table mt) n)"

definition mem_iter_value :: "MemTable \<Rightarrow> nat \<Rightarrow> slice" where
  "mem_iter_value mt n =
     (case mem_split (node_key (mt_table mt) n) of
        None \<Rightarrow> []
      | Some (len, p) \<Rightarrow> mem_GetLengthPrefixedSlice (drop (unat len) p))"

definition mem_iter_Seek :: "MemTable \<Rightarrow> slice \<Rightarrow> nat option option" where
  "mem_iter_Seek mt k = iter_Seek (KeyComparator (mt_user_comparator mt)) (mt_table mt) (EncodeKey k)"

text \<open>Insertion of a batch: the handler counts the sequence number up.\<close>

definition MemTableInserter :: "(SequenceNumber \<times> MemTable option) handler" where
  "MemTableInserter =
     \<lparr>h_put = (\<lambda>key value (s, mt). (s + 1, Option.bind mt (MemTable_Add s kTypeValue key value))),
      h_delete = (\<lambda>key (s, mt). (s + 1, Option.bind mt (MemTable_Add s kTypeDeletion key [])))\<rparr>"

definition InsertInto :: "WriteBatch \<Rightarrow> MemTable \<Rightarrow> (Status \<times> MemTable) option" where
  "InsertInto b mt =
     (let (st, s, mt) = Iterate MemTableInserter b (Sequence b, Some mt) in map_option (Pair st) mt)"

section \<open>Entries\<close>

text \<open>Entries and lookup keys start with an internal key.\<close>

definition memkeys :: "slice set" where
  "memkeys = {p. \<exists>ikey rest. p = EncodeVarint32 (of_nat (length ikey)) @ ikey @ rest \<and> 8 \<le> length ikey \<and> length ikey < 2 ^ 32}"

lemma mem_split_entry:
  assumes "length d < 2 ^ 32"
  shows "mem_split (EncodeVarint32 (of_nat (length d)) @ d @ rest) = Some (of_nat (length d), d @ rest)"
proof -
  let ?v = "varint_bytes (ucast (of_nat (length d) :: u32))"
  have "take 5 (?v @ d @ rest) = ?v @ take (5 - length ?v) (d @ rest)"
    using length_varint_bytes_32 by simp
  then show ?thesis
    using GetVarint32Ptr_bytes [of "of_nat (length d)"] length_varint_bytes_32 [of "of_nat (length d)"]
    by (simp add: mem_split_def EncodeVarint32_bytes)
qed

lemma unat_length: "length d < 2 ^ 32 \<Longrightarrow> unat (of_nat (length d) :: u32) = length d"
  by (simp add: unat_of_nat_small)

lemma mem_Get_entry:
  "length d < 2 ^ 32 \<Longrightarrow> mem_GetLengthPrefixedSlice (EncodeVarint32 (of_nat (length d)) @ d @ rest) = d"
  by (simp add: mem_GetLengthPrefixedSlice_def mem_split_entry unat_length)

lemma memkeys_ikey: "p \<in> memkeys \<Longrightarrow> 8 \<le> length (mem_GetLengthPrefixedSlice p)"
  by (auto simp: memkeys_def mem_Get_entry)

context internal_order
begin

sublocale mem: cmp_order "KeyComparator user" memkeys
proof (unfold_locales, unfold KeyComparator_def Let_def, goal_cases)
  case (1 a b)
  show ?case by (rule internal_compare_sym)
next
  case (2 a b c)
  from 2(4,5) show ?case by (rule internal_compare_trans)
next
  case (3 a)
  show ?case by (rule internal_compare_refl)
qed

end

type_synonym entry = "ParsedInternalKey \<times> slice"

fun entry_bytes :: "entry \<Rightarrow> byte list" where
  "entry_bytes (k, v) = memtable_entry (sequence k) (vtype k) (user_key k) v"

fun entry_ok :: "entry \<Rightarrow> bool" where
  "entry_ok (k, v) \<longleftrightarrow> valid_key k \<and> length (user_key k) + 8 < 2 ^ 32 \<and> length v < 2 ^ 32"

lemma entry_layout:
  "entry_bytes (k, v) = EncodeVarint32 (of_nat (length (encode_internal k))) @ encode_internal k
     @ EncodeVarint32 (of_nat (length v)) @ v @ []"
  by (simp add: memtable_entry_def Let_def encode_internal_def AppendInternalKey_def PutFixed64_def PackSequenceAndType_def)

lemma entry_parts:
  assumes "entry_ok (k, v)"
  shows "mem_split (entry_bytes (k, v))
      = Some (of_nat (length (encode_internal k)), encode_internal k @ EncodeVarint32 (of_nat (length v)) @ v)"
    "mem_GetLengthPrefixedSlice (entry_bytes (k, v)) = encode_internal k" "entry_bytes (k, v) \<in> memkeys"
proof -
  have l: "length (encode_internal k) < 2 ^ 32" "8 \<le> length (encode_internal k)"
    using assms by (simp_all add: encode_internal_parts(1))
  show "mem_split (entry_bytes (k, v))
      = Some (of_nat (length (encode_internal k)), encode_internal k @ EncodeVarint32 (of_nat (length v)) @ v)"
    using mem_split_entry [OF l(1)] unfolding entry_layout by simp
  show "mem_GetLengthPrefixedSlice (entry_bytes (k, v)) = encode_internal k"
    using mem_Get_entry [OF l(1)] unfolding entry_layout by simp
  show "entry_bytes (k, v) \<in> memkeys"
    using l unfolding entry_layout memkeys_def by blast
qed

lemma KeyComparator_entries:
  assumes "entry_ok e" and "mem_GetLengthPrefixedSlice p = encode_internal k" and "valid_key k"
  shows "KeyComparator BytewiseComparator (entry_bytes e) p < 0 \<longleftrightarrow> internal_less (fst e) k"
    "KeyComparator BytewiseComparator (entry_bytes e) p = 0 \<longleftrightarrow> fst e = k"
  using assms InternalKeyCompare_less [of "fst e" k] InternalKeyCompare_eq [of "fst e" k] entry_parts(2) [of "fst e" "snd e"]
  by (cases e; simp add: KeyComparator_def)+

section \<open>The memtable as a set of entries\<close>

definition mem_holds :: "MemTable \<Rightarrow> entry set \<Rightarrow> bool" where
  "mem_holds mt E \<longleftrightarrow> mt_user_comparator mt = BytewiseComparator
     \<and> (\<exists>es. set es = E \<and> (\<forall>e \<in> E. entry_ok e)
          \<and> holds (KeyComparator BytewiseComparator) memkeys (mt_table mt) (map entry_bytes es))"

lemma mem_holds_new: "mem_holds (MemTable_new BytewiseComparator) {}"
  using ikeys.mem.holds_new by (simp add: mem_holds_def MemTable_new_def)

lemma takeWhile_dropWhile_map:
  "takeWhile P (map f xs) @ f x # dropWhile P (map f xs) = map f (takeWhile (P \<circ> f) xs @ x # dropWhile (P \<circ> f) xs)"
  by (simp add: takeWhile_map dropWhile_map)

lemma Add_holds:
  assumes "mem_holds mt E" and "entry_ok (k, v)" and "k \<notin> fst ` E"
  shows "\<exists>mt'. MemTable_Add (sequence k) (vtype k) (user_key k) v mt = Some mt' \<and> mem_holds mt' (insert (k, v) E)"
proof -
  from assms(1) obtain es where es: "set es = E" "\<forall>e \<in> E. entry_ok e" "mt_user_comparator mt = BytewiseComparator"
    "holds (KeyComparator BytewiseComparator) memkeys (mt_table mt) (map entry_bytes es)" by (auto simp: mem_holds_def)
  let ?b = "entry_bytes (k, v)"
  let ?P = "\<lambda>p. KeyComparator BytewiseComparator p ?b < 0"
  have "\<forall>p \<in> set (map entry_bytes es). KeyComparator BytewiseComparator p ?b \<noteq> 0"
    using assms(2,3) es(1,2) by (auto simp: KeyComparator_entries(2) [OF _ entry_parts(2)] simp del: entry_bytes.simps)
  from ikeys.mem.Insert_holds [OF es(4) entry_parts(3) [OF assms(2)] this] obtain t where
    t: "Insert (KeyComparator BytewiseComparator) ?b (mt_table mt) = Some t"
      "holds (KeyComparator BytewiseComparator) memkeys t
         (takeWhile ?P (map entry_bytes es) @ ?b # dropWhile ?P (map entry_bytes es))" by blast
  have "set (takeWhile Q es @ (k, v) # dropWhile Q es) = insert (k, v) E" for Q
    using es(1) by (metis (no_types) Un_insert_right list.simps(15) set_append takeWhile_dropWhile_id)
  with t(2) [unfolded takeWhile_dropWhile_map] have "\<exists>es'. set es' = insert (k, v) E
      \<and> holds (KeyComparator BytewiseComparator) memkeys t (map entry_bytes es')" by blast
  moreover have "\<forall>e \<in> insert (k, v) E. entry_ok e" using es(2) assms(2) by blast
  ultimately have "mem_holds (mt\<lparr>mt_table := t\<rparr>) (insert (k, v) E)"
    unfolding mem_holds_def using es(3) by simp
  then show ?thesis using t(1) es(3) by (simp add: MemTable_Add_def)
qed

text \<open>What a lookup at a sequence number sees: the entries of the key that are not newer.\<close>

definition visible :: "slice \<Rightarrow> SequenceNumber \<Rightarrow> entry \<Rightarrow> bool" where
  "visible k s e \<longleftrightarrow> user_key (fst e) = k \<and> sequence (fst e) \<le> s"

definition entry_result :: "entry \<Rightarrow> (Status + slice) option" where
  "entry_result e = Some (if vtype (fst e) = kTypeValue then Inr (snd e) else Inl (Status_NotFound [] []))"

definition get_spec :: "entry set \<Rightarrow> slice \<Rightarrow> SequenceNumber \<Rightarrow> (Status + slice) option \<Rightarrow> bool" where
  "get_spec E k s r \<longleftrightarrow>
     (if \<exists>e \<in> E. visible k s e
      then \<exists>e \<in> E. visible k s e \<and> (\<forall>e' \<in> E. visible k s e' \<longrightarrow> sequence (fst e') \<le> sequence (fst e)) \<and> r = entry_result e
      else r = None)"

abbreviation seek_key :: "slice \<Rightarrow> SequenceNumber \<Rightarrow> ParsedInternalKey" where
  "seek_key k s \<equiv> \<lparr>user_key = k, sequence = s, vtype = kValueTypeForSeek\<rparr>"

lemma seek_key_order:
  assumes "valid_key (fst e)"
  shows "visible k s e \<Longrightarrow> \<not> internal_less (fst e) (seek_key k s)"
    "\<not> internal_less (fst e) (seek_key k s) \<Longrightarrow> user_key (fst e) = k \<Longrightarrow> visible k s e"
  using assms by (auto simp: visible_def internal_less_def bytes_less_irrefl valid_key_def kValueTypeForSeek_def not_less)

lemma lookup_entry:
  assumes "length k + 8 < 2 ^ 32"
  shows "mem_GetLengthPrefixedSlice (lk_memtable_key (LookupKey_new k s)) = encode_internal (seek_key k s)"
    "lk_memtable_key (LookupKey_new k s) \<in> memkeys" "lk_user_key (LookupKey_new k s) = k"
proof -
  have l: "length (encode_internal (seek_key k s)) < 2 ^ 32" "8 \<le> length (encode_internal (seek_key k s))"
    using assms by (simp_all add: encode_internal_parts(1))
  have e: "lk_memtable_key (LookupKey_new k s)
      = EncodeVarint32 (of_nat (length (encode_internal (seek_key k s)))) @ encode_internal (seek_key k s) @ []"
    by (simp add: lk_memtable_key_def LookupKey_new_def Let_def encode_internal_def AppendInternalKey_def PutFixed64_def)
  show "mem_GetLengthPrefixedSlice (lk_memtable_key (LookupKey_new k s)) = encode_internal (seek_key k s)"
    unfolding e by (rule mem_Get_entry [OF l(1)])
  show "lk_memtable_key (LookupKey_new k s) \<in> memkeys"
    using l unfolding e memkeys_def by blast
  show "lk_user_key (LookupKey_new k s) = k"
    by (simp add: LookupKey_new_def lk_user_key_def Let_def)
qed

text \<open>What is done with an entry that was found.\<close>

lemma Get_entry:
  assumes "entry_ok (key, v)" and "length k + 8 < 2 ^ 32" and "mt_user_comparator mt = BytewiseComparator"
    and "iter_Seek (KeyComparator BytewiseComparator) (mt_table mt) (lk_memtable_key (LookupKey_new k s)) = Some (Some n)"
    and "node_key (mt_table mt) n = entry_bytes (key, v)"
  shows "MemTable_Get mt (LookupKey_new k s) = Some (if user_key key = k then entry_result (key, v) else None)"
proof -
  define L where "L = (of_nat (length (encode_internal key)) :: u32)"
  have len: "unat L = length (user_key key) + 8"
    using assms(1) unfolding L_def by (subst unat_of_nat_small) (simp_all add: encode_internal_parts(1))
  have "L - 8 = of_nat (length (user_key key))" by (simp add: L_def encode_internal_parts(1))
  then have len8: "unat (L - 8) = length (user_key key)"
    using assms(1) by (simp add: unat_of_nat_small)
  have split: "mem_split (entry_bytes (key, v)) = Some (L, user_key key
      @ EncodeFixed64 (PackSequenceAndType (sequence key) (vtype key)) @ EncodeVarint32 (of_nat (length v)) @ v)"
    using entry_parts(1) [OF assms(1)]
    by (simp add: L_def encode_internal_def AppendInternalKey_def PutFixed64_def del: entry_bytes.simps)
  have val: "mem_GetLengthPrefixedSlice (EncodeVarint32 (of_nat (length v)) @ v) = v"
    using mem_Get_entry [of v "[]"] assms(1) by simp
  have "(ucast (PackSequenceAndType (sequence key) (vtype key) AND 0xff) :: byte) = vtype key"
    using assms(1) pack_fields(2) [of "sequence key" "vtype key"]
    by (simp add: valid_key_def)
  moreover have "vtype key = kTypeValue \<or> vtype key = kTypeDeletion"
    using assms(1) by (auto simp: valid_key_def type_cases)
  ultimately show ?thesis
    using assms(3,4) lookup_entry(3) [OF assms(2)]
    by (auto simp: MemTable_Get_def Let_def assms(5) split len len8 val slice_compare_iff(2)
        entry_result_def simp del: entry_bytes.simps)
qed

lemma Get_holds:
  assumes "mem_holds mt E" and "length k + 8 < 2 ^ 32" and "s \<le> kMaxSequenceNumber"
  shows "\<exists>r. MemTable_Get mt (LookupKey_new k s) = Some r \<and> get_spec E k s r"
proof -
  from assms(1) obtain es where es: "set es = E" "\<forall>e \<in> E. entry_ok e" "mt_user_comparator mt = BytewiseComparator"
    "holds (KeyComparator BytewiseComparator) memkeys (mt_table mt) (map entry_bytes es)" by (auto simp: mem_holds_def)
  let ?lk = "lk_memtable_key (LookupKey_new k s)" and ?K = "seek_key k s"
  have K: "valid_key ?K" using assms(3) by (simp add: valid_key_def kValueTypeForSeek_def)
  have valid: "valid_key (fst e)" if "e \<in> E" for e using es(2) that by (cases e) auto
  have less: "KeyComparator BytewiseComparator (entry_bytes e) ?lk < 0 \<longleftrightarrow> internal_less (fst e) ?K" if "e \<in> E" for e
    using es(2) that lookup_entry(1) [OF assms(2)] K by (intro KeyComparator_entries(1)) auto
  obtain r where seek: "iter_Seek (KeyComparator BytewiseComparator) (mt_table mt) ?lk = Some r"
    "map_option (node_key (mt_table mt)) r = find (\<lambda>p. \<not> KeyComparator BytewiseComparator p ?lk < 0) (map entry_bytes es)"
  proof -
    from ikeys.mem.Seek_holds [OF es(4) lookup_entry(2) [OF assms(2), of s]] obtain r prev where
      "FindGreaterOrEqual (KeyComparator BytewiseComparator) (mt_table mt) ?lk [] = Some (r, prev)"
      "map_option (node_key (mt_table mt)) r = find (\<lambda>p. \<not> KeyComparator BytewiseComparator p ?lk < 0) (map entry_bytes es)"
      by blast
    then show thesis by (intro that [of r]) (simp_all add: iter_Seek_def)
  qed
  define found where "found = find (\<lambda>e. \<not> internal_less (fst e) ?K) es"
  have r: "map_option (node_key (mt_table mt)) r = map_option entry_bytes found"
    unfolding seek(2) find_map found_def using less es(1) by (metis (mono_tags, lifting) find_cong)
  have sorted: "sorted_wrt (\<lambda>e e'. internal_less (fst e) (fst e')) es"
  proof (rule sorted_wrt_mono_rel)
    show "sorted_wrt (\<lambda>e e'. KeyComparator BytewiseComparator (entry_bytes e) (entry_bytes e') < 0) es"
      using ikeys.mem.holds_sorted(2) [OF es(4)] by (simp add: sorted_wrt_map)
    fix e e'
    assume "e \<in> set es" "e' \<in> set es" "KeyComparator BytewiseComparator (entry_bytes e) (entry_bytes e') < 0"
    then show "internal_less (fst e) (fst e')"
      using KeyComparator_entries(1) [of e "entry_bytes e'" "fst e'"] es(1,2) valid entry_parts(2) [of "fst e'" "snd e'"] by simp
  qed
  show ?thesis
  proof (cases found)
    case None
    then have "\<not> visible k s e" if "e \<in> E" for e
      using that es(1) seek_key_order(1) [OF valid [OF that], of k s] unfolding found_def find_None_iff by blast
    moreover have "r = None" using r None by simp
    ultimately show ?thesis
      using seek(1) es(3) by (auto simp: MemTable_Get_def get_spec_def)
  next
    case (Some e)
    then have e: "e \<in> E" "\<not> internal_less (fst e) ?K" using es(1) by (auto simp: found_def find_Some_iff)
    from Some r obtain n where n: "r = Some n" "node_key (mt_table mt) n = entry_bytes e" by auto
    have after: "e' = e \<or> internal_less (fst e) (fst e')" if "e' \<in> E" "visible k s e'" for e'
      using find_first_sorted [OF sorted, of "\<lambda>e. \<not> internal_less (fst e) ?K" e e'] Some that es(1)
        seek_key_order(1) [OF valid [OF that(1)]] by (auto simp: found_def)
    obtain key v where kv: "e = (key, v)" by (cases e)
    have get: "MemTable_Get mt (LookupKey_new k s) = Some (if user_key key = k then entry_result e else None)"
      unfolding kv using es(2,3) e(1) seek(1) n kv by (intro Get_entry [OF _ assms(2)]) auto
    show ?thesis
    proof (cases "user_key key = k")
      case True
      then have "visible k s e" using seek_key_order(2) [OF valid [OF e(1)] e(2)] kv by simp
      moreover have "sequence (fst e') \<le> sequence (fst e)" if "e' \<in> E" "visible k s e'" for e'
        using after [OF that] that True kv by (auto simp: internal_less_def visible_def bytes_less_irrefl)
      ultimately show ?thesis using get True e(1) by (auto simp: get_spec_def)
    next
      case False
      have "\<not> visible k s e'" if "e' \<in> E" for e'
      proof
        assume v: "visible k s e'"
        from after [OF that v] False kv v have "bytes_less (user_key key) k" by (auto simp: internal_less_def visible_def)
        with e(2) kv show False by (simp add: internal_less_def)
      qed
      then show ?thesis using get False by (auto simp: get_spec_def)
    qed
  qed
qed

section \<open>Batches\<close>

fun update_entry :: "SequenceNumber \<Rightarrow> update \<Rightarrow> entry" where
  "update_entry s (Put k v) = (\<lparr>user_key = k, sequence = s, vtype = kTypeValue\<rparr>, v)"
| "update_entry s (Delete k) = (\<lparr>user_key = k, sequence = s, vtype = kTypeDeletion\<rparr>, [])"

fun batch_entries :: "SequenceNumber \<Rightarrow> update list \<Rightarrow> entry set" where
  "batch_entries s [] = {}"
| "batch_entries s (u # us) = insert (update_entry s u) (batch_entries (s + 1) us)"

fun short_keys :: "update \<Rightarrow> bool" where
  "short_keys (Put k v) \<longleftrightarrow> length k + 8 < 2 ^ 32 \<and> length v < 2 ^ 32"
| "short_keys (Delete k) \<longleftrightarrow> length k + 8 < 2 ^ 32"

lemma short_keys_fits: "short_keys u \<Longrightarrow> fits u"
  by (cases u) auto

lemma handle_inserter:
  "handle MemTableInserter u (s, Some mt) = (s + 1, case update_entry s u of (k, v) \<Rightarrow> MemTable_Add (sequence k) (vtype k) (user_key k) v mt)"
  by (cases u) (simp_all add: MemTableInserter_def)

lemma fold_inserter:
  assumes "mem_holds mt E" and "\<forall>e \<in> E. sequence (fst e) < s" and "list_all short_keys us"
    and "unat s + length us \<le> unat kMaxSequenceNumber"
  shows "\<exists>mt'. fold (handle MemTableInserter) us (s, Some mt) = (s + of_nat (length us), Some mt')
    \<and> mem_holds mt' (E \<union> batch_entries s us)"
  using assms
proof (induction us arbitrary: s mt E)
  case (Cons u us)
  have max: "unat kMaxSequenceNumber < 2 ^ 56" by (simp add: kMaxSequenceNumber_def push_bit_eq_mult)
  obtain k v where e: "update_entry s u = (k, v)" by fastforce
  have k: "sequence k = s" "vtype k \<le> kTypeValue" "entry_ok (k, v)"
    using e Cons.prems(3,4) by (cases u; auto simp: valid_key_def kTypeDeletion_def kTypeValue_def word_le_nat_alt)+
  have "k \<notin> fst ` E" using Cons.prems(2) k(1) by auto
  from Add_holds [OF Cons.prems(1) k(3) this] obtain mt1 where
    mt1: "MemTable_Add (sequence k) (vtype k) (user_key k) v mt = Some mt1" "mem_holds mt1 (insert (k, v) E)" by blast
  have s1: "unat (s + 1) = unat s + 1" using Cons.prems(4) max by (simp add: unat_word_ariths)
  then have "s < s + 1" by (simp add: word_less_nat_alt)
  then have "\<forall>e \<in> insert (k, v) E. sequence (fst e) < s + 1" using Cons.prems(2) k(1) by (auto dest: order.strict_trans)
  from Cons.IH [OF mt1(2) this] Cons.prems(3,4) s1 obtain mt' where
    "fold (handle MemTableInserter) us (s + 1, Some mt1) = (s + 1 + of_nat (length us), Some mt')"
    "mem_holds mt' (insert (k, v) E \<union> batch_entries (s + 1) us)" by auto
  then show ?case using e mt1(1) by (simp add: handle_inserter add.assoc)
qed simp

section \<open>Properties\<close>

text \<open>C10: adding an entry whose internal key is new, whatever the memtable holds, succeeds, and a
  lookup of any key at any sequence number afterwards returns the newest entry of the key that is not
  newer than that number: its value, or not-found for a deletion, or nothing when there is none.\<close>

theorem memtable_get_after_add:
  assumes "mem_holds mt E" and "entry_ok (ik, v)" and "ik \<notin> fst ` E" and "length k + 8 < 2 ^ 32" and "s \<le> kMaxSequenceNumber"
  shows "\<exists>mt' r. MemTable_Add (sequence ik) (vtype ik) (user_key ik) v mt = Some mt' \<and> mem_holds mt' (insert (ik, v) E)
    \<and> MemTable_Get mt' (LookupKey_new k s) = Some r \<and> get_spec (insert (ik, v) E) k s r"
  using Add_holds [OF assms(1-3)] Get_holds [OF _ assms(4,5)] by blast

theorem memtable_get_after_add_witness:
  "\<exists>mt'. MemTable_Add 7 kTypeValue [1] [2] (MemTable_new BytewiseComparator) = Some mt'
    \<and> MemTable_Get mt' (LookupKey_new [1] 9) = Some (Some (Inr [2]))"
proof -
  let ?ik = "\<lparr>user_key = [1], sequence = 7, vtype = kTypeValue\<rparr> :: ParsedInternalKey"
  have max: "(7 :: u64) \<le> kMaxSequenceNumber" "(9 :: u64) \<le> kMaxSequenceNumber" by code_simp+
  then have "entry_ok (?ik, [2])" by (simp add: valid_key_def)
  from memtable_get_after_add [OF mem_holds_new this, of "[1]" 9] max obtain mt' r where
    "MemTable_Add 7 kTypeValue [1] [2] (MemTable_new BytewiseComparator) = Some mt'"
    "MemTable_Get mt' (LookupKey_new [1] 9) = Some r" "get_spec {(?ik, [2])} [1] 9 r" by auto
  then show ?thesis by (auto simp: get_spec_def visible_def entry_result_def)
qed

text \<open>C22: inserting a write batch into a memtable that holds only entries of smaller sequence numbers
  succeeds and adds one entry for every update, numbered on from the batch's sequence number in the
  order of the updates; lookups afterwards see them as specified.\<close>

theorem insert_batch_into_memtable:
  assumes "mem_holds mt E" and "\<forall>e \<in> E. sequence (fst e) < s" and "list_all short_keys us"
    and "unat s + length us \<le> unat kMaxSequenceNumber" and "length us < 2 ^ 31"
    and "length k + 8 < 2 ^ 32" and "t \<le> kMaxSequenceNumber"
  shows "\<exists>mt' r. InsertInto (SetSequence (fold apply_update us batch_Clear) s) mt = Some (Status_OK, mt')
    \<and> mem_holds mt' (E \<union> batch_entries s us)
    \<and> MemTable_Get mt' (LookupKey_new k t) = Some r \<and> get_spec (E \<union> batch_entries s us) k t r"
proof -
  have b: "SetSequence (fold apply_update us batch_Clear) s = batch_bytes s us"
    by (simp add: batch_Clear_bytes fold_apply_update SetSequence_batch)
  have "list_all fits us" using assms(3) by (auto simp: list_all_iff short_keys_fits)
  from Iterate_batch [OF this assms(5), of MemTableInserter s "(s, Some mt)"] fold_inserter [OF assms(1-4)] obtain mt' where
    "InsertInto (batch_bytes s us) mt = Some (Status_OK, mt')" "mem_holds mt' (E \<union> batch_entries s us)"
    by (auto simp: InsertInto_def batch_parts(3))
  with Get_holds [OF _ assms(6,7)] b show ?thesis by metis
qed

theorem insert_batch_into_memtable_witness:
  "\<exists>mt'. InsertInto (SetSequence (fold apply_update [Put [1] [2], Delete [1]] batch_Clear) 5) (MemTable_new BytewiseComparator)
      = Some (Status_OK, mt')
    \<and> MemTable_Get mt' (LookupKey_new [1] 5) = Some (Some (Inr [2]))"
proof -
  have m: "kMaxSequenceNumber = 72057594037927935" by code_simp
  have max: "unat (5 :: u64) + length [Put [1] [2], Delete [1]] \<le> unat kMaxSequenceNumber" "(5 :: u64) \<le> kMaxSequenceNumber"
    unfolding m by simp_all
  have "(6 :: u64) \<noteq> 5" "\<not> (6 :: u64) \<le> 5" by simp_all
  with insert_batch_into_memtable [OF mem_holds_new, of 5 "[Put [1] [2], Delete [1]]" "[1]" 5] max show ?thesis
    by (auto simp: get_spec_def visible_def entry_result_def)
qed

end
