(* ===== verification/Ldb_Filter_Block.thy ===== *)
theory Ldb_Filter_Block
  imports Ldb_Bloom
begin

text \<open>
  The filter block of a table (\<^verbatim>\<open>table/filter_block.cc\<close>): the builder that makes one filter for every
  2 KB of file offsets, and the reader that finds the filter of a data block. A built block is read back as
  the filters of the keys added, whatever the policy; under the contract of a filter policy no key that was
  added is ever denied at the offset of its block.
\<close>

section \<open>The builder\<close>

definition kFilterBaseLg :: nat where "kFilterBaseLg = 11"

definition kFilterBase :: nat where "kFilterBase = 2 ^ kFilterBaseLg"

record FilterBlockBuilder =
  fb_policy :: FilterPolicy
  fb_keys :: "byte list"
  fb_start :: "nat list"
  fb_result :: "byte list"
  fb_tmp_keys :: "slice list"
  fb_filter_offsets :: "u32 list"

definition FilterBlockBuilder_new :: "FilterPolicy \<Rightarrow> FilterBlockBuilder" where
  "FilterBlockBuilder_new policy =
     \<lparr>fb_policy = policy, fb_keys = [], fb_start = [], fb_result = [], fb_tmp_keys = [], fb_filter_offsets = []\<rparr>"

definition GenerateFilter :: "FilterBlockBuilder \<Rightarrow> FilterBlockBuilder" where
  "GenerateFilter b =
     (let num_keys = length (fb_start b) in
      if num_keys = 0 then b\<lparr>fb_filter_offsets := fb_filter_offsets b @ [of_nat (length (fb_result b))]\<rparr>
      else
        let start = fb_start b @ [length (fb_keys b)];
            tmp_keys = map (\<lambda>i. take (start ! (i + 1) - start ! i) (drop (start ! i) (fb_keys b))) [0..<num_keys];
            filter_offsets = fb_filter_offsets b @ [of_nat (length (fb_result b))];
            result = fp_CreateFilter (fb_policy b) tmp_keys (fb_result b)
        in b\<lparr>fb_keys := [], fb_start := [], fb_result := result, fb_tmp_keys := [],
             fb_filter_offsets := filter_offsets\<rparr>)"

lemma GenerateFilter_offsets [simp]:
  "length (fb_filter_offsets (GenerateFilter b)) = Suc (length (fb_filter_offsets b))"
  by (simp add: GenerateFilter_def Let_def)

function start_block_loop :: "nat \<Rightarrow> FilterBlockBuilder \<Rightarrow> FilterBlockBuilder" where
  "start_block_loop filter_index b =
     (if filter_index > length (fb_filter_offsets b) then start_block_loop filter_index (GenerateFilter b) else b)"
  by pat_completeness auto
termination by (relation "measure (\<lambda>(filter_index, b). filter_index - length (fb_filter_offsets b))") auto

declare start_block_loop.simps [simp del]

definition StartBlock :: "FilterBlockBuilder \<Rightarrow> u64 \<Rightarrow> FilterBlockBuilder" where
  "StartBlock b block_offset = start_block_loop (unat block_offset div kFilterBase) b"

definition AddKey :: "slice \<Rightarrow> FilterBlockBuilder \<Rightarrow> FilterBlockBuilder" where
  "AddKey key b = b\<lparr>fb_keys := fb_keys b @ key, fb_start := fb_start b @ [length (fb_keys b)]\<rparr>"

definition filter_Finish :: "FilterBlockBuilder \<Rightarrow> FilterBlockBuilder \<times> slice" where
  "filter_Finish b =
     (let b = (if fb_start b \<noteq> [] then GenerateFilter b else b);
          array_offset = of_nat (length (fb_result b)) :: u32;
          result = fold (\<lambda>o1 r. PutFixed32 r o1) (fb_filter_offsets b) (fb_result b);
          result = PutFixed32 result array_offset;
          result = result @ [of_nat kFilterBaseLg]
      in (b\<lparr>fb_result := result\<rparr>, result))"

section \<open>The reader\<close>

text \<open>\<^verbatim>\<open>offset_\<close> points into \<^verbatim>\<open>data_\<close> and is kept as an index; \<^verbatim>\<open>data_\<close> is \<^verbatim>\<open>NULL\<close> for a block that is too
  short or whose offset array would start outside it.\<close>

record FilterBlockReader =
  fr_policy :: FilterPolicy
  fr_data :: "slice option"
  fr_offset :: nat
  fr_num :: nat
  fr_base_lg :: size_t

definition FilterBlockReader_new :: "FilterPolicy \<Rightarrow> slice \<Rightarrow> FilterBlockReader" where
  "FilterBlockReader_new policy contents =
     (let r = \<lparr>fr_policy = policy, fr_data = None, fr_offset = 0, fr_num = 0, fr_base_lg = 0\<rparr>;
          n = length contents in
      if n < 5 then r
      else
        let r = r\<lparr>fr_base_lg := scast (contents ! (n - 1))\<rparr>;
            last_word = unat (DecodeFixed32 (drop (n - 5) contents)) in
        if last_word > n - 5 then r
        else r\<lparr>fr_data := Some contents, fr_offset := last_word, fr_num := (n - 5 - last_word) div 4\<rparr>)"

definition filter_KeyMayMatch :: "FilterBlockReader \<Rightarrow> u64 \<Rightarrow> slice \<Rightarrow> bool" where
  "filter_KeyMayMatch r block_offset key =
     (let index = unat (drop_bit (unat (fr_base_lg r)) block_offset) in
      case fr_data r of None \<Rightarrow> True
      | Some data \<Rightarrow>
          if index < fr_num r
          then let start = unat (DecodeFixed32 (drop (fr_offset r + index * 4) data));
                   limit = unat (DecodeFixed32 (drop (fr_offset r + index * 4 + 4) data)) in
               if start \<le> limit \<and> limit \<le> fr_offset r
               then fp_KeyMayMatch (fr_policy r) key (take (limit - start) (drop start data))
               else if start = limit then False
               else True
          else True)"

section \<open>What the builder keeps\<close>

text \<open>The builder stands for the keys of the filters generated so far and the keys of the filter that is
  being collected; lists of lists are kept flattened, with the offset of each part.\<close>

definition offs :: "'a list list \<Rightarrow> nat list" where
  "offs xss = map (\<lambda>i. length (concat (take i xss))) [0..<length xss]"

lemma offs_simps [simp]: "offs [] = []" "offs (xss @ [xs]) = offs xss @ [length (concat xss)]" "length (offs xss) = length xss"
  by (simp_all add: offs_def)

lemma offs_end: "i \<le> length xss \<Longrightarrow> (offs xss @ [length (concat xss)]) ! i = length (concat (take i xss))"
  by (auto simp: offs_def nth_append)

lemma concat_part: "i < length xss \<Longrightarrow>
    take (length (concat (take (Suc i) xss)) - length (concat (take i xss))) (drop (length (concat (take i xss))) (concat xss)) = xss ! i"
proof (induction xss arbitrary: i)
  case (Cons xs xss)
  then show ?case by (cases i) simp_all
qed simp

definition filter_of :: "FilterPolicy \<Rightarrow> slice list \<Rightarrow> byte list" where
  "filter_of policy ks = (if ks = [] then [] else fp_CreateFilter policy ks [])"

definition collects :: "FilterPolicy \<Rightarrow> FilterBlockBuilder \<Rightarrow> slice list list \<Rightarrow> slice list \<Rightarrow> bool" where
  "collects policy b fs ks \<longleftrightarrow>
     fb_policy b = policy \<and> fb_keys b = concat ks \<and> fb_start b = offs ks
     \<and> fb_result b = concat (map (filter_of policy) fs)
     \<and> fb_filter_offsets b = map of_nat (offs (map (filter_of policy) fs))"

lemma collects_new: "collects policy (FilterBlockBuilder_new policy) [] []"
  by (simp add: collects_def FilterBlockBuilder_new_def)

lemma collects_AddKey: "collects policy b fs ks \<Longrightarrow> collects policy (AddKey key b) fs (ks @ [key])"
  by (simp add: collects_def AddKey_def)

lemma collects_AddKeys: "collects policy b fs ks \<Longrightarrow> collects policy (fold AddKey keys b) fs (ks @ keys)"
proof (induction keys arbitrary: b ks)
  case (Cons key keys)
  then have "collects policy (fold AddKey keys (AddKey key b)) fs ((ks @ [key]) @ keys)"
    by (intro Cons.IH collects_AddKey)
  then show ?case by simp
qed simp

text \<open>The finished block: the filters, their offsets, the offset of the offsets, the parameter.\<close>

definition filter_block :: "FilterPolicy \<Rightarrow> slice list list \<Rightarrow> slice" where
  "filter_block policy fs =
     (let filters = map (filter_of policy) fs in
      concat filters @ concat (map EncodeFixed32 (map of_nat (offs filters)))
      @ EncodeFixed32 (of_nat (length (concat filters))) @ [11])"

lemma fold_PutFixed32: "fold (\<lambda>o1 r. PutFixed32 r o1) xs r = r @ concat (map EncodeFixed32 xs)"
  by (rule fold_appends) (simp add: PutFixed32_def)

context filter_contract
begin

lemma collects_GenerateFilter:
  assumes "collects policy b fs ks"
  shows "collects policy (GenerateFilter b) (fs @ [ks]) []"
proof (cases "ks = []")
  case True
  then show ?thesis using assms by (simp add: collects_def GenerateFilter_def filter_of_def)
next
  case False
  have "map (\<lambda>i. take ((offs ks @ [length (concat ks)]) ! (i + 1) - (offs ks @ [length (concat ks)]) ! i)
      (drop ((offs ks @ [length (concat ks)]) ! i) (concat ks))) [0..<length ks] = ks"
    by (rule nth_equalityI) (simp_all add: offs_end concat_part)
  then show ?thesis
    using assms False create_appends [of ks "concat (map (filter_of policy) fs)"]
    by (simp add: collects_def GenerateFilter_def filter_of_def Let_def)
qed

lemma collects_start_loop:
  assumes "collects policy b fs ks"
  shows "if length fs < n then collects policy (start_block_loop n b) (fs @ [ks] @ replicate (n - length fs - 1) []) []
    else start_block_loop n b = b"
  using assms
proof (induction n b arbitrary: fs ks rule: start_block_loop.induct)
  case (1 n b)
  have len: "length (fb_filter_offsets b) = length fs" using "1.prems" by (simp add: collects_def)
  show ?case
  proof (cases "length fs < n")
    case True
    note gen = collects_GenerateFilter [OF "1.prems"]
    have step: "start_block_loop n b = start_block_loop n (GenerateFilter b)"
      using True len by (subst start_block_loop.simps) simp
    have IH: "if Suc (length fs) < n
      then collects policy (start_block_loop n (GenerateFilter b)) ((fs @ [ks]) @ [[]] @ replicate (n - length fs - 2) []) []
      else start_block_loop n (GenerateFilter b) = GenerateFilter b"
      using "1.IH" [OF _ gen] True len by (simp split: if_splits)
    show ?thesis
    proof (cases "Suc (length fs) < n")
      case more: True
      then have "n - length fs - 1 = Suc (n - length fs - 2)" by simp
      with more True IH step show ?thesis by (simp del: replicate_Suc add: replicate_Suc [symmetric])
    next
      case False
      with True have "n = Suc (length fs)" by simp
      with False True IH step gen show ?thesis by simp
    qed
  next
    case False
    then show ?thesis using len by (subst start_block_loop.simps) simp
  qed
qed

lemma collects_Finish:
  assumes "collects policy b fs ks"
  shows "snd (filter_Finish b) = filter_block policy (if ks = [] then fs else fs @ [ks])"
proof -
  have "collects policy (if fb_start b \<noteq> [] then GenerateFilter b else b) (if ks = [] then fs else fs @ [ks]) []"
    using assms collects_GenerateFilter [OF assms] by (cases ks rule: rev_cases) (auto simp: collects_def)
  then show ?thesis
    unfolding filter_Finish_def Let_def collects_def filter_block_def fold_PutFixed32
    by (simp add: PutFixed32_def kFilterBaseLg_def)
qed

end

section \<open>Reading a finished block\<close>

lemma concat_take_mono: "length (concat (take i xss)) \<le> length (concat (take (Suc i) xss))"
  using concat_take_le [of i "take (Suc i) xss"] by (simp add: min_def)

definition filter_reader :: "FilterPolicy \<Rightarrow> slice list list \<Rightarrow> FilterBlockReader" where
  "filter_reader policy fs =
     \<lparr>fr_policy = policy, fr_data = Some (filter_block policy fs),
      fr_offset = length (concat (map (filter_of policy) fs)), fr_num = length fs, fr_base_lg = 11\<rparr>"

lemma read_filter_block:
  assumes "length (concat (map (filter_of policy) fs)) < 2 ^ 32"
  shows "FilterBlockReader_new policy (filter_block policy fs) = filter_reader policy fs"
proof -
  let ?F = "concat (map (filter_of policy) fs)"
  let ?O = "concat (map EncodeFixed32 (map of_nat (offs (map (filter_of policy) fs))))"
  have block: "filter_block policy fs = (?F @ ?O) @ EncodeFixed32 (of_nat (length ?F)) @ [11]"
    by (simp add: filter_block_def Let_def)
  have lenO: "length ?O = 4 * length fs" by (subst length_concat_encoded) simp
  have len: "length (filter_block policy fs) = length ?F + 4 * length fs + 5" unfolding block using lenO by simp
  have "drop (length ?F + 4 * length fs) (filter_block policy fs) = EncodeFixed32 (of_nat (length ?F)) @ [11]"
    unfolding block using lenO by simp
  moreover have "filter_block policy fs ! (4 + (length ?F + 4 * length fs)) = 11"
    unfolding block using lenO by (simp add: nth_append)
  moreover have "unat (of_nat (length ?F) :: u32) = length ?F" using assms by (simp add: unat_of_nat)
  ultimately show ?thesis
    using len by (simp add: FilterBlockReader_new_def filter_reader_def Let_def)
qed

lemma filter_reader_match:
  assumes "length (concat (map (filter_of policy) fs)) < 2 ^ 32"
  shows "filter_KeyMayMatch (filter_reader policy fs) block_offset key =
    (if unat block_offset div 2048 < length fs
     then fp_KeyMayMatch policy key (filter_of policy (fs ! (unat block_offset div 2048))) else True)"
proof -
  let ?fs = "map (filter_of policy) fs" and ?i = "unat block_offset div 2048"
  let ?F = "concat ?fs"
  let ?w = "offs ?fs @ [length ?F]"
  have index: "unat (drop_bit 11 block_offset) = ?i" by (simp add: drop_bit_eq_div unat_div)
  show ?thesis
  proof (cases "?i < length fs")
    case True
    have block: "filter_block policy fs = ?F @ concat (map EncodeFixed32 (map of_nat ?w)) @ [11]"
      by (simp add: filter_block_def Let_def)
    have word: "unat (DecodeFixed32 (drop (length ?F + 4 * j) (filter_block policy fs))) = length (concat (take j ?fs))"
      if "j \<le> length fs" for j
    proof -
      have "drop j (map of_nat ?w) = (of_nat (?w ! j) :: u32) # drop (Suc j) (map of_nat ?w)"
        using that by (subst Cons_nth_drop_Suc [symmetric]) (simp_all del: map_append)
      then have "drop (length ?F + 4 * j) (filter_block policy fs)
          = EncodeFixed32 (of_nat (?w ! j)) @ concat (map EncodeFixed32 (drop (Suc j) (map of_nat ?w))) @ [11]"
        unfolding block using that drop_encoded [of j "map of_nat ?w"]
        by (simp del: map_append map_map concat_append add: length_concat_encoded)
      moreover have "?w ! j = length (concat (take j ?fs))" using that by (simp add: offs_end)
      moreover have "length (concat (take j ?fs)) < 2 ^ 32" using concat_take_le [of j ?fs] assms by linarith
      ultimately show ?thesis by (simp add: unat_of_nat)
    qed
    define start where "start = length (concat (take ?i ?fs))"
    define limit where "limit = length (concat (take (Suc ?i) ?fs))"
    have le: "start \<le> limit" "limit \<le> length ?F"
      unfolding start_def limit_def by (rule concat_take_mono, rule concat_take_le)
    have "take (limit - start) (drop start ?F) = filter_of policy (fs ! ?i)"
      unfolding start_def limit_def using concat_part [of ?i ?fs] True by simp
    with le have "take (limit - start) (drop start (filter_block policy fs)) = filter_of policy (fs ! ?i)"
      unfolding block by simp
    moreover have "unat (DecodeFixed32 (drop (length ?F + ?i * 4) (filter_block policy fs))) = start"
      "unat (DecodeFixed32 (drop (length ?F + ?i * 4 + 4) (filter_block policy fs))) = limit"
      using True word [of ?i] word [of "Suc ?i"] by (simp_all add: start_def limit_def algebra_simps)
    ultimately show ?thesis
      using True le by (simp add: filter_KeyMayMatch_def filter_reader_def index Let_def)
  next
    case False
    then show ?thesis by (simp add: filter_KeyMayMatch_def filter_reader_def index Let_def)
  qed
qed

section \<open>From the calls of the builder to the reader\<close>

text \<open>A table is built by \<^verbatim>\<open>StartBlock\<close> with the offset of each data block and \<^verbatim>\<open>AddKey\<close> with its keys. The keys
  of the blocks that start in the \<^verbatim>\<open>i\<close>-th 2 KB go to the \<^verbatim>\<open>i\<close>-th filter.\<close>

definition add_blocks :: "FilterPolicy \<Rightarrow> (u64 \<times> slice list) list \<Rightarrow> FilterBlockBuilder" where
  "add_blocks policy blocks =
     fold (\<lambda>(block_offset, keys) b. fold AddKey keys (StartBlock b block_offset)) blocks (FilterBlockBuilder_new policy)"

definition keys_at :: "(u64 \<times> slice list) list \<Rightarrow> nat \<Rightarrow> slice list" where
  "keys_at blocks i = concat (map snd (filter (\<lambda>(block_offset, _). unat block_offset div 2048 = i) blocks))"

definition filter_index :: "(u64 \<times> slice list) list \<Rightarrow> nat" where
  "filter_index blocks = (if blocks = [] then 0 else unat (fst (last blocks)) div 2048)"

definition filters_at :: "(u64 \<times> slice list) list \<Rightarrow> slice list list" where
  "filters_at blocks =
     map (keys_at blocks) [0..<if keys_at blocks (filter_index blocks) = [] then filter_index blocks else Suc (filter_index blocks)]"

lemma keys_at_snoc: "keys_at (blocks @ [(o1, keys)]) i = keys_at blocks i @ (if unat o1 div 2048 = i then keys else [])"
  by (simp add: keys_at_def)

lemma keys_at_later:
  assumes "sorted (map fst blocks)" and "filter_index blocks < i"
  shows "keys_at blocks i = []"
proof -
  have "unat o1 div 2048 \<le> filter_index blocks" if "(o1, keys) \<in> set blocks" for o1 keys
  proof -
    have "o1 \<le> fst (last blocks)"
      using assms(1) that by (cases blocks rule: rev_cases) (auto simp: sorted_append)
    then show ?thesis using that by (auto simp: filter_index_def word_le_nat_alt intro: div_le_mono)
  qed
  then show ?thesis using assms(2) by (fastforce simp: keys_at_def filter_empty_conv)
qed

lemma upt_later: "n < m \<Longrightarrow> [0..<m] = [0..<n] @ [n] @ [Suc n..<m]"
  using upt_add_eq_append [of 0 n "m - n"] by (simp add: upt_conv_Cons)

context filter_contract
begin

lemma collects_blocks:
  assumes "sorted (map fst blocks)"
  shows "collects policy (add_blocks policy blocks) (map (keys_at blocks) [0..<filter_index blocks])
    (keys_at blocks (filter_index blocks))"
  using assms
proof (induction blocks rule: rev_induct)
  case Nil
  then show ?case by (simp add: add_blocks_def filter_index_def keys_at_def collects_new)
next
  case (snoc p blocks)
  obtain o1 keys where p: "p = (o1, keys)" by (cases p)
  let ?n = "filter_index blocks" and ?m = "unat o1 div 2048"
  have sorted: "sorted (map fst blocks)" using snoc.prems by (simp add: sorted_append)
  note IH = snoc.IH [OF sorted]
  have le: "?n \<le> ?m"
  proof (cases "blocks = []")
    case False
    then have "fst (last blocks) \<le> o1" using snoc.prems by (simp add: sorted_append p)
    then show ?thesis using False by (simp add: filter_index_def word_le_nat_alt div_le_mono)
  qed (simp add: filter_index_def)
  have start: "collects policy (StartBlock (add_blocks policy blocks) o1) (map (keys_at blocks) [0..<?m]) (keys_at blocks ?m)"
  proof (cases "?n < ?m")
    case True
    have "map (keys_at blocks) [Suc ?n..<?m] = replicate (?m - ?n - 1) []"
      by (intro nth_equalityI) (simp_all add: keys_at_later [OF sorted])
    then have "map (keys_at blocks) [0..<?m] = map (keys_at blocks) [0..<?n] @ [keys_at blocks ?n] @ replicate (?m - ?n - 1) []"
      by (simp add: upt_later [OF True])
    then show ?thesis
      using collects_start_loop [OF IH, of ?m] True keys_at_later [OF sorted True]
      by (simp add: StartBlock_def kFilterBase_def kFilterBaseLg_def)
  next
    case False
    with le have "?n = ?m" by simp
    then show ?thesis
      using collects_start_loop [OF IH, of ?m] IH by (simp add: StartBlock_def kFilterBase_def kFilterBaseLg_def)
  qed
  have "add_blocks policy (blocks @ [p]) = fold AddKey keys (StartBlock (add_blocks policy blocks) o1)"
    by (simp add: add_blocks_def p)
  moreover have "map (keys_at (blocks @ [p])) [0..<?m] = map (keys_at blocks) [0..<?m]"
    by (simp add: p keys_at_snoc)
  moreover have "keys_at (blocks @ [p]) ?m = keys_at blocks ?m @ keys" by (simp add: p keys_at_snoc)
  ultimately show ?case
    using collects_AddKeys [OF start, of keys] by (simp del: map_eq_conv add: p filter_index_def)
qed

lemma finished_block:
  assumes "sorted (map fst blocks)"
  shows "snd (filter_Finish (add_blocks policy blocks)) = filter_block policy (filters_at blocks)"
  using collects_Finish [OF collects_blocks [OF assms]] by (simp add: filters_at_def)

lemma no_added_key_denied:
  assumes "(block_offset, keys) \<in> set blocks" and "key \<in> set keys"
    and "sorted (map fst blocks)" and "length (concat (map (filter_of policy) (filters_at blocks))) < 2 ^ 32"
  shows "filter_KeyMayMatch (filter_reader policy (filters_at blocks)) block_offset key"
proof -
  let ?i = "unat block_offset div 2048"
  have "key \<in> set (keys_at blocks ?i)" using assms(1,2) by (force simp: keys_at_def)
  moreover from this have "filter_of policy (keys_at blocks ?i) = fp_CreateFilter policy (keys_at blocks ?i) []"
    by (auto simp: filter_of_def)
  ultimately show ?thesis
    unfolding filter_reader_match [OF assms(4)]
    using no_false_negative [of key "keys_at blocks ?i"] by (simp add: filters_at_def less_Suc_eq split: if_splits)
qed

end

text \<open>C23: A filter block built by \<^verbatim>\<open>StartBlock\<close>, \<^verbatim>\<open>AddKey\<close> and \<^verbatim>\<open>Finish\<close> for data blocks at ascending offsets, with the
  Bloom filter over internal keys and less than 4 GB of filters, is read back exactly: for any block offset and key
  the reader applies the policy to the filter of the keys of the blocks that start in the same 2 KB, or answers
  true when there is no such filter, and every key that was added is matched at the offset of its block.\<close>

theorem filter_block_correct:
  assumes "policy = InternalFilterPolicy (BloomFilterPolicy bits_per_key)"
    and "sorted (map fst blocks)" and "length (concat (map (filter_of policy) (filters_at blocks))) < 2 ^ 32"
    and "reader = FilterBlockReader_new policy (snd (filter_Finish (add_blocks policy blocks)))"
  shows "(\<forall>block_offset key. filter_KeyMayMatch reader block_offset key =
      (if unat block_offset div 2048 < length (filters_at blocks)
       then fp_KeyMayMatch policy key (filter_of policy (keys_at blocks (unat block_offset div 2048))) else True))
    \<and> (\<forall>(block_offset, keys) \<in> set blocks. \<forall>key \<in> set keys. filter_KeyMayMatch reader block_offset key)"
proof -
  have reader: "reader = filter_reader policy (filters_at blocks)"
    unfolding assms(4) using internal_bloom.finished_block [OF assms(2), of bits_per_key] read_filter_block [OF assms(3)]
    by (simp add: assms(1))
  have added: "filter_KeyMayMatch reader block_offset key" if "(block_offset, keys) \<in> set blocks" "key \<in> set keys"
    for block_offset keys key
    using internal_bloom.no_added_key_denied [OF that assms(2), of bits_per_key] assms(1,3) by (simp add: reader)
  have "filters_at blocks ! i = keys_at blocks i" if "i < length (filters_at blocks)" for i
    using that by (simp add: filters_at_def del: upt_Suc)
  then have exact: "filter_KeyMayMatch reader block_offset key =
      (if unat block_offset div 2048 < length (filters_at blocks)
       then fp_KeyMayMatch policy key (filter_of policy (keys_at blocks (unat block_offset div 2048))) else True)"
    for block_offset key
    using filter_reader_match [OF assms(3), of block_offset key] by (cases "unat block_offset div 2048 < length (filters_at blocks)") (simp_all add: reader)
  show ?thesis
  proof (intro conjI allI)
    show "\<forall>(block_offset, keys) \<in> set blocks. \<forall>key \<in> set keys. filter_KeyMayMatch reader block_offset key"
      using added by auto
  qed (rule exact)
qed

theorem filter_block_correct_witness:
  "let policy = InternalFilterPolicy (BloomFilterPolicy 10);
       blocks = [(0, [replicate 9 7]), (5000, [replicate 10 1, replicate 8 2])];
       reader = FilterBlockReader_new policy (snd (filter_Finish (add_blocks policy blocks)))
   in filter_KeyMayMatch reader 5000 (replicate 10 1) \<and> filter_KeyMayMatch reader 70000 (replicate 10 3)
      \<and> filter_KeyMayMatch reader 2048 (replicate 10 1) = False"
proof -
  let ?policy = "InternalFilterPolicy (BloomFilterPolicy 10)"
  let ?blocks = "[(0, [replicate 9 7]), (5000, [replicate 10 1, replicate 8 2])]"
  have at: "filters_at ?blocks = [[replicate 9 7], [], [replicate 10 1, replicate 8 2]]"
    by (simp add: filters_at_def keys_at_def filter_index_def upt_rec)
  have "length (concat (map (filter_of ?policy) (filters_at ?blocks))) < 2 ^ 32"
    unfolding at by (simp add: filter_of_def InternalFilterPolicy_def BloomFilterPolicy_def bloom_CreateFilter_length)
  note block = filter_block_correct [OF refl _ this refl]
  show ?thesis
    unfolding Let_def
  proof (intro conjI, goal_cases)
    case 1 show ?case
      using block [THEN conjunct2] by (auto simp del: replicate.simps)
  next
    case 2 show ?case
      using block [THEN conjunct1, rule_format, of 70000 "replicate 10 3"] by (simp add: at del: replicate.simps)
  next
    case 3 show ?case
      using block [THEN conjunct1, rule_format, of 2048 "replicate 10 1"]
      by (simp add: at del: replicate.simps)
        (simp add: keys_at_def filter_of_def InternalFilterPolicy_def BloomFilterPolicy_def bloom_KeyMayMatch_def)
  qed
qed

end
