(* ===== verification/Ldb_Version_Edit.thy ===== *)
theory Ldb_Version_Edit
  imports Ldb_Write_Batch "HOL-Library.Product_Lexorder"
begin

text \<open>
  Edits of the set of table files, from \<^verbatim>\<open>db/version_edit.h\<close> and \<^verbatim>\<open>db/version_edit.cc\<close>: the records of the
  manifest. An edit is decoded field by field until the tag cannot be read; a field that cannot be read stops
  the decoding with the name of the field. The set of deleted files is a sorted list without duplicates, in the
  order in which the \<^verbatim>\<open>std::set\<close> is traversed.
\<close>

section \<open>Files and edits\<close>

text \<open>An \<^verbatim>\<open>InternalKey\<close> is its representation; \<^verbatim>\<open>Encode\<close> asserts that it is not empty.\<close>

type_synonym InternalKey = slice

definition InternalKey_new :: "slice \<Rightarrow> SequenceNumber \<Rightarrow> ValueType \<Rightarrow> InternalKey" where
  "InternalKey_new k s t = AppendInternalKey [] \<lparr>user_key = k, sequence = s, vtype = t\<rparr>"

definition kNumLevels :: int where "kNumLevels = 7"

record FileMetaData =
  fm_refs :: int
  fm_allowed_seeks :: int
  fm_number :: u64
  fm_file_size :: u64
  fm_smallest :: InternalKey
  fm_largest :: InternalKey

definition FileMetaData_new :: "u64 \<Rightarrow> u64 \<Rightarrow> InternalKey \<Rightarrow> InternalKey \<Rightarrow> FileMetaData" where
  "FileMetaData_new number file_size smallest largest =
     \<lparr>fm_refs = 0, fm_allowed_seeks = 2 ^ 30, fm_number = number, fm_file_size = file_size,
      fm_smallest = smallest, fm_largest = largest\<rparr>"

record VersionEdit =
  ve_comparator :: slice
  ve_log_number :: u64
  ve_prev_log_number :: u64
  ve_next_file_number :: u64
  ve_last_sequence :: SequenceNumber
  ve_has_comparator :: bool
  ve_has_log_number :: bool
  ve_has_prev_log_number :: bool
  ve_has_next_file_number :: bool
  ve_has_last_sequence :: bool
  ve_compact_pointers :: "(int \<times> InternalKey) list"
  ve_deleted_files :: "(int \<times> u64) list"
  ve_new_files :: "(int \<times> FileMetaData) list"

text \<open>\<^verbatim>\<open>Clear\<close> leaves the compaction pointers.\<close>

definition edit_Clear :: "VersionEdit \<Rightarrow> VersionEdit" where
  "edit_Clear e = e\<lparr>ve_comparator := [], ve_log_number := 0, ve_prev_log_number := 0, ve_last_sequence := 0,
     ve_next_file_number := 0, ve_has_comparator := False, ve_has_log_number := False,
     ve_has_prev_log_number := False, ve_has_next_file_number := False, ve_has_last_sequence := False,
     ve_deleted_files := [], ve_new_files := []\<rparr>"

definition VersionEdit_new :: VersionEdit where
  "VersionEdit_new = \<lparr>ve_comparator = [], ve_log_number = 0, ve_prev_log_number = 0, ve_next_file_number = 0,
     ve_last_sequence = 0, ve_has_comparator = False, ve_has_log_number = False, ve_has_prev_log_number = False,
     ve_has_next_file_number = False, ve_has_last_sequence = False, ve_compact_pointers = [],
     ve_deleted_files = [], ve_new_files = []\<rparr>"

definition SetComparatorName :: "slice \<Rightarrow> VersionEdit \<Rightarrow> VersionEdit" where
  "SetComparatorName name e = e\<lparr>ve_has_comparator := True, ve_comparator := name\<rparr>"

definition SetLogNumber :: "u64 \<Rightarrow> VersionEdit \<Rightarrow> VersionEdit" where
  "SetLogNumber num e = e\<lparr>ve_has_log_number := True, ve_log_number := num\<rparr>"

definition SetPrevLogNumber :: "u64 \<Rightarrow> VersionEdit \<Rightarrow> VersionEdit" where
  "SetPrevLogNumber num e = e\<lparr>ve_has_prev_log_number := True, ve_prev_log_number := num\<rparr>"

definition SetNextFile :: "u64 \<Rightarrow> VersionEdit \<Rightarrow> VersionEdit" where
  "SetNextFile num e = e\<lparr>ve_has_next_file_number := True, ve_next_file_number := num\<rparr>"

definition SetLastSequence :: "SequenceNumber \<Rightarrow> VersionEdit \<Rightarrow> VersionEdit" where
  "SetLastSequence seq e = e\<lparr>ve_has_last_sequence := True, ve_last_sequence := seq\<rparr>"

definition SetCompactPointer :: "int \<Rightarrow> InternalKey \<Rightarrow> VersionEdit \<Rightarrow> VersionEdit" where
  "SetCompactPointer level key e = e\<lparr>ve_compact_pointers := ve_compact_pointers e @ [(level, key)]\<rparr>"

definition AddFile :: "int \<Rightarrow> u64 \<Rightarrow> u64 \<Rightarrow> InternalKey \<Rightarrow> InternalKey \<Rightarrow> VersionEdit \<Rightarrow> VersionEdit" where
  "AddFile level num file_size smallest largest e =
     e\<lparr>ve_new_files := ve_new_files e @ [(level, FileMetaData_new num file_size smallest largest)]\<rparr>"

definition DeleteFile :: "int \<Rightarrow> u64 \<Rightarrow> VersionEdit \<Rightarrow> VersionEdit" where
  "DeleteFile level num e = e\<lparr>ve_deleted_files := insort_insert (level, num) (ve_deleted_files e)\<rparr>"

section \<open>Encoding\<close>

definition kComparator :: u32 where "kComparator = 1"
definition kLogNumber :: u32 where "kLogNumber = 2"
definition kNextFileNumber :: u32 where "kNextFileNumber = 3"
definition kLastSequence :: u32 where "kLastSequence = 4"
definition kCompactPointer :: u32 where "kCompactPointer = 5"
definition kDeletedFile :: u32 where "kDeletedFile = 6"
definition kNewFile :: u32 where "kNewFile = 7"
definition kPrevLogNumber :: u32 where "kPrevLogNumber = 9"

lemmas tag_defs = kComparator_def kLogNumber_def kNextFileNumber_def kLastSequence_def kCompactPointer_def
  kDeletedFile_def kNewFile_def kPrevLogNumber_def

definition encode_pointer :: "int \<times> InternalKey \<Rightarrow> slice \<Rightarrow> slice" where
  "encode_pointer p dst =
     PutLengthPrefixedSlice (PutVarint32 (PutVarint32 dst kCompactPointer) (of_int (fst p))) (snd p)"

definition encode_deleted :: "int \<times> u64 \<Rightarrow> slice \<Rightarrow> slice" where
  "encode_deleted p dst = PutVarint64 (PutVarint32 (PutVarint32 dst kDeletedFile) (of_int (fst p))) (snd p)"

definition encode_new_file :: "int \<times> FileMetaData \<Rightarrow> slice \<Rightarrow> slice" where
  "encode_new_file p dst =
     (let f = snd p;
          dst = PutVarint32 dst kNewFile;
          dst = PutVarint32 dst (of_int (fst p));
          dst = PutVarint64 dst (fm_number f);
          dst = PutVarint64 dst (fm_file_size f);
          dst = PutLengthPrefixedSlice dst (fm_smallest f)
      in PutLengthPrefixedSlice dst (fm_largest f))"

definition EncodeTo :: "VersionEdit \<Rightarrow> slice \<Rightarrow> slice" where
  "EncodeTo e dst =
     (let dst = (if ve_has_comparator e then PutLengthPrefixedSlice (PutVarint32 dst kComparator) (ve_comparator e) else dst);
          dst = (if ve_has_log_number e then PutVarint64 (PutVarint32 dst kLogNumber) (ve_log_number e) else dst);
          dst = (if ve_has_prev_log_number e then PutVarint64 (PutVarint32 dst kPrevLogNumber) (ve_prev_log_number e) else dst);
          dst = (if ve_has_next_file_number e then PutVarint64 (PutVarint32 dst kNextFileNumber) (ve_next_file_number e) else dst);
          dst = (if ve_has_last_sequence e then PutVarint64 (PutVarint32 dst kLastSequence) (ve_last_sequence e) else dst);
          dst = fold encode_pointer (ve_compact_pointers e) dst;
          dst = fold encode_deleted (ve_deleted_files e) dst
      in fold encode_new_file (ve_new_files e) dst)"

section \<open>Decoding\<close>

text \<open>The readers return the value and the rest of the input, or nothing; what an unsuccessful reader leaves of
  the input is not used.\<close>

definition some_of :: "'a option \<times> slice \<Rightarrow> ('a \<times> slice) option" where
  "some_of r = (case fst r of None \<Rightarrow> None | Some v \<Rightarrow> Some (v, snd r))"

definition GetInternalKey :: "slice \<Rightarrow> (InternalKey \<times> slice) option" where
  "GetInternalKey input = some_of (GetLengthPrefixedSlice input)"

definition GetLevel :: "slice \<Rightarrow> (int \<times> slice) option" where
  "GetLevel input =
     (case some_of (GetVarint32 input) of None \<Rightarrow> None
      | Some (v, rest) \<Rightarrow> if v < of_int kNumLevels then Some (sint v, rest) else None)"

text \<open>One turn of the switch: the name of the field that cannot be read, or the rest of the input and the edit.\<close>

definition number_field :: "string \<Rightarrow> (u64 \<Rightarrow> VersionEdit \<Rightarrow> VersionEdit) \<Rightarrow> slice \<Rightarrow> VersionEdit \<Rightarrow> string + slice \<times> VersionEdit" where
  "number_field msg set_number input e =
     (case some_of (GetVarint64 input) of None \<Rightarrow> Inl msg | Some (v, rest) \<Rightarrow> Inr (rest, set_number v e))"

definition decode_new_file :: "slice \<Rightarrow> ((int \<times> FileMetaData) \<times> slice) option" where
  "decode_new_file input =
     do {(level, input) \<leftarrow> GetLevel input; (number, input) \<leftarrow> some_of (GetVarint64 input);
         (file_size, input) \<leftarrow> some_of (GetVarint64 input); (smallest, input) \<leftarrow> GetInternalKey input;
         (largest, input) \<leftarrow> GetInternalKey input;
         Some ((level, FileMetaData_new number file_size smallest largest), input)}"

definition edit_field :: "u32 \<Rightarrow> slice \<Rightarrow> VersionEdit \<Rightarrow> string + slice \<times> VersionEdit" where
  "edit_field tag input e =
     (if tag = kComparator then
        (case some_of (GetLengthPrefixedSlice input) of
           None \<Rightarrow> Inl ''comparator name'' | Some (str, rest) \<Rightarrow> Inr (rest, SetComparatorName str e))
      else if tag = kLogNumber then number_field ''log number'' SetLogNumber input e
      else if tag = kPrevLogNumber then number_field ''previous log number'' SetPrevLogNumber input e
      else if tag = kNextFileNumber then number_field ''next file number'' SetNextFile input e
      else if tag = kLastSequence then number_field ''last sequence number'' SetLastSequence input e
      else if tag = kCompactPointer then
        (case do {(level, input) \<leftarrow> GetLevel input; (key, input) \<leftarrow> GetInternalKey input; Some (level, key, input)} of
           None \<Rightarrow> Inl ''compaction pointer'' | Some (level, key, rest) \<Rightarrow> Inr (rest, SetCompactPointer level key e))
      else if tag = kDeletedFile then
        (case do {(level, input) \<leftarrow> GetLevel input; (number, input) \<leftarrow> some_of (GetVarint64 input); Some (level, number, input)} of
           None \<Rightarrow> Inl ''deleted file'' | Some (level, number, rest) \<Rightarrow> Inr (rest, DeleteFile level number e))
      else if tag = kNewFile then
        (case decode_new_file input of
           None \<Rightarrow> Inl ''new-file entry''
         | Some ((level, f), rest) \<Rightarrow> Inr (rest, e\<lparr>ve_new_files := ve_new_files e @ [(level, f)]\<rparr>))
      else Inl ''unknown tag'')"

lemma some_of_iff [simp]: "some_of r = Some (v, rest) \<longleftrightarrow> r = (Some v, rest)" "some_of (Some v, rest) = Some (v, rest)"
  by (auto simp: some_of_def split: option.splits) (metis prod.collapse)+

lemma GetLevel_shorter: "GetLevel input = Some (level, rest) \<Longrightarrow> length rest < length input"
  by (auto simp: GetLevel_def split: option.splits if_splits prod.splits dest: Get_shorter)

lemma GetInternalKey_shorter: "GetInternalKey input = Some (key, rest) \<Longrightarrow> length rest < length input"
  by (auto simp: GetInternalKey_def dest: GetLengthPrefixedSlice_shorter)

lemmas field_shorter = GetLevel_shorter GetInternalKey_shorter Get_shorter GetLengthPrefixedSlice_shorter

lemma decode_new_file_shorter: "decode_new_file input = Some (f, rest) \<Longrightarrow> length rest < length input"
  by (auto simp: decode_new_file_def split: bind_splits dest!: field_shorter)

lemma edit_field_shorter: "edit_field tag input e = Inr (rest, e') \<Longrightarrow> length rest < length input"
  by (auto simp: edit_field_def number_field_def split: if_splits option.splits bind_splits
      dest!: field_shorter decode_new_file_shorter)

function decode_edit_loop :: "slice \<Rightarrow> VersionEdit \<Rightarrow> string option \<times> slice \<times> VersionEdit" where
  "decode_edit_loop input e =
     (case some_of (GetVarint32 input) of
        None \<Rightarrow> (None, input, e)
      | Some (tag, rest) \<Rightarrow>
          (case edit_field tag rest e of
             Inl msg \<Rightarrow> (Some msg, rest, e)
           | Inr (rest, e) \<Rightarrow> decode_edit_loop rest e))"
  by pat_completeness auto
termination
  by (relation "measure (\<lambda>(input, e). length input)") (auto dest!: edit_field_shorter field_shorter)

declare decode_edit_loop.simps [simp del]

definition edit_DecodeFrom :: "slice \<Rightarrow> VersionEdit \<Rightarrow> Status \<times> VersionEdit" where
  "edit_DecodeFrom src e =
     (let (msg, input, e) = decode_edit_loop src (edit_Clear e);
          msg = (if msg = None \<and> input \<noteq> [] then Some ''invalid tag'' else msg)
      in (case msg of None \<Rightarrow> Status_OK | Some m \<Rightarrow> Status_Corruption (cstr ''VersionEdit'') (cstr m), e))"

section \<open>Round trip\<close>

text \<open>The edits that the operations build with levels in range and strings below 4 GB.\<close>

definition level_ok :: "int \<Rightarrow> bool" where
  "level_ok level \<longleftrightarrow> 0 \<le> level \<and> level < kNumLevels"

definition short :: "slice \<Rightarrow> bool" where
  "short s \<longleftrightarrow> length s < 2 ^ 32"

definition meta_ok :: "FileMetaData \<Rightarrow> bool" where
  "meta_ok f \<longleftrightarrow> f = FileMetaData_new (fm_number f) (fm_file_size f) (fm_smallest f) (fm_largest f)
     \<and> short (fm_smallest f) \<and> short (fm_largest f)"

definition levels_ok :: "VersionEdit \<Rightarrow> bool" where
  "levels_ok e \<longleftrightarrow>
     list_all (\<lambda>(level, key). level_ok level \<and> short key) (ve_compact_pointers e)
     \<and> list_all (\<lambda>(level, num). level_ok level) (ve_deleted_files e)
     \<and> sorted (ve_deleted_files e) \<and> distinct (ve_deleted_files e)
     \<and> list_all (\<lambda>(level, f). level_ok level \<and> meta_ok f) (ve_new_files e)"

definition edit_ok :: "VersionEdit \<Rightarrow> bool" where
  "edit_ok e \<longleftrightarrow>
     levels_ok e \<and> short (ve_comparator e)
     \<and> (\<not> ve_has_comparator e \<longrightarrow> ve_comparator e = [])
     \<and> (\<not> ve_has_log_number e \<longrightarrow> ve_log_number e = 0)
     \<and> (\<not> ve_has_prev_log_number e \<longrightarrow> ve_prev_log_number e = 0)
     \<and> (\<not> ve_has_next_file_number e \<longrightarrow> ve_next_file_number e = 0)
     \<and> (\<not> ve_has_last_sequence e \<longrightarrow> ve_last_sequence e = 0)"

lemmas ok_defs = edit_ok_def levels_ok_def meta_ok_def short_def

lemma insort_insert_ok:
  "sorted xs \<Longrightarrow> distinct xs \<Longrightarrow> sorted (insort_insert x xs) \<and> distinct (insort_insert x xs)"
  "set (insort_insert x xs) = insert x (set xs)"
  by (simp_all add: sorted_insort_insert distinct_insort_insert set_insort_insert)

lemma levels_ok_DeleteFile: "levels_ok e \<Longrightarrow> level_ok level \<Longrightarrow> levels_ok (DeleteFile level num e)"
  using insort_insert_ok [where xs = "ve_deleted_files e" and x = "(level, num)"]
  by (simp add: levels_ok_def DeleteFile_def list_all_iff)

lemma built_ok:
  "edit_ok VersionEdit_new"
  "edit_ok e \<Longrightarrow> short name \<Longrightarrow> edit_ok (SetComparatorName name e)"
  "edit_ok e \<Longrightarrow> edit_ok (SetLogNumber num e)" "edit_ok e \<Longrightarrow> edit_ok (SetPrevLogNumber num e)"
  "edit_ok e \<Longrightarrow> edit_ok (SetNextFile num e)" "edit_ok e \<Longrightarrow> edit_ok (SetLastSequence num e)"
  "edit_ok e \<Longrightarrow> level_ok level \<Longrightarrow> short key \<Longrightarrow> edit_ok (SetCompactPointer level key e)"
  "edit_ok e \<Longrightarrow> level_ok level \<Longrightarrow> edit_ok (DeleteFile level num e)"
  "edit_ok e \<Longrightarrow> level_ok level \<Longrightarrow> short smallest \<Longrightarrow> short largest \<Longrightarrow> edit_ok (AddFile level num file_size smallest largest e)"
  using levels_ok_DeleteFile [of e level num]
  by (simp_all add: edit_ok_def levels_ok_def meta_ok_def short_def VersionEdit_new_def SetComparatorName_def SetLogNumber_def
      SetPrevLogNumber_def SetNextFile_def SetLastSequence_def SetCompactPointer_def AddFile_def FileMetaData_new_def)
    (auto simp: DeleteFile_def)

lemma GetLevel_Encode [simp]: "level_ok level \<Longrightarrow> GetLevel (EncodeVarint32 (of_int level) @ rest) = Some (level, rest)"
proof -
  assume "level_ok level"
  then have "level \<in> {0, 1, 2, 3, 4, 5, 6}" by (auto simp: level_ok_def kNumLevels_def)
  then have "(of_int level :: u32) < 7 \<and> sint (of_int level :: u32) = level" by auto
  then show ?thesis by (simp add: GetLevel_def kNumLevels_def)
qed

lemma GetInternalKey_Encode [simp]:
  "short key \<Longrightarrow> GetInternalKey (EncodeVarint32 (of_nat (length key)) @ key @ rest) = Some (key, rest)"
  by (simp add: GetInternalKey_def GetLengthPrefixed_bytes short_def)

lemmas put_defs = PutVarint32_def PutVarint64_def PutLengthPrefixedSlice_def

lemma loop_field:
  "edit_field tag input e = Inr (rest, e') \<Longrightarrow>
   decode_edit_loop (EncodeVarint32 tag @ input) e = decode_edit_loop rest e'"
  by (subst decode_edit_loop.simps) simp

lemma loop_fields:
  "short name \<Longrightarrow> decode_edit_loop (PutLengthPrefixedSlice (PutVarint32 [] kComparator) name @ rest) e = decode_edit_loop rest (SetComparatorName name e)"
  "decode_edit_loop (PutVarint64 (PutVarint32 [] kLogNumber) num @ rest) e = decode_edit_loop rest (SetLogNumber num e)"
  "decode_edit_loop (PutVarint64 (PutVarint32 [] kPrevLogNumber) num @ rest) e = decode_edit_loop rest (SetPrevLogNumber num e)"
  "decode_edit_loop (PutVarint64 (PutVarint32 [] kNextFileNumber) num @ rest) e = decode_edit_loop rest (SetNextFile num e)"
  "decode_edit_loop (PutVarint64 (PutVarint32 [] kLastSequence) num @ rest) e = decode_edit_loop rest (SetLastSequence num e)"
  "level_ok level \<Longrightarrow> short key \<Longrightarrow> decode_edit_loop (encode_pointer (level, key) [] @ rest) e = decode_edit_loop rest (SetCompactPointer level key e)"
  "level_ok level \<Longrightarrow> decode_edit_loop (encode_deleted (level, num) [] @ rest) e = decode_edit_loop rest (DeleteFile level num e)"
  "level_ok level \<Longrightarrow> meta_ok f \<Longrightarrow> decode_edit_loop (encode_new_file (level, f) [] @ rest) e
     = decode_edit_loop rest (e\<lparr>ve_new_files := ve_new_files e @ [(level, f)]\<rparr>)"
  by (simp_all add: put_defs encode_pointer_def encode_deleted_def encode_new_file_def Let_def)
    (rule loop_field, simp add: edit_field_def tag_defs number_field_def decode_new_file_def GetLengthPrefixed_bytes short_def
      meta_ok_def)+

lemma loop_concat:
  assumes "\<And>x rest e. x \<in> set xs \<Longrightarrow> decode_edit_loop (enc x @ rest) e = decode_edit_loop rest (upd x e)"
  shows "decode_edit_loop (concat (map enc xs) @ rest) e = decode_edit_loop rest (fold upd xs e)"
  using assms by (induction xs arbitrary: e) simp_all

lemma EncodeTo_parts:
  "EncodeTo e [] =
     (if ve_has_comparator e then PutLengthPrefixedSlice (PutVarint32 [] kComparator) (ve_comparator e) else [])
     @ (if ve_has_log_number e then PutVarint64 (PutVarint32 [] kLogNumber) (ve_log_number e) else [])
     @ (if ve_has_prev_log_number e then PutVarint64 (PutVarint32 [] kPrevLogNumber) (ve_prev_log_number e) else [])
     @ (if ve_has_next_file_number e then PutVarint64 (PutVarint32 [] kNextFileNumber) (ve_next_file_number e) else [])
     @ (if ve_has_last_sequence e then PutVarint64 (PutVarint32 [] kLastSequence) (ve_last_sequence e) else [])
     @ concat (map (\<lambda>p. encode_pointer p []) (ve_compact_pointers e))
     @ concat (map (\<lambda>p. encode_deleted p []) (ve_deleted_files e))
     @ concat (map (\<lambda>p. encode_new_file p []) (ve_new_files e))"
proof -
  have folds: "fold encode_pointer ps d = d @ concat (map (\<lambda>p. encode_pointer p []) ps)"
    "fold encode_deleted ds d = d @ concat (map (\<lambda>p. encode_deleted p []) ds)"
    "fold encode_new_file fs d = d @ concat (map (\<lambda>p. encode_new_file p []) fs)" for ps ds fs d
    by (rule fold_appends, simp add: encode_pointer_def encode_deleted_def encode_new_file_def put_defs Let_def)+
  show ?thesis
    unfolding EncodeTo_def Let_def folds by (simp add: put_defs)
qed

lemma fold_compact: "fold (\<lambda>(level, key). SetCompactPointer level key) ps e = e\<lparr>ve_compact_pointers := ve_compact_pointers e @ ps\<rparr>"
  by (induction ps arbitrary: e) (auto simp: SetCompactPointer_def)

lemma fold_new_files: "fold (\<lambda>p e. e\<lparr>ve_new_files := ve_new_files e @ [p]\<rparr>) fs e = e\<lparr>ve_new_files := ve_new_files e @ fs\<rparr>"
  by (induction fs arbitrary: e) simp_all

lemma fold_insort: "sorted (ys @ xs) \<Longrightarrow> distinct (ys @ xs) \<Longrightarrow> fold insort_insert xs ys = ys @ xs"
proof (induction xs arbitrary: ys)
  case (Cons x xs)
  then have "insort_insert x ys = ys @ [x]"
    by (auto simp: insort_insert_insort sorted_append intro: sorted_insort_is_snoc)
  with Cons.IH [of "ys @ [x]"] Cons.prems show ?case by simp
qed simp

lemma fold_deleted: "fold (\<lambda>(level, num). DeleteFile level num) ds e = e\<lparr>ve_deleted_files := fold insort_insert ds (ve_deleted_files e)\<rparr>"
  by (induction ds arbitrary: e) (auto simp: DeleteFile_def)

lemmas set_defs = SetComparatorName_def SetLogNumber_def SetPrevLogNumber_def SetNextFile_def SetLastSequence_def

text \<open>The edit that decoding the fields of \<^verbatim>\<open>e\<close> into \<^verbatim>\<open>e0\<close> gives.\<close>

lemma decode_Encode:
  assumes "edit_ok e"
  shows "decode_edit_loop (EncodeTo e []) (edit_Clear e0) = (None, [], e\<lparr>ve_compact_pointers := ve_compact_pointers e0 @ ve_compact_pointers e\<rparr>)"
proof -
  have ok: "level_ok level \<and> short key" if "(level, key) \<in> set (ve_compact_pointers e)" for level key
    using assms that by (fastforce simp: edit_ok_def levels_ok_def list_all_iff)
  have ok': "level_ok level" if "(level, num) \<in> set (ve_deleted_files e)" for level num
    using assms that by (fastforce simp: edit_ok_def levels_ok_def list_all_iff)
  have ok'': "level_ok level \<and> meta_ok f" if "(level, f) \<in> set (ve_new_files e)" for level f
    using assms that by (fastforce simp: edit_ok_def levels_ok_def list_all_iff)
  note pointers = loop_concat [where xs = "ve_compact_pointers e" and enc = "\<lambda>p. encode_pointer p []" and upd = "\<lambda>(level, key). SetCompactPointer level key"]
  note deleted = loop_concat [where xs = "ve_deleted_files e" and enc = "\<lambda>p. encode_deleted p []" and upd = "\<lambda>(level, num). DeleteFile level num"]
  note files = loop_concat [where xs = "ve_new_files e" and enc = "\<lambda>p. encode_new_file p []" and upd = "\<lambda>p e. e\<lparr>ve_new_files := ve_new_files e @ [p]\<rparr>" and rest = "[]"]
  have lists: "decode_edit_loop (concat (map (\<lambda>p. encode_pointer p []) (ve_compact_pointers e))
      @ concat (map (\<lambda>p. encode_deleted p []) (ve_deleted_files e))
      @ concat (map (\<lambda>p. encode_new_file p []) (ve_new_files e))) e1
    = (None, [], e1\<lparr>ve_compact_pointers := ve_compact_pointers e1 @ ve_compact_pointers e,
        ve_deleted_files := fold insort_insert (ve_deleted_files e) (ve_deleted_files e1),
        ve_new_files := ve_new_files e1 @ ve_new_files e\<rparr>)" for e1
    using ok ok' ok'' 
    by (subst pointers, force simp: loop_fields, subst deleted, force simp: loop_fields, subst files [simplified append_Nil2], force simp: loop_fields)
      (simp add: fold_compact fold_deleted fold_new_files decode_edit_loop.simps [of "[]"] GetVarint32_def GetVarint32Ptr_def
        GetVarint32PtrFallback_def some_of_def)
  have "fold insort_insert (ve_deleted_files e) [] = ve_deleted_files e"
    using assms fold_insort [of "[]" "ve_deleted_files e"] by (simp add: edit_ok_def levels_ok_def)
  then show ?thesis
    using assms unfolding EncodeTo_parts
    by (auto simp: loop_fields lists edit_ok_def edit_Clear_def set_defs)
qed

section \<open>Any input\<close>

lemma GetLengthPrefixedSlice_short: "GetLengthPrefixedSlice input = (Some key, rest) \<Longrightarrow> short key"
proof -
  assume "GetLengthPrefixedSlice input = (Some key, rest)"
  then obtain len q where "key = take (unat (len :: u32)) q"
    by (auto simp: GetLengthPrefixedSlice_def split: prod.splits option.splits if_splits)
  moreover have "unat len < 2 ^ 32" using unsigned_less [of len, where ?'a = nat] by simp
  ultimately show ?thesis by (simp add: short_def)
qed

lemma GetInternalKey_short: "GetInternalKey input = Some (key, rest) \<Longrightarrow> short key"
  by (auto simp: GetInternalKey_def intro: GetLengthPrefixedSlice_short)

lemma GetLevel_ok: "GetLevel input = Some (level, rest) \<Longrightarrow> level_ok level"
proof -
  assume "GetLevel input = Some (level, rest)"
  then obtain v :: u32 where v: "v < 7" "level = sint v"
    by (auto simp: GetLevel_def kNumLevels_def split: option.splits if_splits prod.splits)
  then have "uint v < 7" by (simp add: word_less_def)
  then have "sint v = uint v" using signed_take_bit_int_eq_self [of 31 "uint v"] order_trans [of "- 2147483648" 0 "uint v"] by (simp add: sint_uint)
  with \<open>uint v < 7\<close> v show ?thesis by (simp add: level_ok_def kNumLevels_def)
qed

lemma decode_new_file_ok: "decode_new_file input = Some ((level, f), rest) \<Longrightarrow> level_ok level \<and> meta_ok f"
  by (auto simp: decode_new_file_def meta_ok_def FileMetaData_new_def split: bind_splits
      dest!: GetLevel_ok GetInternalKey_short)

lemma edit_field_ok: "edit_field tag input e = Inr (rest, e') \<Longrightarrow> edit_ok e \<Longrightarrow> edit_ok e'"
  by (auto simp: edit_field_def number_field_def split: if_splits option.splits bind_splits
      intro!: built_ok dest: GetLengthPrefixedSlice_short GetLevel_ok GetInternalKey_short decode_new_file_ok)
    (auto simp: edit_ok_def levels_ok_def dest: decode_new_file_ok)

lemma decode_edit_loop_ok: "decode_edit_loop input e = (msg, rest, e') \<Longrightarrow> edit_ok e \<Longrightarrow> edit_ok e'"
proof (induction input e rule: decode_edit_loop.induct)
  case (1 input e)
  from "1.prems" show ?case
    by (subst (asm) decode_edit_loop.simps)
      (auto split: option.splits sum.splits prod.splits dest: edit_field_ok intro: "1.IH")
qed

lemma edit_ok_Clear: "edit_ok e \<Longrightarrow> edit_ok (edit_Clear e)"
  by (simp add: ok_defs edit_Clear_def)

text \<open>C17: An edit with levels in range and strings below 4 GB is written by \<^verbatim>\<open>EncodeTo\<close> and read back by
  \<^verbatim>\<open>DecodeFrom\<close>: the status is OK and every field is the same. An edit object that is decoded into a second time
  keeps its old compaction pointers in front, because \<^verbatim>\<open>Clear\<close> leaves them.\<close>

theorem version_edit_roundtrip:
  assumes "edit_ok e"
  shows "edit_DecodeFrom (EncodeTo e []) VersionEdit_new = (Status_OK, e)
    \<and> edit_DecodeFrom (EncodeTo e []) e0
        = (Status_OK, e\<lparr>ve_compact_pointers := ve_compact_pointers e0 @ ve_compact_pointers e\<rparr>)"
  using decode_Encode [OF assms, of e0] decode_Encode [OF assms, of VersionEdit_new]
  by (simp add: edit_DecodeFrom_def VersionEdit_new_def)

theorem version_edit_roundtrip_witness:
  "let e = DeleteFile 2 9 (AddFile 1 7 4096 [1, 2] [3] (SetCompactPointer 6 [5] (SetLogNumber 300 VersionEdit_new)))
   in edit_DecodeFrom (EncodeTo e []) e = (Status_OK, e\<lparr>ve_compact_pointers := [(6, [5]), (6, [5])]\<rparr>)"
proof -
  let ?e = "DeleteFile 2 9 (AddFile 1 7 4096 [1, 2] [3] (SetCompactPointer 6 [5] (SetLogNumber 300 VersionEdit_new)))"
  have "edit_ok ?e" by (intro built_ok) (simp_all add: level_ok_def kNumLevels_def short_def)
  from version_edit_roundtrip [OF this, of ?e] show ?thesis
    by (simp add: DeleteFile_def AddFile_def SetCompactPointer_def SetLogNumber_def VersionEdit_new_def)
qed

text \<open>C21: On any bytes \<^verbatim>\<open>DecodeFrom\<close> ends, with OK or the corruption error that names a field, and whatever it read
  is an edit with levels 0 to 6, a sorted set of deleted files and file records as new, which written out again
  is read back unchanged.\<close>

theorem version_edit_decode_any:
  assumes "edit_DecodeFrom src VersionEdit_new = (s, e)"
  shows "edit_ok e \<and> edit_DecodeFrom (EncodeTo e []) VersionEdit_new = (Status_OK, e)
    \<and> (s = Status_OK \<or> (\<exists>msg. s = Status_Corruption (cstr ''VersionEdit'') (cstr msg)))"
proof -
  obtain msg rest where loop: "decode_edit_loop src (edit_Clear VersionEdit_new) = (msg, rest, e)"
    and s: "s = Status_OK \<or> (\<exists>msg. s = Status_Corruption (cstr ''VersionEdit'') (cstr msg))"
    using assms by (auto simp: edit_DecodeFrom_def Let_def split: prod.splits option.splits)
  have ok: "edit_ok e" using decode_edit_loop_ok [OF loop] built_ok(1) edit_ok_Clear by simp
  show ?thesis
    using ok s decode_Encode [OF ok, of VersionEdit_new] by (simp add: edit_DecodeFrom_def VersionEdit_new_def)
qed

theorem version_edit_decode_any_witness:
  "edit_DecodeFrom [2, 5, 6, 9] VersionEdit_new
     = (Status_Corruption (cstr ''VersionEdit'') (cstr ''deleted file''), SetLogNumber 5 VersionEdit_new)
   \<and> edit_ok (SetLogNumber 5 VersionEdit_new)"
proof -
  have "edit_DecodeFrom [2, 5, 6, 9] VersionEdit_new
     = (Status_Corruption (cstr ''VersionEdit'') (cstr ''deleted file''), SetLogNumber 5 VersionEdit_new)"
    by code_simp
  with version_edit_decode_any [OF this] show ?thesis by blast
qed

end
