(* ===== verification/Ldb_Version.thy ===== *)
theory Ldb_Version
  imports Ldb_Version_Edit
begin

text \<open>
  The table files of a version, from \<^verbatim>\<open>db/version_set.cc\<close>: the binary search for a file, the tests for overlap
  with a range of user keys, the choice of the level for a new table and the collection of the inputs of a
  compaction. A \<^verbatim>\<open>Version\<close> is the list of its levels; \<^verbatim>\<open>FileMetaData\<close> objects are values, so their reference
  counts are not kept. Indices are natural numbers: the sum of two indices stays below \<^verbatim>\<open>2^32\<close> because a level
  has far fewer than \<^verbatim>\<open>2^31\<close> files.
\<close>

section \<open>Limits\<close>

record Options =
  opt_max_file_size :: size_t

text \<open>The limits are computed in \<^verbatim>\<open>int\<close> and then widened; a product that leaves the range is undefined in C++ and
  wraps on the compilers in use.\<close>

definition TargetFileSize :: "Options \<Rightarrow> 32 word" where
  "TargetFileSize options = ucast (opt_max_file_size options)"

definition MaxGrandParentOverlapBytes :: "Options \<Rightarrow> int" where
  "MaxGrandParentOverlapBytes options = sint (10 * TargetFileSize options)"

definition ExpandedCompactionByteSizeLimit :: "Options \<Rightarrow> int" where
  "ExpandedCompactionByteSizeLimit options = sint (25 * TargetFileSize options)"

definition MaxFileSizeForLevel :: "Options \<Rightarrow> int \<Rightarrow> u64" where
  "MaxFileSizeForLevel options level = scast (TargetFileSize options)"

definition TotalFileSize :: "FileMetaData list \<Rightarrow> int" where
  "TotalFileSize files = sint (fold (\<lambda>f sum. sum + fm_file_size f) files (0 :: u64))"

definition kMaxMemCompactLevel :: nat where "kMaxMemCompactLevel = 2"

section \<open>Searching the files of a level\<close>

function find_file_loop :: "comparator \<Rightarrow> FileMetaData list \<Rightarrow> slice \<Rightarrow> nat \<Rightarrow> nat \<Rightarrow> nat" where
  "find_file_loop ucmp files key left right =
     (if left < right
      then let mid = (left + right) div 2; f = files ! mid in
        if InternalKeyCompare ucmp (fm_largest f) key < 0 then find_file_loop ucmp files key (mid + 1) right
        else find_file_loop ucmp files key left mid
      else right)"
  by pat_completeness auto
termination by (relation "measure (\<lambda>(ucmp, files, key, left, right). right - left)") auto

declare find_file_loop.simps [simp del]

definition FindFile :: "comparator \<Rightarrow> FileMetaData list \<Rightarrow> slice \<Rightarrow> nat" where
  "FindFile ucmp files key = find_file_loop ucmp files key 0 (length files)"

definition AfterFile :: "comparator \<Rightarrow> slice option \<Rightarrow> FileMetaData \<Rightarrow> bool" where
  "AfterFile ucmp uk f =
     (case uk of None \<Rightarrow> False | Some k \<Rightarrow> cmp_compare ucmp k (ExtractUserKey (fm_largest f)) > 0)"

definition BeforeFile :: "comparator \<Rightarrow> slice option \<Rightarrow> FileMetaData \<Rightarrow> bool" where
  "BeforeFile ucmp uk f =
     (case uk of None \<Rightarrow> False | Some k \<Rightarrow> cmp_compare ucmp k (ExtractUserKey (fm_smallest f)) < 0)"

fun overlap_loop :: "comparator \<Rightarrow> slice option \<Rightarrow> slice option \<Rightarrow> FileMetaData list \<Rightarrow> bool" where
  "overlap_loop ucmp smallest_user_key largest_user_key [] = False"
| "overlap_loop ucmp smallest_user_key largest_user_key (f # files) =
     (if AfterFile ucmp smallest_user_key f \<or> BeforeFile ucmp largest_user_key f
      then overlap_loop ucmp smallest_user_key largest_user_key files
      else True)"

definition SomeFileOverlapsRange :: "comparator \<Rightarrow> bool \<Rightarrow> FileMetaData list \<Rightarrow> slice option \<Rightarrow> slice option \<Rightarrow> bool" where
  "SomeFileOverlapsRange ucmp disjoint_sorted_files files smallest_user_key largest_user_key =
     (if \<not> disjoint_sorted_files then overlap_loop ucmp smallest_user_key largest_user_key files
      else
        let index = (case smallest_user_key of
                       None \<Rightarrow> 0
                     | Some k \<Rightarrow> FindFile ucmp files (InternalKey_new k kMaxSequenceNumber kValueTypeForSeek)) in
        if index \<ge> length files then False
        else \<not> BeforeFile ucmp largest_user_key (files ! index))"

section \<open>Versions\<close>

record Version =
  v_files :: "FileMetaData list list"

definition OverlapInLevel :: "comparator \<Rightarrow> Version \<Rightarrow> nat \<Rightarrow> slice option \<Rightarrow> slice option \<Rightarrow> bool" where
  "OverlapInLevel ucmp v level smallest_user_key largest_user_key =
     SomeFileOverlapsRange ucmp (level > 0) (v_files v ! level) smallest_user_key largest_user_key"

text \<open>The loop of \<^verbatim>\<open>GetOverlappingInputs\<close> over the files that are left; at level 0 it starts again from the first
  file when a file widens the range.\<close>

partial_function (option) overlapping_loop ::
    "comparator \<Rightarrow> bool \<Rightarrow> FileMetaData list \<Rightarrow> slice option \<Rightarrow> slice option \<Rightarrow> FileMetaData list \<Rightarrow> FileMetaData list
     \<Rightarrow> FileMetaData list option" where
  "overlapping_loop ucmp level0 all_files user_begin user_end inputs files =
     (case files of
        [] \<Rightarrow> Some inputs
      | f # rest \<Rightarrow>
          let file_start = ExtractUserKey (fm_smallest f); file_limit = ExtractUserKey (fm_largest f) in
          if (case user_begin of None \<Rightarrow> False | Some b \<Rightarrow> cmp_compare ucmp file_limit b < 0)
          then overlapping_loop ucmp level0 all_files user_begin user_end inputs rest
          else if (case user_end of None \<Rightarrow> False | Some e \<Rightarrow> cmp_compare ucmp file_start e > 0)
          then overlapping_loop ucmp level0 all_files user_begin user_end inputs rest
          else if level0 \<and> (case user_begin of None \<Rightarrow> False | Some b \<Rightarrow> cmp_compare ucmp file_start b < 0)
          then overlapping_loop ucmp level0 all_files (Some file_start) user_end [] all_files
          else if level0 \<and> (case user_end of None \<Rightarrow> False | Some e \<Rightarrow> cmp_compare ucmp file_limit e > 0)
          then overlapping_loop ucmp level0 all_files user_begin (Some file_limit) [] all_files
          else overlapping_loop ucmp level0 all_files user_begin user_end (inputs @ [f]) rest)"

definition GetOverlappingInputs :: "comparator \<Rightarrow> Version \<Rightarrow> nat \<Rightarrow> InternalKey option \<Rightarrow> InternalKey option \<Rightarrow> FileMetaData list option" where
  "GetOverlappingInputs ucmp v level begin_key end_key =
     overlapping_loop ucmp (level = 0) (v_files v ! level) (map_option ExtractUserKey begin_key)
       (map_option ExtractUserKey end_key) [] (v_files v ! level)"

text \<open>\<^verbatim>\<open>None\<close> would be a call of \<^verbatim>\<open>GetOverlappingInputs\<close> that does not return.\<close>

function pick_level_loop :: "comparator \<Rightarrow> Options \<Rightarrow> Version \<Rightarrow> slice \<Rightarrow> slice \<Rightarrow> nat \<Rightarrow> nat option" where
  "pick_level_loop ucmp options v smallest_user_key largest_user_key level =
     (if level < kMaxMemCompactLevel
      then if OverlapInLevel ucmp v (level + 1) (Some smallest_user_key) (Some largest_user_key) then Some level
        else if int level + 2 < kNumLevels
        then (case GetOverlappingInputs ucmp v (level + 2) (Some (InternalKey_new smallest_user_key kMaxSequenceNumber kValueTypeForSeek))
                (Some (InternalKey_new largest_user_key 0 0)) of
                None \<Rightarrow> None
              | Some overlaps \<Rightarrow>
                  if TotalFileSize overlaps > MaxGrandParentOverlapBytes options then Some level
                  else pick_level_loop ucmp options v smallest_user_key largest_user_key (level + 1))
        else pick_level_loop ucmp options v smallest_user_key largest_user_key (level + 1)
      else Some level)"
  by pat_completeness auto
termination by (relation "measure (\<lambda>(ucmp, options, v, s, l, level). kMaxMemCompactLevel - level)") auto

declare pick_level_loop.simps [simp del]

definition PickLevelForMemTableOutput :: "comparator \<Rightarrow> Options \<Rightarrow> Version \<Rightarrow> slice \<Rightarrow> slice \<Rightarrow> nat option" where
  "PickLevelForMemTableOutput ucmp options v smallest_user_key largest_user_key =
     (if \<not> OverlapInLevel ucmp v 0 (Some smallest_user_key) (Some largest_user_key)
      then pick_level_loop ucmp options v smallest_user_key largest_user_key 0
      else Some 0)"

section \<open>Binary search\<close>

text \<open>On a list whose elements with the property come first, the search returns their number.\<close>

lemma find_file_loop_bounds:
  assumes "left \<le> right" "right \<le> length files"
    and "\<And>i. i < left \<Longrightarrow> InternalKeyCompare ucmp (fm_largest (files ! i)) key < 0"
    and "\<And>i. right \<le> i \<Longrightarrow> i < length files \<Longrightarrow> \<not> InternalKeyCompare ucmp (fm_largest (files ! i)) key < 0"
    and "sorted_wrt (\<lambda>f g. InternalKeyCompare ucmp (fm_largest g) key < 0 \<longrightarrow> InternalKeyCompare ucmp (fm_largest f) key < 0) files"
  shows "find_file_loop ucmp files key left right = length (takeWhile (\<lambda>f. InternalKeyCompare ucmp (fm_largest f) key < 0) files)"
  using assms
proof (induction ucmp files key left right rule: find_file_loop.induct)
  case (1 ucmp files key left right)
  let ?P = "\<lambda>f. InternalKeyCompare ucmp (fm_largest f) key < 0"
  let ?mid = "(left + right) div 2"
  note sorted = "1.prems"(5)
  have down: "?P (files ! i)" if "?P (files ! j)" "i \<le> j" "j < length files" for i j
    using sorted_wrt_nth_less [OF sorted, of i j] that by (cases "i = j") auto
  show ?case
  proof (cases "left < right")
    case True
    then have mid: "left \<le> ?mid" "?mid < right" by linarith+
    show ?thesis
    proof (cases "?P (files ! ?mid)")
      case True
      have "find_file_loop ucmp files key (?mid + 1) right = length (takeWhile ?P files)"
        using mid "1.prems" down [OF True] by (intro "1.IH"(1) [OF \<open>left < right\<close> refl refl True]) auto
      with True \<open>left < right\<close> show ?thesis by (subst find_file_loop.simps) (simp add: Let_def)
    next
      case False
      with down mid "1.prems" \<open>left < right\<close> show ?thesis
        by (subst find_file_loop.simps) (auto simp: Let_def intro!: "1.IH"(2) [of ?mid "files ! ?mid"])
    qed
  next
    case False
    with "1.prems"(1) have eq: "left = right" by simp
    have "takeWhile ?P files = take right files"
      using "1.prems"(3,4) eq by (intro takeWhile_eq_take_P_nth) auto
    then have "length (takeWhile ?P files) = right" using "1.prems"(2) by simp
    with False show ?thesis by (subst find_file_loop.simps) simp
  qed
qed

section \<open>Sorted levels\<close>

text \<open>Above level 0 the files hold disjoint ranges of internal keys, in order. Neighbours may share a user key.\<close>

definition file_ok :: "comparator \<Rightarrow> FileMetaData \<Rightarrow> bool" where
  "file_ok ucmp f \<longleftrightarrow> ParseInternalKey (fm_smallest f) \<noteq> None \<and> ParseInternalKey (fm_largest f) \<noteq> None
     \<and> InternalKeyCompare ucmp (fm_smallest f) (fm_largest f) \<le> 0"

definition level_sorted :: "comparator \<Rightarrow> FileMetaData list \<Rightarrow> bool" where
  "level_sorted ucmp files \<longleftrightarrow> list_all (file_ok ucmp) files
     \<and> sorted_wrt (\<lambda>f g. InternalKeyCompare ucmp (fm_largest f) (fm_smallest g) < 0) files"

lemma tag_le_max:
  assumes "ParseInternalKey k \<noteq> None"
  shows "key_tag k \<le> PackSequenceAndType kMaxSequenceNumber kValueTypeForSeek"
proof -
  let ?t = "unat (key_tag k)"
  have "ucast (key_tag k AND 0xFF) \<le> kTypeValue"
    using assms by (auto simp: Parse_None_iff ExtractValueType_def Let_def)
  moreover have "(ucast (key_tag k AND 0xFF) :: byte) = ucast (key_tag k)"
    by (rule bit_word_eqI) (auto simp: bit_simps)
  ultimately have "?t mod 256 \<le> 1"
    by (simp add: word_le_nat_alt kTypeValue_def unat_ucast_byte)
  moreover have "?t < 2 ^ 64" using unsigned_less [of "key_tag k", where ?'a = nat] by simp
  then have "?t div 256 < 72057594037927936" using less_mult_imp_div_less [of ?t "2 ^ 56" 256] by simp
  moreover have "?t = ?t div 256 * 256 + ?t mod 256" by simp
  ultimately have "?t \<le> 18446744073709551361" by linarith
  then show ?thesis
    by (simp add: word_le_nat_alt unat_pack kMaxSequenceNumber_def push_bit_eq_mult kValueTypeForSeek_def kTypeValue_def)
qed

lemma InternalKey_new_parts:
  "ExtractUserKey (InternalKey_new k s t) = k" "key_tag (InternalKey_new k s t) = PackSequenceAndType s t"
  using encode_internal_parts [of "\<lparr>user_key = k, sequence = s, vtype = t\<rparr>"]
  by (simp_all add: InternalKey_new_def encode_internal_def)

lemma overlap_loop_iff:
  "overlap_loop ucmp b e files \<longleftrightarrow> (\<exists>f \<in> set files. \<not> AfterFile ucmp b f \<and> \<not> BeforeFile ucmp e f)"
  by (induction files) auto

context internal_order
begin

sublocale ikc: cmp_order "InternalKeyCompare user" UNIV
  by unfold_locales (auto intro: internal_compare_refl internal_compare_trans simp: internal_compare_sym)

lemma FindFile_level:
  assumes "level_sorted user files"
  shows "FindFile user files key = length (takeWhile (\<lambda>f. InternalKeyCompare user (fm_largest f) key < 0) files)"
proof -
  have "sorted_wrt (\<lambda>f g. InternalKeyCompare user (fm_largest g) key < 0 \<longrightarrow> InternalKeyCompare user (fm_largest f) key < 0) files"
  proof (rule sorted_wrt_mono_rel)
    show "sorted_wrt (\<lambda>f g. InternalKeyCompare user (fm_largest f) (fm_smallest g) < 0) files"
      using assms by (simp add: level_sorted_def)
    show "InternalKeyCompare user (fm_largest g) key < 0 \<longrightarrow> InternalKeyCompare user (fm_largest f) key < 0"
      if "f \<in> set files" "g \<in> set files" "InternalKeyCompare user (fm_largest f) (fm_smallest g) < 0" for f g
    proof -
      have "InternalKeyCompare user (fm_smallest g) (fm_largest g) \<le> 0"
        using assms that(2) by (auto simp: level_sorted_def list_all_iff file_ok_def)
      then show ?thesis
        using that(3) ikc.less_le_trans [of "fm_largest f" "fm_smallest g" "fm_largest g"]
          ikc.less_le_trans [of "fm_largest f" "fm_largest g" key] by simp
    qed
  qed
  then show ?thesis
    unfolding FindFile_def by (intro find_file_loop_bounds) auto
qed

lemma seek_before_file:
  assumes "file_ok user f"
  shows "InternalKeyCompare user (fm_largest f) (InternalKey_new k kMaxSequenceNumber kValueTypeForSeek) < 0
    \<longleftrightarrow> AfterFile user (Some k) f"
  using assms tag_le_max [of "fm_largest f"] compare_sym [of "ExtractUserKey (fm_largest f)" k]
  by (auto simp: file_ok_def AfterFile_def internal_sign(1) InternalKey_new_parts)

lemma later_file_before:
  assumes "file_ok user f" "InternalKeyCompare user (fm_largest f) (fm_smallest g) < 0" "BeforeFile user e f"
  shows "BeforeFile user e g"
proof -
  have "InternalKeyCompare user (fm_smallest f) (fm_smallest g) < 0"
    using assms ikc.le_less_trans [of "fm_smallest f" "fm_largest f" "fm_smallest g"] by (simp add: file_ok_def)
  then have "cmp_compare user (ExtractUserKey (fm_smallest f)) (ExtractUserKey (fm_smallest g)) \<le> 0"
    by (auto simp: internal_sign)
  with assms(3) show ?thesis
    by (auto simp: BeforeFile_def split: option.splits intro: less_le_trans)
qed

lemma some_file_overlaps:
  assumes "level_sorted user files"
  shows "SomeFileOverlapsRange user True files b e = overlap_loop user b e files"
proof -
  define n where "n = length (takeWhile (AfterFile user b) files)"
  have ok: "file_ok user f" if "f \<in> set files" for f using assms that by (auto simp: level_sorted_def list_all_iff)
  have index: "(case b of None \<Rightarrow> 0 | Some k \<Rightarrow> FindFile user files (InternalKey_new k kMaxSequenceNumber kValueTypeForSeek)) = n"
  proof (cases b)
    case None
    then have "AfterFile user b = (\<lambda>f. False)" by (simp add: AfterFile_def fun_eq_iff)
    then show ?thesis by (cases files) (simp_all add: None n_def)
  next
    case (Some k)
    then show ?thesis
      unfolding n_def using FindFile_level [OF assms] ok
      by (simp add: seek_before_file cong: takeWhile_cong)
  qed
  have split: "files = takeWhile (AfterFile user b) files @ drop n files"
    unfolding n_def by (metis append_take_drop_id takeWhile_eq_take)
  show ?thesis
  proof (cases "n < length files")
    case False
    then have "takeWhile (AfterFile user b) files = files" using split by auto
    then have "\<forall>f \<in> set files. AfterFile user b f" by (metis takeWhile_eq_all_conv)
    with False show ?thesis by (auto simp: SomeFileOverlapsRange_def index overlap_loop_iff)
  next
    case True
    have at_n: "\<not> AfterFile user b (files ! n)" using True nth_length_takeWhile [of "AfterFile user b" files] by (simp add: n_def)
    have "BeforeFile user e g" if "BeforeFile user e (files ! n)" "g \<in> set files" "\<not> AfterFile user b g" for g
    proof -
      obtain j where j: "g = files ! j" "j < length files" using \<open>g \<in> set files\<close> by (auto simp: in_set_conv_nth)
      have "\<not> j < n" using \<open>\<not> AfterFile user b g\<close> j by (metis n_def nth_mem set_takeWhileD takeWhile_nth)
      then consider "j = n" | "n < j" by linarith
      then show ?thesis
        using that(1) j True ok assms sorted_wrt_nth_less [of _ files n j] later_file_before [of "files ! n" "files ! j" e]
        by cases (auto simp: level_sorted_def)
    qed
    then show ?thesis
      using True at_n by (auto simp: SomeFileOverlapsRange_def index overlap_loop_iff Let_def)
  qed
qed

end

section \<open>The inputs of a compaction\<close>

text \<open>A file inside a range, a range inside another; an absent bound is infinite.\<close>

abbreviation (input) file_start :: "FileMetaData \<Rightarrow> slice" where
  "file_start f \<equiv> ExtractUserKey (fm_smallest f)"

abbreviation (input) file_limit :: "FileMetaData \<Rightarrow> slice" where
  "file_limit f \<equiv> ExtractUserKey (fm_largest f)"

definition in_range :: "comparator \<Rightarrow> slice option \<Rightarrow> slice option \<Rightarrow> FileMetaData \<Rightarrow> bool" where
  "in_range ucmp b e f \<longleftrightarrow> \<not> AfterFile ucmp b f \<and> \<not> BeforeFile ucmp e f"

definition starts_below :: "comparator \<Rightarrow> slice option \<Rightarrow> FileMetaData \<Rightarrow> bool" where
  "starts_below ucmp b f \<longleftrightarrow> (case b of None \<Rightarrow> False | Some k \<Rightarrow> cmp_compare ucmp (file_start f) k < 0)"

definition ends_above :: "comparator \<Rightarrow> slice option \<Rightarrow> FileMetaData \<Rightarrow> bool" where
  "ends_above ucmp e f \<longleftrightarrow> (case e of None \<Rightarrow> False | Some k \<Rightarrow> cmp_compare ucmp (file_limit f) k > 0)"

definition contained :: "comparator \<Rightarrow> slice option \<Rightarrow> slice option \<Rightarrow> FileMetaData \<Rightarrow> bool" where
  "contained ucmp b e f \<longleftrightarrow> \<not> starts_below ucmp b f \<and> \<not> ends_above ucmp e f"

definition wider :: "comparator \<Rightarrow> slice option \<Rightarrow> slice option \<Rightarrow> slice option \<Rightarrow> slice option \<Rightarrow> bool" where
  "wider ucmp b e b' e' \<longleftrightarrow>
     (case b of None \<Rightarrow> b' = None | Some k \<Rightarrow> (\<exists>k'. b' = Some k' \<and> cmp_compare ucmp k' k \<le> 0))
     \<and> (case e of None \<Rightarrow> e' = None | Some k \<Rightarrow> (\<exists>k'. e' = Some k' \<and> cmp_compare ucmp k k' \<le> 0))"

context internal_order
begin

lemma loop_unfold:
  "overlapping_loop user level0 all_files b e inputs (f # rest) =
     (if \<not> in_range user b e f then overlapping_loop user level0 all_files b e inputs rest
      else if level0 \<and> starts_below user b f then overlapping_loop user level0 all_files (Some (file_start f)) e [] all_files
      else if level0 \<and> ends_above user e f then overlapping_loop user level0 all_files b (Some (file_limit f)) [] all_files
      else overlapping_loop user level0 all_files b e (inputs @ [f]) rest)"
proof -
  have "(case b of None \<Rightarrow> False | Some k \<Rightarrow> cmp_compare user (file_limit f) k < 0) = AfterFile user b f"
    "(case e of None \<Rightarrow> False | Some k \<Rightarrow> cmp_compare user (file_start f) k > 0) = BeforeFile user e f"
    using compare_sym by (simp_all add: AfterFile_def BeforeFile_def split: option.splits)
  then show ?thesis
    by (subst overlapping_loop.simps) (simp add: Let_def in_range_def starts_below_def ends_above_def)
qed

lemma loop_plain: "overlapping_loop user False all_files b e inputs files = Some (inputs @ filter (in_range user b e) files)"
  by (induction files arbitrary: inputs) (simp_all add: loop_unfold overlapping_loop.simps [of _ _ _ _ _ _ "[]"])

lemma wider_refl: "wider user b e b e"
  using compare_refl by (auto simp: wider_def split: option.splits)

lemma wider_trans: "wider user b e b' e' \<Longrightarrow> wider user b' e' b'' e'' \<Longrightarrow> wider user b e b'' e''"
  by (fastforce simp: wider_def split: option.splits intro: compare_trans)

lemma wider_start: "starts_below user b f \<Longrightarrow> wider user b e (Some (file_start f)) e"
  using compare_refl by (auto simp: wider_def starts_below_def split: option.splits)

lemma wider_limit: "ends_above user e f \<Longrightarrow> wider user b e b (Some (file_limit f))"
  using compare_refl compare_le_iff by (auto simp: wider_def ends_above_def split: option.splits)

text \<open>Each restart leaves fewer files that reach out of the range.\<close>

definition outside :: "FileMetaData list \<Rightarrow> slice option \<Rightarrow> slice option \<Rightarrow> nat" where
  "outside files b e = length (filter (starts_below user b) files) + length (filter (ends_above user e) files)"

lemma length_filter_strict:
  "x \<in> set xs \<Longrightarrow> P x \<Longrightarrow> \<not> Q x \<Longrightarrow> (\<And>y. Q y \<Longrightarrow> P y) \<Longrightarrow> length (filter Q xs) < length (filter P xs)"
proof (induction xs)
  case (Cons y xs)
  have "length (filter Q xs) \<le> length (filter P xs)" using Cons.prems(4) by (induction xs) (auto intro: le_SucI)
  with Cons show ?case by (auto simp: less_Suc_eq_le)
qed simp

lemma outside_start:
  assumes "f \<in> set files" "starts_below user b f"
  shows "outside files (Some (file_start f)) e < outside files b e"
proof -
  have "length (filter (starts_below user (Some (file_start f))) files) < length (filter (starts_below user b) files)"
    using assms compare_refl less_le_trans less_imp_le
    by (intro length_filter_strict [of f]) (fastforce simp: starts_below_def split: option.splits)+
  then show ?thesis by (simp add: outside_def)
qed

lemma outside_limit:
  assumes "f \<in> set files" "ends_above user e f"
  shows "outside files b (Some (file_limit f)) < outside files b e"
proof -
  have "ends_above user e g" if "ends_above user (Some (file_limit f)) g" for g
    using that assms(2) compare_sym less_le_trans [of _ "file_limit f" "file_limit g"]
    by (auto simp: ends_above_def less_imp_le split: option.splits)
  then have "length (filter (ends_above user (Some (file_limit f))) files) < length (filter (ends_above user e) files)"
    using assms compare_refl by (intro length_filter_strict [of f]) (simp_all add: ends_above_def)
  then show ?thesis by (simp add: outside_def)
qed

lemma loop_level0:
  assumes "all_files = pre @ files" and "inputs = filter (in_range user b e) pre" and "list_all (contained user b e) inputs"
  shows "\<exists>b' e'. overlapping_loop user True all_files b e inputs files = Some (filter (in_range user b' e') all_files)
    \<and> wider user b e b' e' \<and> list_all (contained user b' e') (filter (in_range user b' e') all_files)"
  using assms
proof (induction "outside all_files b e * Suc (length all_files) + length files" arbitrary: b e inputs pre files rule: less_induct)
  case less
  show ?case
  proof (cases files)
    case Nil
    with less.prems show ?thesis
      by (intro exI [of _ b] exI [of _ e]) (simp add: overlapping_loop.simps [of _ _ _ _ _ _ "[]"] wider_refl)
  next
    case (Cons f rest)
    have restart: "outside all_files b' e' * Suc (length all_files) + length all_files
        < outside all_files b e * Suc (length all_files) + length files" if "outside all_files b' e' < outside all_files b e" for b' e'
    proof -
      have "Suc (outside all_files b' e') * Suc (length all_files) \<le> outside all_files b e * Suc (length all_files)"
        using that by (intro mult_le_mono1) simp
      then show ?thesis by (simp add: Cons)
    qed
    have f: "f \<in> set all_files" using less.prems(1) Cons by simp
    have next_file: "all_files = (pre @ [f]) @ rest" using less.prems(1) Cons by simp
    show ?thesis
    proof (cases "in_range user b e f")
      case False
      then show ?thesis
        using less.hyps [OF _ next_file, of b e inputs] less.prems Cons by (simp add: loop_unfold)
    next
      case in_range: True
      show ?thesis
      proof (cases "starts_below user b f")
        case True
        then obtain b' e' where "overlapping_loop user True all_files (Some (file_start f)) e [] all_files = Some (filter (in_range user b' e') all_files)"
          "wider user (Some (file_start f)) e b' e'" "list_all (contained user b' e') (filter (in_range user b' e') all_files)"
          using less.hyps [OF restart [OF outside_start [OF f True]], of "[]" "[]"] by auto
        then show ?thesis
          using in_range True wider_trans [OF wider_start [OF True]] by (intro exI [of _ b'] exI [of _ e']) (simp add: Cons loop_unfold)
      next
        case start: False
        show ?thesis
        proof (cases "ends_above user e f")
          case True
          then obtain b' e' where "overlapping_loop user True all_files b (Some (file_limit f)) [] all_files = Some (filter (in_range user b' e') all_files)"
            "wider user b (Some (file_limit f)) b' e'" "list_all (contained user b' e') (filter (in_range user b' e') all_files)"
            using less.hyps [OF restart [OF outside_limit [OF f True]], of "[]" "[]"] by auto
          then show ?thesis
            using in_range start True wider_trans [OF wider_limit [OF True]]
            by (intro exI [of _ b'] exI [of _ e']) (simp add: Cons loop_unfold)
        next
          case False
          then show ?thesis
            using in_range start less.hyps [OF _ next_file, of b e "inputs @ [f]"] less.prems Cons
            by (simp add: loop_unfold contained_def)
        qed
      qed
    qed
  qed
qed

lemma overlapping_inputs:
  "\<exists>b e inputs. GetOverlappingInputs user v level begin_key end_key = Some inputs
     \<and> inputs = filter (in_range user b e) (v_files v ! level)
     \<and> wider user (map_option ExtractUserKey begin_key) (map_option ExtractUserKey end_key) b e
     \<and> (if level = 0 then list_all (contained user b e) inputs
        else b = map_option ExtractUserKey begin_key \<and> e = map_option ExtractUserKey end_key)"
proof (cases "level = 0")
  case True
  then show ?thesis
    using loop_level0 [of "v_files v ! 0" "[]" "v_files v ! 0" "[]" "map_option ExtractUserKey begin_key" "map_option ExtractUserKey end_key"]
    by (auto simp: GetOverlappingInputs_def)
next
  case False
  then show ?thesis by (simp add: GetOverlappingInputs_def loop_plain wider_refl)
qed

text \<open>Two files with a user key in common, for files whose bounds are in order.\<close>

lemma closed_inputs:
  assumes "in_range user b e f" "contained user b e f" "\<not> in_range user b e g" "b \<noteq> None" "e \<noteq> None"
    and "cmp_compare user (file_start g) (file_limit g) \<le> 0"
  shows "cmp_compare user (file_limit g) (file_start f) < 0 \<or> cmp_compare user (file_limit f) (file_start g) < 0"
proof -
  obtain kb ke where k: "b = Some kb" "e = Some ke" using assms(4,5) by auto
  have f: "cmp_compare user kb (file_start f) \<le> 0" "cmp_compare user (file_limit f) ke \<le> 0"
    using assms(2) compare_le_iff [of kb "file_start f"] by (auto simp: contained_def k starts_below_def ends_above_def)
  from assms(3) consider "cmp_compare user (file_limit g) kb < 0" | "cmp_compare user ke (file_start g) < 0"
    using compare_sym by (auto simp: in_range_def k AfterFile_def BeforeFile_def)
  then show ?thesis
    using f less_le_trans [of "file_limit g" kb "file_start f"] le_less_trans [of "file_limit f" ke "file_start g"] by cases auto
qed

end

section \<open>Properties\<close>

text \<open>C20: On a level whose files hold disjoint, ascending ranges, \<^verbatim>\<open>FindFile\<close> returns the index of the first file whose
  largest key is not before the key (the number of files if there is none), and the binary search of
  \<^verbatim>\<open>SomeFileOverlapsRange\<close> answers as the loop over all files does, with either bound present or absent.\<close>

theorem file_search_correct:
  assumes "level_sorted BytewiseComparator files"
  shows "FindFile BytewiseComparator files key
      = length (takeWhile (\<lambda>f. InternalKeyCompare BytewiseComparator (fm_largest f) key < 0) files)
    \<and> SomeFileOverlapsRange BytewiseComparator True files b e = SomeFileOverlapsRange BytewiseComparator False files b e"
  using ikeys.FindFile_level [OF assms] ikeys.some_file_overlaps [OF assms] by (simp add: SomeFileOverlapsRange_def)

definition example_file :: "u64 \<Rightarrow> byte \<Rightarrow> byte \<Rightarrow> FileMetaData" where
  "example_file num lo hi = FileMetaData_new num 100 (InternalKey_new [lo] 3 kTypeValue) (InternalKey_new [hi] 8 kTypeValue)"

lemma example_files:
  "level_sorted BytewiseComparator [example_file 1 10 20, example_file 2 20 30, example_file 3 50 60]"
  by code_simp

theorem file_search_witness:
  "SomeFileOverlapsRange BytewiseComparator True [example_file 1 10 20, example_file 2 20 30, example_file 3 50 60] (Some [20]) (Some [25])
   \<and> \<not> SomeFileOverlapsRange BytewiseComparator True [example_file 1 10 20, example_file 2 20 30, example_file 3 50 60] (Some [31]) (Some [40])"
proof -
  have "SomeFileOverlapsRange BytewiseComparator False [example_file 1 10 20, example_file 2 20 30, example_file 3 50 60] (Some [20]) (Some [25])"
    "\<not> SomeFileOverlapsRange BytewiseComparator False [example_file 1 10 20, example_file 2 20 30, example_file 3 50 60] (Some [31]) (Some [40])"
    by code_simp+
  then show ?thesis using file_search_correct [OF example_files] by simp
qed

text \<open>C18: \<^verbatim>\<open>GetOverlappingInputs\<close> returns, at every level, although the search starts over at level 0 whenever a file
  widens the range. Above level 0 it collects exactly the files that overlap the given range of user keys. At level
  0 it collects the files that overlap a range at least as wide, in which all of them are contained, so that with
  both bounds given no file that is left out has a user key in common with one that is taken.\<close>

theorem overlapping_inputs_correct:
  "\<exists>b e inputs. GetOverlappingInputs BytewiseComparator v level begin_key end_key = Some inputs
     \<and> inputs = filter (in_range BytewiseComparator b e) (v_files v ! level)
     \<and> wider BytewiseComparator (map_option ExtractUserKey begin_key) (map_option ExtractUserKey end_key) b e
     \<and> (if level = 0 then list_all (contained BytewiseComparator b e) inputs
        else b = map_option ExtractUserKey begin_key \<and> e = map_option ExtractUserKey end_key)
     \<and> (level = 0 \<and> begin_key \<noteq> None \<and> end_key \<noteq> None \<longrightarrow>
        (\<forall>f \<in> set inputs. \<forall>g \<in> set (v_files v ! level) - set inputs. file_ok BytewiseComparator g \<longrightarrow>
          BytewiseCompare (ExtractUserKey (fm_largest g)) (ExtractUserKey (fm_smallest f)) < 0
          \<or> BytewiseCompare (ExtractUserKey (fm_largest f)) (ExtractUserKey (fm_smallest g)) < 0))"
proof -
  obtain b e where range: "GetOverlappingInputs BytewiseComparator v level begin_key end_key
      = Some (filter (in_range BytewiseComparator b e) (v_files v ! level))"
    "wider BytewiseComparator (map_option ExtractUserKey begin_key) (map_option ExtractUserKey end_key) b e"
    "if level = 0 then list_all (contained BytewiseComparator b e) (filter (in_range BytewiseComparator b e) (v_files v ! level))
     else b = map_option ExtractUserKey begin_key \<and> e = map_option ExtractUserKey end_key"
    using ikeys.overlapping_inputs [of v level begin_key end_key] by blast
  have user_order: "cmp_compare BytewiseComparator (file_start g) (file_limit g) \<le> 0" if "file_ok BytewiseComparator g" for g
    using that ikeys.internal_sign(3) by (auto simp: file_ok_def)
  have bounds: "b \<noteq> None" "e \<noteq> None" if "begin_key \<noteq> None" "end_key \<noteq> None"
    using that range(2) by (auto simp: wider_def split: option.splits)
  have "cmp_compare BytewiseComparator (file_limit g) (file_start f) < 0 \<or> cmp_compare BytewiseComparator (file_limit f) (file_start g) < 0"
    if "level = 0" "begin_key \<noteq> None" "end_key \<noteq> None" "f \<in> set (filter (in_range BytewiseComparator b e) (v_files v ! level))"
      "g \<in> set (v_files v ! level) - set (filter (in_range BytewiseComparator b e) (v_files v ! level))" "file_ok BytewiseComparator g" for f g
    using range(3) that by (intro ikeys.closed_inputs [of b e] bounds user_order) (auto simp: list_all_iff)
  then have "level = 0 \<and> begin_key \<noteq> None \<and> end_key \<noteq> None \<longrightarrow>
      (\<forall>f \<in> set (filter (in_range BytewiseComparator b e) (v_files v ! level)).
       \<forall>g \<in> set (v_files v ! level) - set (filter (in_range BytewiseComparator b e) (v_files v ! level)). file_ok BytewiseComparator g \<longrightarrow>
          BytewiseCompare (file_limit g) (file_start f) < 0 \<or> BytewiseCompare (file_limit f) (file_start g) < 0)"
    by (simp add: BytewiseComparator_def)
  with range show ?thesis by blast
qed

theorem overlapping_inputs_witness:
  "\<exists>b e. GetOverlappingInputs BytewiseComparator \<lparr>v_files = [[example_file 1 10 20, example_file 2 15 30, example_file 3 50 60]]\<rparr> 0
       (Some (InternalKey_new [12] 1 kTypeValue)) (Some (InternalKey_new [14] 1 kTypeValue))
     = Some (filter (in_range BytewiseComparator b e) [example_file 1 10 20, example_file 2 15 30, example_file 3 50 60])"
  using overlapping_inputs_correct [of "\<lparr>v_files = [[example_file 1 10 20, example_file 2 15 30, example_file 3 50 60]]\<rparr>" 0
      "Some (InternalKey_new [12] 1 kTypeValue)" "Some (InternalKey_new [14] 1 kTypeValue)"]
  unfolding Version.simps nth_Cons_0 by blast

lemma pick_level_loop_result:
  "\<exists>l. pick_level_loop BytewiseComparator options v s t level = Some l \<and> level \<le> l \<and> l \<le> max level kMaxMemCompactLevel
     \<and> (\<forall>i. level < i \<and> i \<le> l \<longrightarrow> \<not> OverlapInLevel BytewiseComparator v i (Some s) (Some t))"
proof (induction BytewiseComparator options v s t level rule: pick_level_loop.induct)
  case (1 options v s t level)
  obtain inputs where inputs: "GetOverlappingInputs BytewiseComparator v (level + 2) (Some (InternalKey_new s kMaxSequenceNumber kValueTypeForSeek))
      (Some (InternalKey_new t 0 0)) = Some inputs"
    using ikeys.overlapping_inputs [of v "level + 2"] by blast
  show ?case
  proof (cases "level < kMaxMemCompactLevel \<and> \<not> OverlapInLevel BytewiseComparator v (level + 1) (Some s) (Some t)
      \<and> \<not> (int level + 2 < kNumLevels \<and> TotalFileSize inputs > MaxGrandParentOverlapBytes options)")
    case True
    then obtain l where l: "pick_level_loop BytewiseComparator options v s t (level + 1) = Some l" "level + 1 \<le> l"
      "l \<le> max (level + 1) kMaxMemCompactLevel"
      "\<forall>i. level + 1 < i \<and> i \<le> l \<longrightarrow> \<not> OverlapInLevel BytewiseComparator v i (Some s) (Some t)"
      using "1.hyps" inputs by (cases "int level + 2 < kNumLevels") blast+
    have "pick_level_loop BytewiseComparator options v s t level = Some l"
      using True inputs l(1) by (subst pick_level_loop.simps) auto
    moreover have "\<not> OverlapInLevel BytewiseComparator v i (Some s) (Some t)" if "level < i" "i \<le> l" for i
      using that l(4) True by (cases "i = level + 1") auto
    ultimately show ?thesis using l True by (intro exI [of _ l]) (auto simp: max_def split: if_splits)
  next
    case False
    then have "pick_level_loop BytewiseComparator options v s t level = Some level"
      using inputs by (subst pick_level_loop.simps) auto
    then show ?thesis by auto
  qed
qed

text \<open>C19: \<^verbatim>\<open>PickLevelForMemTableOutput\<close> returns a level of at most 2 for a new table, and when the level is not 0, no file
  of that level or of a lower-numbered one has a user key in the range of the table, so that the table never hides
  below older data, provided the files above level 0 are sorted and disjoint.\<close>

theorem memtable_level_safe:
  assumes "\<forall>l. 0 < l \<and> l \<le> 2 \<longrightarrow> level_sorted BytewiseComparator (v_files v ! l)"
  shows "\<exists>level. PickLevelForMemTableOutput BytewiseComparator options v s t = Some level \<and> level \<le> 2
    \<and> (level = 0 \<or> (\<forall>l \<le> level. \<forall>f \<in> set (v_files v ! l).
         BytewiseCompare s (ExtractUserKey (fm_largest f)) > 0 \<or> BytewiseCompare t (ExtractUserKey (fm_smallest f)) < 0))"
proof -
  have disjoint: "\<forall>f \<in> set (v_files v ! l). BytewiseCompare s (file_limit f) > 0 \<or> BytewiseCompare t (file_start f) < 0"
    if "\<not> OverlapInLevel BytewiseComparator v l (Some s) (Some t)" "l \<le> 2" for l
  proof -
    have "\<not> overlap_loop BytewiseComparator (Some s) (Some t) (v_files v ! l)"
      using that assms ikeys.some_file_overlaps [of "v_files v ! l" "Some s" "Some t"]
      by (cases "l = 0") (auto simp: OverlapInLevel_def SomeFileOverlapsRange_def)
    then show ?thesis
      unfolding overlap_loop_iff by (auto simp: AfterFile_def BeforeFile_def BytewiseComparator_def)
  qed
  show ?thesis
  proof (cases "OverlapInLevel BytewiseComparator v 0 (Some s) (Some t)")
    case True
    then show ?thesis by (simp add: PickLevelForMemTableOutput_def)
  next
    case False
    obtain l where l: "pick_level_loop BytewiseComparator options v s t 0 = Some l" "l \<le> 2"
      "\<forall>i. 0 < i \<and> i \<le> l \<longrightarrow> \<not> OverlapInLevel BytewiseComparator v i (Some s) (Some t)"
      using pick_level_loop_result [of options v s t 0] by (auto simp: kMaxMemCompactLevel_def)
    have "\<forall>f \<in> set (v_files v ! i). BytewiseCompare s (file_limit f) > 0 \<or> BytewiseCompare t (file_start f) < 0" if "i \<le> l" for i
      using disjoint [of i] that l False by (cases "i = 0") auto
    with l False show ?thesis by (auto simp: PickLevelForMemTableOutput_def)
  qed
qed

theorem memtable_level_safe_witness:
  "\<exists>level. PickLevelForMemTableOutput BytewiseComparator \<lparr>opt_max_file_size = 2097152\<rparr>
     \<lparr>v_files = [[], [example_file 1 10 20], [example_file 2 30 40], [], [], [], []]\<rparr> [25] [28] = Some level \<and> level \<le> 2"
proof -
  let ?v = "\<lparr>v_files = [[], [example_file 1 10 20], [example_file 2 30 40], [], [], [], []]\<rparr>"
  have "level_sorted BytewiseComparator (v_files ?v ! 1)" "level_sorted BytewiseComparator (v_files ?v ! 2)" by code_simp+
  then have "\<forall>l. 0 < l \<and> l \<le> 2 \<longrightarrow> level_sorted BytewiseComparator (v_files ?v ! l)"
    by (auto simp: le_Suc_eq numeral_2_eq_2)
  from memtable_level_safe [OF this, of "\<lparr>opt_max_file_size = 2097152\<rparr>" "[25]" "[28]"] show ?thesis by blast
qed

text \<open>The largest file size that the options allow makes the limit on grandparent overlap negative.\<close>

lemma overlap_limit_wraps: "MaxGrandParentOverlapBytes \<lparr>opt_max_file_size = 2 ^ 30\<rparr> = - (2 ^ 31)"
  by (simp add: MaxGrandParentOverlapBytes_def TargetFileSize_def)

end
