(* ===== verification/Ldb_Version_Builder.thy ===== *)
theory Ldb_Version_Builder
  imports Ldb_Version
begin

text \<open>
  Applying edits to a version, from \<^verbatim>\<open>VersionSet::Builder\<close> of \<^verbatim>\<open>db/version_set.cc\<close>. The builder keeps, per level, the
  numbers of deleted files and the ordered set of added ones, and merges them with the base version at the end.
  The specification applies one edit after the other to the set of files of a level; the builder agrees with it
  when file numbers are not used twice on a level. Reference counts are memory management and are not kept.
\<close>

section \<open>The builder\<close>

definition BySmallestKey :: "comparator \<Rightarrow> FileMetaData \<Rightarrow> FileMetaData \<Rightarrow> bool" where
  "BySmallestKey ucmp f1 f2 =
     (let r = InternalKeyCompare ucmp (fm_smallest f1) (fm_smallest f2) in
      if r \<noteq> 0 then r < 0 else fm_number f1 < fm_number f2)"

text \<open>\<^verbatim>\<open>std::set::insert\<close>: in order, and not when there is an equivalent element.\<close>

fun set_insert :: "('a \<Rightarrow> 'a \<Rightarrow> bool) \<Rightarrow> 'a \<Rightarrow> 'a list \<Rightarrow> 'a list" where
  "set_insert lt x [] = [x]"
| "set_insert lt x (y # ys) = (if lt x y then x # y # ys else if lt y x then y # set_insert lt x ys else y # ys)"

record LevelState =
  ls_deleted_files :: "u64 set"
  ls_added_files :: "FileMetaData list"

record Builder =
  bd_compact_pointer :: "slice list"
  bd_base :: Version
  bd_levels :: "LevelState list"

definition Builder_new :: "slice list \<Rightarrow> Version \<Rightarrow> Builder" where
  "Builder_new compact_pointer base =
     \<lparr>bd_compact_pointer = compact_pointer, bd_base = base,
      bd_levels = replicate (nat kNumLevels) \<lparr>ls_deleted_files = {}, ls_added_files = []\<rparr>\<rparr>"

definition set_pointer :: "int \<times> InternalKey \<Rightarrow> slice list \<Rightarrow> slice list" where
  "set_pointer p pointers = pointers[nat (fst p) := snd p]"

definition delete_file :: "int \<times> u64 \<Rightarrow> LevelState list \<Rightarrow> LevelState list" where
  "delete_file p levels =
     (let s = levels ! nat (fst p) in levels[nat (fst p) := s\<lparr>ls_deleted_files := insert (snd p) (ls_deleted_files s)\<rparr>])"

definition allowed_seeks :: "u64 \<Rightarrow> int" where
  "allowed_seeks file_size = (let n = sint (ucast (file_size div 16384) :: 32 word) in if n < 100 then 100 else n)"

definition new_meta :: "FileMetaData \<Rightarrow> FileMetaData" where
  "new_meta f = f\<lparr>fm_refs := 1, fm_allowed_seeks := allowed_seeks (fm_file_size f)\<rparr>"

definition add_file :: "comparator \<Rightarrow> int \<times> FileMetaData \<Rightarrow> LevelState list \<Rightarrow> LevelState list" where
  "add_file ucmp p levels =
     (let f = new_meta (snd p); s = levels ! nat (fst p) in
      levels[nat (fst p) := s\<lparr>ls_deleted_files := ls_deleted_files s - {fm_number f},
                              ls_added_files := set_insert (BySmallestKey ucmp) f (ls_added_files s)\<rparr>])"

definition Apply :: "comparator \<Rightarrow> VersionEdit \<Rightarrow> Builder \<Rightarrow> Builder" where
  "Apply ucmp edit b =
     (let pointers = fold set_pointer (ve_compact_pointers edit) (bd_compact_pointer b);
          levels = fold delete_file (ve_deleted_files edit) (bd_levels b);
          levels = fold (add_file ucmp) (ve_new_files edit) levels
      in b\<lparr>bd_compact_pointer := pointers, bd_levels := levels\<rparr>)"

definition MaybeAddFile :: "u64 set \<Rightarrow> FileMetaData \<Rightarrow> FileMetaData list \<Rightarrow> FileMetaData list" where
  "MaybeAddFile deleted f files = (if fm_number f \<in> deleted then files else files @ [f])"

text \<open>\<^verbatim>\<open>std::upper_bound\<close> is the first base file that the added file comes before.\<close>

fun save_level :: "(FileMetaData \<Rightarrow> FileMetaData \<Rightarrow> bool) \<Rightarrow> u64 set \<Rightarrow> FileMetaData list \<Rightarrow> FileMetaData list \<Rightarrow> FileMetaData list
    \<Rightarrow> FileMetaData list" where
  "save_level cmp deleted base_files [] files = fold (MaybeAddFile deleted) base_files files"
| "save_level cmp deleted base_files (added # rest) files =
     (let smaller = takeWhile (\<lambda>f. \<not> cmp added f) base_files;
          files = fold (MaybeAddFile deleted) smaller files;
          files = MaybeAddFile deleted added files
      in save_level cmp deleted (drop (length smaller) base_files) rest files)"

definition SaveTo :: "comparator \<Rightarrow> Builder \<Rightarrow> Version" where
  "SaveTo ucmp b =
     \<lparr>v_files = map (\<lambda>level. let s = bd_levels b ! level in
         save_level (BySmallestKey ucmp) (ls_deleted_files s) (v_files (bd_base b) ! level) (ls_added_files s) [])
       [0..<nat kNumLevels]\<rparr>"

section \<open>The specification\<close>

definition deleted_at :: "nat \<Rightarrow> VersionEdit \<Rightarrow> u64 set" where
  "deleted_at level edit = {number. (int level, number) \<in> set (ve_deleted_files edit)}"

definition added_at :: "nat \<Rightarrow> VersionEdit \<Rightarrow> FileMetaData list" where
  "added_at level edit = map (new_meta \<circ> snd) (filter (\<lambda>p. fst p = int level) (ve_new_files edit))"

definition edit_files :: "nat \<Rightarrow> VersionEdit \<Rightarrow> FileMetaData set \<Rightarrow> FileMetaData set" where
  "edit_files level edit S = {f \<in> S. fm_number f \<notin> deleted_at level edit} \<union> set (added_at level edit)"

text \<open>File numbers are new on the level.\<close>

fun fresh_numbers :: "nat \<Rightarrow> u64 set \<Rightarrow> VersionEdit list \<Rightarrow> bool" where
  "fresh_numbers level used [] = True"
| "fresh_numbers level used (edit # edits) \<longleftrightarrow>
     distinct (map fm_number (added_at level edit)) \<and> used \<inter> fm_number ` set (added_at level edit) = {}
     \<and> fresh_numbers level (used \<union> fm_number ` set (added_at level edit)) edits"

section \<open>Saving a level\<close>

lemma fold_MaybeAddFile: "fold (MaybeAddFile deleted) fs files = files @ filter (\<lambda>f. fm_number f \<notin> deleted) fs"
  by (induction fs arbitrary: files) (simp_all add: MaybeAddFile_def)

fun merge_files :: "('a \<Rightarrow> 'a \<Rightarrow> bool) \<Rightarrow> 'a list \<Rightarrow> 'a list \<Rightarrow> 'a list" where
  "merge_files lt base [] = base"
| "merge_files lt base (a # as) =
     takeWhile (\<lambda>f. \<not> lt a f) base @ a # merge_files lt (dropWhile (\<lambda>f. \<not> lt a f) base) as"

lemma save_level_merge:
  "save_level lt deleted base added files = files @ filter (\<lambda>f. fm_number f \<notin> deleted) (merge_files lt base added)"
  by (induction added arbitrary: base files) (simp_all add: fold_MaybeAddFile MaybeAddFile_def dropWhile_eq_drop Let_def)

lemma set_merge: "set (merge_files lt base added) = set base \<union> set added"
proof (induction added arbitrary: base)
  case (Cons a as)
  have "set base = set (takeWhile (\<lambda>f. \<not> lt a f) base) \<union> set (dropWhile (\<lambda>f. \<not> lt a f) base)"
    by (metis set_append takeWhile_dropWhile_id)
  with Cons show ?case by auto
qed simp

text \<open>A strict order that is total between the elements compared.\<close>

locale strict_order =
  fixes lt :: "'a \<Rightarrow> 'a \<Rightarrow> bool"
  assumes lt_trans: "lt x y \<Longrightarrow> lt y z \<Longrightarrow> lt x z"
    and lt_irrefl: "\<not> lt x x"
begin

lemma sorted_merge:
  assumes "sorted_wrt lt base" "sorted_wrt lt added" "\<And>x a. x \<in> set base \<Longrightarrow> a \<in> set added \<Longrightarrow> lt x a \<or> lt a x"
  shows "sorted_wrt lt (merge_files lt base added)"
  using assms
proof (induction added arbitrary: base)
  case (Cons a as)
  let ?less = "takeWhile (\<lambda>f. \<not> lt a f) base" and ?rest = "dropWhile (\<lambda>f. \<not> lt a f) base"
  have split: "base = ?less @ ?rest" by simp
  have sorted: "sorted_wrt lt ?less" "sorted_wrt lt ?rest"
    using Cons.prems(1) by (metis split sorted_wrt_append)+
  have below: "lt x a" if "x \<in> set ?less" for x
    using Cons.prems(3) [of x a] that by (auto dest: set_takeWhileD)
  have above: "lt a x" if "x \<in> set ?rest" for x
  proof -
    have "?rest \<noteq> []" using that by (metis empty_iff empty_set)
    then obtain r rs where r: "?rest = r # rs" unfolding neq_Nil_conv by blast
    then have "lt a r" by (metis dropWhile_eq_Cons_conv)
    with that r sorted(2) show ?thesis by (auto intro: lt_trans)
  qed
  have merged: "sorted_wrt lt (merge_files lt ?rest as)"
  proof (rule Cons.IH)
    show "sorted_wrt lt as" using Cons.prems(2) by simp
    show "lt x y \<or> lt y x" if "x \<in> set ?rest" "y \<in> set as" for x y
      using Cons.prems(3) [of x y] that by (auto dest: set_dropWhileD)
  qed (rule sorted(2))
  have above': "lt a y" if "y \<in> set (merge_files lt ?rest as)" for y
  proof -
    from that have "y \<in> set ?rest \<or> y \<in> set as" by (simp add: set_merge)
    then show ?thesis using above [of y] Cons.prems(2) by auto
  qed
  show ?case
    unfolding merge_files.simps sorted_wrt_append sorted_wrt.simps list.set
    using sorted(1) merged above' below lt_trans by blast
qed simp

lemma set_insert_set: "(\<And>y. y \<in> set ys \<Longrightarrow> lt x y \<or> lt y x) \<Longrightarrow> set (set_insert lt x ys) = insert x (set ys)"
  by (induction ys) auto

lemma set_insert_sorted:
  "sorted_wrt lt ys \<Longrightarrow> (\<And>y. y \<in> set ys \<Longrightarrow> lt x y \<or> lt y x) \<Longrightarrow> sorted_wrt lt (set_insert lt x ys)"
  by (induction ys) (auto simp: set_insert_set intro: lt_trans)

end

section \<open>The order of files\<close>

context internal_order
begin

sublocale by_smallest: strict_order "BySmallestKey user"
proof
  fix x y z
  assume xy: "BySmallestKey user x y" and yz: "BySmallestKey user y z"
  let ?c = "\<lambda>f g. InternalKeyCompare user (fm_smallest f) (fm_smallest g)"
  have le: "?c x y \<le> 0" "?c y z \<le> 0" using xy yz by (auto simp: BySmallestKey_def Let_def split: if_splits)
  show "BySmallestKey user x z"
  proof (cases "?c x y < 0 \<or> ?c y z < 0")
    case True
    then have "?c x z < 0" using le ikc.less_le_trans ikc.le_less_trans by blast
    then show ?thesis by (simp add: BySmallestKey_def)
  next
    case False
    then have "?c x y = 0" "?c y z = 0" using le by auto
    moreover from this have "fm_number x < fm_number z" using xy yz by (auto simp: BySmallestKey_def)
    moreover have "?c x z \<le> 0" using le ikc.compare_trans by blast
    ultimately show ?thesis by (auto simp: BySmallestKey_def Let_def)
  qed
next
  show "\<not> BySmallestKey user x x" for x by (simp add: BySmallestKey_def internal_compare_refl)
qed

lemma by_smallest_total: "fm_number x \<noteq> fm_number y \<Longrightarrow> BySmallestKey user x y \<or> BySmallestKey user y x"
  using internal_compare_sym [of "fm_smallest x" "fm_smallest y"] internal_compare_sym [of "fm_smallest y" "fm_smallest x"]
  by (auto simp: BySmallestKey_def Let_def)

text \<open>A level of pairwise disjoint files in this order is sorted in the sense of the searches.\<close>

lemma disjoint_level_sorted:
  assumes "sorted_wrt (BySmallestKey user) files" "list_all (file_ok user) files"
    and "\<And>f g. f \<in> set files \<Longrightarrow> g \<in> set files \<Longrightarrow> f \<noteq> g \<Longrightarrow>
      InternalKeyCompare user (fm_largest f) (fm_smallest g) < 0 \<or> InternalKeyCompare user (fm_largest g) (fm_smallest f) < 0"
  shows "level_sorted user files"
proof -
  have "InternalKeyCompare user (fm_largest f) (fm_smallest g) < 0"
    if "f \<in> set files" "g \<in> set files" "BySmallestKey user f g" for f g
  proof (rule ccontr)
    assume "\<not> InternalKeyCompare user (fm_largest f) (fm_smallest g) < 0"
    then have "InternalKeyCompare user (fm_largest g) (fm_smallest f) < 0"
      using assms(3) [of f g] that by_smallest.lt_irrefl by auto
    moreover have "InternalKeyCompare user (fm_smallest g) (fm_largest g) \<le> 0"
      using assms(2) that by (auto simp: list_all_iff file_ok_def)
    ultimately have "InternalKeyCompare user (fm_smallest g) (fm_smallest f) < 0" using ikc.le_less_trans by blast
    with that(3) show False
      using internal_compare_sym [of "fm_smallest g" "fm_smallest f"] by (auto simp: BySmallestKey_def Let_def split: if_splits)
  qed
  with assms(1,2) show ?thesis unfolding level_sorted_def by (auto intro: sorted_wrt_mono_rel)
qed

end

section \<open>Applying edits\<close>

lemma file_steps [simp]:
  "length (delete_file p levels) = length levels" "length (add_file ucmp q levels) = length levels"
  "l < length levels \<Longrightarrow> 0 \<le> fst p \<Longrightarrow> delete_file p levels ! l =
     (if fst p = int l then (levels ! l)\<lparr>ls_deleted_files := insert (snd p) (ls_deleted_files (levels ! l))\<rparr> else levels ! l)"
  "l < length levels \<Longrightarrow> 0 \<le> fst q \<Longrightarrow> add_file ucmp q levels ! l =
     (if fst q = int l then (levels ! l)\<lparr>ls_deleted_files := ls_deleted_files (levels ! l) - {fm_number (new_meta (snd q))},
        ls_added_files := set_insert (BySmallestKey ucmp) (new_meta (snd q)) (ls_added_files (levels ! l))\<rparr> else levels ! l)"
  by (auto simp: delete_file_def add_file_def Let_def nth_list_update)

lemma length_fold_files [simp]:
  "length (fold delete_file ds levels) = length levels" "length (fold (add_file ucmp) fs levels) = length levels"
proof -
  show "length (fold delete_file ds levels) = length levels" by (induction ds arbitrary: levels) simp_all
  show "length (fold (add_file ucmp) fs levels) = length levels" by (induction fs arbitrary: levels) simp_all
qed

lemma delete_files_level:
  "l < length levels \<Longrightarrow> list_all (\<lambda>p. 0 \<le> fst p) ds \<Longrightarrow> fold delete_file ds levels ! l =
     (levels ! l)\<lparr>ls_deleted_files := ls_deleted_files (levels ! l) \<union> {number. (int l, number) \<in> set ds}\<rparr>"
proof (induction ds arbitrary: levels)
  case (Cons p ds)
  have "{number. (int l, number) \<in> set (p # ds)}
      = (if fst p = int l then insert (snd p) {number. (int l, number) \<in> set ds} else {number. (int l, number) \<in> set ds})"
    by (cases p) auto
  with Cons show ?case by simp
qed simp

lemma add_files_level:
  "l < length levels \<Longrightarrow> list_all (\<lambda>p. 0 \<le> fst p) fs \<Longrightarrow> fold (add_file ucmp) fs levels ! l =
     (let fs' = map (new_meta \<circ> snd) (filter (\<lambda>p. fst p = int l) fs) in
      (levels ! l)\<lparr>ls_deleted_files := ls_deleted_files (levels ! l) - fm_number ` set fs',
        ls_added_files := fold (set_insert (BySmallestKey ucmp)) fs' (ls_added_files (levels ! l))\<rparr>)"
proof (induction fs arbitrary: levels)
  case (Cons p fs)
  have "D - {n} - N = D - insert n N" for D N and n :: u64 by auto
  with Cons show ?case by (simp add: Let_def)
qed simp

lemma Apply_level:
  assumes "l < length (bd_levels b)" "levels_ok edit"
  shows "bd_levels (Apply ucmp edit b) ! l =
     (bd_levels b ! l)\<lparr>ls_deleted_files := (ls_deleted_files (bd_levels b ! l) \<union> deleted_at l edit) - fm_number ` set (added_at l edit),
        ls_added_files := fold (set_insert (BySmallestKey ucmp)) (added_at l edit) (ls_added_files (bd_levels b ! l))\<rparr>"
proof -
  have "list_all (\<lambda>p. 0 \<le> fst p) (ve_deleted_files edit)" "list_all (\<lambda>p. 0 \<le> fst p) (ve_new_files edit)"
    using assms(2) by (auto simp: levels_ok_def list_all_iff level_ok_def)
  with assms(1) show ?thesis
    by (simp add: Apply_def Let_def add_files_level delete_files_level deleted_at_def added_at_def)
qed

lemma Apply_simps [simp]: "bd_base (Apply ucmp edit b) = bd_base b" "length (bd_levels (Apply ucmp edit b)) = length (bd_levels b)"
  by (simp_all add: Apply_def Let_def)

text \<open>The state of a level stands for a set of files.\<close>

definition stands_for :: "comparator \<Rightarrow> FileMetaData list \<Rightarrow> u64 set \<Rightarrow> LevelState \<Rightarrow> FileMetaData set \<Rightarrow> bool" where
  "stands_for ucmp base used s S \<longleftrightarrow>
     fm_number ` (set base \<union> set (ls_added_files s)) \<subseteq> used
     \<and> fm_number ` set base \<inter> fm_number ` set (ls_added_files s) = {}
     \<and> sorted_wrt (BySmallestKey ucmp) (ls_added_files s)
     \<and> S = {f \<in> set base \<union> set (ls_added_files s). fm_number f \<notin> ls_deleted_files s}"

context internal_order
begin

lemma insert_files:
  assumes "sorted_wrt (BySmallestKey user) added" "distinct (map fm_number fs)" "fm_number ` set fs \<inter> fm_number ` set added = {}"
  shows "set (fold (set_insert (BySmallestKey user)) fs added) = set fs \<union> set added
    \<and> sorted_wrt (BySmallestKey user) (fold (set_insert (BySmallestKey user)) fs added)"
  using assms
proof (induction fs arbitrary: added)
  case (Cons f fs)
  have total: "BySmallestKey user f y \<or> BySmallestKey user y f" if "y \<in> set added" for y
    using Cons.prems(3) that by (intro by_smallest_total) auto
  have set: "set (set_insert (BySmallestKey user) f added) = insert f (set added)"
    using total by (rule by_smallest.set_insert_set)
  have sorted: "sorted_wrt (BySmallestKey user) (set_insert (BySmallestKey user) f added)"
    using Cons.prems(1) total by (rule by_smallest.set_insert_sorted)
  have "fm_number ` set fs \<inter> fm_number ` set (set_insert (BySmallestKey user) f added) = {}"
    using Cons.prems(2,3) by (auto simp: set)
  from Cons.IH [OF sorted _ this] Cons.prems(2) show ?case by (auto simp: set)
qed simp

lemma Apply_stands_for:
  assumes "stands_for user base used (bd_levels b ! l) S" "l < length (bd_levels b)" "levels_ok edit"
    and "distinct (map fm_number (added_at l edit))" "used \<inter> fm_number ` set (added_at l edit) = {}"
  shows "stands_for user base (used \<union> fm_number ` set (added_at l edit)) (bd_levels (Apply user edit b) ! l) (edit_files l edit S)"
proof -
  let ?A = "ls_added_files (bd_levels b ! l)" and ?N = "added_at l edit"
  have old: "fm_number ` (set base \<union> set ?A) \<subseteq> used" "fm_number ` set base \<inter> fm_number ` set ?A = {}"
    "sorted_wrt (BySmallestKey user) ?A" "S = {f \<in> set base \<union> set ?A. fm_number f \<notin> ls_deleted_files (bd_levels b ! l)}"
    using assms(1) by (simp_all add: stands_for_def)
  have "fm_number ` set ?N \<inter> fm_number ` set ?A = {}" using old(1) assms(5) by blast
  note new = insert_files [OF old(3) assms(4) this]
  have new_numbers: "fm_number f \<notin> fm_number ` set ?N" if "f \<in> set base \<union> set ?A" for f
    using that old(1) assms(5) by blast
  show ?thesis
    unfolding stands_for_def Apply_level [OF assms(2,3)]
  proof (intro conjI, goal_cases)
    case 1
    then show ?case using new old(1) by auto
  next
    case 2
    have "fm_number ` set base \<inter> fm_number ` set ?N = {}" using old(1) assms(5) by blast
    with new old(2) show ?case by (simp add: image_Un Int_Un_distrib)
  next
    case 3
    then show ?case using new by simp
  next
    case 4
    then show ?case using new new_numbers by (auto simp: edit_files_def old(4))
  qed
qed

lemma Applies_stand_for:
  assumes "stands_for user base used (bd_levels b ! l) S" "l < length (bd_levels b)" "list_all levels_ok edits" "fresh_numbers l used edits"
  shows "\<exists>used'. stands_for user base used' (bd_levels (fold (Apply user) edits b) ! l) (fold (edit_files l) edits S)"
  using assms
proof (induction edits arbitrary: b used S)
  case (Cons edit edits)
  then show ?case using Apply_stands_for [OF Cons.prems(1,2), of edit] by auto
qed auto

lemma SaveTo_level:
  assumes "stands_for user (v_files (bd_base b) ! l) used (bd_levels b ! l) S" "l < nat kNumLevels"
    and "sorted_wrt (BySmallestKey user) (v_files (bd_base b) ! l)"
  shows "set (v_files (SaveTo user b) ! l) = S \<and> sorted_wrt (BySmallestKey user) (v_files (SaveTo user b) ! l)"
proof -
  let ?base = "v_files (bd_base b) ! l" and ?s = "bd_levels b ! l"
  have files: "v_files (SaveTo user b) ! l
      = filter (\<lambda>f. fm_number f \<notin> ls_deleted_files ?s) (merge_files (BySmallestKey user) ?base (ls_added_files ?s))"
    using assms(2) by (simp add: SaveTo_def save_level_merge Let_def)
  have "sorted_wrt (BySmallestKey user) (merge_files (BySmallestKey user) ?base (ls_added_files ?s))"
    using assms(1,3) by (intro by_smallest.sorted_merge by_smallest_total) (auto simp: stands_for_def)
  then show ?thesis
    using assms(1) unfolding files by (auto simp: set_merge stands_for_def sorted_wrt_filter)
qed

end

section \<open>Properties\<close>

text \<open>C16: A builder that starts from a version, applies a sequence of edits and saves gives, on every level, exactly the
  files that applying the edits one after the other gives, in the order of their smallest keys, when the file
  numbers of the edits are new on the level. When these files are well-formed and pairwise disjoint, the level is
  in the form that the searches of \<^verbatim>\<open>FindFile\<close> and \<^verbatim>\<open>SomeFileOverlapsRange\<close> rely on.\<close>

theorem version_builder_correct:
  assumes "l < 7" and "sorted_wrt (BySmallestKey BytewiseComparator) (v_files base ! l)" and "list_all levels_ok edits"
    and "fresh_numbers l (fm_number ` set (v_files base ! l)) edits"
    and "files = v_files (SaveTo BytewiseComparator (fold (Apply BytewiseComparator) edits (Builder_new pointers base))) ! l"
  shows "set files = fold (edit_files l) edits (set (v_files base ! l))
    \<and> sorted_wrt (BySmallestKey BytewiseComparator) files
    \<and> (list_all (file_ok BytewiseComparator) files
       \<and> (\<forall>f \<in> set files. \<forall>g \<in> set files. f \<noteq> g \<longrightarrow>
            InternalKeyCompare BytewiseComparator (fm_largest f) (fm_smallest g) < 0
            \<or> InternalKeyCompare BytewiseComparator (fm_largest g) (fm_smallest f) < 0)
       \<longrightarrow> level_sorted BytewiseComparator files)"
proof -
  let ?b = "Builder_new pointers base"
  have len: "l < length (bd_levels ?b)" using assms(1) by (simp add: Builder_new_def kNumLevels_def)
  have start: "stands_for BytewiseComparator (v_files base ! l) (fm_number ` set (v_files base ! l)) (bd_levels ?b ! l) (set (v_files base ! l))"
    using assms(1) by (simp add: stands_for_def Builder_new_def kNumLevels_def)
  obtain used where applied: "stands_for BytewiseComparator (v_files base ! l) used
      (bd_levels (fold (Apply BytewiseComparator) edits ?b) ! l) (fold (edit_files l) edits (set (v_files base ! l)))"
    using ikeys.Applies_stand_for [OF start len assms(3,4)] by blast
  have base: "bd_base (fold (Apply BytewiseComparator) edits b) = bd_base b" for b
    by (induction edits arbitrary: b) simp_all
  have saved: "set files = fold (edit_files l) edits (set (v_files base ! l)) \<and> sorted_wrt (BySmallestKey BytewiseComparator) files"
    unfolding assms(5) using assms(1,2) applied
    by (intro ikeys.SaveTo_level [where used = used]) (simp_all add: base Builder_new_def kNumLevels_def)
  then show ?thesis using ikeys.disjoint_level_sorted [of files] by blast
qed

theorem version_builder_witness:
  "let base = \<lparr>v_files = [[], [example_file 1 10 20, example_file 3 50 60], [], [], [], [], []]\<rparr>;
       edit = DeleteFile 1 1 (AddFile 1 7 40000000 (InternalKey_new [30] 3 kTypeValue) (InternalKey_new [40] 8 kTypeValue) VersionEdit_new);
       files = v_files (SaveTo BytewiseComparator (fold (Apply BytewiseComparator) [edit] (Builder_new [] base))) ! 1
   in set files = fold (edit_files 1) [edit] {example_file 1 10 20, example_file 3 50 60}"
proof -
  let ?base = "\<lparr>v_files = [[], [example_file 1 10 20, example_file 3 50 60], [], [], [], [], []]\<rparr>"
  let ?edit = "DeleteFile 1 1 (AddFile 1 7 40000000 (InternalKey_new [30] 3 kTypeValue) (InternalKey_new [40] 8 kTypeValue) VersionEdit_new)"
  have sorted: "sorted_wrt (BySmallestKey BytewiseComparator) (v_files ?base ! 1)" by code_simp
  have ok: "edit_ok ?edit" 
    by (intro built_ok) (simp_all add: level_ok_def kNumLevels_def short_def InternalKey_new_def AppendInternalKey_def PutFixed64_def)
  then have levels: "list_all levels_ok [?edit]" by (simp add: edit_ok_def)
  have fresh: "fresh_numbers 1 (fm_number ` set (v_files ?base ! 1)) [?edit]"
    by (simp add: added_at_def DeleteFile_def AddFile_def VersionEdit_new_def new_meta_def FileMetaData_new_def example_file_def)
  from version_builder_correct [OF _ sorted levels fresh refl, of "[]"] show ?thesis by simp
qed

end
