(* ===== verification/Ldb_Format.thy ===== *)
theory Ldb_Format
  imports Ldb_File Ldb_Crc32c
begin

text \<open>
  The format of table files, from \<^verbatim>\<open>table/format.h\<close> and \<^verbatim>\<open>table/format.cc\<close>: block handles, the footer, and reading a block
  with its trailer from a random access file. The random access files are those of \<^verbatim>\<open>util/env_posix.cc\<close>, over
  \<^verbatim>\<open>pread\<close> and over mapped memory. \<^const>\<open>None\<close> is an access outside a buffer or a mapping.
\<close>

section \<open>Random access files\<close>

text \<open>A read returns a status, the bytes, and whether they are in the caller's buffer.\<close>

record 'f RandomAccessFile =
  raf_Read :: "u64 \<Rightarrow> u64 \<Rightarrow> 'f \<Rightarrow> (Status \<times> slice \<times> bool) option"

text \<open>\<^verbatim>\<open>pread\<close> fails on a negative offset and at the limit of a device; before the limit and at the end of the file it
  returns what there is.\<close>

definition pread :: "u64 \<Rightarrow> u64 \<Rightarrow> FILE \<Rightarrow> byte list option" where
  "pread n offset f =
     (let readable = (case f_limit f of None \<Rightarrow> f_data f | Some k \<Rightarrow> take k (f_data f)) in
      if sint offset < 0 \<or> length readable \<le> unat offset \<and> unat offset < length (f_data f) then None
      else Some (take (unat n) (drop (unat offset) readable)))"

text \<open>When the limiter had no descriptor left, the file is opened for every read, which can fail.\<close>

record random_fd =
  fd_file :: FILE
  fd_temporary :: bool
  fd_opens :: bool

definition posix_random_Read :: "slice \<Rightarrow> u64 \<Rightarrow> u64 \<Rightarrow> random_fd \<Rightarrow> (Status \<times> slice \<times> bool) option" where
  "posix_random_Read filename offset n f =
     (if fd_temporary f \<and> \<not> fd_opens f then Some (posix_IOError filename (fd_file f), [], False)
      else case pread n offset (fd_file f) of
        None \<Rightarrow> Some (posix_IOError filename (fd_file f), [], True)
      | Some r \<Rightarrow> Some (Status_OK, r, True))"

definition PosixRandomAccessFile :: "slice \<Rightarrow> random_fd RandomAccessFile" where
  "PosixRandomAccessFile filename = \<lparr>raf_Read = posix_random_Read filename\<rparr>"

definition posix_mmap_Read :: "slice \<Rightarrow> u64 \<Rightarrow> u64 \<Rightarrow> FILE \<Rightarrow> (Status \<times> slice \<times> bool) option" where
  "posix_mmap_Read filename offset n f =
     (if unat (offset + n) > length (f_data f) then Some (posix_IOError filename f, [], False)
      else if unat offset + unat n > length (f_data f) then None
      else Some (Status_OK, take (unat n) (drop (unat offset) (f_data f)), False))"

definition PosixMmapReadableFile :: "slice \<Rightarrow> FILE RandomAccessFile" where
  "PosixMmapReadableFile filename = \<lparr>raf_Read = posix_mmap_Read filename\<rparr>"

text \<open>The contract: a range inside the file is read.\<close>

locale random_file =
  fixes raf :: "'f RandomAccessFile" and contents :: "'f \<Rightarrow> byte list" and good :: "'f \<Rightarrow> bool"
  assumes read_range: "good f \<Longrightarrow> unat offset + unat n \<le> length (contents f) \<Longrightarrow>
    \<exists>scratch. raf_Read raf offset n f = Some (Status_OK, take (unat n) (drop (unat offset) (contents f)), scratch)"
    and good_length: "good f \<Longrightarrow> length (contents f) < 2 ^ 63"

definition readable_fd :: "random_fd \<Rightarrow> bool" where
  "readable_fd f \<longleftrightarrow> f_limit (fd_file f) = None \<and> length (f_data (fd_file f)) < 2 ^ 63 \<and> (fd_temporary f \<longrightarrow> fd_opens f)"

lemma small_offset: "unat (offset :: u64) < 2 ^ 63 \<Longrightarrow> 0 \<le> sint offset"
proof -
  assume "unat offset < 2 ^ 63"
  then have "uint offset < 2 ^ 63" by (metis of_nat_less_numeral_power_cancel_iff uint_nat)
  moreover have "- (2 ^ 63) \<le> uint offset" by (rule order_trans [OF _ uint_ge_0]) simp
  ultimately have "sint offset = uint offset" unfolding sint_uint by (intro signed_take_bit_int_eq_self) simp_all
  then show ?thesis by simp
qed

interpretation pread_file: random_file "PosixRandomAccessFile filename" "\<lambda>f. f_data (fd_file f)" readable_fd
proof (unfold_locales, goal_cases)
  case (1 f offset n)
  then have "0 \<le> sint offset" by (intro small_offset) (simp add: readable_fd_def)
  with 1 show ?case
    by (intro exI [of _ True]) (auto simp: Let_def PosixRandomAccessFile_def posix_random_Read_def pread_def readable_fd_def)
qed (simp add: readable_fd_def)

interpretation mmap_file: random_file "PosixMmapReadableFile filename" f_data "\<lambda>f. length (f_data f) < 2 ^ 63"
proof (unfold_locales, goal_cases)
  case (1 f offset n)
  then have "unat (offset + n) = unat offset + unat n" by (simp add: unat_word_ariths)
  with 1 show ?case by (intro exI [of _ False]) (simp add: PosixMmapReadableFile_def posix_mmap_Read_def)
qed simp

section \<open>Block handles and the footer\<close>

record BlockHandle =
  bh_offset :: u64
  bh_size :: u64

definition BlockHandle_new :: BlockHandle where
  "BlockHandle_new = \<lparr>bh_offset = NOT 0, bh_size = NOT 0\<rparr>"

definition handle_EncodeTo :: "BlockHandle \<Rightarrow> byte list \<Rightarrow> byte list" where
  "handle_EncodeTo h dst = (let dst = PutVarint64 dst (bh_offset h) in PutVarint64 dst (bh_size h))"

definition handle_DecodeFrom :: "BlockHandle \<Rightarrow> slice \<Rightarrow> Status \<times> BlockHandle \<times> slice" where
  "handle_DecodeFrom h input =
     (case GetVarint64 input of
        (None, input) \<Rightarrow> (Status_Corruption (cstr ''bad block handle'') [], h, input)
      | (Some offset, input) \<Rightarrow>
          let h = h\<lparr>bh_offset := offset\<rparr> in
          (case GetVarint64 input of
             (None, input) \<Rightarrow> (Status_Corruption (cstr ''bad block handle'') [], h, input)
           | (Some n, input) \<Rightarrow> (Status_OK, h\<lparr>bh_size := n\<rparr>, input)))"

record Footer =
  ft_metaindex_handle :: BlockHandle
  ft_index_handle :: BlockHandle

definition kMaxEncodedLength :: nat where "kMaxEncodedLength = 10 + 10"

definition kEncodedLength :: nat where "kEncodedLength = 2 * kMaxEncodedLength + 8"

definition kTableMagicNumber :: u64 where "kTableMagicNumber = 0xdb4775248b80fb57"

definition kBlockTrailerSize :: nat where "kBlockTrailerSize = 5"

definition resize :: "nat \<Rightarrow> byte list \<Rightarrow> byte list" where
  "resize n xs = take n xs @ replicate (n - length xs) 0"

definition footer_EncodeTo :: "Footer \<Rightarrow> byte list \<Rightarrow> byte list" where
  "footer_EncodeTo ft dst =
     (let dst = handle_EncodeTo (ft_metaindex_handle ft) dst;
          dst = handle_EncodeTo (ft_index_handle ft) dst;
          dst = resize (2 * kMaxEncodedLength) dst;
          dst = PutFixed32 dst (ucast (kTableMagicNumber AND 0xffffffff))
      in PutFixed32 dst (ucast (drop_bit 32 kTableMagicNumber)))"

definition footer_DecodeFrom :: "slice \<Rightarrow> (Status \<times> Footer \<times> slice) option" where
  "footer_DecodeFrom input =
     (if length input < kEncodedLength then None
      else
        let ft = \<lparr>ft_metaindex_handle = BlockHandle_new, ft_index_handle = BlockHandle_new\<rparr>;
            magic_ptr = drop (kEncodedLength - 8) input;
            magic_lo = DecodeFixed32 magic_ptr;
            magic_hi = DecodeFixed32 (drop 4 magic_ptr);
            magic = push_bit 32 (ucast magic_hi :: u64) OR ucast magic_lo in
        if magic \<noteq> kTableMagicNumber
        then Some (Status_Corruption (cstr ''not an sstable (bad magic number)'') [], ft, input)
        else case handle_DecodeFrom (ft_metaindex_handle ft) input of
          (result, h, rest) \<Rightarrow>
            let ft = ft\<lparr>ft_metaindex_handle := h\<rparr> in
            if \<not> status_ok result then Some (result, ft, rest)
            else case handle_DecodeFrom (ft_index_handle ft) rest of
              (result, h, rest) \<Rightarrow>
                let ft = ft\<lparr>ft_index_handle := h\<rparr> in
                if \<not> status_ok result then Some (result, ft, rest)
                else Some (result, ft, drop kEncodedLength input))"

section \<open>Reading a block\<close>

record BlockContents =
  bc_data :: slice
  bc_cachable :: bool
  bc_heap_allocated :: bool

type_synonym CompressionType = byte

definition kNoCompression :: CompressionType where "kNoCompression = 0"

definition kSnappyCompression :: CompressionType where "kSnappyCompression = 1"

text \<open>The pod is built without \<^verbatim>\<open>SNAPPY\<close>.\<close>

definition Snappy_Compress :: "slice \<Rightarrow> slice option" where
  "Snappy_Compress input = None"

definition Snappy_GetUncompressedLength :: "slice \<Rightarrow> nat option" where
  "Snappy_GetUncompressedLength input = None"

definition Snappy_Uncompress :: "slice \<Rightarrow> slice option" where
  "Snappy_Uncompress input = None"

text \<open>The switch on the type, for contents of \<^verbatim>\<open>n\<close> bytes before the trailer.\<close>

definition no_contents :: BlockContents where
  "no_contents = \<lparr>bc_data = [], bc_cachable = False, bc_heap_allocated = False\<rparr>"

definition block_data :: "slice \<Rightarrow> nat \<Rightarrow> bool \<Rightarrow> Status \<times> BlockContents" where
  "block_data contents n scratch =
     (if contents ! n = kNoCompression
      then (Status_OK, \<lparr>bc_data = take n contents, bc_cachable = scratch, bc_heap_allocated = scratch\<rparr>)
      else if contents ! n = kSnappyCompression
      then (case Snappy_GetUncompressedLength (take n contents) of
              None \<Rightarrow> (Status_Corruption (cstr ''corrupted compressed block contents'') [], no_contents)
            | Some ulength \<Rightarrow>
                (case Snappy_Uncompress (take n contents) of
                   None \<Rightarrow> (Status_Corruption (cstr ''corrupted compressed block contents'') [], no_contents)
                 | Some ubuf \<Rightarrow> (Status_OK, \<lparr>bc_data = take ulength ubuf, bc_cachable = True, bc_heap_allocated = True\<rparr>)))
      else (Status_Corruption (cstr ''bad block type'') [], no_contents))"

text \<open>The length with the trailer is computed in 64 bits.\<close>

definition ReadBlock :: "'f RandomAccessFile \<Rightarrow> 'f \<Rightarrow> bool \<Rightarrow> BlockHandle \<Rightarrow> (Status \<times> BlockContents) option" where
  "ReadBlock raf f verify_checksums handle =
     (let n = unat (bh_size handle); all = bh_size handle + of_nat kBlockTrailerSize in
      case raf_Read raf (bh_offset handle) all f of
        None \<Rightarrow> None
      | Some (s, contents, scratch) \<Rightarrow>
          if \<not> status_ok s then Some (s, no_contents)
          else if length contents \<noteq> unat all then Some (Status_Corruption (cstr ''truncated block read'') [], no_contents)
          else if n + kBlockTrailerSize > length contents then None
          else if verify_checksums \<and> Value (take (n + 1) contents) \<noteq> Unmask (DecodeFixed32 (drop (n + 1) contents))
          then Some (Status_Corruption (cstr ''block checksum mismatch'') [], no_contents)
          else Some (block_data contents n scratch))"

section \<open>What the format promises\<close>

lemma handle_EncodeTo_append: "handle_EncodeTo h dst = dst @ handle_EncodeTo h []"
  by (simp add: handle_EncodeTo_def PutVarint64_def Let_def)

lemma handle_roundtrip: "handle_DecodeFrom h' (handle_EncodeTo h [] @ rest) = (Status_OK, h, rest)"
  by (simp add: handle_DecodeFrom_def handle_EncodeTo_def PutVarint64_def Let_def)

lemma handle_length: "length (handle_EncodeTo h []) \<le> 20"
  using varint_encoders_agree [of undefined "bh_offset h"] varint_encoders_agree [of undefined "bh_size h"]
  by (simp add: handle_EncodeTo_def PutVarint64_def Let_def)

lemma footer_length: "length (footer_EncodeTo ft []) = kEncodedLength"
  by (simp add: footer_EncodeTo_def resize_def PutFixed32_def Let_def kEncodedLength_def kMaxEncodedLength_def)

lemma footer_roundtrip: "footer_DecodeFrom (footer_EncodeTo ft []) = Some (Status_OK, ft, [])"
proof -
  let ?a = "handle_EncodeTo (ft_metaindex_handle ft) []" and ?b = "handle_EncodeTo (ft_index_handle ft) []"
  obtain pad where pad: "resize 40 (?a @ ?b) = ?a @ ?b @ pad" "length (?a @ ?b @ pad) = 40"
    using handle_length [of "ft_metaindex_handle ft"] handle_length [of "ft_index_handle ft"] by (simp add: resize_def)
  let ?lo = "ucast (kTableMagicNumber AND 0xffffffff) :: u32" and ?hi = "ucast (drop_bit 32 kTableMagicNumber) :: u32"
  have ft: "footer_EncodeTo ft [] = (?a @ ?b @ pad) @ EncodeFixed32 ?lo @ EncodeFixed32 ?hi"
    unfolding footer_EncodeTo_def Let_def handle_EncodeTo_append [of "ft_index_handle ft" "handle_EncodeTo _ []"]
    using pad by (simp add: PutFixed32_def kMaxEncodedLength_def)
  have "drop 40 (footer_EncodeTo ft []) = EncodeFixed32 ?lo @ EncodeFixed32 ?hi"
    unfolding ft using pad(2) by (simp del: append_assoc)
  moreover have "push_bit 32 (ucast ?hi :: u64) OR ucast ?lo = kTableMagicNumber"
    by (simp add: kTableMagicNumber_def)
  moreover have "handle_DecodeFrom h (footer_EncodeTo ft [])
      = (Status_OK, ft_metaindex_handle ft, ?b @ pad @ EncodeFixed32 ?lo @ EncodeFixed32 ?hi)" for h
    unfolding ft append_assoc by (rule handle_roundtrip)
  ultimately show ?thesis
    using footer_length [of ft]
    by (simp add: footer_DecodeFrom_def Let_def kEncodedLength_def kMaxEncodedLength_def handle_roundtrip)
qed

text \<open>A block with its trailer, as it is in the file.\<close>

definition with_trailer :: "slice \<Rightarrow> byte list" where
  "with_trailer contents =
     contents @ [kNoCompression] @ EncodeFixed32 (Mask (Value (contents @ [kNoCompression])))"

lemma length_with_trailer [simp]: "length (with_trailer c) = length c + 5"
  by (simp add: with_trailer_def)

context random_file
begin

lemma ReadBlock_written:
  assumes "good f" "contents f = pre @ with_trailer c @ post"
    and "unat (bh_offset handle) = length pre" "unat (bh_size handle) = length c"
  shows "\<exists>scratch. ReadBlock raf f verify handle
    = Some (Status_OK, \<lparr>bc_data = c, bc_cachable = scratch, bc_heap_allocated = scratch\<rparr>)"
proof -
  have "length c + 5 < 2 ^ 63" using good_length [OF assms(1)] assms(2) by simp
  then have n: "unat (bh_size handle + 5) = length c + 5" using assms(4) by (simp add: unat_word_ariths)
  obtain scratch where r: "raf_Read raf (bh_offset handle) (bh_size handle + 5) f = Some (Status_OK, with_trailer c, scratch)"
    using read_range [OF assms(1), of "bh_offset handle" "bh_size handle + 5"] assms(2,3) n by auto
  have "take (length c + 1) (with_trailer c) = c @ [kNoCompression]" "with_trailer c ! length c = kNoCompression"
    "drop (length c + 1) (with_trailer c) = EncodeFixed32 (Mask (Value (c @ [kNoCompression])))" "take (length c) (with_trailer c) = c"
    by (simp_all add: with_trailer_def)
  then show ?thesis using r n assms(4) by (simp add: ReadBlock_def block_data_def kBlockTrailerSize_def Let_def)
qed

end

end
