(* ===== verification/Ldb_Iterator.thy ===== *)
theory Ldb_Iterator
  imports Ldb_Comparator Ldb_Status
begin

text \<open>
  The interface of \<^verbatim>\<open>include/leveldb/iterator.h\<close> as a locale: an iterator over a sorted list of entries stands at a
  position of the list or behind its end. The clients of the interface are proved once over the contract, and
  every implementation is an interpretation.
\<close>

section \<open>The contract\<close>

text \<open>The operations return the iterator as they leave it; \<^const>\<open>None\<close> is an access outside the memory of the
  iterator, or no return.\<close>

record 's Iterator =
  i_Valid :: "'s \<Rightarrow> bool"
  i_SeekToFirst :: "'s \<Rightarrow> 's option"
  i_SeekToLast :: "'s \<Rightarrow> 's option"
  i_Seek :: "slice \<Rightarrow> 's \<Rightarrow> 's option"
  i_Next :: "'s \<Rightarrow> 's option"
  i_Prev :: "'s \<Rightarrow> 's option"
  i_key :: "'s \<Rightarrow> slice"
  i_value :: "'s \<Rightarrow> slice"
  i_status :: "'s \<Rightarrow> Status"

definition first_ge :: "(slice \<Rightarrow> slice \<Rightarrow> int) \<Rightarrow> slice \<Rightarrow> (slice \<times> slice) list \<Rightarrow> nat" where
  "first_ge compare target entries = length (takeWhile (\<lambda>e. compare (fst e) target < 0) entries)"

locale sorted_iterator =
  fixes it :: "'s Iterator" and compare :: "slice \<Rightarrow> slice \<Rightarrow> int"
    and entries :: "(slice \<times> slice) list" and ok :: "'s \<Rightarrow> bool" and at :: "'s \<Rightarrow> nat \<Rightarrow> bool"
  assumes at_ok: "at s i \<Longrightarrow> ok s"
    and ok_status: "ok s \<Longrightarrow> i_status it s = Status_OK"
    and at_valid: "at s i \<Longrightarrow> i \<le> length entries \<and> i_Valid it s = (i < length entries)"
    and at_entry: "at s i \<Longrightarrow> i < length entries \<Longrightarrow> (i_key it s, i_value it s) = entries ! i"
    and seek_first: "ok s \<Longrightarrow> \<exists>s'. i_SeekToFirst it s = Some s' \<and> at s' 0"
    and seek_last: "ok s \<Longrightarrow> \<exists>s'. i_SeekToLast it s = Some s' \<and> at s' (length entries - 1)"
    and seek: "ok s \<Longrightarrow> \<exists>s'. i_Seek it target s = Some s' \<and> at s' (first_ge compare target entries)"
    and step_next: "at s i \<Longrightarrow> i < length entries \<Longrightarrow> \<exists>s'. i_Next it s = Some s' \<and> at s' (Suc i)"
    and step_prev: "at s i \<Longrightarrow> i < length entries \<Longrightarrow>
      \<exists>s'. i_Prev it s = Some s' \<and> at s' (if i = 0 then length entries else i - 1)"

section \<open>Clients\<close>

text \<open>The loops \<^verbatim>\<open>for (iter->SeekToFirst(); iter->Valid(); iter->Next())\<close> and
  \<^verbatim>\<open>for (iter->SeekToLast(); iter->Valid(); iter->Prev())\<close> that collect the entries.\<close>

partial_function (option) collect :: "'s Iterator \<Rightarrow> ('s \<Rightarrow> 's option) \<Rightarrow> 's \<Rightarrow> (slice \<times> slice) list option" where
  "collect it step s =
     (if \<not> i_Valid it s then Some []
      else do {s' \<leftarrow> step s; rest \<leftarrow> collect it step s'; Some ((i_key it s, i_value it s) # rest)})"

definition scan :: "'s Iterator \<Rightarrow> 's \<Rightarrow> (slice \<times> slice) list option" where
  "scan it s = Option.bind (i_SeekToFirst it s) (collect it (i_Next it))"

definition scan_back :: "'s Iterator \<Rightarrow> 's \<Rightarrow> (slice \<times> slice) list option" where
  "scan_back it s = Option.bind (i_SeekToLast it s) (collect it (i_Prev it))"

definition scan_from :: "'s Iterator \<Rightarrow> slice \<Rightarrow> 's \<Rightarrow> (slice \<times> slice) list option" where
  "scan_from it target s = Option.bind (i_Seek it target s) (collect it (i_Next it))"

context sorted_iterator
begin

lemma collect_next: "at s i \<Longrightarrow> collect it (i_Next it) s = Some (drop i entries)"
proof (induction "length entries - i" arbitrary: s i)
  case 0
  then show ?case using at_valid [of s i] by (subst collect.simps) simp
next
  case (Suc n)
  then have i: "i < length entries" by simp
  obtain s' where s': "i_Next it s = Some s'" "at s' (Suc i)" using step_next [OF Suc.prems i] by blast
  have "collect it (i_Next it) s' = Some (drop (Suc i) entries)" using Suc.hyps(2) s'(2) by (intro Suc.hyps(1)) simp_all
  then show ?case
    using at_valid [OF Suc.prems] at_entry [OF Suc.prems i] i s'(1) Cons_nth_drop_Suc [OF i]
    by (subst collect.simps) simp
qed

lemma collect_prev: "at s i \<Longrightarrow> i < length entries \<Longrightarrow> collect it (i_Prev it) s = Some (rev (take (Suc i) entries))"
proof (induction i arbitrary: s)
  case 0
  obtain s' where s': "i_Prev it s = Some s'" "at s' (length entries)" using step_prev [OF 0] by auto
  then have "collect it (i_Prev it) s' = Some []" using at_valid [of s'] by (subst collect.simps) simp
  with 0 s'(1) at_valid [OF 0(1)] at_entry [OF 0] show ?case by (subst collect.simps) (simp add: take_Suc_conv_app_nth)
next
  case (Suc i)
  obtain s' where s': "i_Prev it s = Some s'" "at s' i" using step_prev [OF Suc.prems] by auto
  then have "collect it (i_Prev it) s' = Some (rev (take (Suc i) entries))" using Suc.prems by (intro Suc.IH) simp_all
  with s'(1) at_valid [OF Suc.prems(1)] at_entry [OF Suc.prems] Suc.prems(2) show ?case
    by (subst collect.simps) (simp add: take_Suc_conv_app_nth)
qed

lemma scans:
  assumes "ok s"
  shows "scan it s = Some entries" "scan_back it s = Some (rev entries)"
    "scan_from it target s = Some (dropWhile (\<lambda>e. compare (fst e) target < 0) entries)"
proof -
  show "scan it s = Some entries" using seek_first [OF assms] collect_next by (auto simp: scan_def)
  show "scan_from it target s = Some (dropWhile (\<lambda>e. compare (fst e) target < 0) entries)"
    using seek [OF assms, of target] collect_next by (auto simp: scan_from_def first_ge_def dropWhile_eq_drop)
  obtain s' where s': "i_SeekToLast it s = Some s'" "at s' (length entries - 1)" using seek_last [OF assms] by blast
  show "scan_back it s = Some (rev entries)"
  proof (cases "entries = []")
    case True
    with s' at_valid [OF s'(2)] show ?thesis by (simp add: scan_back_def) (subst collect.simps, simp)
  next
    case False
    with s' collect_prev [OF s'(2)] show ?thesis by (simp add: scan_back_def)
  qed
qed

end

end
