(* ===== verification/Ldb_Block.thy ===== *)
theory Ldb_Block
  imports Ldb_Iterator Ldb_Dbformat Ldb_Status
begin

text \<open>
  Blocks of a table: \<^verbatim>\<open>table/block_builder.cc\<close> and \<^verbatim>\<open>table/block.cc\<close>. Keys are stored as the number of bytes shared
  with the key before and the rest; at every restart point the whole key is stored. The iterator keeps offsets into
  the contents. \<^const>\<open>None\<close> is the value of an operation that reads outside the contents or leaves a value that
  reaches outside them.
\<close>

section \<open>The builder\<close>

record BlockBuilder =
  bb_block_restart_interval :: nat
  bb_buffer :: "byte list"
  bb_restarts :: "u32 list"
  bb_counter :: nat
  bb_finished :: bool
  bb_last_key :: slice

definition BlockBuilder_new :: "nat \<Rightarrow> BlockBuilder" where
  "BlockBuilder_new block_restart_interval =
     \<lparr>bb_block_restart_interval = block_restart_interval, bb_buffer = [], bb_restarts = [0], bb_counter = 0,
      bb_finished = False, bb_last_key = []\<rparr>"

definition block_Reset :: "BlockBuilder \<Rightarrow> BlockBuilder" where
  "block_Reset b = b\<lparr>bb_buffer := [], bb_restarts := [0], bb_counter := 0, bb_finished := False, bb_last_key := []\<rparr>"

definition CurrentSizeEstimate :: "BlockBuilder \<Rightarrow> nat" where
  "CurrentSizeEstimate b = length (bb_buffer b) + length (bb_restarts b) * 4 + 4"

fun shared_prefix :: "slice \<Rightarrow> slice \<Rightarrow> nat" where
  "shared_prefix (x # xs) (y # ys) = (if x = y then Suc (shared_prefix xs ys) else 0)"
| "shared_prefix _ _ = 0"

definition block_Add :: "slice \<Rightarrow> slice \<Rightarrow> BlockBuilder \<Rightarrow> BlockBuilder" where
  "block_Add key value b =
     (let (shared, restarts, counter) =
            (if bb_counter b < bb_block_restart_interval b
             then (shared_prefix (bb_last_key b) key, bb_restarts b, bb_counter b)
             else (0, bb_restarts b @ [of_nat (length (bb_buffer b))], 0));
          non_shared = length key - shared;
          buffer = PutVarint32 (bb_buffer b) (of_nat shared);
          buffer = PutVarint32 buffer (of_nat non_shared);
          buffer = PutVarint32 buffer (of_nat (length value));
          buffer = buffer @ drop shared key;
          buffer = buffer @ value
      in b\<lparr>bb_buffer := buffer, bb_restarts := restarts, bb_counter := counter + 1,
           bb_last_key := take shared (bb_last_key b) @ drop shared key\<rparr>)"

definition block_Finish :: "BlockBuilder \<Rightarrow> BlockBuilder \<times> slice" where
  "block_Finish b =
     (let buffer = fold (\<lambda>r buffer. PutFixed32 buffer r) (bb_restarts b) (bb_buffer b);
          buffer = PutFixed32 buffer (of_nat (length (bb_restarts b)))
      in (b\<lparr>bb_buffer := buffer, bb_finished := True\<rparr>, buffer))"

section \<open>Blocks\<close>

record Block =
  blk_data :: slice
  blk_size :: nat
  blk_restart_offset :: nat

definition NumRestarts :: "slice \<Rightarrow> nat \<Rightarrow> u32" where
  "NumRestarts data n = DecodeFixed32 (drop (n - 4) data)"

definition Block_new :: "slice \<Rightarrow> Block" where
  "Block_new contents =
     (let size = length contents; b = \<lparr>blk_data = contents, blk_size = size, blk_restart_offset = 0\<rparr> in
      if size < 4 then b\<lparr>blk_size := 0\<rparr>
      else
        let max_restarts_allowed = (size - 4) div 4 in
        if unat (NumRestarts contents size) > max_restarts_allowed then b\<lparr>blk_size := 0\<rparr>
        else b\<lparr>blk_restart_offset := (size - unat (1 + NumRestarts contents size) * 4) mod 2 ^ 32\<rparr>)"

text \<open>The range from \<^verbatim>\<open>p\<close> to \<^verbatim>\<open>limit\<close> as a list; the result is what follows the three numbers. The sum of two lengths is
  taken in 32 bits.\<close>

definition DecodeEntry :: "byte list \<Rightarrow> (u32 \<times> u32 \<times> u32 \<times> byte list) option" where
  "DecodeEntry p =
     (if length p < 3 then None
      else
        let shared = ucast (p ! 0) :: u32; non_shared = ucast (p ! 1) :: u32; value_length = ucast (p ! 2) :: u32 in
        do {(shared, non_shared, value_length, p) \<leftarrow>
              (if (shared OR non_shared OR value_length) < 128 then Some (shared, non_shared, value_length, drop 3 p)
               else do {(shared, p) \<leftarrow> GetVarint32Ptr p; (non_shared, p) \<leftarrow> GetVarint32Ptr p;
                        (value_length, p) \<leftarrow> GetVarint32Ptr p; Some (shared, non_shared, value_length, p)});
            if (of_nat (length p) :: u32) < non_shared + value_length then None
            else Some (shared, non_shared, value_length, p)})"

section \<open>The iterator\<close>

text \<open>\<^verbatim>\<open>value_\<close> is an offset and a length, or cleared.\<close>

record Iter =
  it_comparator :: "slice \<Rightarrow> slice \<Rightarrow> int"
  it_data :: slice
  it_restarts :: nat
  it_num_restarts :: nat
  it_current :: nat
  it_restart_index :: nat
  it_key :: slice
  it_value :: "(nat \<times> nat) option"
  it_status :: Status

definition Iter_new :: "(slice \<Rightarrow> slice \<Rightarrow> int) \<Rightarrow> slice \<Rightarrow> nat \<Rightarrow> nat \<Rightarrow> Iter" where
  "Iter_new cmp data restarts num_restarts =
     \<lparr>it_comparator = cmp, it_data = data, it_restarts = restarts, it_num_restarts = num_restarts,
      it_current = restarts, it_restart_index = num_restarts, it_key = [], it_value = None, it_status = Status_OK\<rparr>"

definition NextEntryOffset :: "Iter \<Rightarrow> nat option" where
  "NextEntryOffset it = (case it_value it of None \<Rightarrow> None | Some (offset, n) \<Rightarrow> Some ((offset + n) mod 2 ^ 32))"

definition GetRestartPoint :: "Iter \<Rightarrow> nat \<Rightarrow> nat" where
  "GetRestartPoint it index = unat (DecodeFixed32 (drop (it_restarts it + index * 4) (it_data it)))"

definition SeekToRestartPoint :: "nat \<Rightarrow> Iter \<Rightarrow> Iter" where
  "SeekToRestartPoint index it =
     it\<lparr>it_key := [], it_restart_index := index, it_value := Some (GetRestartPoint it index, 0)\<rparr>"

definition CorruptionError :: "Iter \<Rightarrow> Iter" where
  "CorruptionError it =
     it\<lparr>it_current := it_restarts it, it_restart_index := it_num_restarts it,
        it_status := Status_Corruption (cstr ''bad entry in block'') [], it_key := [], it_value := None\<rparr>"

function advance_restart :: "Iter \<Rightarrow> nat \<Rightarrow> nat \<Rightarrow> nat" where
  "advance_restart it current restart_index =
     (if restart_index + 1 < it_num_restarts it \<and> GetRestartPoint it (restart_index + 1) < current
      then advance_restart it current (restart_index + 1) else restart_index)"
  by pat_completeness auto
termination by (relation "measure (\<lambda>(it, current, restart_index). it_num_restarts it - restart_index)") auto

declare advance_restart.simps [simp del]

definition ParseNextKey :: "Iter \<Rightarrow> (bool \<times> Iter) option" where
  "ParseNextKey it =
     do {current \<leftarrow> NextEntryOffset it;
         let it = it\<lparr>it_current := current\<rparr>;
         if current \<ge> it_restarts it
         then Some (False, it\<lparr>it_current := it_restarts it, it_restart_index := it_num_restarts it\<rparr>)
         else case DecodeEntry (take (it_restarts it - current) (drop current (it_data it))) of
           None \<Rightarrow> Some (False, CorruptionError it)
         | Some (shared, non_shared, value_length, rest) \<Rightarrow>
             if length (it_key it) < unat shared then Some (False, CorruptionError it)
             else let p = it_restarts it - length rest in
               if p + unat non_shared + unat value_length > length (it_data it) then None
               else Some (True,
                 it\<lparr>it_restart_index := advance_restart it current (it_restart_index it),
                    it_key := take (unat shared) (it_key it) @ take (unat non_shared) (drop p (it_data it)),
                    it_value := Some (p + unat non_shared, unat value_length)\<rparr>)}"

definition iter_Valid :: "Iter \<Rightarrow> bool" where
  "iter_Valid it \<longleftrightarrow> it_current it < it_restarts it"

definition iter_value :: "Iter \<Rightarrow> slice" where
  "iter_value it = (case it_value it of None \<Rightarrow> [] | Some (offset, n) \<Rightarrow> take n (drop offset (it_data it)))"

definition block_Next :: "Iter \<Rightarrow> Iter option" where
  "block_Next it = map_option snd (ParseNextKey it)"

fun prev_restart :: "Iter \<Rightarrow> nat \<Rightarrow> nat \<Rightarrow> nat option" where
  "prev_restart it original 0 = (if GetRestartPoint it 0 \<ge> original then None else Some 0)"
| "prev_restart it original (Suc index) =
     (if GetRestartPoint it (Suc index) \<ge> original then prev_restart it original index else Some (Suc index))"

text \<open>\<^verbatim>\<open>while (ParseNextKey() && NextEntryOffset() < limit)\<close>\<close>

partial_function (option) parse_until :: "nat \<Rightarrow> Iter \<Rightarrow> Iter option" where
  "parse_until limit it =
     do {(more, it) \<leftarrow> ParseNextKey it;
         if more
         then do {next_offset \<leftarrow> NextEntryOffset it; if next_offset < limit then parse_until limit it else Some it}
         else Some it}"

definition block_Prev :: "Iter \<Rightarrow> Iter option" where
  "block_Prev it =
     (let original = it_current it in
      case prev_restart it original (it_restart_index it) of
        None \<Rightarrow> Some (it\<lparr>it_current := it_restarts it, it_restart_index := it_num_restarts it\<rparr>)
      | Some index \<Rightarrow> parse_until original (SeekToRestartPoint index it))"

text \<open>The binary search: the restart point, or \<^const>\<open>None\<close> for a bad entry; the outer \<^const>\<open>None\<close> is a read outside the
  contents.\<close>

function seek_restart :: "slice \<Rightarrow> Iter \<Rightarrow> nat \<Rightarrow> nat \<Rightarrow> nat option option" where
  "seek_restart target it left right =
     (if left < right
      then
        let mid = (left + right + 1) div 2; region_offset = GetRestartPoint it mid in
        case DecodeEntry (take (it_restarts it - region_offset) (drop region_offset (it_data it))) of
          None \<Rightarrow> Some None
        | Some (shared, non_shared, value_length, rest) \<Rightarrow>
            if shared \<noteq> 0 then Some None
            else let p = it_restarts it - length rest in
              if p + unat non_shared > length (it_data it) then None
              else if it_comparator it (take (unat non_shared) (drop p (it_data it))) target < 0
              then seek_restart target it mid right
              else seek_restart target it left (mid - 1)
      else Some (Some left))"
  by pat_completeness auto
termination by (relation "measure (\<lambda>(target, it, left, right). right - left)") auto

declare seek_restart.simps [simp del]

partial_function (option) seek_linear :: "slice \<Rightarrow> Iter \<Rightarrow> Iter option" where
  "seek_linear target it =
     do {(more, it) \<leftarrow> ParseNextKey it;
         if \<not> more then Some it
         else if it_comparator it (it_key it) target \<ge> 0 then Some it
         else seek_linear target it}"

definition block_Seek :: "slice \<Rightarrow> Iter \<Rightarrow> Iter option" where
  "block_Seek target it =
     (case seek_restart target it 0 (it_num_restarts it - 1) of
        None \<Rightarrow> None
      | Some None \<Rightarrow> Some (CorruptionError it)
      | Some (Some left) \<Rightarrow> seek_linear target (SeekToRestartPoint left it))"

definition block_SeekToFirst :: "Iter \<Rightarrow> Iter option" where
  "block_SeekToFirst it = map_option snd (ParseNextKey (SeekToRestartPoint 0 it))"

definition block_SeekToLast :: "Iter \<Rightarrow> Iter option" where
  "block_SeekToLast it = parse_until (it_restarts it) (SeekToRestartPoint (it_num_restarts it - 1) it)"

section \<open>Opening a block\<close>

text \<open>An iterator is a block iterator, or the one of \<^verbatim>\<open>table/iterator.cc\<close> that has no entries and a status; a call of a
  virtual method depends on which it is.\<close>

datatype block_iterator = EmptyIterator Status | BlockIterator Iter

definition NewEmptyIterator :: block_iterator where
  "NewEmptyIterator = EmptyIterator Status_OK"

definition NewErrorIterator :: "Status \<Rightarrow> block_iterator" where
  "NewErrorIterator s = EmptyIterator s"

definition move :: "(Iter \<Rightarrow> Iter option) \<Rightarrow> block_iterator \<Rightarrow> block_iterator option" where
  "move f x = (case x of EmptyIterator s \<Rightarrow> Some x | BlockIterator it \<Rightarrow> map_option BlockIterator (f it))"

definition block_Iterator :: "block_iterator Iterator" where
  "block_Iterator =
     \<lparr>i_Valid = case_block_iterator (\<lambda>s. False) iter_Valid, i_SeekToFirst = move block_SeekToFirst,
      i_SeekToLast = move block_SeekToLast, i_Seek = (\<lambda>target. move (block_Seek target)), i_Next = move block_Next,
      i_Prev = move block_Prev, i_key = case_block_iterator (\<lambda>s. []) it_key, i_value = case_block_iterator (\<lambda>s. []) iter_value,
      i_status = case_block_iterator (\<lambda>s. s) it_status\<rparr>"

definition block_NewIterator :: "Block \<Rightarrow> (slice \<Rightarrow> slice \<Rightarrow> int) \<Rightarrow> block_iterator" where
  "block_NewIterator b cmp =
     (if blk_size b < 4 then NewErrorIterator (Status_Corruption (cstr ''bad block contents'') [])
      else let num_restarts = unat (NumRestarts (blk_data b) (blk_size b)) in
        if num_restarts = 0 then NewEmptyIterator
        else BlockIterator (Iter_new cmp (blk_data b) (blk_restart_offset b) num_restarts))"

end
