(* ===== verification/Ldb_Table_Builder.thy ===== *)
theory Ldb_Table_Builder
  imports Ldb_Format Ldb_Block Ldb_Filter_Block
begin

text \<open>
  Writing a table file, from \<^verbatim>\<open>table/table_builder.cc\<close>: data blocks, an optional filter block, the metaindex and the index
  block, and the footer. The file is any \<^verbatim>\<open>WritableFile\<close>; a failed append is kept as the status of the builder.
\<close>

section \<open>Options\<close>

text \<open>The fields of \<^verbatim>\<open>Options\<close> that tables use.\<close>

record TableOptions =
  opt_comparator :: comparator
  opt_paranoid_checks :: bool
  opt_block_size :: nat
  opt_block_restart_interval :: nat
  opt_compression :: CompressionType
  opt_filter_policy :: "FilterPolicy option"

section \<open>The builder\<close>

record 'f TableBuilder =
  tb_options :: TableOptions
  tb_index_block_options :: TableOptions
  tb_file :: 'f
  tb_offset :: u64
  tb_status :: Status
  tb_data_block :: BlockBuilder
  tb_index_block :: BlockBuilder
  tb_last_key :: slice
  tb_num_entries :: u64
  tb_closed :: bool
  tb_filter_block :: "FilterBlockBuilder option"
  tb_pending_index_entry :: bool
  tb_pending_handle :: BlockHandle

definition TableBuilder_new :: "TableOptions \<Rightarrow> 'f \<Rightarrow> 'f TableBuilder" where
  "TableBuilder_new options file =
     (let index_block_options = options\<lparr>opt_block_restart_interval := 1\<rparr> in
      \<lparr>tb_options = options, tb_index_block_options = index_block_options, tb_file = file, tb_offset = 0,
       tb_status = Status_OK, tb_data_block = BlockBuilder_new (opt_block_restart_interval options),
       tb_index_block = BlockBuilder_new (opt_block_restart_interval index_block_options), tb_last_key = [],
       tb_num_entries = 0, tb_closed = False,
       tb_filter_block = map_option (\<lambda>policy. StartBlock (FilterBlockBuilder_new policy) 0) (opt_filter_policy options),
       tb_pending_index_entry = False, tb_pending_handle = BlockHandle_new\<rparr>)"

text \<open>The block builders refer to the options of the table builder and see a change at once.\<close>

definition ChangeOptions :: "(comparator \<Rightarrow> comparator \<Rightarrow> bool) \<Rightarrow> TableOptions \<Rightarrow> 'f TableBuilder \<Rightarrow> Status \<times> 'f TableBuilder" where
  "ChangeOptions same_object options r =
     (if \<not> same_object (opt_comparator options) (opt_comparator (tb_options r))
      then (Status_InvalidArgument (cstr ''changing comparator while building table'') [], r)
      else (Status_OK,
        r\<lparr>tb_options := options, tb_index_block_options := options\<lparr>opt_block_restart_interval := 1\<rparr>,
          tb_data_block := (tb_data_block r)\<lparr>bb_block_restart_interval := opt_block_restart_interval options\<rparr>,
          tb_index_block := (tb_index_block r)\<lparr>bb_block_restart_interval := 1\<rparr>\<rparr>))"

definition tb_ok :: "'f TableBuilder \<Rightarrow> bool" where
  "tb_ok r \<longleftrightarrow> status_ok (tb_status r)"

definition WriteRawBlock :: "'f WritableFile \<Rightarrow> slice \<Rightarrow> CompressionType \<Rightarrow> 'f TableBuilder \<Rightarrow> BlockHandle \<times> 'f TableBuilder" where
  "WriteRawBlock out block_contents type r =
     (let handle = \<lparr>bh_offset = tb_offset r, bh_size = of_nat (length block_contents)\<rparr>;
          (s, file) = wf_Append out block_contents (tb_file r);
          r = r\<lparr>tb_status := s, tb_file := file\<rparr> in
      if status_ok s
      then
        let crc = Value block_contents;
            crc = Extend crc [type];
            trailer = type # EncodeFixed32 (Mask crc);
            (s, file) = wf_Append out trailer (tb_file r);
            r = r\<lparr>tb_status := s, tb_file := file\<rparr> in
        if status_ok s then (handle, r\<lparr>tb_offset := tb_offset r + of_nat (length block_contents + kBlockTrailerSize)\<rparr>)
        else (handle, r)
      else (handle, r))"

text \<open>The result has the block builder after \<^verbatim>\<open>Reset\<close>. For an unknown compression type nothing is written to
  \<^verbatim>\<open>block_contents\<close>.\<close>

definition compress_block :: "CompressionType \<Rightarrow> slice \<Rightarrow> slice \<times> CompressionType" where
  "compress_block type raw =
     (if type = kNoCompression then (raw, type)
      else if type = kSnappyCompression
      then (case Snappy_Compress raw of
              None \<Rightarrow> (raw, kNoCompression)
            | Some compressed \<Rightarrow>
                if length compressed < length raw - length raw div 8 then (compressed, type) else (raw, kNoCompression))
      else ([], type))"

definition WriteBlock :: "'f WritableFile \<Rightarrow> BlockBuilder \<Rightarrow> 'f TableBuilder \<Rightarrow> BlockHandle \<times> BlockBuilder \<times> 'f TableBuilder" where
  "WriteBlock out block r =
     (let (block, raw) = block_Finish block;
          (block_contents, type) = compress_block (opt_compression (tb_options r)) raw;
          (handle, r) = WriteRawBlock out block_contents type r
      in (handle, block_Reset block, r))"

definition table_Flush :: "'f WritableFile \<Rightarrow> 'f TableBuilder \<Rightarrow> 'f TableBuilder" where
  "table_Flush out r =
     (if \<not> tb_ok r then r
      else if bb_buffer (tb_data_block r) = [] then r
      else
        let (handle, block, r) = WriteBlock out (tb_data_block r) r;
            r = r\<lparr>tb_pending_handle := handle, tb_data_block := block\<rparr>;
            r = (if tb_ok r
                 then let (s, file) = wf_Flush out (tb_file r)
                      in r\<lparr>tb_pending_index_entry := True, tb_status := s, tb_file := file\<rparr>
                 else r)
        in r\<lparr>tb_filter_block := map_option (\<lambda>fb. StartBlock fb (tb_offset r)) (tb_filter_block r)\<rparr>)"

definition add_index_entry :: "slice \<Rightarrow> 'f TableBuilder \<Rightarrow> 'f TableBuilder" where
  "add_index_entry key r =
     r\<lparr>tb_last_key := key, tb_index_block := block_Add key (handle_EncodeTo (tb_pending_handle r) []) (tb_index_block r),
       tb_pending_index_entry := False\<rparr>"

definition table_Add :: "'f WritableFile \<Rightarrow> slice \<Rightarrow> slice \<Rightarrow> 'f TableBuilder \<Rightarrow> 'f TableBuilder" where
  "table_Add out key value r =
     (if \<not> tb_ok r then r
      else
        let r = (if tb_pending_index_entry r
                 then add_index_entry (cmp_separator (opt_comparator (tb_options r)) (tb_last_key r) key) r
                 else r);
            r = r\<lparr>tb_filter_block := map_option (AddKey key) (tb_filter_block r), tb_last_key := key,
                  tb_num_entries := tb_num_entries r + 1, tb_data_block := block_Add key value (tb_data_block r)\<rparr>
        in if CurrentSizeEstimate (tb_data_block r) \<ge> opt_block_size (tb_options r) then table_Flush out r else r)"

text \<open>The steps of \<^verbatim>\<open>Finish\<close>, each under its test of \<^verbatim>\<open>ok()\<close>.\<close>

definition finish_filter :: "'f WritableFile \<Rightarrow> 'f TableBuilder \<Rightarrow> BlockHandle \<times> 'f TableBuilder" where
  "finish_filter out r =
     (case tb_filter_block r of
        None \<Rightarrow> (BlockHandle_new, r)
      | Some fb \<Rightarrow>
          if tb_ok r
          then let (fb, contents) = filter_Finish fb
               in WriteRawBlock out contents kNoCompression (r\<lparr>tb_filter_block := Some fb\<rparr>)
          else (BlockHandle_new, r))"

definition finish_metaindex :: "'f WritableFile \<Rightarrow> BlockHandle \<Rightarrow> 'f TableBuilder \<Rightarrow> BlockHandle \<times> 'f TableBuilder" where
  "finish_metaindex out filter_block_handle r =
     (if tb_ok r
      then
        let meta_index_block = BlockBuilder_new (opt_block_restart_interval (tb_options r));
            meta_index_block =
              (case (tb_filter_block r, opt_filter_policy (tb_options r)) of
                 (Some _, Some policy) \<Rightarrow>
                   block_Add (cstr ''filter.'' @ cstr (fp_Name policy)) (handle_EncodeTo filter_block_handle []) meta_index_block
               | _ \<Rightarrow> meta_index_block);
            (handle, _, r) = WriteBlock out meta_index_block r
        in (handle, r)
      else (BlockHandle_new, r))"

definition finish_index :: "'f WritableFile \<Rightarrow> 'f TableBuilder \<Rightarrow> BlockHandle \<times> 'f TableBuilder" where
  "finish_index out r =
     (if tb_ok r
      then
        let r = (if tb_pending_index_entry r
                 then add_index_entry (cmp_successor (opt_comparator (tb_options r)) (tb_last_key r)) r
                 else r);
            (handle, block, r) = WriteBlock out (tb_index_block r) r
        in (handle, r\<lparr>tb_index_block := block\<rparr>)
      else (BlockHandle_new, r))"

definition finish_footer :: "'f WritableFile \<Rightarrow> Footer \<Rightarrow> 'f TableBuilder \<Rightarrow> 'f TableBuilder" where
  "finish_footer out footer r =
     (if tb_ok r
      then
        let footer_encoding = footer_EncodeTo footer [];
            (s, file) = wf_Append out footer_encoding (tb_file r);
            r = r\<lparr>tb_status := s, tb_file := file\<rparr>
        in if status_ok s then r\<lparr>tb_offset := tb_offset r + of_nat (length footer_encoding)\<rparr> else r
      else r)"

definition table_Finish :: "'f WritableFile \<Rightarrow> 'f TableBuilder \<Rightarrow> Status \<times> 'f TableBuilder" where
  "table_Finish out r =
     (let r = table_Flush out r;
          r = r\<lparr>tb_closed := True\<rparr>;
          (filter_block_handle, r) = finish_filter out r;
          (metaindex_block_handle, r) = finish_metaindex out filter_block_handle r;
          (index_block_handle, r) = finish_index out r;
          r = finish_footer out \<lparr>ft_metaindex_handle = metaindex_block_handle, ft_index_handle = index_block_handle\<rparr> r
      in (tb_status r, r))"

definition Abandon :: "'f TableBuilder \<Rightarrow> 'f TableBuilder" where
  "Abandon r = r\<lparr>tb_closed := True\<rparr>"

end
