(* ===== verification/Ldb_Two_Level.thy ===== *)
theory Ldb_Two_Level
  imports Ldb_Iterator
begin

text \<open>
  Two-level iterators, from \<^verbatim>\<open>table/two_level_iterator.cc\<close> with the wrapper of \<^verbatim>\<open>table/iterator_wrapper.h\<close>: an index iterator
  whose values name blocks, and a function that opens the block for a value. If the index and the blocks are
  iterators over sorted lists and the keys of the index separate the blocks, then the two-level iterator is one over
  the concatenation of the blocks.
\<close>

section \<open>The wrapper\<close>

record 's IteratorWrapper =
  w_iter :: "'s option"
  w_valid :: bool
  w_key :: slice

definition wrapper_Update :: "'s Iterator \<Rightarrow> 's IteratorWrapper \<Rightarrow> 's IteratorWrapper" where
  "wrapper_Update it w =
     (case w_iter w of None \<Rightarrow> w
      | Some s \<Rightarrow> let w = w\<lparr>w_valid := i_Valid it s\<rparr> in if w_valid w then w\<lparr>w_key := i_key it s\<rparr> else w)"

definition wrapper_Set :: "'s Iterator \<Rightarrow> 's option \<Rightarrow> 's IteratorWrapper \<Rightarrow> 's IteratorWrapper" where
  "wrapper_Set it iter w =
     (let w = w\<lparr>w_iter := iter\<rparr> in if iter = None then w\<lparr>w_valid := False\<rparr> else wrapper_Update it w)"

definition IteratorWrapper_new :: "'s Iterator \<Rightarrow> 's option \<Rightarrow> 's IteratorWrapper" where
  "IteratorWrapper_new it iter = wrapper_Set it iter \<lparr>w_iter = None, w_valid = False, w_key = []\<rparr>"

text \<open>\<^verbatim>\<open>Next\<close>, \<^verbatim>\<open>Prev\<close>, \<^verbatim>\<open>Seek\<close>, \<^verbatim>\<open>SeekToFirst\<close> and \<^verbatim>\<open>SeekToLast\<close> call the method of the iterator and update.\<close>

definition wrapper_call :: "'s Iterator \<Rightarrow> ('s \<Rightarrow> 's option) \<Rightarrow> 's IteratorWrapper \<Rightarrow> 's IteratorWrapper option" where
  "wrapper_call it f w =
     do {s \<leftarrow> w_iter w; s' \<leftarrow> f s; Some (wrapper_Update it (w\<lparr>w_iter := Some s'\<rparr>))}"

definition wrapper_value :: "'s Iterator \<Rightarrow> 's IteratorWrapper \<Rightarrow> slice" where
  "wrapper_value it w = (case w_iter w of None \<Rightarrow> [] | Some s \<Rightarrow> i_value it s)"

definition wrapper_status :: "'s Iterator \<Rightarrow> 's IteratorWrapper \<Rightarrow> Status" where
  "wrapper_status it w = (case w_iter w of None \<Rightarrow> Status_OK | Some s \<Rightarrow> i_status it s)"

section \<open>The iterator\<close>

text \<open>\<^verbatim>\<open>block_function_\<close> may change the object that \<^verbatim>\<open>arg_\<close> points to, which is kept with the iterator.\<close>

record ('i, 'd, 'e) TwoLevel =
  tl_arg :: 'e
  tl_status :: Status
  tl_index_iter :: "'i IteratorWrapper"
  tl_data_iter :: "'d IteratorWrapper"
  tl_data_block_handle :: slice

type_synonym ('d, 'e) block_function = "slice \<Rightarrow> 'e \<Rightarrow> ('d \<times> 'e) option"

definition NewTwoLevelIterator :: "'i Iterator \<Rightarrow> 'd Iterator \<Rightarrow> 'i \<Rightarrow> 'e \<Rightarrow> ('i, 'd, 'e) TwoLevel" where
  "NewTwoLevelIterator ii di index_iter arg =
     \<lparr>tl_arg = arg, tl_status = Status_OK, tl_index_iter = IteratorWrapper_new ii (Some index_iter),
      tl_data_iter = IteratorWrapper_new di None, tl_data_block_handle = []\<rparr>"

definition SaveError :: "Status \<Rightarrow> ('i, 'd, 'e) TwoLevel \<Rightarrow> ('i, 'd, 'e) TwoLevel" where
  "SaveError s t = (if status_ok (tl_status t) \<and> \<not> status_ok s then t\<lparr>tl_status := s\<rparr> else t)"

definition SetDataIterator :: "'d Iterator \<Rightarrow> 'd option \<Rightarrow> ('i, 'd, 'e) TwoLevel \<Rightarrow> ('i, 'd, 'e) TwoLevel" where
  "SetDataIterator di data_iter t =
     (let t = (if w_iter (tl_data_iter t) \<noteq> None then SaveError (wrapper_status di (tl_data_iter t)) t else t)
      in t\<lparr>tl_data_iter := wrapper_Set di data_iter (tl_data_iter t)\<rparr>)"

definition InitDataBlock :: "'i Iterator \<Rightarrow> 'd Iterator \<Rightarrow> ('d, 'e) block_function \<Rightarrow> ('i, 'd, 'e) TwoLevel
    \<Rightarrow> ('i, 'd, 'e) TwoLevel option" where
  "InitDataBlock ii di block_function t =
     (if \<not> w_valid (tl_index_iter t) then Some (SetDataIterator di None t)
      else
        let handle = wrapper_value ii (tl_index_iter t) in
        if w_iter (tl_data_iter t) \<noteq> None \<and> slice_compare handle (tl_data_block_handle t) = 0 then Some t
        else do {(iter, arg) \<leftarrow> block_function handle (tl_arg t);
                 Some (SetDataIterator di (Some iter) (t\<lparr>tl_arg := arg, tl_data_block_handle := handle\<rparr>))})"

definition index_call :: "'i Iterator \<Rightarrow> ('i \<Rightarrow> 'i option) \<Rightarrow> ('i, 'd, 'e) TwoLevel \<Rightarrow> ('i, 'd, 'e) TwoLevel option" where
  "index_call ii f t = do {w \<leftarrow> wrapper_call ii f (tl_index_iter t); Some (t\<lparr>tl_index_iter := w\<rparr>)}"

definition data_call :: "'d Iterator \<Rightarrow> ('d \<Rightarrow> 'd option) \<Rightarrow> ('i, 'd, 'e) TwoLevel \<Rightarrow> ('i, 'd, 'e) TwoLevel option" where
  "data_call di f t = do {w \<leftarrow> wrapper_call di f (tl_data_iter t); Some (t\<lparr>tl_data_iter := w\<rparr>)}"

definition data_call_if_open :: "'d Iterator \<Rightarrow> ('d \<Rightarrow> 'd option) \<Rightarrow> ('i, 'd, 'e) TwoLevel \<Rightarrow> ('i, 'd, 'e) TwoLevel option" where
  "data_call_if_open di f t = (if w_iter (tl_data_iter t) \<noteq> None then data_call di f t else Some t)"

partial_function (option) SkipEmptyDataBlocksForward :: "'i Iterator \<Rightarrow> 'd Iterator \<Rightarrow> ('d, 'e) block_function
    \<Rightarrow> ('i, 'd, 'e) TwoLevel \<Rightarrow> ('i, 'd, 'e) TwoLevel option" where
  "SkipEmptyDataBlocksForward ii di block_function t =
     (if w_iter (tl_data_iter t) = None \<or> \<not> w_valid (tl_data_iter t)
      then if \<not> w_valid (tl_index_iter t) then Some (SetDataIterator di None t)
        else do {t \<leftarrow> index_call ii (i_Next ii) t;
                 t \<leftarrow> InitDataBlock ii di block_function t;
                 t \<leftarrow> data_call_if_open di (i_SeekToFirst di) t;
                 SkipEmptyDataBlocksForward ii di block_function t}
      else Some t)"

partial_function (option) SkipEmptyDataBlocksBackward :: "'i Iterator \<Rightarrow> 'd Iterator \<Rightarrow> ('d, 'e) block_function
    \<Rightarrow> ('i, 'd, 'e) TwoLevel \<Rightarrow> ('i, 'd, 'e) TwoLevel option" where
  "SkipEmptyDataBlocksBackward ii di block_function t =
     (if w_iter (tl_data_iter t) = None \<or> \<not> w_valid (tl_data_iter t)
      then if \<not> w_valid (tl_index_iter t) then Some (SetDataIterator di None t)
        else do {t \<leftarrow> index_call ii (i_Prev ii) t;
                 t \<leftarrow> InitDataBlock ii di block_function t;
                 t \<leftarrow> data_call_if_open di (i_SeekToLast di) t;
                 SkipEmptyDataBlocksBackward ii di block_function t}
      else Some t)"

definition two_level_Seek :: "'i Iterator \<Rightarrow> 'd Iterator \<Rightarrow> ('d, 'e) block_function \<Rightarrow> slice
    \<Rightarrow> ('i, 'd, 'e) TwoLevel \<Rightarrow> ('i, 'd, 'e) TwoLevel option" where
  "two_level_Seek ii di block_function target t =
     do {t \<leftarrow> index_call ii (i_Seek ii target) t;
         t \<leftarrow> InitDataBlock ii di block_function t;
         t \<leftarrow> data_call_if_open di (i_Seek di target) t;
         SkipEmptyDataBlocksForward ii di block_function t}"

definition two_level_SeekToFirst :: "'i Iterator \<Rightarrow> 'd Iterator \<Rightarrow> ('d, 'e) block_function
    \<Rightarrow> ('i, 'd, 'e) TwoLevel \<Rightarrow> ('i, 'd, 'e) TwoLevel option" where
  "two_level_SeekToFirst ii di block_function t =
     do {t \<leftarrow> index_call ii (i_SeekToFirst ii) t;
         t \<leftarrow> InitDataBlock ii di block_function t;
         t \<leftarrow> data_call_if_open di (i_SeekToFirst di) t;
         SkipEmptyDataBlocksForward ii di block_function t}"

definition two_level_SeekToLast :: "'i Iterator \<Rightarrow> 'd Iterator \<Rightarrow> ('d, 'e) block_function
    \<Rightarrow> ('i, 'd, 'e) TwoLevel \<Rightarrow> ('i, 'd, 'e) TwoLevel option" where
  "two_level_SeekToLast ii di block_function t =
     do {t \<leftarrow> index_call ii (i_SeekToLast ii) t;
         t \<leftarrow> InitDataBlock ii di block_function t;
         t \<leftarrow> data_call_if_open di (i_SeekToLast di) t;
         SkipEmptyDataBlocksBackward ii di block_function t}"

definition two_level_Next :: "'i Iterator \<Rightarrow> 'd Iterator \<Rightarrow> ('d, 'e) block_function
    \<Rightarrow> ('i, 'd, 'e) TwoLevel \<Rightarrow> ('i, 'd, 'e) TwoLevel option" where
  "two_level_Next ii di block_function t =
     do {t \<leftarrow> data_call di (i_Next di) t; SkipEmptyDataBlocksForward ii di block_function t}"

definition two_level_Prev :: "'i Iterator \<Rightarrow> 'd Iterator \<Rightarrow> ('d, 'e) block_function
    \<Rightarrow> ('i, 'd, 'e) TwoLevel \<Rightarrow> ('i, 'd, 'e) TwoLevel option" where
  "two_level_Prev ii di block_function t =
     do {t \<leftarrow> data_call di (i_Prev di) t; SkipEmptyDataBlocksBackward ii di block_function t}"

definition two_level_status :: "'i Iterator \<Rightarrow> 'd Iterator \<Rightarrow> ('i, 'd, 'e) TwoLevel \<Rightarrow> Status" where
  "two_level_status ii di t =
     (if \<not> status_ok (wrapper_status ii (tl_index_iter t)) then wrapper_status ii (tl_index_iter t)
      else if w_iter (tl_data_iter t) \<noteq> None \<and> \<not> status_ok (wrapper_status di (tl_data_iter t))
      then wrapper_status di (tl_data_iter t)
      else tl_status t)"

definition TwoLevelIterator :: "'i Iterator \<Rightarrow> 'd Iterator \<Rightarrow> ('d, 'e) block_function \<Rightarrow> ('i, 'd, 'e) TwoLevel Iterator" where
  "TwoLevelIterator ii di block_function =
     \<lparr>i_Valid = (\<lambda>t. w_valid (tl_data_iter t)), i_SeekToFirst = two_level_SeekToFirst ii di block_function,
      i_SeekToLast = two_level_SeekToLast ii di block_function, i_Seek = two_level_Seek ii di block_function,
      i_Next = two_level_Next ii di block_function, i_Prev = two_level_Prev ii di block_function,
      i_key = (\<lambda>t. w_key (tl_data_iter t)), i_value = (\<lambda>t. wrapper_value di (tl_data_iter t)),
      i_status = two_level_status ii di\<rparr>"

section \<open>The wrapper shows its iterator\<close>

definition wraps :: "'s Iterator \<Rightarrow> 's \<Rightarrow> 's IteratorWrapper \<Rightarrow> bool" where
  "wraps it s w \<longleftrightarrow> w_iter w = Some s \<and> w_valid w = i_Valid it s \<and> (i_Valid it s \<longrightarrow> w_key w = i_key it s)"

lemma wraps_Update: "w_iter w = Some s \<Longrightarrow> wraps it s (wrapper_Update it w)"
  by (simp add: wrapper_Update_def wraps_def Let_def)

lemma wraps_Set: "wraps it s (wrapper_Set it (Some s) w)"
  by (simp add: wrapper_Set_def wraps_Update)

lemma wraps_call: "wraps it s w \<Longrightarrow> f s = Some s' \<Longrightarrow> \<exists>w'. wrapper_call it f w = Some w' \<and> wraps it s' w'"
  by (simp add: wrapper_call_def wraps_def [of it s w] wraps_Update)

lemma first_ge_blocks:
  assumes "\<And>e. e \<in> set xs \<Longrightarrow> compare (fst e) target < 0" "\<And>e. e \<in> set zs \<Longrightarrow> \<not> compare (fst e) target < 0"
  shows "first_ge compare target (xs @ ys @ zs) = length xs + first_ge compare target ys"
proof -
  have "takeWhile (\<lambda>e. compare (fst e) target < 0) zs = []" using assms(2) by (cases zs) simp_all
  then have "takeWhile (\<lambda>e. compare (fst e) target < 0) (ys @ zs) = takeWhile (\<lambda>e. compare (fst e) target < 0) ys"
    by (induction ys) simp_all
  moreover have "takeWhile (\<lambda>e. compare (fst e) target < 0) (xs @ ys @ zs) = xs @ takeWhile (\<lambda>e. compare (fst e) target < 0) (ys @ zs)"
    using assms(1) by (intro takeWhile_append2) simp
  ultimately show ?thesis by (simp add: first_ge_def)
qed

section \<open>The contract\<close>

locale two_level = index: sorted_iterator ii compare index_entries iok iat
  for ii :: "'i Iterator" and compare index_entries iok iat +
  fixes di :: "'d Iterator" and block_function :: "('d, 'e) block_function" and chunks :: "(slice \<times> slice) list list"
    and dok :: "nat \<Rightarrow> 'd \<Rightarrow> bool" and dat :: "nat \<Rightarrow> 'd \<Rightarrow> nat \<Rightarrow> bool" and arg_ok :: "'e \<Rightarrow> bool"
  assumes order: "cmp_order compare UNIV"
    and chunks_length: "length chunks = length index_entries"
    and data_iterators: "b < length chunks \<Longrightarrow> sorted_iterator di compare (chunks ! b) (dok b) (dat b)"
    and block_opens: "b < length chunks \<Longrightarrow> arg_ok e \<Longrightarrow>
      \<exists>d e'. block_function (snd (index_entries ! b)) e = Some (d, e') \<and> dok b d \<and> arg_ok e'"
    and handles_distinct: "distinct (map snd index_entries)"
    and bounded: "b < length chunks \<Longrightarrow> x \<in> set (chunks ! b) \<Longrightarrow> compare (fst x) (fst (index_entries ! b)) \<le> 0"
    and separated: "b < c \<Longrightarrow> c < length chunks \<Longrightarrow> x \<in> set (chunks ! c) \<Longrightarrow> compare (fst (index_entries ! b)) (fst x) < 0"
begin

definition index_at :: "('i, 'd, 'e) TwoLevel \<Rightarrow> nat \<Rightarrow> bool" where
  "index_at t b \<longleftrightarrow> (\<exists>s. wraps ii s (tl_index_iter t) \<and> iat s b)"

definition data_open :: "('i, 'd, 'e) TwoLevel \<Rightarrow> nat \<Rightarrow> bool" where
  "data_open t b \<longleftrightarrow> b < length chunks \<and> tl_data_block_handle t = snd (index_entries ! b)
     \<and> (\<exists>d. wraps di d (tl_data_iter t) \<and> dok b d)"

definition data_closed :: "('i, 'd, 'e) TwoLevel \<Rightarrow> bool" where
  "data_closed t \<longleftrightarrow> w_iter (tl_data_iter t) = None \<and> \<not> w_valid (tl_data_iter t)"

definition tl_ok :: "('i, 'd, 'e) TwoLevel \<Rightarrow> bool" where
  "tl_ok t \<longleftrightarrow> arg_ok (tl_arg t) \<and> tl_status t = Status_OK \<and> (\<exists>s. wraps ii s (tl_index_iter t) \<and> iok s)
     \<and> (data_closed t \<or> (\<exists>b. data_open t b))"

definition tl_in :: "('i, 'd, 'e) TwoLevel \<Rightarrow> nat \<Rightarrow> nat \<Rightarrow> bool" where
  "tl_in t b p \<longleftrightarrow> tl_ok t \<and> index_at t b \<and> data_open t b \<and> (\<exists>d. wraps di d (tl_data_iter t) \<and> dat b d p)"

definition base :: "nat \<Rightarrow> nat" where
  "base b = length (concat (take b chunks))"

definition tl_at :: "('i, 'd, 'e) TwoLevel \<Rightarrow> nat \<Rightarrow> bool" where
  "tl_at t g \<longleftrightarrow> tl_ok t \<and> (if g < length (concat chunks) then \<exists>b p. tl_in t b p \<and> p < length (chunks ! b) \<and> g = base b + p
     else g = length (concat chunks) \<and> data_closed t)"

lemma base_Suc: "b < length chunks \<Longrightarrow> base (Suc b) = base b + length (chunks ! b)"
  by (simp add: base_def take_Suc_conv_app_nth)

lemma base_end: "length chunks \<le> b \<Longrightarrow> base b = length (concat chunks)"
  by (simp add: base_def)

lemma base_le: "base b \<le> length (concat chunks)"
  by (simp add: base_def concat_take_le)

lemma index_valid: "index_at t b \<Longrightarrow> b \<le> length chunks \<and> w_valid (tl_index_iter t) = (b < length chunks)"
  using index.at_valid chunks_length by (auto simp: index_at_def wraps_def)

lemma SetDataIterator_ok:
  assumes "tl_ok t"
  shows "SetDataIterator di d t = t\<lparr>tl_data_iter := wrapper_Set di d (tl_data_iter t)\<rparr>"
proof -
  have "wrapper_status di (tl_data_iter t) = Status_OK" if "w_iter (tl_data_iter t) \<noteq> None"
    using assms that sorted_iterator.ok_status [OF data_iterators]
    by (auto simp: tl_ok_def data_closed_def data_open_def wraps_def wrapper_status_def)
  then show ?thesis by (simp add: SetDataIterator_def SaveError_def)
qed

lemma close_data:
  assumes "tl_ok t"
  shows "tl_ok (SetDataIterator di None t)" "data_closed (SetDataIterator di None t)"
  using assms by (auto simp: SetDataIterator_ok tl_ok_def data_closed_def wrapper_Set_def)

lemma index_call_at:
  assumes "tl_ok t" "wraps ii s (tl_index_iter t)" "f s = Some s'" "iat s' b"
  shows "\<exists>t'. index_call ii f t = Some t' \<and> tl_ok t' \<and> index_at t' b"
proof -
  obtain w where w: "wrapper_call ii f (tl_index_iter t) = Some w" "wraps ii s' w" using wraps_call [of ii s _ f s'] assms(2,3) by blast
  then have "index_call ii f t = Some (t\<lparr>tl_index_iter := w\<rparr>)" by (simp add: index_call_def)
  with w assms(1,4) index.at_ok [OF assms(4)] show ?thesis
    by (auto simp: tl_ok_def index_at_def data_closed_def data_open_def)
qed

lemma data_call_at:
  assumes "tl_ok t" "index_at t b" "data_open t b" "wraps di d (tl_data_iter t)" "f d = Some d'" "dat b d' p"
  shows "\<exists>t'. data_call di f t = Some t' \<and> tl_in t' b p"
proof -
  obtain w where w: "wrapper_call di f (tl_data_iter t) = Some w" "wraps di d' w" using wraps_call [of di d _ f d'] assms(4,5) by blast
  then have "data_call di f t = Some (t\<lparr>tl_data_iter := w\<rparr>)" by (simp add: data_call_def)
  moreover have "dok b d'" using assms(3,6) sorted_iterator.at_ok [OF data_iterators] by (auto simp: data_open_def)
  ultimately show ?thesis
    using w assms(1-3,6) by (auto simp: tl_in_def tl_ok_def index_at_def data_closed_def data_open_def)
qed

lemma InitDataBlock_at:
  assumes "tl_ok t" "index_at t b"
  shows "\<exists>t'. InitDataBlock ii di block_function t = Some t' \<and> tl_ok t' \<and> index_at t' b
    \<and> (if b < length chunks then data_open t' b else data_closed t')"
proof (cases "b < length chunks")
  case False
  then have "\<not> w_valid (tl_index_iter t)" using index_valid [OF assms(2)] by simp
  with False assms close_data [OF assms(1)] show ?thesis
    by (auto simp: InitDataBlock_def SetDataIterator_ok index_at_def)
next
  case True
  obtain s where s: "wraps ii s (tl_index_iter t)" "iat s b" using assms(2) by (auto simp: index_at_def)
  have handle: "wrapper_value ii (tl_index_iter t) = snd (index_entries ! b)"
    using s index.at_entry [OF s(2)] True chunks_length by (auto simp: wraps_def wrapper_value_def prod_eq_iff)
  have valid: "w_valid (tl_index_iter t)" using True index_valid [OF assms(2)] by simp
  show ?thesis
  proof (cases "w_iter (tl_data_iter t) \<noteq> None \<and> slice_compare (snd (index_entries ! b)) (tl_data_block_handle t) = 0")
    case reuse: True
    then obtain c where "data_open t c" using assms(1) by (auto simp: tl_ok_def data_closed_def)
    moreover from this reuse have "snd (index_entries ! b) = snd (index_entries ! c)" by (simp add: data_open_def slice_compare_iff)
    ultimately have "b = c"
      using True handles_distinct chunks_length nth_eq_iff_index_eq [of "map snd index_entries" b c] by (auto simp: data_open_def)
    with reuse valid handle \<open>data_open t c\<close> True assms show ?thesis by (simp add: InitDataBlock_def)
  next
    case False
    obtain d e' where d: "block_function (snd (index_entries ! b)) (tl_arg t) = Some (d, e')" "dok b d" "arg_ok e'"
      using block_opens [OF True, of "tl_arg t"] assms(1) by (auto simp: tl_ok_def)
    let ?t = "t\<lparr>tl_arg := e', tl_data_block_handle := snd (index_entries ! b)\<rparr>"
    have status: "SetDataIterator di (Some d) ?t = ?t\<lparr>tl_data_iter := wrapper_Set di (Some d) (tl_data_iter t)\<rparr>"
      using SetDataIterator_ok [OF assms(1), of "Some d"]
      by (cases t) (auto simp: SetDataIterator_def SaveError_def Let_def split: if_splits)
    have "InitDataBlock ii di block_function t = Some (SetDataIterator di (Some d) ?t)"
      using False valid handle d(1) by (auto simp: InitDataBlock_def)
    with status True d assms wraps_Set [of di d "tl_data_iter t"] show ?thesis
      by (auto simp: tl_ok_def index_at_def data_open_def)
  qed
qed

lemma enter:
  assumes "tl_ok t" "wraps ii s (tl_index_iter t)" "fi s = Some s'" "iat s' b"
    and "\<And>d. b < length chunks \<Longrightarrow> dok b d \<Longrightarrow> \<exists>d'. fd d = Some d' \<and> dat b d' p"
  obtains t1 t2 t3 where "index_call ii fi t = Some t1" "InitDataBlock ii di block_function t1 = Some t2"
    "data_call_if_open di fd t2 = Some t3"
    "if b < length chunks then tl_in t3 b p else tl_ok t3 \<and> index_at t3 b \<and> data_closed t3"
proof -
  obtain t1 where t1: "index_call ii fi t = Some t1" "tl_ok t1" "index_at t1 b"
    using index_call_at [where f = fi, OF assms(1-4)] by blast
  obtain t2 where t2: "InitDataBlock ii di block_function t1 = Some t2" "tl_ok t2" "index_at t2 b"
    "if b < length chunks then data_open t2 b else data_closed t2"
    using InitDataBlock_at [OF t1(2,3)] by blast
  show ?thesis
  proof (cases "b < length chunks")
    case True
    then obtain d where "wraps di d (tl_data_iter t2)" "dok b d" using t2(4) by (auto simp: data_open_def)
    with assms(5) [OF True] obtain d' where d: "wraps di d (tl_data_iter t2)" "fd d = Some d'" "dat b d' p" by blast
    obtain t3 where "data_call di fd t2 = Some t3" "tl_in t3 b p"
      using data_call_at [where f = fd, OF t2(2,3) _ d] t2(4) True by auto
    with that [OF t1(1) t2(1), of t3] d(1) True show ?thesis by (simp add: data_call_if_open_def wraps_def)
  next
    case False
    with that [OF t1(1) t2(1), of t2] t2 show ?thesis by (simp add: data_call_if_open_def data_closed_def)
  qed
qed

text \<open>Skipping forward and backward, from a position of a block or behind its end.\<close>

lemma stop_forward:
  assumes "tl_ok t" "index_at t b" "data_closed t" "\<not> b < length chunks"
  shows "\<exists>t'. SkipEmptyDataBlocksForward ii di block_function t = Some t' \<and> tl_at t' (length (concat chunks))"
    "\<exists>t'. SkipEmptyDataBlocksBackward ii di block_function t = Some t' \<and> tl_at t' (length (concat chunks))"
  using assms(3,4) index_valid [OF assms(2)] close_data [OF assms(1)]
  by (subst SkipEmptyDataBlocksForward.simps SkipEmptyDataBlocksBackward.simps, simp add: data_closed_def tl_at_def)+

lemma skip_forward:
  assumes "tl_in t b p" "p \<le> length (chunks ! b)"
  shows "\<exists>t'. SkipEmptyDataBlocksForward ii di block_function t = Some t' \<and> tl_at t' (base b + p)"
  using assms
proof (induction "length chunks - b" arbitrary: t b p rule: less_induct)
  case less
  obtain d where d: "wraps di d (tl_data_iter t)" "dat b d p" and b: "b < length chunks" and ok: "tl_ok t" and at: "index_at t b"
    using less.prems by (auto simp: tl_in_def data_open_def)
  note valid = sorted_iterator.at_valid [OF data_iterators [OF b] d(2)]
  show ?case
  proof (cases "p < length (chunks ! b)")
    case True
    then have "base b + p < length (concat chunks)" using base_Suc [OF b] base_le [of "Suc b"] by simp
    with True d less.prems(1) valid ok show ?thesis
      by (subst SkipEmptyDataBlocksForward.simps) (auto simp: wraps_def tl_at_def)
  next
    case False
    then have g: "base b + p = base (Suc b)" using less.prems(2) base_Suc [OF b] by simp
    obtain s s' where s: "wraps ii s (tl_index_iter t)" "i_Next ii s = Some s'" "iat s' (Suc b)"
      using at index.step_next b chunks_length by (metis index_at_def)
    obtain t1 t2 t3 where e: "index_call ii (i_Next ii) t = Some t1" "InitDataBlock ii di block_function t1 = Some t2"
      "data_call_if_open di (i_SeekToFirst di) t2 = Some t3"
      "if Suc b < length chunks then tl_in t3 (Suc b) 0 else tl_ok t3 \<and> index_at t3 (Suc b) \<and> data_closed t3"
      by (rule enter [where fi = "i_Next ii" and fd = "i_SeekToFirst di", OF ok s sorted_iterator.seek_first [OF data_iterators]])
    have "\<exists>t'. SkipEmptyDataBlocksForward ii di block_function t3 = Some t' \<and> tl_at t' (base (Suc b) + 0)"
    proof (cases "Suc b < length chunks")
      case True
      then show ?thesis using e(4) by (intro less.hyps) auto
    next
      case False
      then show ?thesis using e(4) stop_forward(1) [of t3 "Suc b"] base_end [of "Suc b"] by simp
    qed
    with False d valid index_valid [OF at] b e(1-3) g show ?thesis
      by (subst SkipEmptyDataBlocksForward.simps) (simp add: wraps_def)
  qed
qed

definition before :: "nat \<Rightarrow> nat" where
  "before g = (if g = 0 then length (concat chunks) else g - 1)"

lemma skip_backward:
  assumes "tl_in t b p"
  shows "\<exists>t'. SkipEmptyDataBlocksBackward ii di block_function t = Some t'
    \<and> tl_at t' (if p < length (chunks ! b) then base b + p else before (base b))"
  using assms
proof (induction b arbitrary: t p rule: less_induct)
  case (less b)
  obtain d where d: "wraps di d (tl_data_iter t)" "dat b d p" and b: "b < length chunks" and ok: "tl_ok t" and at: "index_at t b"
    using less.prems by (auto simp: tl_in_def data_open_def)
  note valid = sorted_iterator.at_valid [OF data_iterators [OF b] d(2)]
  show ?case
  proof (cases "p < length (chunks ! b)")
    case True
    then have "base b + p < length (concat chunks)" using base_Suc [OF b] base_le [of "Suc b"] by simp
    with True d less.prems(1) valid ok show ?thesis
      by (subst SkipEmptyDataBlocksBackward.simps) (auto simp: wraps_def tl_at_def)
  next
    case False
    let ?c = "if b = 0 then length chunks else b - 1"
    obtain s s' where s: "wraps ii s (tl_index_iter t)" "i_Prev ii s = Some s'" "iat s' ?c"
      using at index.step_prev b chunks_length by (metis index_at_def)
    obtain t1 t2 t3 where e: "index_call ii (i_Prev ii) t = Some t1" "InitDataBlock ii di block_function t1 = Some t2"
      "data_call_if_open di (i_SeekToLast di) t2 = Some t3"
      "if ?c < length chunks then tl_in t3 ?c (length (chunks ! ?c) - 1) else tl_ok t3 \<and> index_at t3 ?c \<and> data_closed t3"
      by (rule enter [where fi = "i_Prev ii" and fd = "i_SeekToLast di", OF ok s sorted_iterator.seek_last [OF data_iterators]])
    have "\<exists>t'. SkipEmptyDataBlocksBackward ii di block_function t3 = Some t' \<and> tl_at t' (before (base b))"
    proof (cases b)
      case 0
      then show ?thesis using e(4) stop_forward(2) [of t3 ?c] by (simp add: before_def base_def)
    next
      case (Suc c)
      then have c: "c < length chunks" using b by simp
      have "(if length (chunks ! c) - 1 < length (chunks ! c) then base c + (length (chunks ! c) - 1) else before (base c)) = before (base b)"
        using base_Suc [OF c] Suc by (auto simp: before_def)
      with less.IH [of c t3 "length (chunks ! c) - 1"] e(4) Suc c show ?thesis by simp
    qed
    with False d valid index_valid [OF at] b e(1-3) show ?thesis
      by (subst SkipEmptyDataBlocksBackward.simps) (simp add: wraps_def)
  qed
qed

section \<open>The operations\<close>

lemma ok_index: "tl_ok t \<Longrightarrow> \<exists>s. wraps ii s (tl_index_iter t) \<and> iok s"
  by (simp add: tl_ok_def)

lemma two_level_first:
  assumes "tl_ok t"
  shows "\<exists>t'. two_level_SeekToFirst ii di block_function t = Some t' \<and> tl_at t' 0"
proof -
  obtain s s' where s: "wraps ii s (tl_index_iter t)" "i_SeekToFirst ii s = Some s'" "iat s' 0"
    using ok_index [OF assms] index.seek_first by blast
  obtain t1 t2 t3 where e: "index_call ii (i_SeekToFirst ii) t = Some t1" "InitDataBlock ii di block_function t1 = Some t2"
    "data_call_if_open di (i_SeekToFirst di) t2 = Some t3"
    "if 0 < length chunks then tl_in t3 0 0 else tl_ok t3 \<and> index_at t3 0 \<and> data_closed t3"
    by (rule enter [where fi = "i_SeekToFirst ii" and fd = "i_SeekToFirst di", OF assms s sorted_iterator.seek_first [OF data_iterators]])
  have "\<exists>t'. SkipEmptyDataBlocksForward ii di block_function t3 = Some t' \<and> tl_at t' 0"
    using e(4) stop_forward(1) [of t3 0] skip_forward [of t3 0 0] by (cases "chunks = []") (simp_all add: base_def)
  with e(1-3) show ?thesis by (simp add: two_level_SeekToFirst_def)
qed

lemma last_position: "x + l = n \<Longrightarrow> (if l - 1 < l then x + (l - 1) else if x = 0 then n else x - 1) = n - 1" for x l n :: nat
  by auto

lemma two_level_last:
  assumes "tl_ok t"
  shows "\<exists>t'. two_level_SeekToLast ii di block_function t = Some t' \<and> tl_at t' (length (concat chunks) - 1)"
proof -
  let ?b = "length chunks - 1"
  obtain s s' where s: "wraps ii s (tl_index_iter t)" "i_SeekToLast ii s = Some s'" "iat s' ?b"
    using ok_index [OF assms] index.seek_last chunks_length by metis
  obtain t1 t2 t3 where e: "index_call ii (i_SeekToLast ii) t = Some t1" "InitDataBlock ii di block_function t1 = Some t2"
    "data_call_if_open di (i_SeekToLast di) t2 = Some t3"
    "if ?b < length chunks then tl_in t3 ?b (length (chunks ! ?b) - 1) else tl_ok t3 \<and> index_at t3 ?b \<and> data_closed t3"
    by (rule enter [where fi = "i_SeekToLast ii" and fd = "i_SeekToLast di", OF assms s sorted_iterator.seek_last [OF data_iterators]])
  have "\<exists>t'. SkipEmptyDataBlocksBackward ii di block_function t3 = Some t' \<and> tl_at t' (length (concat chunks) - 1)"
  proof (cases "chunks = []")
    case True
    then show ?thesis using e(4) stop_forward(2) [of t3 ?b] by simp
  next
    case False
    then have b: "?b < length chunks" by simp
    then have "base ?b + length (chunks ! ?b) = length (concat chunks)"
      using base_Suc [OF b] base_end [of "Suc ?b"] by simp
    then have "(if length (chunks ! ?b) - 1 < length (chunks ! ?b) then base ?b + (length (chunks ! ?b) - 1) else before (base ?b))
        = length (concat chunks) - 1" unfolding before_def by (rule last_position)
    with e(4) b skip_backward [of t3 ?b "length (chunks ! ?b) - 1"] show ?thesis by simp
  qed
  with e(1-3) show ?thesis by (simp add: two_level_SeekToLast_def)
qed

lemma two_level_seek:
  assumes "tl_ok t"
  shows "\<exists>t'. two_level_Seek ii di block_function target t = Some t' \<and> tl_at t' (first_ge compare target (concat chunks))"
proof -
  let ?b = "first_ge compare target index_entries"
  obtain s s' where s: "wraps ii s (tl_index_iter t)" "i_Seek ii target s = Some s'" "iat s' ?b"
    using ok_index [OF assms] index.seek by blast
  obtain t1 t2 t3 where e: "index_call ii (i_Seek ii target) t = Some t1" "InitDataBlock ii di block_function t1 = Some t2"
    "data_call_if_open di (i_Seek di target) t2 = Some t3"
    "if ?b < length chunks then tl_in t3 ?b (first_ge compare target (chunks ! ?b)) else tl_ok t3 \<and> index_at t3 ?b \<and> data_closed t3"
    by (rule enter [where fi = "i_Seek ii target" and fd = "i_Seek di target", OF assms s sorted_iterator.seek [OF data_iterators]])
  have low: "compare (fst x) target < 0" if x: "x \<in> set (concat (take ?b chunks))" for x
  proof -
    obtain c where c: "c < ?b" "c < length chunks" "x \<in> set (chunks ! c)" using x by (auto simp: in_set_conv_nth [of _ "take _ _"])
    have "compare (fst (index_entries ! c)) target < 0"
      using c(1) set_takeWhileD [of "index_entries ! c" "\<lambda>e. compare (fst e) target < 0" index_entries]
      by (metis first_ge_def nth_mem takeWhile_nth)
    then show ?thesis using cmp_order.le_less_trans [OF order, of "fst x" "fst (index_entries ! c)" target] bounded [OF c(2,3)] by simp
  qed
  have "\<exists>t'. SkipEmptyDataBlocksForward ii di block_function t3 = Some t' \<and> tl_at t' (first_ge compare target (concat chunks))"
  proof (cases "?b < length chunks")
    case True
    have "\<not> compare (fst (index_entries ! ?b)) target < 0"
      using True chunks_length nth_length_takeWhile [of "\<lambda>e. compare (fst e) target < 0" index_entries] by (simp add: first_ge_def)
    have high: "\<not> compare (fst x) target < 0" if x: "x \<in> set (concat (drop (Suc ?b) chunks))" for x
    proof
      assume "compare (fst x) target < 0"
      obtain i where "i < length chunks - Suc ?b" "x \<in> set (chunks ! (Suc ?b + i))" using x by (auto simp: in_set_conv_nth [of _ "drop _ _"])
      moreover from this have "Suc ?b + i < length chunks" by linarith
      ultimately have "compare (fst (index_entries ! ?b)) (fst x) \<le> 0" using separated [of ?b "Suc ?b + i" x] by simp
      then have "compare (fst (index_entries ! ?b)) target < 0"
        using \<open>compare (fst x) target < 0\<close> cmp_order.le_less_trans [OF order, of _ "fst x" target] by simp
      then show False using \<open>\<not> compare (fst (index_entries ! ?b)) target < 0\<close> by simp
    qed
    have "concat chunks = concat (take ?b chunks) @ chunks ! ?b @ concat (drop (Suc ?b) chunks)"
      by (metis True concat.simps(2) concat_append id_take_nth_drop)
    then have "first_ge compare target (concat chunks) = base ?b + first_ge compare target (chunks ! ?b)"
      unfolding base_def using first_ge_blocks [of "concat (take ?b chunks)" compare target, OF low high] by (simp only:)
    moreover have "first_ge compare target (chunks ! ?b) \<le> length (chunks ! ?b)" by (simp add: first_ge_def length_takeWhile_le)
    ultimately show ?thesis using skip_forward e(4) True by simp
  next
    case False
    then have "take ?b chunks = chunks" by simp
    with low have "takeWhile (\<lambda>e. compare (fst e) target < 0) (concat chunks) = concat chunks"
      unfolding takeWhile_eq_all_conv by (simp only:) blast
    then have "first_ge compare target (concat chunks) = length (concat chunks)" by (simp only: first_ge_def)
    then show ?thesis using e(4) False stop_forward(1) [of t3 ?b] by simp
  qed
  with e(1-3) show ?thesis by (simp add: two_level_Seek_def)
qed

lemma at_in:
  assumes "tl_at t g" "g < length (concat chunks)"
  obtains b p d where "tl_ok t" "index_at t b" "data_open t b" "b < length chunks" "wraps di d (tl_data_iter t)" "dat b d p"
    "p < length (chunks ! b)" "g = base b + p"
  using assms by (auto simp: tl_at_def tl_in_def data_open_def)

lemma two_level_next:
  assumes "tl_at t g" "g < length (concat chunks)"
  shows "\<exists>t'. two_level_Next ii di block_function t = Some t' \<and> tl_at t' (Suc g)"
  using assms
proof (rule at_in)
  fix b p d
  assume p: "tl_ok t" "index_at t b" "data_open t b" "b < length chunks" "wraps di d (tl_data_iter t)" "dat b d p"
    "p < length (chunks ! b)" "g = base b + p"
  obtain d' where d': "i_Next di d = Some d'" "dat b d' (Suc p)"
    using sorted_iterator.step_next [OF data_iterators [OF p(4)] p(6,7)] by blast
  obtain t' where t': "data_call di (i_Next di) t = Some t'" "tl_in t' b (Suc p)"
    using data_call_at [where f = "i_Next di", OF p(1-3,5) d'] by blast
  with skip_forward [OF t'(2)] p(7,8) show ?thesis by (simp add: two_level_Next_def)
qed

lemma two_level_prev:
  assumes "tl_at t g" "g < length (concat chunks)"
  shows "\<exists>t'. two_level_Prev ii di block_function t = Some t' \<and> tl_at t' (if g = 0 then length (concat chunks) else g - 1)"
  using assms
proof (rule at_in)
  fix b p d
  assume p: "tl_ok t" "index_at t b" "data_open t b" "b < length chunks" "wraps di d (tl_data_iter t)" "dat b d p"
    "p < length (chunks ! b)" "g = base b + p"
  let ?p = "if p = 0 then length (chunks ! b) else p - 1"
  obtain d' where d': "i_Prev di d = Some d'" "dat b d' ?p"
    using sorted_iterator.step_prev [OF data_iterators [OF p(4)] p(6,7)] by blast
  obtain t' where t': "data_call di (i_Prev di) t = Some t'" "tl_in t' b ?p"
    using data_call_at [where f = "i_Prev di", OF p(1-3,5) d'] by blast
  have "(if ?p < length (chunks ! b) then base b + ?p else before (base b)) = (if g = 0 then length (concat chunks) else g - 1)"
    using p(7,8) by (auto simp: before_def)
  with skip_backward [OF t'(2)] t'(1) show ?thesis by (simp add: two_level_Prev_def)
qed

lemma concat_nth_base: "b < length chunks \<Longrightarrow> p < length (chunks ! b) \<Longrightarrow> concat chunks ! (base b + p) = chunks ! b ! p"
proof -
  assume b: "b < length chunks" and p: "p < length (chunks ! b)"
  have "concat chunks = concat (take b chunks) @ chunks ! b @ concat (drop (Suc b) chunks)"
    by (metis b concat.simps(2) concat_append id_take_nth_drop)
  then show ?thesis using p by (simp add: base_def nth_append)
qed

sublocale both: sorted_iterator "TwoLevelIterator ii di block_function" compare "concat chunks" tl_ok tl_at
proof (unfold_locales, unfold TwoLevelIterator_def Iterator.simps, goal_cases)
  case (1 t g)
  then show ?case by (simp add: tl_at_def)
next
  case (2 t)
  then have "wrapper_status ii (tl_index_iter t) = Status_OK" "w_iter (tl_data_iter t) \<noteq> None \<longrightarrow> wrapper_status di (tl_data_iter t) = Status_OK"
    using index.ok_status sorted_iterator.ok_status [OF data_iterators]
    by (auto simp: tl_ok_def data_closed_def data_open_def wraps_def wrapper_status_def)
  with 2 show ?case by (simp add: two_level_status_def tl_ok_def)
next
  case (3 t g)
  then show ?case
    using at_in [OF 3] sorted_iterator.at_valid [OF data_iterators]
    by (cases "g < length (concat chunks)") (auto simp: tl_at_def data_closed_def wraps_def)
next
  case (4 t g)
  from 4 show ?case
  proof (rule at_in)
    fix b p d
    assume p: "tl_ok t" "index_at t b" "data_open t b" "b < length chunks" "wraps di d (tl_data_iter t)" "dat b d p"
      "p < length (chunks ! b)" "g = base b + p"
    then show ?thesis
      using sorted_iterator.at_valid [OF data_iterators [OF p(4)] p(6)] sorted_iterator.at_entry [OF data_iterators [OF p(4)] p(6,7)]
        concat_nth_base by (simp add: wraps_def wrapper_value_def)
  qed
next
  case (5 t)
  then show ?case by (rule two_level_first)
next
  case (6 t)
  then show ?case by (rule two_level_last)
next
  case (7 t target)
  then show ?case by (rule two_level_seek)
next
  case (8 t g)
  then show ?case by (rule two_level_next)
next
  case (9 t g)
  then show ?case by (rule two_level_prev)
qed

lemma tl_new_ok:
  assumes "iok s" "arg_ok e"
  shows "tl_ok (NewTwoLevelIterator ii di s e)"
  using assms wraps_Set [of ii s]
  by (auto simp: NewTwoLevelIterator_def tl_ok_def data_closed_def IteratorWrapper_new_def wrapper_Set_def [of di])

end

end
