(* ===== verification/Ldb_Table.thy ===== *)
theory Ldb_Table
  imports Ldb_Table_Builder Ldb_Two_Level Ldb_Cache
begin

text \<open>
  Reading a table file, from \<^verbatim>\<open>table/table.cc\<close>: opening it by its footer, the filter, the reader of data blocks with the
  block cache, the two-level iterator and the lookup of a key. \<^const>\<open>None\<close> is an access outside a buffer or no
  return. Blocks are values, so a handle of the cache is released as soon as the block has been taken from it; in the
  source the iterator over the block releases it when it is deleted.
\<close>

section \<open>Tables\<close>

record 'f Table =
  t_options :: TableOptions
  t_file :: 'f
  t_cache_id :: u64
  t_filter :: "FilterBlockReader option"
  t_metaindex_handle :: BlockHandle
  t_index_block :: Block

definition ReadFilter :: "'f RandomAccessFile \<Rightarrow> slice \<Rightarrow> 'f Table \<Rightarrow> 'f Table option" where
  "ReadFilter raf filter_handle_value t =
     (case opt_filter_policy (t_options t) of
        None \<Rightarrow> Some t
      | Some policy \<Rightarrow>
          (case handle_DecodeFrom BlockHandle_new filter_handle_value of
             (s, filter_handle, v) \<Rightarrow>
               if \<not> status_ok s then Some t
               else do {(s, block) \<leftarrow> ReadBlock raf (t_file t) (opt_paranoid_checks (t_options t)) filter_handle;
                        if \<not> status_ok s then Some t
                        else Some (t\<lparr>t_filter := Some (FilterBlockReader_new policy (bc_data block))\<rparr>)}))"

definition ReadMeta :: "'f RandomAccessFile \<Rightarrow> Footer \<Rightarrow> 'f Table \<Rightarrow> 'f Table option" where
  "ReadMeta raf footer t =
     (case opt_filter_policy (t_options t) of
        None \<Rightarrow> Some t
      | Some policy \<Rightarrow>
          do {(s, contents) \<leftarrow> ReadBlock raf (t_file t) (opt_paranoid_checks (t_options t)) (ft_metaindex_handle footer);
              if \<not> status_ok s then Some t
              else do {
                let meta = Block_new (bc_data contents);
                let iter = block_NewIterator meta (cmp_compare BytewiseComparator);
                let key = cstr ''filter.'' @ cstr (fp_Name policy);
                iter \<leftarrow> i_Seek block_Iterator key iter;
                if i_Valid block_Iterator iter \<and> slice_eq (i_key block_Iterator iter) key
                then ReadFilter raf (i_value block_Iterator iter) t
                else Some t}})"

text \<open>\<^verbatim>\<open>options.block_cache\<close> is the argument \<^verbatim>\<open>cache\<close>.\<close>

definition Table_Open :: "'f RandomAccessFile \<Rightarrow> ('c, 'h, Block) Cache option \<Rightarrow> TableOptions \<Rightarrow> 'f \<Rightarrow> u64 \<Rightarrow> 'c
    \<Rightarrow> (Status \<times> 'f Table option \<times> 'c) option" where
  "Table_Open raf cache options f file_size c =
     (if unat file_size < kEncodedLength then Some (Status_Corruption (cstr ''file is too short to be an sstable'') [], None, c)
      else do {
        (s, footer_input, _) \<leftarrow> raf_Read raf (file_size - of_nat kEncodedLength) (of_nat kEncodedLength) f;
        if \<not> status_ok s then Some (s, None, c)
        else do {
          (s, footer, _) \<leftarrow> footer_DecodeFrom footer_input;
          if \<not> status_ok s then Some (s, None, c)
          else do {
            (s, contents) \<leftarrow> ReadBlock raf f (opt_paranoid_checks options) (ft_index_handle footer);
            if \<not> status_ok s then Some (s, None, c)
            else do {
              let (cache_id, c) = (case cache of None \<Rightarrow> (0, c) | Some ca \<Rightarrow> c_NewId ca c);
              t \<leftarrow> ReadMeta raf footer
                \<lparr>t_options = options, t_file = f, t_cache_id = cache_id, t_filter = None,
                 t_metaindex_handle = ft_metaindex_handle footer, t_index_block = Block_new (bc_data contents)\<rparr>;
              Some (s, Some t, c)}}}})"

section \<open>Reading blocks\<close>

record ReadOptions =
  ro_verify_checksums :: bool
  ro_fill_cache :: bool

definition cache_key :: "u64 \<Rightarrow> u64 \<Rightarrow> slice" where
  "cache_key cache_id offset = EncodeFixed64 cache_id @ EncodeFixed64 offset"

definition read_through_cache :: "'f RandomAccessFile \<Rightarrow> ('c, 'h, Block) Cache \<Rightarrow> 'f Table \<Rightarrow> ReadOptions \<Rightarrow> BlockHandle \<Rightarrow> 'c
    \<Rightarrow> (Status \<times> Block option \<times> 'c) option" where
  "read_through_cache raf ca t options handle c =
     (let key = cache_key (t_cache_id t) (bh_offset handle) in
      do {(cache_handle, c) \<leftarrow> c_Lookup ca key c;
          (case cache_handle of
             Some h \<Rightarrow> do {block \<leftarrow> c_Value ca h c; c \<leftarrow> c_Release ca h c; Some (Status_OK, Some block, c)}
           | None \<Rightarrow>
               do {(s, contents) \<leftarrow> ReadBlock raf (t_file t) (ro_verify_checksums options) handle;
                   if \<not> status_ok s then Some (s, None, c)
                   else
                     let block = Block_new (bc_data contents) in
                     if bc_cachable contents \<and> ro_fill_cache options
                     then do {(h, c) \<leftarrow> c_Insert ca key block (of_nat (blk_size block)) c; c \<leftarrow> c_Release ca h c; Some (s, Some block, c)}
                     else Some (s, Some block, c)})})"

definition read_uncached :: "'f RandomAccessFile \<Rightarrow> 'f Table \<Rightarrow> ReadOptions \<Rightarrow> BlockHandle \<Rightarrow> 'c
    \<Rightarrow> (Status \<times> Block option \<times> 'c) option" where
  "read_uncached raf t options handle c =
     do {(s, contents) \<leftarrow> ReadBlock raf (t_file t) (ro_verify_checksums options) handle;
         Some (s, if status_ok s then Some (Block_new (bc_data contents)) else None, c)}"

definition BlockReader :: "'f RandomAccessFile \<Rightarrow> ('c, 'h, Block) Cache option \<Rightarrow> 'f Table \<Rightarrow> ReadOptions
    \<Rightarrow> (block_iterator, 'c) block_function" where
  "BlockReader raf cache t options index_value c =
     (case handle_DecodeFrom BlockHandle_new index_value of
        (s, handle, input) \<Rightarrow>
          do {(s, block, c) \<leftarrow>
                (if \<not> status_ok s then Some (s, None, c)
                 else case cache of
                   Some ca \<Rightarrow> read_through_cache raf ca t options handle c
                 | None \<Rightarrow> read_uncached raf t options handle c);
              Some (case block of
                      Some b \<Rightarrow> block_NewIterator b (cmp_compare (opt_comparator (t_options t)))
                    | None \<Rightarrow> NewErrorIterator s, c)})"

section \<open>Iterating and looking up\<close>

definition index_iterator :: "'f Table \<Rightarrow> block_iterator" where
  "index_iterator t = block_NewIterator (t_index_block t) (cmp_compare (opt_comparator (t_options t)))"

definition table_Iterator :: "'f RandomAccessFile \<Rightarrow> ('c, 'h, Block) Cache option \<Rightarrow> 'f Table \<Rightarrow> ReadOptions
    \<Rightarrow> (block_iterator, block_iterator, 'c) TwoLevel Iterator" where
  "table_Iterator raf cache t options = TwoLevelIterator block_Iterator block_Iterator (BlockReader raf cache t options)"

definition table_NewIterator :: "'f Table \<Rightarrow> 'c \<Rightarrow> (block_iterator, block_iterator, 'c) TwoLevel" where
  "table_NewIterator t c = NewTwoLevelIterator block_Iterator block_Iterator (index_iterator t) c"

text \<open>The result has the entry that \<^verbatim>\<open>saver\<close> is called with, if it is.\<close>

definition InternalGet :: "'f RandomAccessFile \<Rightarrow> ('c, 'h, Block) Cache option \<Rightarrow> 'f Table \<Rightarrow> ReadOptions \<Rightarrow> slice \<Rightarrow> 'c
    \<Rightarrow> (Status \<times> (slice \<times> slice) option \<times> 'c) option" where
  "InternalGet raf cache t options k c =
     do {iiter \<leftarrow> i_Seek block_Iterator k (index_iterator t);
         (s, saved, c) \<leftarrow>
           (if i_Valid block_Iterator iiter
            then
              let handle_value = i_value block_Iterator iiter;
                  denied = (case t_filter t of None \<Rightarrow> False
                    | Some fr \<Rightarrow> (case handle_DecodeFrom BlockHandle_new handle_value of (s, handle, _) \<Rightarrow>
                        status_ok s \<and> \<not> filter_KeyMayMatch fr (bh_offset handle) k)) in
              if denied then Some (Status_OK, None, c)
              else do {(block_iter, c) \<leftarrow> BlockReader raf cache t options handle_value c;
                       block_iter \<leftarrow> i_Seek block_Iterator k block_iter;
                       Some (i_status block_Iterator block_iter,
                         if i_Valid block_Iterator block_iter
                         then Some (i_key block_Iterator block_iter, i_value block_Iterator block_iter) else None, c)}
            else Some (Status_OK, None, c));
         Some (if status_ok s then i_status block_Iterator iiter else s, saved, c)}"

definition ApproximateOffsetOf :: "'f Table \<Rightarrow> slice \<Rightarrow> u64 option" where
  "ApproximateOffsetOf t key =
     do {index_iter \<leftarrow> i_Seek block_Iterator key (index_iterator t);
         Some (if i_Valid block_Iterator index_iter
           then (case handle_DecodeFrom BlockHandle_new (i_value block_Iterator index_iter) of (s, handle, _) \<Rightarrow>
                   if status_ok s then bh_offset handle else bh_offset (t_metaindex_handle t))
           else bh_offset (t_metaindex_handle t))}"

end
