(* ===== verification/Ldb_Block_Correct.thy ===== *)
theory Ldb_Block_Correct
  imports Ldb_Block
begin

text \<open>
  A block built from a sorted list of entries is read back through its iterator: the layout of the contents, the
  entry at an offset, and the interpretation of the contract of iterators on the block iterator.
\<close>

section \<open>The layout\<close>

definition shared_at :: "nat \<Rightarrow> (slice \<times> slice) list \<Rightarrow> nat \<Rightarrow> nat" where
  "shared_at R kvs i = (if i mod R = 0 then 0 else shared_prefix (fst (kvs ! (i - 1))) (fst (kvs ! i)))"

definition entry_at :: "nat \<Rightarrow> (slice \<times> slice) list \<Rightarrow> nat \<Rightarrow> byte list" where
  "entry_at R kvs i =
     (let k = fst (kvs ! i); v = snd (kvs ! i); s = shared_at R kvs i in
      EncodeVarint32 (of_nat s) @ EncodeVarint32 (of_nat (length k - s)) @ EncodeVarint32 (of_nat (length v)) @ drop s k @ v)"

definition flat :: "nat \<Rightarrow> (slice \<times> slice) list \<Rightarrow> nat \<Rightarrow> byte list" where
  "flat R kvs i = concat (map (entry_at R kvs) [0..<i])"

definition restart_count :: "nat \<Rightarrow> nat \<Rightarrow> nat" where
  "restart_count R n = (if n = 0 then 1 else (n - 1) div R + 1)"

abbreviation (input) off :: "nat \<Rightarrow> (slice \<times> slice) list \<Rightarrow> nat \<Rightarrow> nat" where
  "off R kvs i \<equiv> length (flat R kvs i)"

definition restarts_of :: "nat \<Rightarrow> (slice \<times> slice) list \<Rightarrow> nat list" where
  "restarts_of R kvs = map (\<lambda>j. off R kvs (j * R)) [0..<restart_count R (length kvs)]"

definition block_contents :: "nat \<Rightarrow> (slice \<times> slice) list \<Rightarrow> slice" where
  "block_contents R kvs =
     flat R kvs (length kvs) @ concat (map EncodeFixed32 (map of_nat (restarts_of R kvs)))
     @ EncodeFixed32 (of_nat (restart_count R (length kvs)))"

lemma flat_Suc: "flat R kvs (Suc i) = flat R kvs i @ entry_at R kvs i"
  by (simp add: flat_def)

lemma flat_snoc: "i \<le> length kvs \<Longrightarrow> flat R (kvs @ [e]) i = flat R kvs i"
  by (induction i) (simp_all add: flat_def entry_at_def shared_at_def nth_append Let_def)

lemma shared_prefix_take:
  "take (shared_prefix a b) a = take (shared_prefix a b) b" "shared_prefix a b \<le> length a" "shared_prefix a b \<le> length b"
  by (induction a b rule: shared_prefix.induct) auto

lemma last_key_after: "take (shared_prefix a b) a @ drop (shared_prefix a b) b = b"
  by (metis append_take_drop_id shared_prefix_take(1))

lemma restart_below: "j < restart_count R n \<Longrightarrow> 0 < n \<Longrightarrow> j * R < n"
proof -
  assume "j < restart_count R n" "0 < n"
  then have "j * R \<le> (n - 1) div R * R" by (intro mult_le_mono1) (simp add: restart_count_def)
  also have "\<dots> \<le> n - 1" by simp
  finally show ?thesis using \<open>0 < n\<close> by simp
qed

lemma counter_step:
  fixes n R :: nat
  assumes "0 < n" "1 \<le> R"
  shows "(n - 1) mod R + 1 < R \<longleftrightarrow> n mod R \<noteq> 0" "n mod R \<noteq> 0 \<Longrightarrow> (n - 1) mod R + 1 = n mod R \<and> n div R = (n - 1) div R"
    "n mod R = 0 \<Longrightarrow> n div R = (n - 1) div R + 1"
proof -
  have "Suc (n - 1) = n" using assms by simp
  then have m: "n mod R = (if Suc ((n - 1) mod R) = R then 0 else Suc ((n - 1) mod R))"
    and d: "n div R = (if Suc ((n - 1) mod R) = R then Suc ((n - 1) div R) else (n - 1) div R)"
    by (metis mod_Suc, metis div_Suc mod_Suc nat.simps(3))
  have "(n - 1) mod R < R" using assms by simp
  with m d show "(n - 1) mod R + 1 < R \<longleftrightarrow> n mod R \<noteq> 0"
    "n mod R \<noteq> 0 \<Longrightarrow> (n - 1) mod R + 1 = n mod R \<and> n div R = (n - 1) div R" "n mod R = 0 \<Longrightarrow> n div R = (n - 1) div R + 1"
    by (auto split: if_splits)
qed

lemma builder_state:
  assumes "1 \<le> R"
  shows "fold (\<lambda>(k, v). block_Add k v) kvs (BlockBuilder_new R) =
    \<lparr>bb_block_restart_interval = R, bb_buffer = flat R kvs (length kvs), bb_restarts = map of_nat (restarts_of R kvs),
     bb_counter = (if kvs = [] then 0 else (length kvs - 1) mod R + 1), bb_finished = False,
     bb_last_key = (if kvs = [] then [] else fst (last kvs))\<rparr>"
proof (induction kvs rule: rev_induct)
  case Nil
  then show ?case by (simp add: BlockBuilder_new_def flat_def restarts_of_def restart_count_def)
next
  case (snoc e kvs)
  obtain k v where e: "e = (k, v)" by (cases e)
  let ?n = "length kvs"
  have flat: "flat R (kvs @ [e]) (Suc ?n) = flat R kvs ?n @ entry_at R (kvs @ [e]) ?n"
    by (simp add: flat_Suc flat_snoc)
  have entry: "entry_at R (kvs @ [e]) ?n = EncodeVarint32 (of_nat s) @ EncodeVarint32 (of_nat (length k - s))
      @ EncodeVarint32 (of_nat (length v)) @ drop s k @ v" if "s = shared_at R (kvs @ [e]) ?n" for s
    using that by (simp add: entry_at_def Let_def e)
  show ?case
  proof (cases "kvs = []")
    case True
    then show ?thesis
      using snoc assms
      by (simp add: e block_Add_def flat_def entry_at_def shared_at_def PutVarint32_def restarts_of_def restart_count_def Let_def)
  next
    case False
    then have n: "0 < ?n" by simp
    note step = counter_step [OF n assms]
    have last: "fst (kvs ! (?n - 1)) = fst (last kvs)" using False by (simp add: last_conv_nth)
    show ?thesis
    proof (cases "?n mod R = 0")
      case True
      then have s: "shared_at R (kvs @ [e]) ?n = 0" by (simp add: shared_at_def)
      have "?n div R * R = ?n" using True by auto
      moreover have "restart_count R (Suc ?n) = restart_count R ?n + 1" using step(3) [OF True] n by (simp add: restart_count_def)
      moreover have "restart_count R ?n = ?n div R" using step(3) [OF True] n by (simp add: restart_count_def)
      moreover have "flat R (kvs @ [e]) (j * R) = flat R kvs (j * R)" if "j < restart_count R ?n" for j
        using restart_below [OF that n] by (simp add: flat_snoc)
      ultimately have "restarts_of R (kvs @ [e]) = restarts_of R kvs @ [off R kvs ?n]"
        by (simp add: restarts_of_def flat_snoc)
      with True s False step(1) show ?thesis
        using snoc by (simp add: e block_Add_def flat [unfolded e] entry [OF refl, unfolded e] s [unfolded e] PutVarint32_def Let_def)
    next
      case False
      then have s: "shared_at R (kvs @ [e]) ?n = shared_prefix (fst (last kvs)) k"
        using n last by (simp add: shared_at_def nth_append e)
      have "restart_count R (Suc ?n) = restart_count R ?n" using step(2) [OF False] n by (simp add: restart_count_def)
      moreover have "flat R (kvs @ [e]) (j * R) = flat R kvs (j * R)" if "j < restart_count R ?n" for j
        using restart_below [OF that n] by (simp add: flat_snoc)
      ultimately have "restarts_of R (kvs @ [e]) = restarts_of R kvs"
        by (simp add: restarts_of_def)
      with False s \<open>kvs \<noteq> []\<close> step(1,2) show ?thesis
        using snoc by (simp add: e block_Add_def flat [unfolded e] entry [OF refl, unfolded e] s [unfolded e] PutVarint32_def Let_def
          last_key_after)
    qed
  qed
qed

lemma built_contents:
  assumes "1 \<le> R"
  shows "snd (block_Finish (fold (\<lambda>(k, v). block_Add k v) kvs (BlockBuilder_new R))) = block_contents R kvs"
proof -
  have "fold (\<lambda>r buffer. PutFixed32 buffer r) rs buffer = buffer @ concat (map EncodeFixed32 rs)" for rs buffer
    by (rule fold_appends) (simp add: PutFixed32_def)
  then show ?thesis
    unfolding builder_state [OF assms] block_Finish_def Let_def by (simp add: block_contents_def PutFixed32_def restarts_of_def)
qed

section \<open>Reading an entry\<close>

lemma small_bit_7: "(w :: u32) < 128 \<Longrightarrow> \<not> bit w 7"
  by (simp add: bit_iff_odd div_word_less)

text \<open>The fast path agrees with the three calls of \<^verbatim>\<open>GetVarint32Ptr\<close>.\<close>

lemma DecodeEntry_slow:
  assumes "3 \<le> length p"
  shows "DecodeEntry p =
    do {(shared, p) \<leftarrow> GetVarint32Ptr p; (non_shared, p) \<leftarrow> GetVarint32Ptr p; (value_length, p) \<leftarrow> GetVarint32Ptr p;
        if (of_nat (length p) :: u32) < non_shared + value_length then None else Some (shared, non_shared, value_length, p)}"
proof -
  obtain a b c q where p: "p = a # b # c # q"
    using assms by (auto simp: numeral_3_eq_3 Suc_le_length_iff)
  have one: "GetVarint32Ptr (x # r) = Some (ucast x, r)" if "\<not> bit (ucast x :: u32) 7" for x r
    using that and_exp_eq_0_iff_not_bit [of "ucast x :: u32" 7] by (simp add: GetVarint32Ptr_def Let_def)
  have "\<not> bit (ucast a :: u32) 7 \<and> \<not> bit (ucast b :: u32) 7 \<and> \<not> bit (ucast c :: u32) 7"
    if "(ucast a OR ucast b OR ucast c :: u32) < 128"
    using small_bit_7 [OF that] by (simp add: bit_or_iff)
  then show ?thesis
    by (auto simp: DecodeEntry_def p Let_def one split: bind_splits)
qed

lemma length_EncodeVarint32: "1 \<le> length (EncodeVarint32 v)"
  by (simp add: EncodeVarint32_def)

lemma GetVarint32Ptr_Encode: "GetVarint32Ptr (EncodeVarint32 v @ rest) = Some (v, rest)"
  by (simp add: EncodeVarint32_bytes GetVarint32Ptr_bytes)

lemma DecodeEntry_bytes:
  assumes "length (d @ v @ rest) < 2 ^ 32"
  shows "DecodeEntry (EncodeVarint32 s @ EncodeVarint32 (of_nat (length d)) @ EncodeVarint32 (of_nat (length v)) @ d @ v @ rest)
    = Some (s, of_nat (length d), of_nat (length v), d @ v @ rest)"
proof -
  let ?p = "EncodeVarint32 s @ EncodeVarint32 (of_nat (length d)) @ EncodeVarint32 (of_nat (length v)) @ d @ v @ rest"
  have "3 \<le> length ?p"
    using length_EncodeVarint32 [of s] length_EncodeVarint32 [of "of_nat (length d)"] length_EncodeVarint32 [of "of_nat (length v)"]
    by (simp only: length_append)
  moreover have "\<not> (of_nat (length (d @ v @ rest)) :: u32) < of_nat (length d) + of_nat (length v)"
  proof -
    have "unat (of_nat (length d) + of_nat (length v) :: u32) = length d + length v"
      using assms unat_of_nat_small [of "length d + length v", where ?'a = 32] by simp
    moreover have "unat (of_nat (length (d @ v @ rest)) :: u32) = length (d @ v @ rest)"
      using assms by (intro unat_of_nat_small) simp
    ultimately show ?thesis by (simp add: word_less_nat_alt)
  qed
  ultimately show ?thesis by (simp add: DecodeEntry_slow GetVarint32Ptr_Encode)
qed

lemma length_entry_at: "3 \<le> length (entry_at R kvs i)"
  using length_EncodeVarint32 [of "of_nat (shared_at R kvs i)"]
    length_EncodeVarint32 [of "of_nat (length (fst (kvs ! i)) - shared_at R kvs i)"]
    length_EncodeVarint32 [of "of_nat (length (snd (kvs ! i)))"]
  unfolding entry_at_def Let_def length_append by linarith

lemma off_mono: "i \<le> j \<Longrightarrow> off R kvs i \<le> off R kvs j"
  by (induction j) (auto simp: le_Suc_eq flat_Suc)

lemma off_less: "i < j \<Longrightarrow> off R kvs i < off R kvs j"
  using off_mono [of "Suc i" j R kvs] length_entry_at [of R kvs i] by (simp add: flat_Suc)

lemma off_less_iff: "off R kvs i < off R kvs j \<longleftrightarrow> i < j"
  by (metis leD linorder_not_le off_less off_mono)

lemma flat_split: "i < n \<Longrightarrow> \<exists>rest. flat R kvs n = flat R kvs i @ entry_at R kvs i @ rest"
proof (induction n)
  case (Suc n)
  then show ?case by (cases "i = n") (auto simp: flat_Suc)
qed simp

section \<open>The iterator of a built block\<close>

text \<open>The side conditions on the entries are part of the invariant.\<close>

definition buildable :: "(slice \<Rightarrow> slice \<Rightarrow> int) \<Rightarrow> nat \<Rightarrow> (slice \<times> slice) list \<Rightarrow> bool" where
  "buildable cmp R kvs \<longleftrightarrow> 1 \<le> R \<and> length (block_contents R kvs) < 2 ^ 32
     \<and> sorted_wrt (\<lambda>a b. cmp (fst a) (fst b) < 0) kvs"

definition block_ok :: "(slice \<Rightarrow> slice \<Rightarrow> int) \<Rightarrow> nat \<Rightarrow> (slice \<times> slice) list \<Rightarrow> Iter \<Rightarrow> bool" where
  "block_ok cmp R kvs it \<longleftrightarrow> buildable cmp R kvs \<and> it_comparator it = cmp \<and> it_data it = block_contents R kvs
     \<and> it_restarts it = off R kvs (length kvs) \<and> it_num_restarts it = restart_count R (length kvs) \<and> it_status it = Status_OK"

definition block_at :: "(slice \<Rightarrow> slice \<Rightarrow> int) \<Rightarrow> nat \<Rightarrow> (slice \<times> slice) list \<Rightarrow> Iter \<Rightarrow> nat \<Rightarrow> bool" where
  "block_at cmp R kvs it i \<longleftrightarrow> block_ok cmp R kvs it \<and> i \<le> length kvs \<and> it_current it = off R kvs i
     \<and> (i < length kvs \<longrightarrow> it_key it = fst (kvs ! i)
          \<and> it_value it = Some (off R kvs (Suc i) - length (snd (kvs ! i)), length (snd (kvs ! i)))
          \<and> it_restart_index it < restart_count R (length kvs))"

text \<open>An iterator that is about to parse entry \<^verbatim>\<open>i\<close>.\<close>

definition block_before :: "(slice \<Rightarrow> slice \<Rightarrow> int) \<Rightarrow> nat \<Rightarrow> (slice \<times> slice) list \<Rightarrow> Iter \<Rightarrow> nat \<Rightarrow> bool" where
  "block_before cmp R kvs it i \<longleftrightarrow> block_ok cmp R kvs it \<and> i \<le> length kvs \<and> NextEntryOffset it = Some (off R kvs i)
     \<and> (i mod R = 0 \<or> it_key it = fst (kvs ! (i - 1))) \<and> it_restart_index it < restart_count R (length kvs)"

lemma restart_count_pos: "0 < restart_count R n"
  by (simp add: restart_count_def)

lemma contents_parts:
  assumes "block_ok cmp R kvs it" "i \<le> length kvs"
  shows "off R kvs i \<le> length (it_data it)" "off R kvs i < 2 ^ 32"
  using assms off_mono [OF assms(2), of R kvs] by (simp_all add: block_ok_def buildable_def block_contents_def)

lemma advance_restart_less: "r < it_num_restarts it \<Longrightarrow> advance_restart it current r < it_num_restarts it"
proof (induction it current r rule: advance_restart.induct)
  case (1 it current r)
  then show ?case by (subst advance_restart.simps) simp
qed

lemma GetRestartPoint_built:
  assumes "block_ok cmp R kvs it" "j < restart_count R (length kvs)"
  shows "GetRestartPoint it j = off R kvs (j * R)"
proof -
  let ?rs = "map (of_nat :: nat \<Rightarrow> u32) (restarts_of R kvs)"
  have len: "length ?rs = restart_count R (length kvs)" by (simp add: restarts_of_def)
  have "drop (it_restarts it + j * 4) (it_data it)
      = concat (map EncodeFixed32 (drop j ?rs)) @ EncodeFixed32 (of_nat (restart_count R (length kvs)))"
    using assms drop_encoded [of j ?rs] len length_concat_encoded [of ?rs]
    by (simp add: block_ok_def block_contents_def mult.commute del: map_map)
  moreover have "drop j ?rs = of_nat (off R kvs (j * R)) # drop (Suc j) ?rs"
    using assms(2) len by (subst Cons_nth_drop_Suc [symmetric]) (simp_all add: restarts_of_def)
  ultimately have "GetRestartPoint it j = unat (of_nat (off R kvs (j * R)) :: u32)" by (simp add: GetRestartPoint_def)
  also have "\<dots> = off R kvs (j * R)"
  proof (intro unat_of_nat_small)
    have "j * R \<le> length kvs" using restart_below [OF assms(2)] assms(2) by (cases "length kvs = 0") (auto simp: restart_count_def)
    then show "off R kvs (j * R) < 2 ^ LENGTH(32)" using contents_parts(2) [OF assms(1)] by simp
  qed
  finally show ?thesis .
qed

lemma SeekToRestartPoint_before:
  assumes "block_ok cmp R kvs it" "j < restart_count R (length kvs)"
  shows "block_before cmp R kvs (SeekToRestartPoint j it) (j * R)"
proof -
  have le: "j * R \<le> length kvs" using restart_below [OF assms(2)] assms(2) by (cases "length kvs = 0") (auto simp: restart_count_def)
  then have "off R kvs (j * R) < 2 ^ 32" by (rule contents_parts(2) [OF assms(1)])
  with assms(2) le GetRestartPoint_built [OF assms] show ?thesis
    using assms(1) by (simp add: block_before_def SeekToRestartPoint_def NextEntryOffset_def block_ok_def)
qed

text \<open>Parsing an entry, and the end.\<close>

lemma restore_key:
  assumes "i mod R = 0 \<or> key = fst (kvs ! (i - 1))"
  shows "shared_at R kvs i \<le> length key" "take (shared_at R kvs i) key @ drop (shared_at R kvs i) (fst (kvs ! i)) = fst (kvs ! i)"
  using assms shared_prefix_take(2) last_key_after by (auto simp: shared_at_def)

lemma shared_le: "shared_at R kvs i \<le> length (fst (kvs ! i))"
  using shared_prefix_take(3) by (simp add: shared_at_def)

lemma key_length: "length (fst (kvs ! i)) \<le> off R kvs (Suc i)"
proof (induction i)
  case 0
  then show ?case by (simp add: flat_Suc entry_at_def shared_at_def Let_def)
next
  case (Suc i)
  have "shared_at R kvs (Suc i) \<le> off R kvs (Suc i)"
    using shared_prefix_take(2) [of "fst (kvs ! i)" "fst (kvs ! Suc i)"] Suc by (simp add: shared_at_def)
  moreover have "length (fst (kvs ! Suc i)) - shared_at R kvs (Suc i) \<le> length (entry_at R kvs (Suc i))"
    by (simp add: entry_at_def Let_def)
  ultimately show ?case by (simp add: flat_Suc [of _ _ "Suc i"])
qed

lemma ParseNextKey_Some:
  assumes "NextEntryOffset it = Some c" "c < it_restarts it"
    and "DecodeEntry (take (it_restarts it - c) (drop c (it_data it))) = Some (sh, ns, vl, rest)"
    and "unat sh \<le> length (it_key it)" "p = it_restarts it - length rest" "p + unat ns + unat vl \<le> length (it_data it)"
  shows "ParseNextKey it = Some (True, it\<lparr>it_current := c,
    it_restart_index := advance_restart (it\<lparr>it_current := c\<rparr>) c (it_restart_index it),
    it_key := take (unat sh) (it_key it) @ take (unat ns) (drop p (it_data it)), it_value := Some (p + unat ns, unat vl)\<rparr>)"
  using assms by (simp add: ParseNextKey_def Let_def)

lemma ParseNextKey_entry:
  assumes "block_before cmp R kvs it i" "i < length kvs"
  shows "\<exists>it'. ParseNextKey it = Some (True, it') \<and> block_at cmp R kvs it' i"
proof -
  let ?s = "shared_at R kvs i" and ?lim = "off R kvs (length kvs)"
  define d v where "d = drop ?s (fst (kvs ! i))" and "v = snd (kvs ! i)"
  define header where "header = EncodeVarint32 (of_nat ?s) @ EncodeVarint32 (of_nat (length d)) @ EncodeVarint32 (of_nat (length v))"
  have ok: "block_ok cmp R kvs it" and nxt: "NextEntryOffset it = Some (off R kvs i)" and index: "it_restart_index it < it_num_restarts it"
    and key: "i mod R = 0 \<or> it_key it = fst (kvs ! (i - 1))" using assms(1) by (auto simp: block_before_def block_ok_def)
  obtain rest where rest: "flat R kvs (length kvs) = flat R kvs i @ entry_at R kvs i @ rest" using flat_split [OF assms(2)] by blast
  have entry: "entry_at R kvs i = header @ d @ v" by (simp add: entry_at_def header_def d_def v_def Let_def)
  obtain more where data: "it_data it = flat R kvs i @ header @ d @ v @ rest @ more" "it_restarts it = ?lim"
    using ok rest by (simp add: block_ok_def block_contents_def entry)
  have lim: "?lim = off R kvs i + length header + length d + length v + length rest" by (simp add: rest entry)
  have "1 \<le> length header" using length_EncodeVarint32 [of "of_nat ?s"] by (simp add: header_def)
  then have lt: "off R kvs i < ?lim" using lim by linarith
  have small: "?lim < 2 ^ 32" using contents_parts(2) [OF ok] by simp
  have key_len: "length (fst (kvs ! i)) \<le> ?lim"
    using key_length [of kvs i R] off_mono [of "Suc i" "length kvs" R kvs] assms(2) by linarith
  have words: "unat (of_nat ?s :: u32) = ?s" "unat (of_nat (length d) :: u32) = length d" "unat (of_nat (length v) :: u32) = length v"
    using key_len small lim shared_le [of R kvs i] by (intro unat_of_nat_small, simp)+
  have decode: "DecodeEntry (header @ d @ v @ rest) = Some (of_nat ?s, of_nat (length d), of_nat (length v), d @ v @ rest)"
    unfolding header_def append_assoc using lim small by (intro DecodeEntry_bytes) simp
  have range: "take (it_restarts it - off R kvs i) (drop (off R kvs i) (it_data it)) = header @ d @ v @ rest"
    using lim by (simp add: data)
  let ?it = "it\<lparr>it_current := off R kvs i\<rparr>"
  let ?it' = "?it\<lparr>it_restart_index := advance_restart ?it (off R kvs i) (it_restart_index it), it_key := take ?s (it_key it) @ d,
      it_value := Some (off R kvs i + length header + length d, length v)\<rparr>"
  have p: "it_restarts it - length (d @ v @ rest) = off R kvs i + length header" using lim by (simp add: data)
  have tests: "\<not> it_restarts it \<le> off R kvs i" "\<not> length (it_key it) < ?s"
    "\<not> length (it_data it) < off R kvs i + length header + length d"
    using lt restore_key(1) [OF key] by (simp_all add: data)
  have "ParseNextKey it = Some (True, ?it')"
    using ParseNextKey_Some [OF nxt _ _ _ p [symmetric], of "of_nat ?s" "of_nat (length d)" "of_nat (length v)"] range decode tests words
    by (simp add: data(1))
  moreover have "advance_restart ?it (off R kvs i) (it_restart_index it) < restart_count R (length kvs)"
    using advance_restart_less [of "it_restart_index it" ?it] index ok by (simp add: block_ok_def)
  then have "block_at cmp R kvs ?it' i"
    using ok assms(2) restore_key(2) [OF key] by (simp add: block_at_def block_ok_def flat_Suc entry) (simp add: d_def v_def)
  ultimately show ?thesis by blast
qed

lemma ParseNextKey_end:
  assumes "block_before cmp R kvs it (length kvs)"
  shows "\<exists>it'. ParseNextKey it = Some (False, it') \<and> block_at cmp R kvs it' (length kvs)"
  using assms by (simp add: block_before_def ParseNextKey_def block_ok_def block_at_def)

lemma at_before:
  assumes "block_at cmp R kvs it i" "i < length kvs"
  shows "block_before cmp R kvs it (Suc i)"
proof -
  have "length (snd (kvs ! i)) \<le> off R kvs (Suc i)" by (simp add: flat_Suc entry_at_def Let_def)
  moreover have "off R kvs (Suc i) < 2 ^ 32" using assms contents_parts(2) [of cmp R kvs it "Suc i"] by (simp add: block_at_def)
  ultimately show ?thesis using assms by (simp add: block_before_def block_at_def NextEntryOffset_def)
qed

lemma parse_next:
  assumes "block_before cmp R kvs it i"
  shows "\<exists>it'. ParseNextKey it = Some (i < length kvs, it') \<and> block_at cmp R kvs it' i"
proof (cases "i < length kvs")
  case False
  with assms have "i = length kvs" by (simp add: block_before_def)
  with assms ParseNextKey_end show ?thesis by auto
qed (use assms ParseNextKey_entry in auto)

section \<open>The loops\<close>

lemma parse_until_entry:
  assumes "block_before cmp R kvs it i" "i < m" "m \<le> length kvs"
  shows "\<exists>it'. parse_until (off R kvs m) it = Some it' \<and> block_at cmp R kvs it' (m - 1)"
  using assms
proof (induction "m - i" arbitrary: it i)
  case (Suc k)
  obtain it' where it': "ParseNextKey it = Some (True, it')" "block_at cmp R kvs it' i"
    using ParseNextKey_entry [OF Suc.prems(1)] Suc.prems(2,3) by auto
  have before: "block_before cmp R kvs it' (Suc i)" using at_before [OF it'(2)] Suc.prems(2,3) by simp
  then have nxt: "NextEntryOffset it' = Some (off R kvs (Suc i))" by (simp add: block_before_def)
  show ?case
  proof (cases "Suc i < m")
    case True
    have "k = m - Suc i" using Suc.hyps(2) by simp
    from Suc.hyps(1) [OF this before True Suc.prems(3)] it'(1) nxt True show ?thesis
      by (subst parse_until.simps) (simp add: off_less_iff)
  next
    case False
    then have "m = Suc i" using Suc.prems(2) by simp
    with it' nxt show ?thesis by (subst parse_until.simps) simp
  qed
qed simp

lemma seek_linear_entry:
  assumes "block_before cmp R kvs it i"
  shows "\<exists>it'. seek_linear target it = Some it' \<and> block_at cmp R kvs it' (i + first_ge cmp target (drop i kvs))"
  using assms
proof (induction "length kvs - i" arbitrary: it i)
  case 0
  then show ?case
    using ParseNextKey_end [of cmp R kvs it] by (subst seek_linear.simps) (auto simp: first_ge_def block_before_def)
next
  case (Suc k)
  then have i: "i < length kvs" by simp
  obtain it' where it': "ParseNextKey it = Some (True, it')" "block_at cmp R kvs it' i"
    using ParseNextKey_entry [OF Suc.prems i] by blast
  have key: "it_comparator it' = cmp" "it_key it' = fst (kvs ! i)" using it'(2) i by (simp_all add: block_at_def block_ok_def)
  have split: "drop i kvs = kvs ! i # drop (Suc i) kvs" using i by (simp add: Cons_nth_drop_Suc)
  show ?case
  proof (cases "cmp (fst (kvs ! i)) target < 0")
    case True
    have "k = length kvs - Suc i" using Suc.hyps(2) by simp
    from Suc.hyps(1) [OF this at_before [OF it'(2) i]] it'(1) key True show ?thesis
      by (subst seek_linear.simps) (simp add: split first_ge_def)
  next
    case False
    with it' key show ?thesis by (subst seek_linear.simps) (simp add: split first_ge_def)
  qed
qed

text \<open>The key stored at a restart point is whole, and the search stops at a restart point before the target.\<close>

lemma restart_entry:
  assumes "block_ok cmp R kvs it" "i < length kvs" "i mod R = 0"
  shows "\<exists>vl rest. DecodeEntry (take (it_restarts it - off R kvs i) (drop (off R kvs i) (it_data it)))
      = Some (0, of_nat (length (fst (kvs ! i))), vl, rest)
    \<and> it_restarts it - length rest + unat (of_nat (length (fst (kvs ! i))) :: u32) \<le> length (it_data it)
    \<and> take (unat (of_nat (length (fst (kvs ! i))) :: u32)) (drop (it_restarts it - length rest) (it_data it)) = fst (kvs ! i)"
proof -
  let ?k = "fst (kvs ! i)" and ?v = "snd (kvs ! i)" and ?lim = "off R kvs (length kvs)"
  define header where "header = EncodeVarint32 0 @ EncodeVarint32 (of_nat (length ?k)) @ EncodeVarint32 (of_nat (length ?v))"
  obtain rest where rest: "flat R kvs (length kvs) = flat R kvs i @ entry_at R kvs i @ rest" using flat_split [OF assms(2)] by blast
  have entry: "entry_at R kvs i = header @ ?k @ ?v" using assms(3) by (simp add: entry_at_def header_def Let_def shared_at_def)
  obtain more where data: "it_data it = flat R kvs i @ header @ ?k @ ?v @ rest @ more" "it_restarts it = ?lim"
    using assms(1) rest by (simp add: block_ok_def block_contents_def entry)
  have lim: "?lim = off R kvs i + length header + length ?k + length ?v + length rest" by (simp add: rest entry)
  have small: "?lim < 2 ^ 32" using contents_parts(2) [OF assms(1)] by simp
  have word: "unat (of_nat (length ?k) :: u32) = length ?k" using small lim by (intro unat_of_nat_small) simp
  have "DecodeEntry (header @ ?k @ ?v @ rest) = Some (0, of_nat (length ?k), of_nat (length ?v), ?k @ ?v @ rest)"
    unfolding header_def append_assoc using lim small by (intro DecodeEntry_bytes) simp
  moreover have "take (it_restarts it - off R kvs i) (drop (off R kvs i) (it_data it)) = header @ ?k @ ?v @ rest"
    using lim by (simp add: data)
  moreover have "it_restarts it - length (?k @ ?v @ rest) = off R kvs i + length header" using lim by (simp add: data)
  ultimately show ?thesis using word by (simp add: data(1))
qed

lemma seek_restart_entry:
  assumes "block_ok cmp R kvs it" "0 < length kvs" "left \<le> right" "right < restart_count R (length kvs)"
    and "left = 0 \<or> cmp (fst (kvs ! (left * R))) target < 0"
  shows "\<exists>j. seek_restart target it left right = Some (Some j) \<and> j < restart_count R (length kvs)
    \<and> (j = 0 \<or> cmp (fst (kvs ! (j * R))) target < 0)"
  using assms
proof (induction "right - left" arbitrary: left right rule: less_induct)
  case less
  let ?mid = "(left + right + 1) div 2"
  show ?case
  proof (cases "left < right")
    case True
    then have mid: "left < ?mid" "?mid \<le> right" by linarith+
    then have count: "?mid < restart_count R (length kvs)" using less.prems(4) by simp
    have point: "GetRestartPoint it ?mid = off R kvs (?mid * R)" using assms(1) count by (rule GetRestartPoint_built)
    obtain vl rest where entry: "DecodeEntry (take (it_restarts it - off R kvs (?mid * R)) (drop (off R kvs (?mid * R)) (it_data it)))
        = Some (0, of_nat (length (fst (kvs ! (?mid * R)))), vl, rest)"
      "it_restarts it - length rest + unat (of_nat (length (fst (kvs ! (?mid * R)))) :: u32) \<le> length (it_data it)"
      "take (unat (of_nat (length (fst (kvs ! (?mid * R)))) :: u32)) (drop (it_restarts it - length rest) (it_data it)) = fst (kvs ! (?mid * R))"
      using restart_entry [OF assms(1) restart_below [OF count assms(2)]] by auto
    have cmp: "it_comparator it = cmp" using assms(1) by (simp add: block_ok_def)
    show ?thesis
    proof (cases "cmp (fst (kvs ! (?mid * R))) target < 0")
      case lt: True
      have "seek_restart target it left right = seek_restart target it ?mid right"
        using True entry lt cmp point by (subst seek_restart.simps) (simp add: Let_def)
      with less.hyps [OF _ assms(1,2) mid(2) less.prems(4)] lt mid show ?thesis by simp
    next
      case False
      have "seek_restart target it left right = seek_restart target it left (?mid - 1)"
        using True entry False cmp point by (subst seek_restart.simps) (simp add: Let_def)
      with less.hyps [of "?mid - 1" left, OF _ assms(1,2) _ _ less.prems(5)] mid count show ?thesis by simp
    qed
  next
    case False
    with less.prems show ?thesis by (subst seek_restart.simps) simp
  qed
qed

lemma prev_restart_entry:
  assumes "block_ok cmp R kvs it" "r < restart_count R (length kvs)"
  shows "if i = 0 then prev_restart it (off R kvs i) r = None
    else \<exists>j. prev_restart it (off R kvs i) r = Some j \<and> j \<le> r \<and> j * R < i"
  using assms(2)
proof (induction r)
  case 0
  then show ?case using GetRestartPoint_built [OF assms(1), of 0] off_less_iff [of R kvs 0 i]
    by (auto simp: not_le flat_def)
next
  case (Suc r)
  then show ?case using GetRestartPoint_built [OF assms(1) Suc.prems] off_less_iff [of R kvs "Suc r * R" i]
    by (auto simp: not_le simp flip: One_nat_def split: if_splits)
qed

lemma first_ge_drop:
  assumes "\<And>i. i < m \<Longrightarrow> cmp (fst (kvs ! i)) target < 0" "m \<le> length kvs"
  shows "first_ge cmp target kvs = m + first_ge cmp target (drop m kvs)"
proof -
  have "\<forall>e \<in> set (take m kvs). cmp (fst e) target < 0"
  proof
    fix e
    assume "e \<in> set (take m kvs)"
    then obtain i where "i < m" "e = kvs ! i" by (auto simp: in_set_conv_nth)
    then show "cmp (fst e) target < 0" using assms(1) by simp
  qed
  then have "takeWhile (\<lambda>e. cmp (fst e) target < 0) (take m kvs @ drop m kvs)
      = take m kvs @ takeWhile (\<lambda>e. cmp (fst e) target < 0) (drop m kvs)"
    by (intro takeWhile_append2) blast
  then show ?thesis using assms(2) by (simp add: first_ge_def)
qed

section \<open>The contract\<close>

text \<open>Seeking needs a total order of the keys; the order of internal keys and the order of bytes are such.\<close>

locale slice_order = cmp_order compare UNIV for compare :: "slice \<Rightarrow> slice \<Rightarrow> int"

definition built_ok :: "(slice \<Rightarrow> slice \<Rightarrow> int) \<Rightarrow> nat \<Rightarrow> (slice \<times> slice) list \<Rightarrow> block_iterator \<Rightarrow> bool" where
  "built_ok cmp R kvs x \<longleftrightarrow> (\<exists>it. x = BlockIterator it \<and> block_ok cmp R kvs it)"

definition built_at :: "(slice \<Rightarrow> slice \<Rightarrow> int) \<Rightarrow> nat \<Rightarrow> (slice \<times> slice) list \<Rightarrow> block_iterator \<Rightarrow> nat \<Rightarrow> bool" where
  "built_at cmp R kvs x i \<longleftrightarrow> (\<exists>it. x = BlockIterator it \<and> block_at cmp R kvs it i)"

context slice_order
begin

lemma block_seek:
  assumes "block_ok compare R kvs it"
  shows "\<exists>it'. block_Seek target it = Some it' \<and> block_at compare R kvs it' (first_ge compare target kvs)"
proof (cases "kvs = []")
  case True
  have "seek_restart target it 0 (it_num_restarts it - 1) = Some (Some 0)"
    using assms True by (subst seek_restart.simps) (simp add: block_ok_def restart_count_def)
  then show ?thesis
    using seek_linear_entry [OF SeekToRestartPoint_before [OF assms, of 0], of target] True
    by (simp add: block_Seek_def restart_count_def first_ge_def)
next
  case False
  have num: "it_num_restarts it = restart_count R (length kvs)" using assms by (simp add: block_ok_def)
  obtain j where j: "seek_restart target it 0 (it_num_restarts it - 1) = Some (Some j)" "j < restart_count R (length kvs)"
    "j = 0 \<or> compare (fst (kvs ! (j * R))) target < 0"
    using seek_restart_entry [OF assms, of 0 "it_num_restarts it - 1" target] False restart_count_pos [of R "length kvs"] num by auto
  have jR: "j * R < length kvs" using restart_below [OF j(2)] False by simp
  have "compare (fst (kvs ! i)) target < 0" if "i < j * R" for i
  proof -
    have "sorted_wrt (\<lambda>a b. compare (fst a) (fst b) < 0) kvs" using assms by (simp add: block_ok_def buildable_def)
    then have "compare (fst (kvs ! i)) (fst (kvs ! (j * R))) < 0" using that jR by (rule sorted_wrt_nth_less)
    then show ?thesis using j(3) that less_le_trans [of "fst (kvs ! i)" "fst (kvs ! (j * R))" target] by auto
  qed
  then have "first_ge compare target kvs = j * R + first_ge compare target (drop (j * R) kvs)"
    using jR by (intro first_ge_drop) simp_all
  with seek_linear_entry [OF SeekToRestartPoint_before [OF assms j(2)], of target] j(1) show ?thesis
    by (simp add: block_Seek_def)
qed

lemma block_prev:
  assumes "block_at cmp R kvs it i" "i < length kvs"
  shows "\<exists>it'. block_Prev it = Some it' \<and> block_at cmp R kvs it' (if i = 0 then length kvs else i - 1)"
proof -
  have ok: "block_ok cmp R kvs it" "it_current it = off R kvs i" "it_restart_index it < restart_count R (length kvs)"
    using assms by (simp_all add: block_at_def)
  note restart = prev_restart_entry [OF ok(1,3), of i]
  show ?thesis
  proof (cases "i = 0")
    case True
    with restart ok show ?thesis by (simp add: block_Prev_def block_at_def block_ok_def)
  next
    case False
    then obtain j where j: "prev_restart it (off R kvs i) (it_restart_index it) = Some j" "j \<le> it_restart_index it" "j * R < i"
      using restart by auto
    have "block_before cmp R kvs (SeekToRestartPoint j it) (j * R)"
      using SeekToRestartPoint_before [OF ok(1)] j(2) ok(3) by simp
    from parse_until_entry [OF this j(3)] assms(2) j(1) ok(2) False show ?thesis by (simp add: block_Prev_def)
  qed
qed

lemma block_last:
  assumes "block_ok cmp R kvs it"
  shows "\<exists>it'. block_SeekToLast it = Some it' \<and> block_at cmp R kvs it' (length kvs - 1)"
proof -
  have ok: "it_num_restarts it = restart_count R (length kvs)" "it_restarts it = off R kvs (length kvs)"
    using assms by (simp_all add: block_ok_def)
  have before: "block_before cmp R kvs (SeekToRestartPoint (it_num_restarts it - 1) it) ((it_num_restarts it - 1) * R)"
    using SeekToRestartPoint_before [OF assms] restart_count_pos [of R "length kvs"] ok(1) by simp
  show ?thesis
  proof (cases "kvs = []")
    case True
    then obtain it' where "ParseNextKey (SeekToRestartPoint (it_num_restarts it - 1) it) = Some (False, it')" "block_at cmp R kvs it' 0"
      using parse_next [OF before] ok(1) by (auto simp: restart_count_def)
    then show ?thesis using True by (simp add: block_SeekToLast_def) (subst parse_until.simps, simp)
  next
    case False
    then have "(it_num_restarts it - 1) * R < length kvs"
      using restart_below [of "it_num_restarts it - 1" R "length kvs"] restart_count_pos [of R "length kvs"] ok(1) by simp
    from parse_until_entry [OF before this] ok(2) show ?thesis by (simp add: block_SeekToLast_def)
  qed
qed

lemma block_value:
  assumes "block_at cmp R kvs it i" "i < length kvs"
  shows "iter_value it = snd (kvs ! i)"
proof -
  obtain rest where rest: "flat R kvs (length kvs) = flat R kvs i @ entry_at R kvs i @ rest" using flat_split [OF assms(2)] by blast
  obtain pre where entry: "entry_at R kvs i = pre @ snd (kvs ! i)" by (simp add: entry_at_def Let_def)
  obtain more where "it_data it = (flat R kvs i @ pre) @ snd (kvs ! i) @ rest @ more"
    using assms(1) rest by (simp add: block_at_def block_ok_def block_contents_def entry)
  then show ?thesis using assms by (simp add: block_at_def iter_value_def flat_Suc entry)
qed

lemma block_first:
  assumes "block_ok cmp R kvs it"
  shows "\<exists>it'. block_SeekToFirst it = Some it' \<and> block_at cmp R kvs it' 0"
  using parse_next [OF SeekToRestartPoint_before [OF assms restart_count_pos]] by (auto simp: block_SeekToFirst_def)

lemma block_next:
  assumes "block_at cmp R kvs it i" "i < length kvs"
  shows "\<exists>it'. block_Next it = Some it' \<and> block_at cmp R kvs it' (Suc i)"
  using parse_next [OF at_before [OF assms]] by (auto simp: block_Next_def)

lemma built_move:
  assumes "\<And>it. block_ok cmp R kvs it \<Longrightarrow> \<exists>it'. f it = Some it' \<and> block_at cmp R kvs it' j" "built_ok cmp R kvs x"
  shows "\<exists>x'. move f x = Some x' \<and> built_at cmp R kvs x' j"
  using assms by (fastforce simp: built_ok_def built_at_def move_def)

lemma built_step:
  assumes "\<And>it. block_at cmp R kvs it i \<Longrightarrow> \<exists>it'. f it = Some it' \<and> block_at cmp R kvs it' j" "built_at cmp R kvs x i"
  shows "\<exists>x'. move f x = Some x' \<and> built_at cmp R kvs x' j"
  using assms by (fastforce simp: built_at_def move_def)

sublocale block: sorted_iterator block_Iterator compare kvs "built_ok compare R kvs" "built_at compare R kvs" for R kvs
proof (unfold_locales, unfold block_Iterator_def Iterator.simps, goal_cases)
  case (1 s i)
  then show ?case by (auto simp: built_ok_def built_at_def block_at_def)
next
  case (2 s)
  then show ?case by (auto simp: built_ok_def block_ok_def)
next
  case (3 s i)
  then show ?case using off_less_iff [of R kvs i "length kvs"] by (auto simp: built_at_def block_at_def iter_Valid_def block_ok_def)
next
  case (4 s i)
  then show ?case using block_value [of compare R kvs _ i] by (auto simp: built_at_def block_at_def prod_eq_iff)
next
  case (5 s)
  show ?case by (rule built_move, erule block_first, rule 5)
next
  case (6 s)
  show ?case by (rule built_move, erule block_last, rule 6)
next
  case (7 s target)
  show ?case by (rule built_move, erule block_seek, rule 7)
next
  case (8 s i)
  show ?case by (rule built_step, erule block_next [OF _ 8(2)], rule 8(1))
next
  case (9 s i)
  show ?case by (rule built_step, erule block_prev [OF _ 9(2)], rule 9(1))
qed

end

context internal_order
begin

sublocale iko: slice_order "InternalKeyCompare user"
  by unfold_locales (use internal_compare_sym internal_compare_trans internal_compare_refl in blast)+

end

interpretation bytes: slice_order slice_compare
  using bytewise.cmp_order_axioms by (simp add: slice_order_def)

section \<open>Opening a block\<close>

lemma length_block_contents:
  "length (block_contents R kvs) = off R kvs (length kvs) + (restart_count R (length kvs) + 1) * 4"
  using length_concat_encoded [of "map (of_nat :: nat \<Rightarrow> u32) (restarts_of R kvs)"]
  by (simp add: block_contents_def restarts_of_def)

lemma block_open:
  assumes "buildable cmp R kvs"
  shows "built_ok cmp R kvs (block_NewIterator (Block_new (block_contents R kvs)) cmp)"
proof -
  let ?c = "block_contents R kvs" and ?n = "restart_count R (length kvs)"
  have len: "length ?c = off R kvs (length kvs) + (?n + 1) * 4" by (rule length_block_contents)
  have small: "length ?c < 2 ^ 32" using assms by (simp add: buildable_def)
  then have "?n < 2 ^ 32" using len by simp
  moreover have "drop (length ?c - 4) ?c = EncodeFixed32 (of_nat ?n)"
    unfolding block_contents_def by simp
  ultimately have num: "unat (NumRestarts ?c (length ?c)) = ?n"
    by (simp add: NumRestarts_def unat_of_nat_small)
  moreover have "unat (1 + NumRestarts ?c (length ?c)) = ?n + 1"
    using num len small by (simp add: unat_word_ariths)
  ultimately have "Block_new ?c = \<lparr>blk_data = ?c, blk_size = length ?c, blk_restart_offset = off R kvs (length kvs)\<rparr>"
    using num len small by (simp add: Block_new_def Let_def)
  then show ?thesis
    using num len assms restart_count_pos [of R "length kvs"]
    by (simp add: block_NewIterator_def Iter_new_def built_ok_def block_ok_def Let_def)
qed

text \<open>C15: A block built from entries with increasing internal keys is read back exactly: opening the bytes that
  \<^verbatim>\<open>BlockBuilder::Finish\<close> returns gives an iterator whose loop from \<^verbatim>\<open>SeekToFirst\<close> by \<^verbatim>\<open>Next\<close> visits the entries in
  their order, whose loop from \<^verbatim>\<open>SeekToLast\<close> by \<^verbatim>\<open>Prev\<close> visits them backwards, and whose loop from \<^verbatim>\<open>Seek(target)\<close> visits
  the entries that are not before the target; all loops end, and no operation reads outside the block. The prefix
  compression, the restart points and the binary search over them do not show.
\<close>

theorem block_roundtrip:
  assumes "1 \<le> R" "sorted_wrt (\<lambda>a b. InternalKeyCompare BytewiseComparator (fst a) (fst b) < 0) kvs"
    and "contents = snd (block_Finish (fold (\<lambda>(k, v). block_Add k v) kvs (BlockBuilder_new R)))"
    and "length contents < 2 ^ 32"
    and "it = block_NewIterator (Block_new contents) (InternalKeyCompare BytewiseComparator)"
  shows "scan block_Iterator it = Some kvs
    \<and> scan_back block_Iterator it = Some (rev kvs)
    \<and> scan_from block_Iterator target it = Some (dropWhile (\<lambda>e. InternalKeyCompare BytewiseComparator (fst e) target < 0) kvs)"
proof -
  have contents: "contents = block_contents R kvs" using assms(3) built_contents [OF assms(1)] by simp
  then have "buildable (InternalKeyCompare BytewiseComparator) R kvs" using assms by (simp add: buildable_def)
  from ikeys.iko.block.scans [OF block_open [OF this]] contents assms(5) show ?thesis by simp
qed

definition example_block :: "(slice \<times> slice) list" where
  "example_block = [(map of_nat [97, 98, 1, 7, 0, 0, 0, 0, 0, 0], [1, 2]),
     (map of_nat [97, 98, 1, 5, 0, 0, 0, 0, 0, 0], []), (map of_nat [97, 99, 0, 9, 0, 0, 0, 0, 0, 0], [3])]"

lemma block_roundtrip_witness:
  "let it = block_NewIterator (Block_new (snd (block_Finish (fold (\<lambda>(k, v). block_Add k v) example_block (BlockBuilder_new 2)))))
      (InternalKeyCompare BytewiseComparator)
   in scan block_Iterator it = Some example_block \<and> scan_back block_Iterator it = Some (rev example_block)"
proof -
  have "sorted_wrt (\<lambda>a b. InternalKeyCompare BytewiseComparator (fst a) (fst b) < 0) example_block" by code_simp
  moreover have "length (block_contents 2 example_block) < 100" by code_simp
  ultimately show ?thesis
    using block_roundtrip [of 2 example_block, OF _ _ refl _ refl] unfolding built_contents [OF one_le_numeral] by (simp add: Let_def)
qed

end
