(* ===== verification/Ldb_Table_Write.thy ===== *)
theory Ldb_Table_Write
  imports Ldb_Table Ldb_Block_Correct
begin

text \<open>
  What the table builder writes: if no operation on the file fails, the file has the data blocks, the filter block, the
  metaindex, the index and the footer, with handles that lead to them and index keys that separate the blocks.
\<close>

section \<open>The layout\<close>

definition data_bytes :: "nat \<Rightarrow> (slice \<times> slice) list list \<Rightarrow> byte list" where
  "data_bytes R chunks = concat (map (\<lambda>c. with_trailer (block_contents R c)) chunks)"

definition chunk_handle :: "nat \<Rightarrow> (slice \<times> slice) list list \<Rightarrow> nat \<Rightarrow> BlockHandle" where
  "chunk_handle R chunks i =
     \<lparr>bh_offset = of_nat (length (data_bytes R (take i chunks))), bh_size = of_nat (length (block_contents R (chunks ! i)))\<rparr>"

definition index_of :: "nat \<Rightarrow> (slice \<times> slice) list list \<Rightarrow> slice list \<Rightarrow> (slice \<times> slice) list" where
  "index_of R chunks seps = map (\<lambda>i. (seps ! i, handle_EncodeTo (chunk_handle R chunks i) [])) [0..<length seps]"

definition filter_blocks :: "nat \<Rightarrow> (slice \<times> slice) list list \<Rightarrow> (u64 \<times> slice list) list" where
  "filter_blocks R chunks = map (\<lambda>i. (bh_offset (chunk_handle R chunks i), map fst (chunks ! i))) [0..<length chunks]"

abbreviation (input) block_of :: "nat \<Rightarrow> (slice \<times> slice) list \<Rightarrow> BlockBuilder" where
  "block_of R kvs \<equiv> fold (\<lambda>(k, v). block_Add k v) kvs (BlockBuilder_new R)"

lemma data_bytes_snoc: "data_bytes R (chunks @ [c]) = data_bytes R chunks @ with_trailer (block_contents R c)"
  by (simp add: data_bytes_def)

lemma chunk_handle_snoc:
  "i < length chunks \<Longrightarrow> chunk_handle R (chunks @ [c]) i = chunk_handle R chunks i"
  "chunk_handle R (chunks @ [c]) (length chunks)
     = \<lparr>bh_offset = of_nat (length (data_bytes R chunks)), bh_size = of_nat (length (block_contents R c))\<rparr>"
  by (simp_all add: chunk_handle_def nth_append)

lemma index_of_snoc:
  "length seps \<le> length chunks \<Longrightarrow> index_of R (chunks @ [c]) seps = index_of R chunks seps"
  "length seps < length chunks \<Longrightarrow>
     index_of R chunks (seps @ [s]) = index_of R chunks seps @ [(s, handle_EncodeTo (chunk_handle R chunks (length seps)) [])]"
  by (simp_all add: index_of_def chunk_handle_snoc nth_append)

lemma filter_blocks_snoc:
  "filter_blocks R (chunks @ [c]) = filter_blocks R chunks @ [(of_nat (length (data_bytes R chunks)), map fst c)]"
  by (simp add: filter_blocks_def chunk_handle_snoc nth_append)

text \<open>The whole file, for the entries of \<^verbatim>\<open>chunks\<close> and index keys \<^verbatim>\<open>seps\<close>.\<close>

definition filter_contents :: "FilterPolicy \<Rightarrow> nat \<Rightarrow> (slice \<times> slice) list list \<Rightarrow> slice" where
  "filter_contents policy R chunks =
     snd (filter_Finish (add_blocks policy (filter_blocks R chunks @ [(of_nat (length (data_bytes R chunks)), [])])))"

definition filter_bytes :: "TableOptions \<Rightarrow> (slice \<times> slice) list list \<Rightarrow> byte list" where
  "filter_bytes options chunks =
     (case opt_filter_policy options of None \<Rightarrow> []
      | Some policy \<Rightarrow> with_trailer (filter_contents policy (opt_block_restart_interval options) chunks))"

definition filter_handle :: "TableOptions \<Rightarrow> FilterPolicy \<Rightarrow> (slice \<times> slice) list list \<Rightarrow> BlockHandle" where
  "filter_handle options policy chunks =
     (let R = opt_block_restart_interval options in
      \<lparr>bh_offset = of_nat (length (data_bytes R chunks)), bh_size = of_nat (length (filter_contents policy R chunks))\<rparr>)"

definition meta_entries :: "TableOptions \<Rightarrow> (slice \<times> slice) list list \<Rightarrow> (slice \<times> slice) list" where
  "meta_entries options chunks =
     (case opt_filter_policy options of None \<Rightarrow> []
      | Some policy \<Rightarrow> [(cstr ''filter.'' @ cstr (fp_Name policy), handle_EncodeTo (filter_handle options policy chunks) [])])"

definition body_bytes :: "TableOptions \<Rightarrow> (slice \<times> slice) list list \<Rightarrow> byte list" where
  "body_bytes options chunks = data_bytes (opt_block_restart_interval options) chunks @ filter_bytes options chunks"

definition meta_contents :: "TableOptions \<Rightarrow> (slice \<times> slice) list list \<Rightarrow> slice" where
  "meta_contents options chunks = block_contents (opt_block_restart_interval options) (meta_entries options chunks)"

definition index_contents :: "TableOptions \<Rightarrow> (slice \<times> slice) list list \<Rightarrow> slice list \<Rightarrow> slice" where
  "index_contents options chunks seps = block_contents 1 (index_of (opt_block_restart_interval options) chunks seps)"

definition table_footer :: "TableOptions \<Rightarrow> (slice \<times> slice) list list \<Rightarrow> slice list \<Rightarrow> Footer" where
  "table_footer options chunks seps =
     \<lparr>ft_metaindex_handle = \<lparr>bh_offset = of_nat (length (body_bytes options chunks)), bh_size = of_nat (length (meta_contents options chunks))\<rparr>,
      ft_index_handle = \<lparr>bh_offset = of_nat (length (body_bytes options chunks @ with_trailer (meta_contents options chunks))),
                         bh_size = of_nat (length (index_contents options chunks seps))\<rparr>\<rparr>"

definition table_bytes :: "TableOptions \<Rightarrow> (slice \<times> slice) list list \<Rightarrow> slice list \<Rightarrow> byte list" where
  "table_bytes options chunks seps =
     body_bytes options chunks @ with_trailer (meta_contents options chunks) @ with_trailer (index_contents options chunks seps)
     @ footer_EncodeTo (table_footer options chunks seps) []"

text \<open>The separators: one for every finished block, not below its keys and below all later ones, made by the comparator from
  the last key of the block and the next key.\<close>

definition separator_for :: "comparator \<Rightarrow> slice \<Rightarrow> (slice \<times> slice) list \<Rightarrow> slice" where
  "separator_for cmp k rest = (case rest of [] \<Rightarrow> cmp_successor cmp k | x # _ \<Rightarrow> cmp_separator cmp k (fst x))"

lemma separator_for_simps [simp]:
  "separator_for cmp k [] = cmp_successor cmp k" "separator_for cmp k (x # xs) = cmp_separator cmp k (fst x)"
  "ys \<noteq> [] \<Longrightarrow> separator_for cmp k (xs @ ys @ zs) = separator_for cmp k (xs @ ys)"
  by (simp_all add: separator_for_def) (cases xs; cases ys; simp)

definition separates :: "comparator \<Rightarrow> slice list \<Rightarrow> (slice \<times> slice) list list \<Rightarrow> (slice \<times> slice) list \<Rightarrow> bool" where
  "separates cmp seps chunks cur \<longleftrightarrow> (\<forall>i < length seps.
     (\<forall>x \<in> set (chunks ! i). cmp_compare cmp (fst x) (seps ! i) \<le> 0)
     \<and> (\<forall>x \<in> set (concat (drop (Suc i) chunks) @ cur). cmp_compare cmp (seps ! i) (fst x) < 0)
     \<and> separator_for cmp (fst (last (chunks ! i))) (concat (drop (Suc i) chunks) @ cur) = seps ! i)"

section \<open>Writing a block\<close>

definition stores_plain :: "TableOptions \<Rightarrow> bool" where
  "stores_plain options \<longleftrightarrow> opt_compression options = kNoCompression \<or> opt_compression options = kSnappyCompression"

lemma compress_plain: "stores_plain options \<Longrightarrow> compress_block (opt_compression options) raw = (raw, kNoCompression)"
  by (auto simp: stores_plain_def compress_block_def Snappy_Compress_def)

lemma trailer_bytes: "kNoCompression # EncodeFixed32 (Mask (Extend (Value c) [kNoCompression])) = drop (length c) (with_trailer c)"
  by (simp add: with_trailer_def Value_def Extend_append)

locale table_writer = sink: append_file out contents full + order: key_order cmp UNIV
  for out :: "'f WritableFile" and contents full and cmp :: comparator
begin

lemma raw_block:
  assumes "WriteRawBlock out c kNoCompression r = (handle, r')" "tb_ok r'" "tb_offset r = of_nat (length (contents (tb_file r)))"
  shows "\<exists>s file. r' = r\<lparr>tb_status := s, tb_file := file, tb_offset := of_nat (length (contents file))\<rparr> \<and> status_ok s
    \<and> contents file = contents (tb_file r) @ with_trailer c
    \<and> handle = \<lparr>bh_offset = of_nat (length (contents (tb_file r))), bh_size = of_nat (length c)\<rparr>"
proof -
  obtain s1 f1 where a1: "wf_Append out c (tb_file r) = (s1, f1)" by force
  obtain s2 f2 where a2: "wf_Append out (drop (length c) (with_trailer c)) f1 = (s2, f2)" by force
  have ok1: "status_ok s1" using assms(1,2) a1 by (auto simp: WriteRawBlock_def tb_ok_def Let_def split: if_splits)
  moreover have ok2: "status_ok s2"
    using assms(1,2) a1 a2 ok1 by (auto simp: WriteRawBlock_def tb_ok_def trailer_bytes Let_def split: if_splits)
  ultimately have "contents f1 = contents (tb_file r) @ c" "contents f2 = contents f1 @ drop (length c) (with_trailer c)"
    using sink.append_result [OF a1] sink.append_result [OF a2] by simp_all
  moreover from this have f2: "contents f2 = contents (tb_file r) @ with_trailer c" by (simp add: with_trailer_def)
  ultimately show ?thesis
    using assms(1,3) a1 a2 ok1 ok2
    by (intro exI [of _ s2] exI [of _ f2]) (auto simp: WriteRawBlock_def trailer_bytes kBlockTrailerSize_def Let_def)
qed

lemma block_written:
  assumes "WriteBlock out (block_of R kvs) r = (handle, block, r')" "tb_ok r'" "tb_offset r = of_nat (length (contents (tb_file r)))"
    and "stores_plain (tb_options r)" "1 \<le> R"
  shows "\<exists>s file. r' = r\<lparr>tb_status := s, tb_file := file, tb_offset := of_nat (length (contents file))\<rparr> \<and> status_ok s
    \<and> contents file = contents (tb_file r) @ with_trailer (block_contents R kvs)
    \<and> handle = \<lparr>bh_offset = of_nat (length (contents (tb_file r))), bh_size = of_nat (length (block_contents R kvs))\<rparr>
    \<and> block = BlockBuilder_new R"
proof -
  obtain b where fin: "block_Finish (block_of R kvs) = (b, block_contents R kvs)" "bb_block_restart_interval b = R"
    using built_contents [OF assms(5), of kvs] builder_state [OF assms(5), of kvs] by (auto simp: block_Finish_def Let_def)
  then have "block = block_Reset b" "WriteRawBlock out (block_contents R kvs) kNoCompression r = (handle, r')"
    using assms(1,4) by (auto simp: WriteBlock_def compress_plain split: prod.splits)
  with fin(2) raw_block [OF _ assms(2,3)] show ?thesis by (auto simp: block_Reset_def BlockBuilder_new_def)
qed

section \<open>Adding entries\<close>

text \<open>The state after the entries of \<^verbatim>\<open>chunks\<close>, written as blocks, and of \<^verbatim>\<open>cur\<close>, the block in the making.\<close>

definition building :: "TableOptions \<Rightarrow> (slice \<times> slice) list list \<Rightarrow> (slice \<times> slice) list \<Rightarrow> slice list \<Rightarrow> 'f TableBuilder \<Rightarrow> bool" where
  "building options chunks cur seps r \<longleftrightarrow>
     (let R = opt_block_restart_interval options in
      tb_options r = options
      \<and> contents (tb_file r) = data_bytes R chunks
      \<and> tb_offset r = of_nat (length (contents (tb_file r)))
      \<and> tb_data_block r = block_of R cur
      \<and> tb_index_block r = block_of 1 (index_of R chunks seps)
      \<and> tb_filter_block r = map_option (\<lambda>policy. add_blocks policy
           (filter_blocks R chunks @ [(of_nat (length (data_bytes R chunks)), map fst cur)])) (opt_filter_policy options)
      \<and> [] \<notin> set chunks \<and> separates cmp seps chunks cur
      \<and> (if tb_pending_index_entry r
          then chunks \<noteq> [] \<and> length chunks = Suc (length seps) \<and> cur = []
            \<and> tb_pending_handle r = chunk_handle R chunks (length seps) \<and> tb_last_key r = fst (last (last chunks))
          else length chunks = length seps \<and> (chunks \<noteq> [] \<longrightarrow> cur \<noteq> []) \<and> (cur \<noteq> [] \<longrightarrow> tb_last_key r = fst (last cur))))"

definition usable :: "TableOptions \<Rightarrow> bool" where
  "usable options \<longleftrightarrow> opt_comparator options = cmp \<and> stores_plain options \<and> 1 \<le> opt_block_restart_interval options"

lemma building_new:
  assumes "contents f = []"
  shows "building options [] [] [] (TableBuilder_new options f)"
  using assms
  by (auto simp: building_def TableBuilder_new_def data_bytes_def index_of_def filter_blocks_def separates_def add_blocks_def Let_def
      split: option.splits intro!: option.map_cong)

lemma empty_buffer: "1 \<le> R \<Longrightarrow> bb_buffer (block_of R kvs) = [] \<longleftrightarrow> kvs = []"
  using off_less [of 0 "length kvs" R kvs] by (cases "kvs = []") (auto simp: builder_state, simp add: BlockBuilder_new_def)

lemma add_blocks_start: "StartBlock (add_blocks policy blocks) pos = add_blocks policy (blocks @ [(pos, [])])"
  by (simp add: add_blocks_def)

lemma add_blocks_key: "AddKey key (add_blocks policy (blocks @ [(pos, keys)])) = add_blocks policy (blocks @ [(pos, keys @ [key])])"
  by (simp add: add_blocks_def)

lemma building_Flush:
  assumes "building options chunks cur seps r" "usable options" "\<not> tb_pending_index_entry r" "cur \<noteq> []" "tb_ok (table_Flush out r)"
  shows "building options (chunks @ [cur]) [] seps (table_Flush out r) \<and> tb_pending_index_entry (table_Flush out r)"
proof -
  let ?R = "opt_block_restart_interval options"
  have R: "1 \<le> ?R" using assms(2) by (simp add: usable_def)
  have ok: "tb_ok r" using assms(5) by (auto simp: table_Flush_def split: if_splits)
  have inv: "tb_data_block r = block_of ?R cur" "tb_options r = options" "tb_offset r = of_nat (length (contents (tb_file r)))"
    using assms(1) by (simp_all add: building_def Let_def)
  obtain handle block r1 where w: "WriteBlock out (block_of ?R cur) r = (handle, block, r1)" by (cases "WriteBlock out (block_of ?R cur) r")
  have ok1: "tb_ok r1"
    using assms(4,5) ok w inv(1) empty_buffer [OF R, of cur] by (auto simp: table_Flush_def tb_ok_def Let_def split: if_splits)
  obtain s1 f1 where r1: "r1 = r\<lparr>tb_status := s1, tb_file := f1, tb_offset := of_nat (length (contents f1))\<rparr>"
    "contents f1 = contents (tb_file r) @ with_trailer (block_contents ?R cur)" "block = BlockBuilder_new ?R"
    "handle = \<lparr>bh_offset = of_nat (length (contents (tb_file r))), bh_size = of_nat (length (block_contents ?R cur))\<rparr>"
    using block_written [OF w ok1 inv(3) _ R] inv(2) assms(2) by (auto simp: usable_def)
  obtain s f2 where fl: "wf_Flush out f1 = (s, f2)" by force
  then have f2: "contents f2 = contents f1" using sink.flush_result by blast
  have eq: "table_Flush out r = r\<lparr>tb_status := s, tb_file := f2, tb_offset := of_nat (length (contents f1)), tb_pending_handle := handle,
      tb_data_block := block, tb_pending_index_entry := True,
      tb_filter_block := map_option (\<lambda>fb. StartBlock fb (of_nat (length (contents f1)))) (tb_filter_block r)\<rparr>"
    using ok ok1 w inv(1) empty_buffer [OF R, of cur] assms(4) fl
    by (simp add: table_Flush_def tb_ok_def r1(1))
  have "separates cmp seps (chunks @ [cur]) []"
    using assms(1) by (auto simp: building_def separates_def Let_def nth_append split: if_splits)
  moreover have "handle = chunk_handle ?R (chunks @ [cur]) (length seps)"
    using assms(1,3) r1(4) chunk_handle_snoc(2) [of ?R chunks cur] by (simp add: building_def Let_def)
  ultimately show ?thesis
    using assms(1,3,4) r1(2,3) f2 unfolding eq
    by (auto simp: building_def Let_def data_bytes_snoc index_of_snoc filter_blocks_snoc chunk_handle_snoc option.map_comp o_def
        add_blocks_start intro!: option.map_cong)
qed

lemma separates_new:
  assumes "separates cmp seps (cs @ [c]) []" "length cs = length seps" "c \<noteq> []"
    and "\<And>x. x \<in> set c \<Longrightarrow> cmp_compare cmp (fst x) k < 0"
    and "sorted_wrt (\<lambda>a b. cmp_compare cmp (fst a) (fst b) < 0) c"
  shows "separates cmp (seps @ [cmp_separator cmp (fst (last c)) k]) (cs @ [c]) [(k, v)]"
proof -
  let ?sep = "cmp_separator cmp (fst (last c)) k"
  have last: "last c \<in> set c" using assms(3) by simp
  then have between: "cmp_compare cmp (fst (last c)) ?sep \<le> 0" "cmp_compare cmp ?sep k < 0"
    using order.separator_between [of "fst (last c)" k] assms(4) by auto
  have "sorted_wrt (\<lambda>a b. cmp_compare cmp (fst a) (fst b) < 0) (butlast c @ [last c])" using assms(3,5) by simp
  then have "cmp_compare cmp (fst x) (fst (last c)) \<le> 0" if "x \<in> set (butlast c @ [last c])" for x
    using that order.compare_refl by (auto simp: sorted_wrt_append intro: less_imp_le)
  then have upper: "cmp_compare cmp (fst x) ?sep \<le> 0" if "x \<in> set c" for x
    using that assms(3) between(1) order.compare_trans [of "fst x" "fst (last c)" ?sep] by simp
  have old: "cmp_compare cmp (seps ! i) k < 0" if "i < length seps" for i
  proof -
    have "cmp_compare cmp (seps ! i) (fst (last c)) < 0" using assms(1,2) that last by (auto simp: separates_def)
    then show ?thesis using order.less_le_trans [of "seps ! i" "fst (last c)" k] assms(4) [OF last] by simp
  qed
  show ?thesis
    using assms(1-3) upper old between(2) by (auto simp: separates_def nth_append less_Suc_eq)
qed

lemma separates_more:
  assumes "separates cmp seps chunks cur" "cur \<noteq> []" "\<And>x. x \<in> set cur \<Longrightarrow> cmp_compare cmp (fst x) k < 0"
  shows "separates cmp seps chunks (cur @ [(k, v)])"
proof -
  have "cmp_compare cmp (seps ! i) k < 0" if "i < length seps" for i
  proof -
    have "cmp_compare cmp (seps ! i) (fst (hd cur)) < 0" using assms(1,2) that by (auto simp: separates_def)
    then show ?thesis using order.less_le_trans [of "seps ! i" "fst (hd cur)" k] assms(2) assms(3) [of "hd cur"] by simp
  qed
  with assms(1,2) show ?thesis by (auto simp: separates_def)
qed

text \<open>One entry more: first the index entry of the block before, then the entry itself, then perhaps a new block.\<close>

definition table_put :: "slice \<Rightarrow> slice \<Rightarrow> 'f TableBuilder \<Rightarrow> 'f TableBuilder" where
  "table_put key value r =
     (let r = (if tb_pending_index_entry r
               then add_index_entry (cmp_separator (opt_comparator (tb_options r)) (tb_last_key r) key) r else r)
      in r\<lparr>tb_filter_block := map_option (AddKey key) (tb_filter_block r), tb_last_key := key,
           tb_num_entries := tb_num_entries r + 1, tb_data_block := block_Add key value (tb_data_block r)\<rparr>)"

lemma building_put:
  assumes "building options chunks cur seps r" "usable options"
    and "sorted_wrt (\<lambda>a b. cmp_compare cmp (fst a) (fst b) < 0) (concat chunks @ cur @ [(k, v)])"
  shows "\<exists>seps'. building options chunks (cur @ [(k, v)]) seps' (table_put k v r) \<and> \<not> tb_pending_index_entry (table_put k v r)"
proof (cases "tb_pending_index_entry r")
  case True
  let ?R = "opt_block_restart_interval options"
  obtain cs c where chunks: "chunks = cs @ [c]" using assms(1) True by (cases chunks rule: rev_cases) (auto simp: building_def Let_def)
  then have inv: "cur = []" "length cs = length seps" "c \<noteq> []" "tb_last_key r = fst (last c)" "tb_options r = options"
    "tb_pending_handle r = chunk_handle ?R chunks (length seps)" "tb_index_block r = block_of 1 (index_of ?R chunks seps)" "separates cmp seps chunks []"
    using assms(1) True by (auto simp: building_def Let_def)
  let ?sep = "cmp_separator cmp (fst (last c)) k"
  have sep: "separates cmp (seps @ [?sep]) chunks [(k, v)]"
    using inv(2,3,8) assms(3) unfolding chunks by (intro separates_new) (auto simp: sorted_wrt_append inv(1))
  have index: "index_of ?R chunks (seps @ [?sep]) = index_of ?R chunks seps @ [(?sep, handle_EncodeTo (tb_pending_handle r) [])]"
    using inv(2,6) chunks by (simp add: index_of_snoc(2))
  have "opt_comparator options = cmp" using assms(2) by (simp add: usable_def)
  then have "building options chunks (cur @ [(k, v)]) (seps @ [?sep]) (table_put k v r)"
    using assms(1) True sep index inv chunks
    by (auto simp: building_def table_put_def add_index_entry_def Let_def add_blocks_key option.map_comp o_def intro!: option.map_cong)
  moreover have "\<not> tb_pending_index_entry (table_put k v r)" by (simp add: table_put_def add_index_entry_def Let_def True)
  ultimately show ?thesis by blast
next
  case False
  have "separates cmp seps chunks (cur @ [(k, v)])"
  proof (cases "cur = []")
    case True
    then show ?thesis using assms(1) False by (auto simp: building_def separates_def Let_def)
  next
    case cur: False
    then show ?thesis using assms(1,3) by (intro separates_more) (auto simp: building_def Let_def sorted_wrt_append)
  qed
  then have "building options chunks (cur @ [(k, v)]) seps (table_put k v r)"
    using assms(1) False
    by (auto simp: building_def table_put_def Let_def add_blocks_key option.map_comp o_def intro!: option.map_cong)
  with False show ?thesis by (auto simp: table_put_def Let_def)
qed

lemma building_Add:
  assumes "building options chunks cur seps r" "usable options" "tb_ok (table_Add out k v r)"
    and "sorted_wrt (\<lambda>a b. cmp_compare cmp (fst a) (fst b) < 0) (concat chunks @ cur @ [(k, v)])"
  shows "\<exists>chunks' cur' seps'. building options chunks' cur' seps' (table_Add out k v r) \<and> concat chunks' @ cur' = concat chunks @ cur @ [(k, v)]"
proof -
  have ok: "tb_ok r" using assms(3) by (auto simp: table_Add_def split: if_splits)
  obtain seps' where put: "building options chunks (cur @ [(k, v)]) seps' (table_put k v r)" "\<not> tb_pending_index_entry (table_put k v r)"
    using building_put [OF assms(1,2,4)] by blast
  have add: "table_Add out k v r = (if CurrentSizeEstimate (tb_data_block (table_put k v r)) \<ge> opt_block_size (tb_options (table_put k v r))
      then table_Flush out (table_put k v r) else table_put k v r)"
    using ok by (simp add: table_Add_def table_put_def Let_def)
  show ?thesis
  proof (cases "CurrentSizeEstimate (tb_data_block (table_put k v r)) \<ge> opt_block_size (tb_options (table_put k v r))")
    case True
    then have "building options (chunks @ [cur @ [(k, v)]]) [] seps' (table_Add out k v r)"
      using building_Flush [OF put(1) assms(2) put(2)] assms(3) add by simp
    then show ?thesis by (intro exI) (rule conjI, assumption, simp)
  next
    case False
    with put(1) add show ?thesis by (intro exI) (rule conjI, simp, simp)
  qed
qed

lemma not_ok_Add: "\<not> tb_ok r \<Longrightarrow> table_Add out k v r = r"
  by (simp add: table_Add_def)

lemma not_ok_adds: "\<not> tb_ok r \<Longrightarrow> fold (\<lambda>(k, v). table_Add out k v) kvs r = r"
  by (induction kvs) (auto simp: not_ok_Add)

lemma building_adds:
  assumes "building options chunks cur seps r" "usable options" "tb_ok (fold (\<lambda>(k, v). table_Add out k v) kvs r)"
    and "sorted_wrt (\<lambda>a b. cmp_compare cmp (fst a) (fst b) < 0) (concat chunks @ cur @ kvs)"
  shows "\<exists>chunks' cur' seps'. building options chunks' cur' seps' (fold (\<lambda>(k, v). table_Add out k v) kvs r)
    \<and> concat chunks' @ cur' = concat chunks @ cur @ kvs"
  using assms
proof (induction kvs arbitrary: chunks cur seps r)
  case Nil
  then show ?case by auto
next
  case (Cons e kvs)
  obtain k v where e: "e = (k, v)" by (cases e)
  have ok: "tb_ok (table_Add out k v r)"
  proof (rule ccontr)
    assume "\<not> tb_ok (table_Add out k v r)"
    with Cons.prems(3) not_ok_adds show False by (simp add: e)
  qed
  have sorted: "sorted_wrt (\<lambda>a b. cmp_compare cmp (fst a) (fst b) < 0) ((concat chunks @ cur @ [(k, v)]) @ kvs)"
    using Cons.prems(4) by (simp add: e)
  then have "sorted_wrt (\<lambda>a b. cmp_compare cmp (fst a) (fst b) < 0) (concat chunks @ cur @ [(k, v)])"
    by (rule sorted_wrt_append [THEN iffD1, THEN conjunct1])
  from building_Add [OF Cons.prems(1,2) ok this]
  obtain chunks' cur' seps' where step: "building options chunks' cur' seps' (table_Add out k v r)"
    "concat chunks' @ cur' = concat chunks @ cur @ [(k, v)]" by blast
  with sorted have "sorted_wrt (\<lambda>a b. cmp_compare cmp (fst a) (fst b) < 0) (concat chunks' @ cur' @ kvs)" by (metis append_assoc)
  from Cons.IH [OF step(1) Cons.prems(2) _ this] Cons.prems(3) step(2) show ?case by (simp add: e) (metis append_Cons append_Nil append_assoc)
qed

section \<open>Finishing the table\<close>

definition finished :: "TableOptions \<Rightarrow> (slice \<times> slice) list list \<Rightarrow> byte list \<Rightarrow> 'f TableBuilder \<Rightarrow> bool" where
  "finished options chunks bytes r \<longleftrightarrow> tb_options r = options \<and> contents (tb_file r) = bytes
     \<and> tb_offset r = of_nat (length (contents (tb_file r))) \<and> (tb_filter_block r = None \<longleftrightarrow> opt_filter_policy options = None)"

lemma filter_finished:
  assumes "building options chunks [] seps r" "finish_filter out r = (handle, r')" "tb_ok r'"
  shows "finished options chunks (body_bytes options chunks) r' \<and> tb_ok r
    \<and> tb_index_block r' = tb_index_block r \<and> tb_pending_index_entry r' = tb_pending_index_entry r
    \<and> tb_pending_handle r' = tb_pending_handle r \<and> tb_last_key r' = tb_last_key r
    \<and> (\<forall>policy. opt_filter_policy options = Some policy \<longrightarrow> handle = filter_handle options policy chunks)"
proof (cases "opt_filter_policy options")
  case None
  then have "handle = BlockHandle_new" "r' = r" using assms by (auto simp: finish_filter_def building_def Let_def)
  then show ?thesis
    using None assms by (simp add: finished_def building_def body_bytes_def filter_bytes_def Let_def)
next
  case (Some policy)
  let ?R = "opt_block_restart_interval options"
  let ?fb = "add_blocks policy (filter_blocks ?R chunks @ [(of_nat (length (data_bytes ?R chunks)), [])])"
  have inv: "tb_filter_block r = Some ?fb" "tb_offset r = of_nat (length (contents (tb_file r)))" "contents (tb_file r) = data_bytes ?R chunks"
    "tb_options r = options"
    using assms(1) Some by (simp_all add: building_def Let_def)
  obtain fb where fin: "filter_Finish ?fb = (fb, filter_contents policy ?R chunks)" by (simp add: filter_contents_def prod_eq_iff)
  have ok: "tb_ok r" using assms(2,3) inv(1) by (auto simp: finish_filter_def split: if_splits)
  then have "WriteRawBlock out (filter_contents policy ?R chunks) kNoCompression (r\<lparr>tb_filter_block := Some fb\<rparr>) = (handle, r')"
    using assms(2) inv(1) fin by (simp add: finish_filter_def)
  from raw_block [OF this assms(3)] inv Some ok show ?thesis
    by (auto simp: finished_def body_bytes_def filter_bytes_def filter_handle_def Let_def)
qed

lemma metaindex_finished:
  assumes "finished options chunks (body_bytes options chunks) r" "usable options" "finish_metaindex out fh r = (handle, r')" "tb_ok r'"
    and "\<And>policy. opt_filter_policy options = Some policy \<Longrightarrow> fh = filter_handle options policy chunks"
  shows "finished options chunks (body_bytes options chunks @ with_trailer (meta_contents options chunks)) r' \<and> tb_ok r
    \<and> tb_index_block r' = tb_index_block r \<and> tb_pending_index_entry r' = tb_pending_index_entry r
    \<and> tb_pending_handle r' = tb_pending_handle r \<and> tb_last_key r' = tb_last_key r
    \<and> handle = ft_metaindex_handle (table_footer options chunks seps)"
proof -
  let ?R = "opt_block_restart_interval options"
  have inv: "tb_options r = options" "tb_offset r = of_nat (length (contents (tb_file r)))" "contents (tb_file r) = body_bytes options chunks"
    using assms(1) by (simp_all add: finished_def)
  have ok: "tb_ok r" using assms(3,4) by (auto simp: finish_metaindex_def split: if_splits)
  have "(case (tb_filter_block r, opt_filter_policy (tb_options r)) of
      (Some _, Some policy) \<Rightarrow> block_Add (cstr ''filter.'' @ cstr (fp_Name policy)) (handle_EncodeTo fh []) (BlockBuilder_new ?R)
    | _ \<Rightarrow> BlockBuilder_new ?R) = block_of ?R (meta_entries options chunks)"
    using assms(1,5) by (auto simp: finished_def meta_entries_def split: option.splits)
  with ok assms(3) inv(1) obtain block where "WriteBlock out (block_of ?R (meta_entries options chunks)) r = (handle, block, r')"
    by (auto simp: finish_metaindex_def Let_def split: prod.splits)
  from block_written [OF this assms(4) inv(2)] assms(1,2) inv ok show ?thesis
    by (auto simp: finished_def usable_def meta_contents_def table_footer_def)
qed

lemma index_finished:
  assumes "finished options chunks bytes r" "usable options" "finish_index out r = (handle, r')" "tb_ok r'"
    and "tb_index_block (if tb_pending_index_entry r
      then add_index_entry (cmp_successor cmp (tb_last_key r)) r else r) = block_of 1 (index_of (opt_block_restart_interval options) chunks seps)"
  shows "finished options chunks (bytes @ with_trailer (index_contents options chunks seps)) r' \<and> tb_ok r
    \<and> handle = \<lparr>bh_offset = of_nat (length bytes), bh_size = of_nat (length (index_contents options chunks seps))\<rparr>"
proof -
  define r1 where "r1 = (if tb_pending_index_entry r then add_index_entry (cmp_successor cmp (tb_last_key r)) r else r)"
  have ok: "tb_ok r" using assms(3,4) by (auto simp: finish_index_def split: if_splits)
  have r1: "finished options chunks bytes r1" "tb_options r1 = options" "tb_offset r1 = of_nat (length (contents (tb_file r1)))"
    using assms(1) by (auto simp: finished_def r1_def add_index_entry_def)
  have "opt_comparator (tb_options r) = cmp" using assms(1,2) by (simp add: finished_def usable_def)
  then obtain block r2 where w: "WriteBlock out (tb_index_block r1) r1 = (handle, block, r2)" "r' = r2\<lparr>tb_index_block := block\<rparr>"
    using assms(3) ok by (auto simp: finish_index_def r1_def Let_def split: prod.splits)
  have "tb_ok r2" using assms(4) w(2) by (simp add: tb_ok_def)
  from block_written [OF w(1) [unfolded r1_def assms(5), folded r1_def] this r1(3)] assms(2) r1 w(2) ok show ?thesis
    by (auto simp: finished_def usable_def index_contents_def)
qed

lemma footer_finished:
  assumes "finished options chunks bytes r" "tb_ok (finish_footer out footer r)"
  shows "finished options chunks (bytes @ footer_EncodeTo footer []) (finish_footer out footer r) \<and> tb_ok r"
proof -
  have ok: "tb_ok r" using assms(2) by (auto simp: finish_footer_def split: if_splits)
  obtain s f where a: "wf_Append out (footer_EncodeTo footer []) (tb_file r) = (s, f)" by force
  have "status_ok s" using assms(2) ok a by (auto simp: finish_footer_def tb_ok_def Let_def split: if_splits)
  with sink.append_result [OF a] a ok assms(1) show ?thesis by (simp add: finish_footer_def finished_def Let_def)
qed

lemma separates_last:
  assumes "separates cmp seps (cs @ [c]) []" "length cs = length seps" "c \<noteq> []" "sorted_wrt (\<lambda>a b. cmp_compare cmp (fst a) (fst b) < 0) c"
  shows "separates cmp (seps @ [cmp_successor cmp (fst (last c))]) (cs @ [c]) []"
proof -
  have "sorted_wrt (\<lambda>a b. cmp_compare cmp (fst a) (fst b) < 0) (butlast c @ [last c])" using assms(3,4) by simp
  then have "cmp_compare cmp (fst x) (fst (last c)) \<le> 0" if "x \<in> set (butlast c @ [last c])" for x
    using that order.compare_refl by (auto simp: sorted_wrt_append intro: less_imp_le)
  then have "cmp_compare cmp (fst x) (cmp_successor cmp (fst (last c))) \<le> 0" if "x \<in> set c" for x
    using that assms(3) order.successor_above [of "fst (last c)"] order.compare_trans [of "fst x" "fst (last c)"] by simp
  with assms(1,2) show ?thesis by (auto simp: separates_def nth_append less_Suc_eq)
qed

text \<open>After the last flush no block is in the making, and the index lacks at most the last key.\<close>

lemma building_last:
  assumes "building options chunks cur seps r" "usable options" "tb_ok (table_Flush out r)"
    and "sorted_wrt (\<lambda>a b. cmp_compare cmp (fst a) (fst b) < 0) (concat chunks @ cur)"
  shows "\<exists>chunks' seps' seps''. building options chunks' [] seps' (table_Flush out r) \<and> concat chunks' = concat chunks @ cur
    \<and> [] \<notin> set chunks' \<and> length seps'' = length chunks' \<and> separates cmp seps'' chunks' []
    \<and> tb_index_block (if tb_pending_index_entry (table_Flush out r)
        then add_index_entry (cmp_successor cmp (tb_last_key (table_Flush out r))) (table_Flush out r) else table_Flush out r)
      = block_of 1 (index_of (opt_block_restart_interval options) chunks' seps'')"
proof -
  let ?R = "opt_block_restart_interval options" and ?r = "table_Flush out r"
  have ok: "tb_ok r" using assms(3) by (auto simp: table_Flush_def split: if_splits)
  obtain chunks' where b: "building options chunks' [] seps ?r" "concat chunks' = concat chunks @ cur" "tb_pending_index_entry ?r \<or> chunks' = []"
  proof (cases "cur = []")
    case True
    then have "bb_buffer (tb_data_block r) = []" using assms(1) by (simp add: building_def Let_def BlockBuilder_new_def)
    then have "?r = r" using ok by (simp add: table_Flush_def)
    with True assms(1) that [of chunks] show ?thesis by (auto simp: building_def Let_def split: if_splits)
  next
    case False
    then have "\<not> tb_pending_index_entry r" using assms(1) by (auto simp: building_def Let_def split: if_splits)
    from building_Flush [OF assms(1,2) this False assms(3)] that [of "chunks @ [cur]"] show ?thesis by simp
  qed
  have chunks': "[] \<notin> set chunks'" using b(1) by (simp add: building_def Let_def)
  show ?thesis
  proof (cases "tb_pending_index_entry ?r")
    case True
    obtain cs c where cs: "chunks' = cs @ [c]" using b(1) True by (cases chunks' rule: rev_cases) (auto simp: building_def Let_def)
    then have inv: "length cs = length seps" "c \<noteq> []" "tb_last_key ?r = fst (last c)" "separates cmp seps (cs @ [c]) []"
      "tb_pending_handle ?r = chunk_handle ?R chunks' (length seps)" "tb_index_block ?r = block_of 1 (index_of ?R chunks' seps)"
      using b(1) True by (auto simp: building_def Let_def)
    let ?seps = "seps @ [cmp_successor cmp (fst (last c))]"
    have "concat chunks @ cur = concat cs @ c" using b(2) cs by simp
    then have "sorted_wrt (\<lambda>a b. cmp_compare cmp (fst a) (fst b) < 0) c" using assms(4) by (simp only: sorted_wrt_append)
    then have "separates cmp ?seps chunks' []" unfolding cs using inv by (intro separates_last)
    moreover have "index_of ?R chunks' ?seps = index_of ?R chunks' seps @ [(cmp_successor cmp (fst (last c)), handle_EncodeTo (tb_pending_handle ?r) [])]"
      using inv(1,5) cs by (simp add: index_of_snoc(2))
    ultimately show ?thesis using b(1,2) True chunks' inv cs
      by (intro exI [of _ chunks'] exI [of _ seps] exI [of _ ?seps]) (simp add: add_index_entry_def)
  next
    case False
    then have "length chunks' = length seps" "separates cmp seps chunks' []" "tb_index_block ?r = block_of 1 (index_of ?R chunks' seps)"
      using b(1) by (auto simp: building_def Let_def)
    with False b(1,2) chunks' show ?thesis by (intro exI [of _ chunks'] exI [of _ seps]) simp
  qed
qed

lemma building_closed: "building options chunks cur seps (r\<lparr>tb_closed := c\<rparr>) \<longleftrightarrow> building options chunks cur seps r"
  by (cases r) (simp add: building_def)

lemma table_written:
  assumes "contents f = []" "usable options" "sorted_wrt (\<lambda>a b. cmp_compare cmp (fst a) (fst b) < 0) kvs"
    and "table_Finish out (fold (\<lambda>(k, v). table_Add out k v) kvs (TableBuilder_new options f)) = (s, r)" "status_ok s"
  shows "\<exists>chunks seps. concat chunks = kvs \<and> [] \<notin> set chunks \<and> length seps = length chunks \<and> separates cmp seps chunks []
    \<and> contents (tb_file r) = table_bytes options chunks seps \<and> tb_offset r = of_nat (length (table_bytes options chunks seps))"
proof -
  define r0 where "r0 = fold (\<lambda>(k, v). table_Add out k v) kvs (TableBuilder_new options f)"
  define r1 where "r1 = (table_Flush out r0)\<lparr>tb_closed := True\<rparr>"
  obtain fh r2 where f: "finish_filter out r1 = (fh, r2)" by force
  obtain mh r3 where m: "finish_metaindex out fh r2 = (mh, r3)" by force
  obtain ih r4 where i: "finish_index out r3 = (ih, r4)" by force
  define footer where "footer = \<lparr>ft_metaindex_handle = mh, ft_index_handle = ih\<rparr>"
  have r: "r = finish_footer out footer r4" "s = tb_status r"
    using assms(4) f m i by (auto simp: table_Finish_def r1_def r0_def footer_def Let_def)
  have ok: "tb_ok (finish_footer out footer r4)" using r assms(5) by (simp add: tb_ok_def)
  then have ok4: "tb_ok r4" by (auto simp: finish_footer_def split: if_splits)
  then have ok3: "tb_ok r3" using i by (auto simp: finish_index_def split: if_splits)
  then have ok2: "tb_ok r2" using m by (auto simp: finish_metaindex_def split: if_splits)
  then have ok1: "tb_ok r1" using f by (auto simp: finish_filter_def split: if_splits option.splits)
  then have flush: "tb_ok (table_Flush out r0)" by (simp add: r1_def tb_ok_def)
  then have "tb_ok r0" by (auto simp: table_Flush_def split: if_splits)
  then obtain chunks cur seps where b: "building options chunks cur seps r0" "concat chunks @ cur = kvs"
    using building_adds [OF building_new [OF assms(1)] assms(2), of kvs] assms(3) by (auto simp: r0_def)
  then obtain chunks' seps' seps'' where l: "building options chunks' [] seps' (table_Flush out r0)" "concat chunks' = kvs" "[] \<notin> set chunks'"
    "length seps'' = length chunks'" "separates cmp seps'' chunks' []"
    "tb_index_block (if tb_pending_index_entry (table_Flush out r0)
        then add_index_entry (cmp_successor cmp (tb_last_key (table_Flush out r0))) (table_Flush out r0) else table_Flush out r0)
      = block_of 1 (index_of (opt_block_restart_interval options) chunks' seps'')"
    using building_last [OF b(1) assms(2) flush] assms(3) by auto
  have b1: "building options chunks' [] seps' r1" using l(1) by (simp only: building_closed r1_def)
  note filter = filter_finished [OF b1 f ok2]
  note meta = metaindex_finished [OF conjunct1 [OF filter] assms(2) m ok3, of seps'']
  have entries: "tb_index_block (if tb_pending_index_entry r3 then add_index_entry (cmp_successor cmp (tb_last_key r3)) r3 else r3)
      = block_of 1 (index_of (opt_block_restart_interval options) chunks' seps'')"
    using filter meta l(6) by (simp add: r1_def add_index_entry_def split: if_splits)
  have "finished options chunks' (body_bytes options chunks' @ with_trailer (meta_contents options chunks')) r3"
    "mh = ft_metaindex_handle (table_footer options chunks' seps'')" using filter meta by simp_all
  from index_finished [OF this(1) assms(2) i ok4 entries] this(2)
  have idx: "finished options chunks' ((body_bytes options chunks' @ with_trailer (meta_contents options chunks'))
      @ with_trailer (index_contents options chunks' seps'')) r4" "footer = table_footer options chunks' seps''"
    by (simp_all add: footer_def table_footer_def)
  from footer_finished [OF idx(1) ok] idx(2) r(1) l(2-5) show ?thesis
    by (intro exI [of _ chunks'] exI [of _ seps'']) (auto simp: finished_def table_bytes_def)
qed

end

end
