(* ===== verification/Ldb_Table_Read.thy ===== *)
theory Ldb_Table_Read
  imports Ldb_Table_Write Ldb_Cache_Correct
begin

text \<open>
  What the table reader sees in a file that the table builder has written: it opens, its iterator is an iterator over
  the entries, and a lookup finds the first entry that is not before the key, whatever the block cache has kept.
\<close>

section \<open>Files and tables\<close>

record 'f table_file =
  tf_options :: TableOptions
  tf_chunks :: "(slice \<times> slice) list list"
  tf_seps :: "slice list"
  tf_file :: 'f
  tf_id :: u64

abbreviation (input) tf_interval :: "'f table_file \<Rightarrow> nat" where
  "tf_interval d \<equiv> opt_block_restart_interval (tf_options d)"

definition tf_bytes :: "'f table_file \<Rightarrow> byte list" where
  "tf_bytes d = table_bytes (tf_options d) (tf_chunks d) (tf_seps d)"

definition tf_index :: "'f table_file \<Rightarrow> (slice \<times> slice) list" where
  "tf_index d = index_of (tf_interval d) (tf_chunks d) (tf_seps d)"

text \<open>The table that \<^verbatim>\<open>Table::Open\<close> makes of it.\<close>

definition table_opened :: "'f table_file \<Rightarrow> 'f Table" where
  "table_opened d =
     \<lparr>t_options = tf_options d, t_file = tf_file d, t_cache_id = tf_id d,
      t_filter = map_option (\<lambda>policy. FilterBlockReader_new policy (filter_contents policy (tf_interval d) (tf_chunks d)))
        (opt_filter_policy (tf_options d)),
      t_metaindex_handle = ft_metaindex_handle (table_footer (tf_options d) (tf_chunks d) (tf_seps d)),
      t_index_block = Block_new (index_contents (tf_options d) (tf_chunks d) (tf_seps d))\<rparr>"

lemma table_opened_simps [simp]:
  "t_options (table_opened d) = tf_options d" "t_file (table_opened d) = tf_file d" "t_cache_id (table_opened d) = tf_id d"
  "t_index_block (table_opened d) = Block_new (index_contents (tf_options d) (tf_chunks d) (tf_seps d))"
  "t_metaindex_handle (table_opened d) = ft_metaindex_handle (table_footer (tf_options d) (tf_chunks d) (tf_seps d))"
  "t_filter (table_opened d) = map_option (\<lambda>policy. FilterBlockReader_new policy (filter_contents policy (tf_interval d) (tf_chunks d)))
     (opt_filter_policy (tf_options d))"
  by (simp_all add: table_opened_def)

lemma tf_bytes_parts:
  "tf_bytes d = (data_bytes (tf_interval d) (tf_chunks d) @ filter_bytes (tf_options d) (tf_chunks d))
     @ with_trailer (meta_contents (tf_options d) (tf_chunks d)) @ with_trailer (index_contents (tf_options d) (tf_chunks d) (tf_seps d))
     @ footer_EncodeTo (table_footer (tf_options d) (tf_chunks d) (tf_seps d)) []"
  by (simp add: tf_bytes_def table_bytes_def body_bytes_def)

lemma tf_bytes_chunk:
  assumes "b < length (tf_chunks d)"
  shows "\<exists>post. tf_bytes d = data_bytes (tf_interval d) (take b (tf_chunks d)) @ with_trailer (block_contents (tf_interval d) (tf_chunks d ! b)) @ post"
proof -
  have "tf_chunks d = take b (tf_chunks d) @ tf_chunks d ! b # drop (Suc b) (tf_chunks d)" by (rule id_take_nth_drop [OF assms])
  then have "data_bytes (tf_interval d) (tf_chunks d) = data_bytes (tf_interval d) (take b (tf_chunks d))
      @ with_trailer (block_contents (tf_interval d) (tf_chunks d ! b)) @ data_bytes (tf_interval d) (drop (Suc b) (tf_chunks d))"
    unfolding data_bytes_def by (metis (no_types, lifting) concat.simps(2) concat_append list.map(2) map_append)
  then show ?thesis by (simp add: tf_bytes_parts)
qed

lemma data_bytes_increase:
  assumes "a < b" "b < length chunks"
  shows "length (data_bytes R (take a chunks)) < length (data_bytes R (take b chunks))"
proof -
  have "take b chunks = take a chunks @ chunks ! a # drop (Suc a) (take b chunks)"
    using id_take_nth_drop [of a "take b chunks"] assms by (simp add: min_absorb1)
  then have "data_bytes R (take b chunks) = data_bytes R (take a chunks) @ with_trailer (block_contents R (chunks ! a)) @ data_bytes R (drop (Suc a) (take b chunks))"
    unfolding data_bytes_def by (metis (no_types, lifting) concat.simps(2) concat_append list.map(2) map_append)
  then show ?thesis by simp
qed

lemma cache_key_inj: "cache_key a x = cache_key b y \<longleftrightarrow> a = b \<and> x = y"
proof
  assume "cache_key a x = cache_key b y"
  then have "EncodeFixed64 a = EncodeFixed64 b" "EncodeFixed64 x = EncodeFixed64 y" by (simp_all add: cache_key_def)
  then show "a = b \<and> x = y" by (metis DecodeFixed64_Encode append_Nil2)
qed simp

text \<open>A file as the builder leaves it, of less than 4 GB.\<close>

definition tf_ok :: "comparator \<Rightarrow> 'f table_file \<Rightarrow> bool" where
  "tf_ok cmp d \<longleftrightarrow> length (tf_bytes d) < 2 ^ 32 \<and> opt_comparator (tf_options d) = cmp \<and> 1 \<le> tf_interval d
     \<and> [] \<notin> set (tf_chunks d) \<and> length (tf_seps d) = length (tf_chunks d) \<and> separates cmp (tf_seps d) (tf_chunks d) []
     \<and> sorted_wrt (\<lambda>a b. cmp_compare cmp (fst a) (fst b) < 0) (concat (tf_chunks d))"

lemma tf_index_nth:
  "tf_ok cmp d \<Longrightarrow> b < length (tf_chunks d) \<Longrightarrow>
     tf_index d ! b = (tf_seps d ! b, handle_EncodeTo (chunk_handle (tf_interval d) (tf_chunks d) b) [])"
  "tf_ok cmp d \<Longrightarrow> length (tf_index d) = length (tf_chunks d)"
  by (simp_all add: tf_ok_def tf_index_def index_of_def)

lemma chunk_unat:
  assumes "tf_ok cmp d" "b < length (tf_chunks d)"
  shows "unat (bh_offset (chunk_handle (tf_interval d) (tf_chunks d) b)) = length (data_bytes (tf_interval d) (take b (tf_chunks d)))"
    "unat (bh_size (chunk_handle (tf_interval d) (tf_chunks d) b)) = length (block_contents (tf_interval d) (tf_chunks d ! b))"
    "length (block_contents (tf_interval d) (tf_chunks d ! b)) < 2 ^ 32"
  using tf_bytes_chunk [OF assms(2)] assms(1) by (auto simp: tf_ok_def chunk_handle_def unat_of_nat_small)

lemma chunk_offset_inj:
  assumes "tf_ok cmp d" "a < length (tf_chunks d)" "b < length (tf_chunks d)"
    and "bh_offset (chunk_handle (tf_interval d) (tf_chunks d) a) = bh_offset (chunk_handle (tf_interval d) (tf_chunks d) b)"
  shows "a = b"
proof (rule ccontr)
  assume "a \<noteq> b"
  then have "length (data_bytes (tf_interval d) (take a (tf_chunks d))) \<noteq> length (data_bytes (tf_interval d) (take b (tf_chunks d)))"
    using data_bytes_increase [of a b "tf_chunks d" "tf_interval d"] data_bytes_increase [of b a "tf_chunks d" "tf_interval d"] assms(2,3)
    by (cases a b rule: linorder_cases) auto
  then show False using assms(4) chunk_unat(1) [OF assms(1,2)] chunk_unat(1) [OF assms(1,3)] by simp
qed

lemma handle_encode_inj: "handle_EncodeTo a [] = handle_EncodeTo b [] \<Longrightarrow> a = b"
  using handle_roundtrip [of BlockHandle_new a "[]"] handle_roundtrip [of BlockHandle_new b "[]"] by simp

lemma tf_handles_distinct:
  assumes "tf_ok cmp d"
  shows "distinct (map snd (tf_index d))"
proof -
  have "handle_EncodeTo (chunk_handle (tf_interval d) (tf_chunks d) a) [] \<noteq> handle_EncodeTo (chunk_handle (tf_interval d) (tf_chunks d) b) []"
    if "a < length (tf_chunks d)" "b < length (tf_chunks d)" "a \<noteq> b" for a b
    using that chunk_offset_inj [OF assms that(1,2)] by (auto dest!: handle_encode_inj)
  then show ?thesis using assms by (auto simp: distinct_conv_nth tf_index_nth)
qed

lemma tf_chunk_buildable:
  assumes "tf_ok cmp d" "b < length (tf_chunks d)"
  shows "buildable (cmp_compare cmp) (tf_interval d) (tf_chunks d ! b)"
proof -
  have "concat (tf_chunks d) = concat (take b (tf_chunks d)) @ tf_chunks d ! b @ concat (drop (Suc b) (tf_chunks d))"
    using id_take_nth_drop [OF assms(2)] by (metis concat.simps(2) concat_append)
  then have "sorted_wrt (\<lambda>x y. cmp_compare cmp (fst x) (fst y) < 0) (tf_chunks d ! b)"
    using assms(1) by (simp add: tf_ok_def sorted_wrt_append)
  then show ?thesis using chunk_unat(3) [OF assms] assms(1) by (simp add: buildable_def tf_ok_def)
qed

lemma tf_bounds:
  assumes "tf_ok cmp d" "b < length (tf_chunks d)"
  shows "x \<in> set (tf_chunks d ! b) \<Longrightarrow> cmp_compare cmp (fst x) (tf_seps d ! b) \<le> 0"
    "b < c \<Longrightarrow> c < length (tf_chunks d) \<Longrightarrow> x \<in> set (tf_chunks d ! c) \<Longrightarrow> cmp_compare cmp (tf_seps d ! b) (fst x) < 0"
proof -
  have sep: "separates cmp (tf_seps d) (tf_chunks d) []" and b: "b < length (tf_seps d)" using assms by (simp_all add: tf_ok_def)
  from sep b show "x \<in> set (tf_chunks d ! b) \<Longrightarrow> cmp_compare cmp (fst x) (tf_seps d ! b) \<le> 0" by (simp add: separates_def)
  assume "b < c" "c < length (tf_chunks d)" "x \<in> set (tf_chunks d ! c)"
  moreover from this have "tf_chunks d ! c \<in> set (drop (Suc b) (tf_chunks d))"
    by (auto simp: in_set_conv_nth intro!: exI [of _ "c - Suc b"])
  ultimately show "cmp_compare cmp (tf_seps d ! b) (fst x) < 0" using sep b by (auto simp: separates_def)
qed

section \<open>Reading blocks\<close>

lemma tf_index_buildable:
  assumes "key_order cmp UNIV" "tf_ok cmp d"
  shows "buildable (cmp_compare cmp) 1 (tf_index d)"
proof -
  have less: "cmp_compare cmp (tf_seps d ! a) (tf_seps d ! b) < 0" if "a < b" "b < length (tf_chunks d)" for a b
  proof -
    have "tf_chunks d ! b \<noteq> []" using assms(2) that(2) nth_mem by (fastforce simp: tf_ok_def)
    then obtain x where x: "x \<in> set (tf_chunks d ! b)" by (cases "tf_chunks d ! b") auto
    show ?thesis
      using tf_bounds(2) [OF assms(2) less_trans [OF that] that x] tf_bounds(1) [OF assms(2) that(2) x]
      by (rule cmp_order.less_le_trans [OF key_order.axioms(1) [OF assms(1)] UNIV_I UNIV_I UNIV_I])
  qed
  have "length (index_contents (tf_options d) (tf_chunks d) (tf_seps d)) < 2 ^ 32"
    using assms(2) by (simp add: tf_ok_def tf_bytes_parts)
  then have "length (block_contents 1 (tf_index d)) < 2 ^ 32" by (simp add: index_contents_def tf_index_def)
  moreover have "sorted_wrt (\<lambda>a b. cmp_compare cmp (fst a) (fst b) < 0) (tf_index d)"
    using less tf_index_nth [OF assms(2)] by (simp add: sorted_wrt_iff_nth_less)
  ultimately show ?thesis by (simp add: buildable_def)
qed

locale table_reader = reads: random_file raf contents good + order: key_order cmp UNIV + cached: cache_contract cache cok held has
  for raf :: "'f RandomAccessFile" and contents good and cmp :: comparator
    and cache :: "('c, 'h, Block) Cache" and cok held has
begin

sublocale slices: slice_order "cmp_compare cmp"
  using order.cmp_order_axioms by (simp add: slice_order_def)

definition tf_good :: "'f table_file \<Rightarrow> bool" where
  "tf_good d \<longleftrightarrow> tf_ok cmp d \<and> good (tf_file d) \<and> contents (tf_file d) = tf_bytes d"

definition cache_option :: "bool \<Rightarrow> ('c, 'h, Block) Cache option" where
  "cache_option caching = (if caching then Some cache else None)"

text \<open>The cache may have blocks of the table, but only the right ones, and room for the others.\<close>

definition block_keys :: "'f table_file \<Rightarrow> slice set" where
  "block_keys d = (\<lambda>b. cache_key (tf_id d) (bh_offset (chunk_handle (tf_interval d) (tf_chunks d) b))) ` {..<length (tf_chunks d)}"

definition roomy :: "'f table_file \<Rightarrow> 'c \<Rightarrow> bool" where
  "roomy d c \<longleftrightarrow> finite {k. \<exists>v. has c k v} \<and> card ({k. \<exists>v. has c k v} \<union> block_keys d) < max_entries \<and> countable_handles (held c)"

definition coherent :: "bool \<Rightarrow> 'f table_file \<Rightarrow> 'c \<Rightarrow> bool" where
  "coherent caching d c \<longleftrightarrow> (caching \<longrightarrow> cok c \<and> roomy d c \<and> (\<forall>b < length (tf_chunks d). \<forall>v.
     has c (cache_key (tf_id d) (bh_offset (chunk_handle (tf_interval d) (tf_chunks d) b))) v
       \<longrightarrow> v = Block_new (block_contents (tf_interval d) (tf_chunks d ! b))))"

lemma read_chunk:
  assumes "tf_good d" "b < length (tf_chunks d)"
  shows "\<exists>scratch. ReadBlock raf (tf_file d) verify (chunk_handle (tf_interval d) (tf_chunks d) b)
    = Some (Status_OK, \<lparr>bc_data = block_contents (tf_interval d) (tf_chunks d ! b), bc_cachable = scratch, bc_heap_allocated = scratch\<rparr>)"
proof -
  obtain post where "contents (tf_file d)
      = data_bytes (tf_interval d) (take b (tf_chunks d)) @ with_trailer (block_contents (tf_interval d) (tf_chunks d ! b)) @ post"
    using tf_bytes_chunk [OF assms(2)] assms(1) by (auto simp: tf_good_def)
  then show ?thesis using assms chunk_unat [of cmp d b] by (intro reads.ReadBlock_written [where post = post]) (auto simp: tf_good_def)
qed

lemma roomy_subset:
  assumes "roomy d c" "\<forall>k. (\<exists>v. has c' k v) \<longrightarrow> (\<exists>v. has c k v) \<or> k \<in> block_keys d" "held c' = held c"
  shows "roomy d c'"
proof -
  have fin: "finite ({k. \<exists>v. has c k v} \<union> block_keys d)" using assms(1) by (simp add: roomy_def block_keys_def)
  have sub: "{k. \<exists>v. has c' k v} \<union> block_keys d \<subseteq> {k. \<exists>v. has c k v} \<union> block_keys d" using assms(2) by auto
  from card_mono [OF fin sub] finite_subset [OF sub fin] assms(1,3) show ?thesis by (simp add: roomy_def)
qed

lemma roomy_countable: "roomy d c \<Longrightarrow> countable_entries (has c) \<and> countable_handles (held c)"
  using card_mono [of "{k. \<exists>v. has c k v} \<union> block_keys d" "{k. \<exists>v. has c k v}"]
  by (auto simp: roomy_def countable_entries_def block_keys_def)

text \<open>A table has fewer blocks than the cache can count.\<close>

lemma few_chunks: "5 * length chunks \<le> length (data_bytes R chunks)"
  by (induction chunks) (simp_all add: data_bytes_def with_trailer_def)

lemma new_roomy:
  assumes "tf_good d" "\<And>k v. \<not> has c k v" "\<And>h. held c h = {#}"
  shows "roomy d c"
proof -
  have "length (data_bytes (tf_interval d) (tf_chunks d)) < 2 ^ 32" using assms(1) by (simp add: tf_good_def tf_ok_def tf_bytes_parts)
  then have "length (tf_chunks d) < max_entries" using few_chunks [of "tf_chunks d" "tf_interval d"] by (simp add: max_entries_def)
  moreover have "card (block_keys d) \<le> length (tf_chunks d)" unfolding block_keys_def by (metis card_image_le card_lessThan finite_lessThan)
  ultimately show ?thesis using assms(2,3) by (simp add: roomy_def countable_handles_def max_handles_def)
qed

lemma coherentD: "coherent True d c \<Longrightarrow> cok c \<and> roomy d c"
  by (simp add: coherent_def)

lemma coherent_cong:
  "coherent True d c \<Longrightarrow> cok c' \<Longrightarrow> roomy d c' \<Longrightarrow> (\<forall>k v. has c' k v \<longrightarrow> has c k v) \<Longrightarrow> coherent True d c'"
  by (auto simp: coherent_def)

text \<open>The handle that a lookup or an insertion returns is released at once.\<close>

lemma take_and_release:
  assumes "cok c1" "held c1 = (held c)(h := add_mset v (held c h))"
  shows "\<exists>c2. c_Value cache h c1 = Some v \<and> c_Release cache h c1 = Some c2 \<and> cok c2 \<and> (\<forall>k w. has c2 k w \<longleftrightarrow> has c1 k w) \<and> held c2 = held c"
proof -
  have v: "v \<in># held c1 h" using assms(2) by simp
  obtain c2 where "c_Release cache h c1 = Some c2" "cok c2" "\<forall>k w. has c2 k w \<longleftrightarrow> has c1 k w" "held c2 = (held c1)(h := held c1 h - {#v#})"
    using cached.release [OF assms(1) v] by blast
  with cached.held_value [OF assms(1) v] assms(2) show ?thesis by simp
qed

lemma read_through:
  assumes "tf_good d" "b < length (tf_chunks d)" "coherent True d c"
  shows "\<exists>c'. read_through_cache raf cache (table_opened d) ro (chunk_handle (tf_interval d) (tf_chunks d) b) c
    = Some (Status_OK, Some (Block_new (block_contents (tf_interval d) (tf_chunks d ! b))), c') \<and> coherent True d c'"
proof -
  let ?h = "chunk_handle (tf_interval d) (tf_chunks d) b"
  let ?key = "cache_key (tf_id d) (bh_offset ?h)" and ?block = "Block_new (block_contents (tf_interval d) (tf_chunks d ! b))"
  have own: "?key \<in> block_keys d" using assms(2) by (auto simp: block_keys_def)
  have c: "cok c" "roomy d c" using coherentD [OF assms(3)] by auto
  obtain r c1 where l: "c_Lookup cache ?key c = Some (r, c1)" "cok c1" "\<forall>k v. has c1 k v \<longleftrightarrow> has c k v"
    "case r of None \<Rightarrow> (\<forall>v. \<not> has c ?key v) \<and> held c1 = held c | Some h \<Rightarrow> \<exists>v. has c ?key v \<and> held c1 = (held c)(h := add_mset v (held c h))"
    using cached.lookup [OF c(1), of ?key] roomy_countable [OF c(2)] by auto
  show ?thesis
  proof (cases r)
    case (Some h)
    with l(4) obtain v where v: "has c ?key v" "held c1 = (held c)(h := add_mset v (held c h))" by auto
    then have "v = ?block" using assms(2,3) by (auto simp: coherent_def)
    moreover obtain c2 where c2: "c_Value cache h c1 = Some v" "c_Release cache h c1 = Some c2" "cok c2" "\<forall>k w. has c2 k w \<longleftrightarrow> has c1 k w"
      "held c2 = held c"
      using take_and_release [OF l(2) v(2)] by blast
    moreover have "coherent True d c2"
      using coherent_cong [OF assms(3) c2(3)] roomy_subset [OF c(2), of c2] c2(4,5) l(3) by blast
    ultimately show ?thesis using l(1) Some by (simp add: read_through_cache_def Let_def)
  next
    case None
    have c1: "held c1 = held c" using None l(4) by simp
    have room1: "roomy d c1" using roomy_subset [OF c(2), of c1] c1 l(3) by blast
    have coh: "coherent True d c1" using coherent_cong [OF assms(3) l(2) room1] l(3) by blast
    obtain scratch where read: "ReadBlock raf (tf_file d) (ro_verify_checksums ro) ?h
        = Some (Status_OK, \<lparr>bc_data = block_contents (tf_interval d) (tf_chunks d ! b), bc_cachable = scratch, bc_heap_allocated = scratch\<rparr>)"
      using read_chunk [OF assms(1,2)] by blast
    show ?thesis
    proof (cases "scratch \<and> ro_fill_cache ro")
      case False
      with l(1) None read coh show ?thesis by (auto simp: read_through_cache_def Let_def)
    next
      case True
      obtain h c2 where i: "c_Insert cache ?key ?block (of_nat (blk_size ?block)) c1 = Some (h, c2)" "cok c2"
        "\<forall>k w. has c2 k w \<longrightarrow> (if k = ?key then w = ?block else has c1 k w)" "held c1 h = {#}" "held c2 = (held c1)(h := {#?block#})"
        using cached.insert_entry [OF l(2) roomy_countable [OF room1, THEN conjunct1], of ?key ?block "of_nat (blk_size ?block)"]
        by (elim exE conjE) (rule that)
      obtain c3 where r: "c_Release cache h c2 = Some c3" "cok c3" "\<forall>k w. has c3 k w \<longleftrightarrow> has c2 k w" "held c3 = held c1"
        using take_and_release [OF i(2), of c1 h ?block] i(4,5) by auto
      have "v = Block_new (block_contents (tf_interval d) (tf_chunks d ! a))"
        if a: "a < length (tf_chunks d)" "has c3 (cache_key (tf_id d) (bh_offset (chunk_handle (tf_interval d) (tf_chunks d) a))) v" for a v
      proof (cases "a = b")
        case True
        with a r(3) i(3) show ?thesis by auto
      next
        case False
        then have "cache_key (tf_id d) (bh_offset (chunk_handle (tf_interval d) (tf_chunks d) a)) \<noteq> ?key"
          using chunk_offset_inj [of cmp d a b] assms(1,2) a(1) by (auto simp: cache_key_inj tf_good_def)
        with a r(3) i(3) have "has c1 (cache_key (tf_id d) (bh_offset (chunk_handle (tf_interval d) (tf_chunks d) a))) v" by metis
        with coh a(1) show ?thesis by (auto simp: coherent_def)
      qed
      moreover have "roomy d c3"
      proof (rule roomy_subset [OF room1 _ r(4)], intro allI impI)
        fix k
        assume "\<exists>v. has c3 k v"
        then show "(\<exists>v. has c1 k v) \<or> k \<in> block_keys d" using r(3) i(3) own by metis
      qed
      ultimately have "coherent True d c3" using r(2) by (auto simp: coherent_def)
      with l(1) None read True i(1) r(1) show ?thesis by (simp add: read_through_cache_def Let_def)
    qed
  qed
qed

lemma BlockReader_ok:
  assumes "tf_good d" "b < length (tf_chunks d)" "coherent caching d c" "use = cache_option caching"
  shows "\<exists>it c'. BlockReader raf use (table_opened d) ro (snd (tf_index d ! b)) c = Some (it, c')
    \<and> built_ok (cmp_compare cmp) (tf_interval d) (tf_chunks d ! b) it \<and> coherent caching d c'"
proof -
  let ?h = "chunk_handle (tf_interval d) (tf_chunks d) b" and ?block = "Block_new (block_contents (tf_interval d) (tf_chunks d ! b))"
  have ok: "tf_ok cmp d" using assms(1) by (simp add: tf_good_def)
  have "handle_DecodeFrom BlockHandle_new (snd (tf_index d ! b)) = (Status_OK, ?h, [])"
    using handle_roundtrip [of BlockHandle_new ?h "[]"] tf_index_nth(1) [OF ok assms(2)] by simp
  moreover obtain c' where "(case use of Some ca \<Rightarrow> read_through_cache raf ca (table_opened d) ro ?h c | None \<Rightarrow> read_uncached raf (table_opened d) ro ?h c)
      = Some (Status_OK, Some ?block, c')" "coherent caching d c'"
  proof (cases use)
    case None
    then have "\<not> caching" using assms(4) by (simp add: cache_option_def split: if_splits)
    obtain scratch where "ReadBlock raf (tf_file d) (ro_verify_checksums ro) ?h
        = Some (Status_OK, \<lparr>bc_data = block_contents (tf_interval d) (tf_chunks d ! b), bc_cachable = scratch, bc_heap_allocated = scratch\<rparr>)"
      using read_chunk [OF assms(1,2)] by blast
    with None assms(3) that [of c] show ?thesis by (simp add: read_uncached_def)
  next
    case (Some ca)
    then have "caching" "ca = cache" using assms(4) by (simp_all add: cache_option_def split: if_splits)
    with assms(3) read_through [OF assms(1,2), of c ro] that Some show ?thesis by auto
  qed
  moreover have "opt_comparator (tf_options d) = cmp" using ok by (simp add: tf_ok_def)
  ultimately show ?thesis using block_open [OF tf_chunk_buildable [OF ok assms(2)]] by (simp add: BlockReader_def)
qed

text \<open>The iterator: for a description that is not good the contract is about no blocks.\<close>

definition seen_chunks :: "'f table_file \<Rightarrow> (slice \<times> slice) list list" where
  "seen_chunks d = (if tf_good d then tf_chunks d else [])"

definition seen_index :: "'f table_file \<Rightarrow> (slice \<times> slice) list" where
  "seen_index d = (if tf_good d then tf_index d else [])"

lemma two_level_table:
  assumes "use = cache_option caching"
  shows "two_level block_Iterator (cmp_compare cmp) (seen_index d) (built_ok (cmp_compare cmp) 1 (seen_index d)) (built_at (cmp_compare cmp) 1 (seen_index d))
    block_Iterator (BlockReader raf use (table_opened d) ro) (seen_chunks d)
    (\<lambda>b. built_ok (cmp_compare cmp) (tf_interval d) (seen_chunks d ! b)) (\<lambda>b. built_at (cmp_compare cmp) (tf_interval d) (seen_chunks d ! b)) (coherent caching d)"
proof (rule two_level.intro, rule slices.block.sorted_iterator_axioms, rule two_level_axioms.intro, goal_cases)
  case 1
  show ?case by (rule order.cmp_order_axioms)
next
  case 2
  show ?case using tf_index_nth(2) [of cmp d] by (simp add: seen_chunks_def seen_index_def tf_good_def)
next
  case (3 b)
  show ?case by (rule slices.block.sorted_iterator_axioms)
next
  case (4 b e)
  then show ?case using BlockReader_ok [OF _ _ _ assms, of d b e ro] by (auto simp: seen_chunks_def seen_index_def split: if_splits)
next
  case 5
  show ?case using tf_handles_distinct [of cmp d] by (simp add: seen_index_def tf_good_def)
next
  case (6 b x)
  then show ?case using tf_bounds(1) [of cmp d b x] tf_index_nth(1) [of cmp d b]
    by (auto simp: seen_chunks_def seen_index_def tf_good_def split: if_splits)
next
  case (7 b c x)
  then show ?case using tf_bounds(2) [of cmp d b c x] tf_index_nth(1) [of cmp d b]
    by (auto simp: seen_chunks_def seen_index_def tf_good_def split: if_splits)
qed

sublocale blocks: two_level block_Iterator "cmp_compare cmp" "seen_index d" "built_ok (cmp_compare cmp) 1 (seen_index d)"
    "built_at (cmp_compare cmp) 1 (seen_index d)" block_Iterator "BlockReader raf (cache_option caching) (table_opened d) ro" "seen_chunks d"
    "\<lambda>b. built_ok (cmp_compare cmp) (tf_interval d) (seen_chunks d ! b)" "\<lambda>b. built_at (cmp_compare cmp) (tf_interval d) (seen_chunks d ! b)"
    "coherent caching d"
  for d caching ro
  by (rule two_level_table [OF refl])

text \<open>The index block, and the iterator over the table.\<close>

lemma index_ok:
  assumes "tf_good d"
  shows "built_ok (cmp_compare cmp) 1 (tf_index d) (index_iterator (table_opened d))"
proof -
  have ok: "tf_ok cmp d" using assms by (simp add: tf_good_def)
  then have "opt_comparator (tf_options d) = cmp" by (simp add: tf_ok_def)
  then show ?thesis
    using block_open [OF tf_index_buildable [OF order.key_order_axioms ok]]
    by (simp add: index_iterator_def index_contents_def tf_index_def)
qed

lemma table_scans:
  assumes "tf_good d" "coherent caching d c"
  shows "scan (table_Iterator raf (cache_option caching) (table_opened d) ro) (table_NewIterator (table_opened d) c) = Some (concat (tf_chunks d))"
    "scan_back (table_Iterator raf (cache_option caching) (table_opened d) ro) (table_NewIterator (table_opened d) c) = Some (rev (concat (tf_chunks d)))"
    "scan_from (table_Iterator raf (cache_option caching) (table_opened d) ro) target (table_NewIterator (table_opened d) c)
      = Some (dropWhile (\<lambda>e. cmp_compare cmp (fst e) target < 0) (concat (tf_chunks d)))"
proof -
  have seen: "seen_index d = tf_index d" "seen_chunks d = tf_chunks d" using assms(1) by (simp_all add: seen_index_def seen_chunks_def)
  note start = blocks.tl_new_ok [of d "index_iterator (table_opened d)" caching c, unfolded seen, OF index_ok [OF assms(1)] assms(2)]
  note scans = blocks.both.scans [of d, unfolded seen, OF start]
  show "scan (table_Iterator raf (cache_option caching) (table_opened d) ro) (table_NewIterator (table_opened d) c) = Some (concat (tf_chunks d))"
    using scans(1) [of ro] by (simp add: table_Iterator_def table_NewIterator_def)
  show "scan_back (table_Iterator raf (cache_option caching) (table_opened d) ro) (table_NewIterator (table_opened d) c) = Some (rev (concat (tf_chunks d)))"
    using scans(2) [of ro] by (simp add: table_Iterator_def table_NewIterator_def)
  show "scan_from (table_Iterator raf (cache_option caching) (table_opened d) ro) target (table_NewIterator (table_opened d) c)
      = Some (dropWhile (\<lambda>e. cmp_compare cmp (fst e) target < 0) (concat (tf_chunks d)))"
    using scans(3) [of ro target] by (simp add: table_Iterator_def table_NewIterator_def)
qed

section \<open>Opening\<close>

lemma read_meta:
  assumes "tf_good d"
  shows "\<exists>scratch. ReadBlock raf (tf_file d) verify (ft_metaindex_handle (table_footer (tf_options d) (tf_chunks d) (tf_seps d)))
    = Some (Status_OK, \<lparr>bc_data = meta_contents (tf_options d) (tf_chunks d), bc_cachable = scratch, bc_heap_allocated = scratch\<rparr>)"
    "\<exists>scratch. ReadBlock raf (tf_file d) verify (ft_index_handle (table_footer (tf_options d) (tf_chunks d) (tf_seps d)))
    = Some (Status_OK, \<lparr>bc_data = index_contents (tf_options d) (tf_chunks d) (tf_seps d), bc_cachable = scratch, bc_heap_allocated = scratch\<rparr>)"
    "opt_filter_policy (tf_options d) = Some policy \<Longrightarrow> \<exists>scratch. ReadBlock raf (tf_file d) verify (filter_handle (tf_options d) policy (tf_chunks d))
    = Some (Status_OK, \<lparr>bc_data = filter_contents policy (tf_interval d) (tf_chunks d), bc_cachable = scratch, bc_heap_allocated = scratch\<rparr>)"
proof -
  let ?d = "data_bytes (tf_interval d) (tf_chunks d)" and ?f = "filter_bytes (tf_options d) (tf_chunks d)"
  let ?m = "meta_contents (tf_options d) (tf_chunks d)" and ?i = "index_contents (tf_options d) (tf_chunks d) (tf_seps d)"
  let ?e = "footer_EncodeTo (table_footer (tf_options d) (tf_chunks d) (tf_seps d)) []"
  have good: "good (tf_file d)" "contents (tf_file d) = tf_bytes d" and small: "length (tf_bytes d) < 2 ^ 32"
    using assms by (simp_all add: tf_good_def tf_ok_def)
  define e where "e = ?e"
  have bytes: "tf_bytes d = (?d @ ?f) @ with_trailer ?m @ with_trailer ?i @ e" unfolding e_def by (rule tf_bytes_parts)
  let ?mh = "ft_metaindex_handle (table_footer (tf_options d) (tf_chunks d) (tf_seps d))"
  let ?ih = "ft_index_handle (table_footer (tf_options d) (tf_chunks d) (tf_seps d))"
  have handles: "unat (bh_offset ?mh) = length (?d @ ?f)" "unat (bh_size ?mh) = length ?m"
    "unat (bh_offset ?ih) = length ((?d @ ?f) @ with_trailer ?m)" "unat (bh_size ?ih) = length ?i"
    unfolding table_footer_def body_bytes_def Footer.simps BlockHandle.simps
    by (rule unat_of_nat_small, use small bytes in simp)+
  show "\<exists>scratch. ReadBlock raf (tf_file d) verify (ft_metaindex_handle (table_footer (tf_options d) (tf_chunks d) (tf_seps d)))
    = Some (Status_OK, \<lparr>bc_data = ?m, bc_cachable = scratch, bc_heap_allocated = scratch\<rparr>)"
    using good bytes handles by (intro reads.ReadBlock_written [where pre = "?d @ ?f" and post = "with_trailer ?i @ e"]) simp_all
  show "\<exists>scratch. ReadBlock raf (tf_file d) verify (ft_index_handle (table_footer (tf_options d) (tf_chunks d) (tf_seps d)))
    = Some (Status_OK, \<lparr>bc_data = ?i, bc_cachable = scratch, bc_heap_allocated = scratch\<rparr>)"
    using good bytes handles by (intro reads.ReadBlock_written [where pre = "(?d @ ?f) @ with_trailer ?m" and post = e]) simp_all
  assume policy: "opt_filter_policy (tf_options d) = Some policy"
  show "\<exists>scratch. ReadBlock raf (tf_file d) verify (filter_handle (tf_options d) policy (tf_chunks d))
    = Some (Status_OK, \<lparr>bc_data = filter_contents policy (tf_interval d) (tf_chunks d), bc_cachable = scratch, bc_heap_allocated = scratch\<rparr>)"
    using good small bytes policy
    by (intro reads.ReadBlock_written [where pre = "?d" and post = "with_trailer ?m @ with_trailer ?i @ e"])
      (simp_all add: filter_bytes_def filter_handle_def unat_of_nat_small Let_def)
qed

lemma meta_ok:
  assumes "tf_good d"
  shows "built_ok slice_compare (tf_interval d) (meta_entries (tf_options d) (tf_chunks d))
    (block_NewIterator (Block_new (meta_contents (tf_options d) (tf_chunks d))) slice_compare)"
  unfolding meta_contents_def
proof (rule block_open)
  have "length (meta_contents (tf_options d) (tf_chunks d)) < 2 ^ 32" using assms by (simp add: tf_good_def tf_ok_def tf_bytes_parts)
  then show "buildable slice_compare (tf_interval d) (meta_entries (tf_options d) (tf_chunks d))"
    using assms by (simp add: buildable_def meta_contents_def tf_good_def tf_ok_def) (simp add: meta_entries_def split: option.splits)
qed

lemma ReadMeta_ok:
  assumes "tf_good d"
  shows "ReadMeta raf (table_footer (tf_options d) (tf_chunks d) (tf_seps d)) (table_opened d\<lparr>t_filter := None\<rparr>) = Some (table_opened d)"
proof (cases "opt_filter_policy (tf_options d)")
  case None
  then show ?thesis by (simp add: ReadMeta_def table_opened_def)
next
  case (Some policy)
  let ?it = "block_NewIterator (Block_new (meta_contents (tf_options d) (tf_chunks d))) slice_compare"
  let ?key = "cstr ''filter.'' @ cstr (fp_Name policy)"
  have entries: "meta_entries (tf_options d) (tf_chunks d) = [(?key, handle_EncodeTo (filter_handle (tf_options d) policy (tf_chunks d)) [])]"
    using Some by (simp add: meta_entries_def)
  obtain it where it: "i_Seek block_Iterator ?key ?it = Some it"
    "built_at slice_compare (tf_interval d) (meta_entries (tf_options d) (tf_chunks d)) it 0"
    using bytes.block.seek [OF meta_ok [OF assms], of ?key] bytes.compare_refl [of ?key] by (auto simp: entries first_ge_def)
  have "i_Valid block_Iterator it" "(i_key block_Iterator it, i_value block_Iterator it) = (?key, handle_EncodeTo (filter_handle (tf_options d) policy (tf_chunks d)) [])"
    using bytes.block.at_valid [OF it(2)] bytes.block.at_entry [OF it(2)] by (simp_all add: entries)
  moreover have "ReadFilter raf (handle_EncodeTo (filter_handle (tf_options d) policy (tf_chunks d)) []) (table_opened d\<lparr>t_filter := None\<rparr>)
      = Some (table_opened d)"
    using Some read_meta(3) [OF assms Some, of "opt_paranoid_checks (tf_options d)"]
      handle_roundtrip [of BlockHandle_new "filter_handle (tf_options d) policy (tf_chunks d)" "[]"]
    by (auto simp: ReadFilter_def table_opened_def)
  ultimately show ?thesis
    using Some it(1) read_meta(1) [OF assms, of "opt_paranoid_checks (tf_options d)"] by (auto simp: ReadMeta_def slice_eq_iff Let_def)
qed

lemma Table_Open_ok:
  assumes "tf_good d" "(tf_id d, c') = (if caching then c_NewId cache c else (0, c))"
  shows "Table_Open raf (cache_option caching) (tf_options d) (tf_file d) (of_nat (length (contents (tf_file d)))) c
    = Some (Status_OK, Some (table_opened d), c')"
proof -
  let ?footer = "table_footer (tf_options d) (tf_chunks d) (tf_seps d)"
  have good: "good (tf_file d)" "contents (tf_file d) = tf_bytes d" "length (tf_bytes d) < 2 ^ 32"
    using assms by (simp_all add: tf_good_def tf_ok_def)
  obtain pre where pre: "tf_bytes d = pre @ footer_EncodeTo ?footer []" using tf_bytes_parts [of d] by (metis append_assoc)
  then have len: "length (tf_bytes d) = length pre + 48" using footer_length [of ?footer] by (simp add: kEncodedLength_def kMaxEncodedLength_def)
  have "of_nat (length (tf_bytes d)) - of_nat 48 = (of_nat (length pre) :: u64)" using len by simp
  then have "unat (of_nat (length (tf_bytes d)) - of_nat 48 :: u64) = length pre"
    using unat_of_nat_small [of "length pre", where 'a = 64] good(3) len by simp
  then obtain scratch where "raf_Read raf (of_nat (length (tf_bytes d)) - of_nat 48) (of_nat 48) (tf_file d)
      = Some (Status_OK, footer_EncodeTo ?footer [], scratch)"
    using reads.read_range [OF good(1), of "of_nat (length (tf_bytes d)) - of_nat 48" "of_nat 48"] good(2) pre len by auto
  moreover have eq: "table_opened d\<lparr>t_filter := None\<rparr> = \<lparr>t_options = tf_options d, t_file = tf_file d, t_cache_id = tf_id d, t_filter = None,
      t_metaindex_handle = ft_metaindex_handle ?footer, t_index_block = Block_new (index_contents (tf_options d) (tf_chunks d) (tf_seps d))\<rparr>"
    by (simp add: table_opened_def)
  moreover have "unat (of_nat (length (tf_bytes d)) :: u64) = length (tf_bytes d)"
    by (rule unat_of_nat_small) (use good(3) in simp)
  then have "\<not> unat (of_nat (length (tf_bytes d)) :: u64) < 48" using len by linarith
  ultimately show ?thesis
    using good(2) read_meta(2) [OF assms(1), of "opt_paranoid_checks (tf_options d)"] ReadMeta_ok [OF assms(1), unfolded eq] assms(2)
    by (cases caching) (auto simp: Table_Open_def kEncodedLength_def kMaxEncodedLength_def footer_roundtrip cache_option_def split: prod.splits)
qed

section \<open>Looking up\<close>

lemma in_concat_nth: "x \<in> set (concat xss) \<longleftrightarrow> (\<exists>i < length xss. x \<in> set (xss ! i))"
  using in_set_conv_nth [of _ xss] by auto

definition filter_denies :: "'f table_file \<Rightarrow> nat \<Rightarrow> slice \<Rightarrow> bool" where
  "filter_denies d b k = (case t_filter (table_opened d) of None \<Rightarrow> False
     | Some fr \<Rightarrow> \<not> filter_KeyMayMatch fr (bh_offset (chunk_handle (tf_interval d) (tf_chunks d) b)) k)"

definition chunk_entry :: "slice \<Rightarrow> (slice \<times> slice) list \<Rightarrow> (slice \<times> slice) option" where
  "chunk_entry k chunk = (case dropWhile (\<lambda>e. cmp_compare cmp (fst e) k < 0) chunk of [] \<Rightarrow> None | e # _ \<Rightarrow> Some e)"

lemma chunk_entry_nth:
  "chunk_entry k chunk = (let i = first_ge (cmp_compare cmp) k chunk in if i < length chunk then Some (chunk ! i) else None)"
proof -
  let ?P = "\<lambda>e. cmp_compare cmp (fst e) k < 0"
  have len: "length (takeWhile ?P chunk) + length (dropWhile ?P chunk) = length chunk" by (metis length_append takeWhile_dropWhile_id)
  show ?thesis
  proof (cases "dropWhile ?P chunk")
    case Nil
    with len show ?thesis unfolding chunk_entry_def first_ge_def Nil by simp
  next
    case (Cons e rest)
    have "chunk ! length (takeWhile ?P chunk) = (takeWhile ?P chunk @ dropWhile ?P chunk) ! length (takeWhile ?P chunk)" by simp
    also have "\<dots> = e" unfolding nth_append Cons by simp
    finally show ?thesis using len Cons by (simp add: chunk_entry_def first_ge_def)
  qed
qed

lemma InternalGet_ok:
  assumes "tf_good d" "coherent caching d c" "b = first_ge (cmp_compare cmp) k (tf_index d)"
  shows "\<exists>saved c'. InternalGet raf (cache_option caching) (table_opened d) ro k c = Some (Status_OK, saved, c') \<and> coherent caching d c'
    \<and> saved = (if b < length (tf_chunks d) \<and> \<not> filter_denies d b k then chunk_entry k (tf_chunks d ! b) else None)"
proof -
  have ok: "tf_ok cmp d" using assms(1) by (simp add: tf_good_def)
  obtain iiter where ii: "i_Seek block_Iterator k (index_iterator (table_opened d)) = Some iiter"
    "built_at (cmp_compare cmp) 1 (tf_index d) iiter b"
    using slices.block.seek [OF index_ok [OF assms(1)], of k] assms(3) by blast
  have status: "i_status block_Iterator iiter = Status_OK"
    by (rule slices.block.ok_status [OF slices.block.at_ok [OF ii(2)]])
  have valid: "i_Valid block_Iterator iiter \<longleftrightarrow> b < length (tf_chunks d)"
    using slices.block.at_valid [OF ii(2)] tf_index_nth(2) [OF ok] by simp
  show ?thesis
  proof (cases "b < length (tf_chunks d)")
    case False
    with ii(1) valid status assms(2) show ?thesis by (simp add: InternalGet_def)
  next
    case True
    let ?h = "chunk_handle (tf_interval d) (tf_chunks d) b"
    have "(i_key block_Iterator iiter, i_value block_Iterator iiter) = tf_index d ! b"
      using slices.block.at_entry [OF ii(2)] True tf_index_nth(2) [OF ok] by simp
    then have hv: "i_value block_Iterator iiter = snd (tf_index d ! b)" by (metis snd_conv)
    then have h: "handle_DecodeFrom BlockHandle_new (i_value block_Iterator iiter) = (Status_OK, ?h, [])"
      using handle_roundtrip [of BlockHandle_new ?h "[]"] tf_index_nth(1) [OF ok True] by simp
    have denied: "(case t_filter (table_opened d) of None \<Rightarrow> False
        | Some fr \<Rightarrow> (case handle_DecodeFrom BlockHandle_new (i_value block_Iterator iiter) of (s, handle, _) \<Rightarrow>
            status_ok s \<and> \<not> filter_KeyMayMatch fr (bh_offset handle) k)) = filter_denies d b k"
      unfolding h by (simp add: filter_denies_def split: option.splits)
    show ?thesis
    proof (cases "filter_denies d b k")
      case True
      with ii(1) valid \<open>b < length (tf_chunks d)\<close> denied status assms(2) show ?thesis by (simp add: InternalGet_def Let_def)
    next
      case False
      obtain it c1 where it: "BlockReader raf (cache_option caching) (table_opened d) ro (i_value block_Iterator iiter) c = Some (it, c1)"
        "built_ok (cmp_compare cmp) (tf_interval d) (tf_chunks d ! b) it" "coherent caching d c1"
        using BlockReader_ok [OF assms(1) True assms(2) refl] unfolding hv by blast
      obtain it' where it': "i_Seek block_Iterator k it = Some it'"
        "built_at (cmp_compare cmp) (tf_interval d) (tf_chunks d ! b) it' (first_ge (cmp_compare cmp) k (tf_chunks d ! b))"
        using slices.block.seek [OF it(2)] by blast
      have "i_status block_Iterator it' = Status_OK"
        by (rule slices.block.ok_status [OF slices.block.at_ok [OF it'(2)]])
      moreover have "(if i_Valid block_Iterator it' then Some (i_key block_Iterator it', i_value block_Iterator it') else None)
          = chunk_entry k (tf_chunks d ! b)"
        using slices.block.at_valid [OF it'(2)] slices.block.at_entry [OF it'(2)] by (simp add: chunk_entry_nth Let_def)
      ultimately have "InternalGet raf (cache_option caching) (table_opened d) ro k c = Some (Status_OK, chunk_entry k (tf_chunks d ! b), c1)"
        using ii(1) valid True False denied it(1) it'(1) status by (simp add: InternalGet_def Let_def)
      with True False it(3) show ?thesis by simp
    qed
  qed
qed

lemma dropWhile_blocks:
  assumes "\<And>x. x \<in> set xs \<Longrightarrow> P x" "\<And>x. x \<in> set zs \<Longrightarrow> \<not> P x"
  shows "dropWhile P (xs @ ys @ zs) = dropWhile P ys @ zs"
proof -
  have "dropWhile P zs = zs" using assms(2) by (cases zs) simp_all
  then have "dropWhile P (ys @ zs) = dropWhile P ys @ zs" by (induction ys) simp_all
  then show ?thesis using assms(1) by (simp add: dropWhile_append2)
qed

text \<open>The block of the index entry has the first entry that is not before the key, if any block has, or the next one begins with it.\<close>

lemma before_block:
  assumes "tf_good d" "b = first_ge (cmp_compare cmp) k (tf_index d)" "b \<le> length (tf_chunks d)" "a < b" "x \<in> set (tf_chunks d ! a)"
  shows "cmp_compare cmp (fst x) k < 0"
proof -
  have ok: "tf_ok cmp d" using assms(1) by (simp add: tf_good_def)
  have "a < length (takeWhile (\<lambda>e. cmp_compare cmp (fst e) k < 0) (tf_index d))" using assms(2,4) by (simp add: first_ge_def)
  then have "cmp_compare cmp (fst (tf_index d ! a)) k < 0" by (metis nth_mem set_takeWhileD takeWhile_nth)
  then have "cmp_compare cmp (tf_seps d ! a) k < 0" using tf_index_nth(1) [OF ok, of a] assms(3,4) by simp
  moreover have "cmp_compare cmp (fst x) (tf_seps d ! a) \<le> 0" using tf_bounds(1) [OF ok _ assms(5)] assms(3,4) by simp
  ultimately show ?thesis using order.le_less_trans [of "fst x" "tf_seps d ! a" k] by simp
qed

lemma at_block:
  assumes "tf_good d" "b = first_ge (cmp_compare cmp) k (tf_index d)" "b < length (tf_chunks d)"
  shows "\<not> cmp_compare cmp (tf_seps d ! b) k < 0"
    "dropWhile (\<lambda>e. cmp_compare cmp (fst e) k < 0) (concat (tf_chunks d))
      = dropWhile (\<lambda>e. cmp_compare cmp (fst e) k < 0) (tf_chunks d ! b) @ concat (drop (Suc b) (tf_chunks d))"
proof -
  let ?P = "\<lambda>e. cmp_compare cmp (fst e) k < 0"
  have ok: "tf_ok cmp d" using assms(1) by (simp add: tf_good_def)
  have "b < length (tf_index d)" using assms(3) tf_index_nth(2) [OF ok] by simp
  then have "\<not> ?P (tf_index d ! b)" using nth_length_takeWhile [of ?P "tf_index d"] assms(2) by (simp add: first_ge_def)
  then show sep: "\<not> cmp_compare cmp (tf_seps d ! b) k < 0" using tf_index_nth(1) [OF ok assms(3)] by simp
  have "concat (tf_chunks d) = concat (take b (tf_chunks d)) @ tf_chunks d ! b @ concat (drop (Suc b) (tf_chunks d))"
    using id_take_nth_drop [OF assms(3)] by (metis concat.simps(2) concat_append)
  moreover have "?P x" if x: "x \<in> set (concat (take b (tf_chunks d)))" for x
  proof -
    obtain a where a: "a < b" "x \<in> set (tf_chunks d ! a)" using x by (auto simp only: in_concat_nth nth_take length_take min_less_iff_conj)
    show ?thesis by (rule before_block [OF assms(1,2) _ a]) (use assms(3) in simp)
  qed
  moreover have "\<not> ?P x" if x: "x \<in> set (concat (drop (Suc b) (tf_chunks d)))" for x
  proof -
    obtain i where "i < length (drop (Suc b) (tf_chunks d))" "x \<in> set (drop (Suc b) (tf_chunks d) ! i)"
      using x unfolding in_concat_nth by blast
    then have a: "Suc b + i < length (tf_chunks d)" "b < Suc b + i" "x \<in> set (tf_chunks d ! (Suc b + i))" by simp_all
    have "cmp_compare cmp (tf_seps d ! b) (fst x) < 0" by (rule tf_bounds(2) [OF ok assms(3) a(2,1,3)])
    then show ?thesis using sep order.less_le_trans [of "tf_seps d ! b" "fst x" k] by auto
  qed
  ultimately show "dropWhile ?P (concat (tf_chunks d)) = dropWhile ?P (tf_chunks d ! b) @ concat (drop (Suc b) (tf_chunks d))"
    using dropWhile_blocks [of "concat (take b (tf_chunks d))" ?P "concat (drop (Suc b) (tf_chunks d))"] by simp
qed

lemma past_blocks:
  assumes "tf_good d" "length (tf_chunks d) \<le> first_ge (cmp_compare cmp) k (tf_index d)"
  shows "dropWhile (\<lambda>e. cmp_compare cmp (fst e) k < 0) (concat (tf_chunks d)) = []"
proof -
  have "first_ge (cmp_compare cmp) k (tf_index d) \<le> length (tf_chunks d)"
    using assms(1) tf_index_nth(2) [of cmp d] length_takeWhile_le [of _ "tf_index d"] by (metis first_ge_def tf_good_def)
  with assms(2) have b: "first_ge (cmp_compare cmp) k (tf_index d) = length (tf_chunks d)" by simp
  have "cmp_compare cmp (fst x) k < 0" if x: "x \<in> set (concat (tf_chunks d))" for x
  proof -
    obtain a where a: "a < length (tf_chunks d)" "x \<in> set (tf_chunks d ! a)" using x by (auto simp only: in_concat_nth)
    show ?thesis by (rule before_block [OF assms(1) refl _ _ a(2)]) (simp_all add: b a(1))
  qed
  then show ?thesis by (simp only: dropWhile_eq_Nil_conv) blast
qed

section \<open>The filter\<close>

lemma filter_blocks_sorted:
  assumes "tf_ok cmp d"
  shows "sorted (map fst (filter_blocks (tf_interval d) (tf_chunks d) @ [(of_nat (length (data_bytes (tf_interval d) (tf_chunks d))), [])]))"
proof -
  let ?R = "tf_interval d" and ?n = "length (tf_chunks d)"
  let ?pos = "\<lambda>i. of_nat (length (data_bytes ?R (take i (tf_chunks d)))) :: u64"
  have total: "length (data_bytes ?R (tf_chunks d)) < 2 ^ 32" using assms by (simp add: tf_ok_def tf_bytes_parts)
  have "map fst (filter_blocks ?R (tf_chunks d) @ [(of_nat (length (data_bytes ?R (tf_chunks d))), [])]) = map ?pos [0..<Suc ?n]"
    by (simp add: filter_blocks_def chunk_handle_def)
  moreover have "?pos i \<le> ?pos j" if "i \<le> j" "j \<le> ?n" for i j
  proof -
    have mono: "length (data_bytes ?R (take i xs)) \<le> length (data_bytes ?R (take j xs))" if "i \<le> j" for i j xs
    proof -
      have "take j xs = take i (take j xs) @ drop i (take j xs)" by (rule append_take_drop_id [symmetric])
      also have "take i (take j xs) = take i xs" using that by (simp add: min_absorb1)
      finally have "take j xs = take i xs @ drop i (take j xs)" .
      then have "data_bytes ?R (take j xs) = data_bytes ?R (take i xs) @ data_bytes ?R (drop i (take j xs))"
        unfolding data_bytes_def by (metis concat_append map_append)
      then show ?thesis by simp
    qed
    have le: "length (data_bytes ?R (take i (tf_chunks d))) \<le> length (data_bytes ?R (take j (tf_chunks d)))" by (rule mono [OF that(1)])
    have "length (data_bytes ?R (take j (tf_chunks d))) \<le> length (data_bytes ?R (tf_chunks d))" using mono [OF that(2), of "tf_chunks d"] by simp
    then have small: "length (data_bytes ?R (take j (tf_chunks d))) < 2 ^ 64" using total by simp
    then have "unat (?pos j) = length (data_bytes ?R (take j (tf_chunks d)))" "unat (?pos i) = length (data_bytes ?R (take i (tf_chunks d)))"
      using le by (intro unat_of_nat_small; simp)+
    with le show ?thesis by (simp only: word_le_nat_alt)
  qed
  ultimately show ?thesis by (simp add: sorted_iff_nth_mono del: upt_Suc)
qed

lemma filter_keeps:
  assumes "tf_good d" "b < length (tf_chunks d)" "e \<in> set (tf_chunks d ! b)"
    and "opt_filter_policy (tf_options d) = Some policy" "filter_contract policy"
    and "\<And>f. fp_KeyMayMatch policy k f = fp_KeyMayMatch policy (fst e) f"
  shows "\<not> filter_denies d b k"
proof -
  let ?R = "tf_interval d"
  let ?blocks = "filter_blocks ?R (tf_chunks d) @ [(of_nat (length (data_bytes ?R (tf_chunks d))), [])]"
  have ok: "tf_ok cmp d" using assms(1) by (simp add: tf_good_def)
  have contents: "filter_contents policy ?R (tf_chunks d) = filter_block policy (filters_at ?blocks)"
    using filter_contract.finished_block [OF assms(5) filter_blocks_sorted [OF ok]] by (simp add: filter_contents_def)
  have "length (filter_contents policy ?R (tf_chunks d)) < 2 ^ 32"
    using ok assms(4) by (simp add: tf_ok_def tf_bytes_parts filter_bytes_def)
  then have small: "length (concat (map (filter_of policy) (filters_at ?blocks))) < 2 ^ 32"
    unfolding contents filter_block_def by (simp add: Let_def)
  have mem: "(bh_offset (chunk_handle ?R (tf_chunks d) b), map fst (tf_chunks d ! b)) \<in> set ?blocks"
    using assms(2) by (simp add: filter_blocks_def)
  have "filter_KeyMayMatch (filter_reader policy (filters_at ?blocks)) (bh_offset (chunk_handle ?R (tf_chunks d) b)) (fst e)"
    by (rule filter_contract.no_added_key_denied [OF assms(5) mem _ filter_blocks_sorted [OF ok] small]) (use assms(3) in simp)
  then have "filter_KeyMayMatch (filter_reader policy (filters_at ?blocks)) (bh_offset (chunk_handle ?R (tf_chunks d) b)) k"
    unfolding filter_reader_match [OF small] assms(6) .
  then show ?thesis
    unfolding filter_denies_def by (simp add: assms(4) contents read_filter_block [OF small])
qed

end

end
