(* ===== verification/Ldb_Table_Correct.thy ===== *)
theory Ldb_Table_Correct
  imports Ldb_Table_Read
begin

text \<open>
  Tables as the database uses them: internal keys, the POSIX files, the LRU cache and the Bloom filter. What the builder
  was given comes back from the iterator, and a lookup finds the newest visible version of a user key.
\<close>

section \<open>Internal keys\<close>

context internal_order
begin

text \<open>The comparator orders all byte strings, also those too short for a tag.\<close>

sublocale any_key: key_order "InternalKeyComparator user" UNIV
proof (unfold_locales, unfold InternalKeyComparator_simps, goal_cases)
  case (1 a b)
  show ?case by (rule internal_compare_sym)
next
  case (2 a b c)
  from 2(4,5) show ?case by (rule internal_compare_trans)
next
  case (3 a)
  show ?case by (rule internal_compare_refl)
next
  case (5 start limit)
  from 5(3) show ?case by (rule internal_separator_between)
next
  case (6 start limit)
  from 6(3) show ?case by (rule internal_separator_same)
next
  case (8 key)
  show ?case by (rule internal_successor_above)
qed simp_all

text \<open>A separator is the start itself, or its user key is before that of the limit.\<close>

lemma separator_user_key:
  assumes "InternalKeyCompare user start limit < 0" "InternalFindShortestSeparator user start limit \<noteq> start"
  shows "cmp_compare user (ExtractUserKey (InternalFindShortestSeparator user start limit)) (ExtractUserKey limit) < 0"
proof -
  let ?s = "ExtractUserKey start" and ?l = "ExtractUserKey limit"
  let ?tmp = "cmp_separator user ?s ?l"
  have tmp: "length ?tmp < length ?s" "cmp_compare user ?s ?tmp < 0"
    using assms(2) by (auto simp: InternalFindShortestSeparator_def Let_def split: if_splits)
  then have "cmp_compare user ?s ?l < 0" using separator_same [of ?s ?l] by fastforce
  then show ?thesis using tmp separator_between [of ?s ?l] by (simp add: InternalFindShortestSeparator_def Let_def PutFixed64_parts)
qed

end

section \<open>Lookups\<close>

text \<open>The entry for the user key of \<^verbatim>\<open>k\<close>: the first one that is not before \<^verbatim>\<open>k\<close>; it may be left out if it is for another user key.\<close>

definition lookup_result :: "(slice \<Rightarrow> slice) \<Rightarrow> comparator \<Rightarrow> (slice \<times> slice) list \<Rightarrow> slice \<Rightarrow> (slice \<times> slice) option \<Rightarrow> bool" where
  "lookup_result user cmp kvs k saved \<longleftrightarrow>
     (case dropWhile (\<lambda>e. cmp_compare cmp (fst e) k < 0) kvs of [] \<Rightarrow> saved = None
      | e # _ \<Rightarrow> saved = Some e \<or> saved = None \<and> user (fst e) \<noteq> user k)"

text \<open>What lookups rely on: a separator other than the key itself separates the user keys, and the filter looks at user keys only.\<close>

definition splits_users :: "(slice \<Rightarrow> slice) \<Rightarrow> comparator \<Rightarrow> bool" where
  "splits_users user cmp \<longleftrightarrow> (\<forall>start limit k. cmp_compare cmp start limit < 0 \<longrightarrow> cmp_separator cmp start limit \<noteq> start \<longrightarrow>
     \<not> cmp_compare cmp (cmp_separator cmp start limit) k < 0 \<longrightarrow> user limit \<noteq> user k)"

definition filters_users :: "(slice \<Rightarrow> slice) \<Rightarrow> FilterPolicy option \<Rightarrow> bool" where
  "filters_users user p \<longleftrightarrow> (\<forall>policy. p = Some policy \<longrightarrow> filter_contract policy
     \<and> (\<forall>a b f. user a = user b \<longrightarrow> fp_KeyMayMatch policy a f = fp_KeyMayMatch policy b f))"

fun InternalGets :: "'f RandomAccessFile \<Rightarrow> ('c, 'h, Block) Cache option \<Rightarrow> 'f Table \<Rightarrow> ReadOptions \<Rightarrow> slice list \<Rightarrow> 'c
    \<Rightarrow> ((Status \<times> (slice \<times> slice) option) list \<times> 'c) option" where
  "InternalGets raf cache t ro [] c = Some ([], c)"
| "InternalGets raf cache t ro (k # ks) c =
     do {(s, saved, c) \<leftarrow> InternalGet raf cache t ro k c; (rs, c) \<leftarrow> InternalGets raf cache t ro ks c; Some ((s, saved) # rs, c)}"

context table_reader
begin

lemma lookup_ok:
  assumes "tf_good d" "coherent caching d c"
    and sep: "splits_users user cmp" and filter: "filters_users user (opt_filter_policy (tf_options d))"
  shows "\<exists>saved c'. InternalGet raf (cache_option caching) (table_opened d) ro k c = Some (Status_OK, saved, c') \<and> coherent caching d c'
    \<and> lookup_result user cmp (concat (tf_chunks d)) k saved"
proof -
  define b where "b = first_ge (cmp_compare cmp) k (tf_index d)"
  let ?P = "\<lambda>e. cmp_compare cmp (fst e) k < 0"
  obtain saved c' where get: "InternalGet raf (cache_option caching) (table_opened d) ro k c = Some (Status_OK, saved, c')" "coherent caching d c'"
    "saved = (if b < length (tf_chunks d) \<and> \<not> filter_denies d b k then chunk_entry k (tf_chunks d ! b) else None)"
    using InternalGet_ok [OF assms(1,2) b_def] by blast
  have "lookup_result user cmp (concat (tf_chunks d)) k saved"
  proof (cases "b < length (tf_chunks d)")
    case False
    then have e: "dropWhile ?P (concat (tf_chunks d)) = []" using past_blocks [OF assms(1), of k] by (simp only: b_def not_less)
    show ?thesis using get(3) False unfolding lookup_result_def e by simp
  next
    case b: True
    note at = at_block [OF assms(1) b_def b]
    show ?thesis
    proof (cases "dropWhile ?P (tf_chunks d ! b)")
      case (Cons e rest)
      have e: "e \<in> set (tf_chunks d ! b)" using Cons by (metis list.set_intros(1) set_dropWhileD)
      have "user (fst e) \<noteq> user k" if denies: "filter_denies d b k"
      proof (cases "opt_filter_policy (tf_options d)")
        case None
        with denies show ?thesis by (simp add: filter_denies_def)
      next
        case (Some policy)
        then have fc: "filter_contract policy" "\<forall>a b f. user a = user b \<longrightarrow> fp_KeyMayMatch policy a f = fp_KeyMayMatch policy b f"
          using filter unfolding filters_users_def by blast+
        show ?thesis
        proof
          assume same: "user (fst e) = user k"
          have "fp_KeyMayMatch policy k f = fp_KeyMayMatch policy (fst e) f" for f by (rule fc(2) [rule_format, OF same [symmetric]])
          from filter_keeps [OF assms(1) b e Some fc(1) this] denies show False by contradiction
        qed
      qed
      then show ?thesis using get(3) b at(2) Cons by (simp add: lookup_result_def chunk_entry_def)
    next
      case Nil
      then have before: "\<forall>x \<in> set (tf_chunks d ! b). ?P x" by (simp only: dropWhile_eq_Nil_conv)
      have "chunk_entry k (tf_chunks d ! b) = None" unfolding chunk_entry_def Nil by simp
      then have saved: "saved = None" using get(3) by simp
      show ?thesis
      proof (cases "concat (drop (Suc b) (tf_chunks d))")
        case rest: Nil
        show ?thesis unfolding lookup_result_def at(2) Nil rest using saved by simp
      next
        case (Cons e rest)
        let ?last = "last (tf_chunks d ! b)"
        have ok: "tf_ok cmp d" using assms(1) by (simp add: tf_good_def)
        then have last: "?last \<in> set (tf_chunks d ! b)" using nth_mem [OF b] unfolding tf_ok_def by (metis last_in_set)
        have seps: "tf_seps d ! b = cmp_separator cmp (fst ?last) (fst e)"
        proof -
          have "separates cmp (tf_seps d) (tf_chunks d) []" "b < length (tf_seps d)" using ok b by (simp_all add: tf_ok_def)
          then have "separator_for cmp (fst ?last) (concat (drop (Suc b) (tf_chunks d)) @ []) = tf_seps d ! b"
            unfolding separates_def by blast
          then show ?thesis unfolding Cons by simp
        qed
        have "concat (tf_chunks d) = concat (take b (tf_chunks d)) @ tf_chunks d ! b @ e # rest"
          using id_take_nth_drop [OF b] Cons by (metis concat.simps(2) concat_append)
        then have "cmp_compare cmp (fst ?last) (fst e) < 0" using ok last by (auto simp: tf_ok_def sorted_wrt_append)
        moreover have "tf_seps d ! b \<noteq> fst ?last" using at(1) before last by auto
        ultimately have "user (fst e) \<noteq> user k" using sep [unfolded splits_users_def, rule_format, of "fst ?last" "fst e" k] at(1) seps by simp
        then show ?thesis unfolding lookup_result_def at(2) Nil Cons using saved by simp
      qed
    qed
  qed
  with get(1,2) show ?thesis by blast
qed

lemma lookups_ok:
  assumes "tf_good d" "coherent caching d c"
    and sep: "splits_users user cmp" and filter: "filters_users user (opt_filter_policy (tf_options d))"
  shows "\<exists>rs c'. InternalGets raf (cache_option caching) (table_opened d) ro ks c = Some (rs, c') \<and> coherent caching d c'
    \<and> list_all2 (\<lambda>k (s, saved). s = Status_OK \<and> lookup_result user cmp (concat (tf_chunks d)) k saved) ks rs"
  using assms(2)
proof (induction ks arbitrary: c)
  case (Cons k ks)
  obtain saved c1 where get: "InternalGet raf (cache_option caching) (table_opened d) ro k c = Some (Status_OK, saved, c1)" "coherent caching d c1"
    "lookup_result user cmp (concat (tf_chunks d)) k saved"
    using lookup_ok [OF assms(1) Cons.prems sep filter] by blast
  from Cons.IH [OF get(2)] get show ?case by auto
qed simp

end

section \<open>The components put together\<close>

interpretation posix_table: table_writer "PosixWritableFile filename" f_data no_room "InternalKeyComparator BytewiseComparator"
  for filename
  by (rule table_writer.intro [OF posix_out.append_file_axioms ikeys.any_key.key_order_axioms])

interpretation pread_table: table_reader "PosixRandomAccessFile filename" "\<lambda>f. f_data (fd_file f)" readable_fd
    "InternalKeyComparator BytewiseComparator" ShardedLRU sharded_ok sharded_clients sharded_has
  for filename
  by (rule table_reader.intro [OF pread_file.random_file_axioms ikeys.any_key.key_order_axioms lru_cache.cache_contract_axioms])

interpretation mmap_table: table_reader "PosixMmapReadableFile filename" f_data "\<lambda>f. length (f_data f) < 2 ^ 63"
    "InternalKeyComparator BytewiseComparator" ShardedLRU sharded_ok sharded_clients sharded_has
  for filename
  by (rule table_reader.intro [OF mmap_file.random_file_axioms ikeys.any_key.key_order_axioms lru_cache.cache_contract_axioms])


lemma internal_splits_users: "splits_users ExtractUserKey (InternalKeyComparator BytewiseComparator)"
  unfolding splits_users_def InternalKeyComparator_simps
proof (intro allI impI notI)
  fix start limit k
  let ?sep = "InternalFindShortestSeparator BytewiseComparator start limit"
  assume a: "InternalKeyCompare BytewiseComparator start limit < 0" "?sep \<noteq> start" "\<not> InternalKeyCompare BytewiseComparator ?sep k < 0"
    and same: "ExtractUserKey limit = ExtractUserKey k"
  have "cmp_compare BytewiseComparator (ExtractUserKey ?sep) (ExtractUserKey k) < 0"
    using ikeys.separator_user_key [OF a(1,2)] unfolding same .
  with a(3) show False unfolding ikeys.internal_sign(1) by blast
qed

text \<open>A database's filter policy is the wrapper of the user's, which looks at user keys only.\<close>

definition db_filter :: "FilterPolicy option \<Rightarrow> bool" where
  "db_filter p \<longleftrightarrow> p = None \<or> (\<exists>bits. p = Some (InternalFilterPolicy (BloomFilterPolicy bits)))"

lemma db_filters_users: "db_filter p \<Longrightarrow> filters_users ExtractUserKey p"
  using internal_bloom.filter_contract_axioms by (auto simp: db_filter_def filters_users_def) (simp_all add: InternalFilterPolicy_def)

text \<open>The file that the builder leaves, as the reader opens it.\<close>

definition table_file_of :: "slice \<Rightarrow> TableOptions \<Rightarrow> (slice \<times> slice) list \<Rightarrow> FILE \<Rightarrow> Status \<times> FILE TableBuilder" where
  "table_file_of name options kvs f =
     table_Finish (PosixWritableFile name) (fold (\<lambda>(k, v). table_Add (PosixWritableFile name) k v) kvs (TableBuilder_new options f))"

definition db_table_options :: "TableOptions \<Rightarrow> bool" where
  "db_table_options options \<longleftrightarrow> opt_comparator options = InternalKeyComparator BytewiseComparator
     \<and> stores_plain options \<and> 1 \<le> opt_block_restart_interval options"

lemma built_file:
  assumes "f_data f = []" "db_table_options options"
    and "sorted_wrt (\<lambda>a b. InternalKeyCompare BytewiseComparator (fst a) (fst b) < 0) kvs"
    and "table_file_of name options kvs f = (s, r)" "status_ok s" "length (f_data (tb_file r)) < 2 ^ 32"
    and "readable_fd fd" "f_data (fd_file fd) = f_data (tb_file r)"
  obtains d where "pread_table.tf_good d" "concat (tf_chunks d) = kvs" "tf_options d = options" "tf_file d = fd" "tf_id d = cid"
    "tb_offset r = of_nat (length (f_data (fd_file fd)))"
proof -
  have "posix_table.usable options" using assms(2) by (simp add: posix_table.usable_def db_table_options_def)
  then obtain chunks seps where w: "concat chunks = kvs" "[] \<notin> set chunks" "length seps = length chunks"
    "separates (InternalKeyComparator BytewiseComparator) seps chunks []" "f_data (tb_file r) = table_bytes options chunks seps"
    "tb_offset r = of_nat (length (table_bytes options chunks seps))"
    using posix_table.table_written [OF assms(1) _ _ assms(4) [unfolded table_file_of_def] assms(5)] assms(3) by auto
  let ?d = "\<lparr>tf_options = options, tf_chunks = chunks, tf_seps = seps, tf_file = fd, tf_id = cid\<rparr>"
  have "pread_table.tf_good ?d"
    using assms w by (simp add: pread_table.tf_good_def tf_ok_def tf_bytes_def db_table_options_def)
  then show ?thesis using that [of ?d] w assms(8) by simp
qed

lemma new_cache_coherent:
  assumes "pread_table.tf_good d" "caching \<longrightarrow> n \<noteq> 0 \<and> unat n + 15 < 2 ^ 64"
  shows "pread_table.coherent caching d (snd (sharded_NewId (NewLRUCache n)))" "pread_table.coherent caching d (NewLRUCache n)"
proof -
  have ok: "caching \<longrightarrow> sharded_ok (NewLRUCache n :: Block ShardedLRUCache)" using assms(2) NewLRUCache_ok(1) [of n] per_shard_zero [of n] by auto
  have "pread_table.roomy d (NewLRUCache n)" "pread_table.roomy d (snd (sharded_NewId (NewLRUCache n)))"
    by (rule pread_table.new_roomy [OF assms(1)], simp_all add: sharded_NewId_ok NewLRUCache_ok)+
  then show "pread_table.coherent caching d (snd (sharded_NewId (NewLRUCache n)))" "pread_table.coherent caching d (NewLRUCache n)"
    using ok by (simp_all add: pread_table.coherent_def sharded_NewId_ok NewLRUCache_ok)
qed

lemma opened_file:
  assumes "pread_table.tf_good d" "tf_id d = (if caching then 1 else 0)" "tb_offset r = of_nat (length (f_data (fd_file (tf_file d))))"
    "caching \<longrightarrow> n \<noteq> 0 \<and> unat n + 15 < 2 ^ 64"
  shows "\<exists>c. Table_Open (PosixRandomAccessFile name) (pread_table.cache_option caching) (tf_options d) (tf_file d) (tb_offset r) (NewLRUCache n)
    = Some (Status_OK, Some (table_opened d), c) \<and> pread_table.coherent caching d c"
proof -
  have "sharded_NewId (NewLRUCache n :: Block ShardedLRUCache) = (1, snd (sharded_NewId (NewLRUCache n)))"
    by (simp add: sharded_NewId_def NewLRUCache_def Let_def)
  then have "(tf_id d, if caching then snd (sharded_NewId (NewLRUCache n :: Block ShardedLRUCache)) else NewLRUCache n)
      = (if caching then c_NewId ShardedLRU (NewLRUCache n) else (0, NewLRUCache n))"
    using assms(2) by (cases caching) (simp_all add: ShardedLRU_def)
  from pread_table.Table_Open_ok [OF assms(1) this, of name] assms(3) new_cache_coherent [OF assms(1,4)] show ?thesis by (cases caching) auto
qed

text \<open>On a device that does not fail the builder succeeds.\<close>

definition writes_on :: "FILE TableBuilder \<Rightarrow> bool" where
  "writes_on r \<longleftrightarrow> f_limit (tb_file r) = None \<and> tb_ok r"

lemma WriteRawBlock_on:
  "writes_on r \<Longrightarrow> writes_on (snd (WriteRawBlock (PosixWritableFile name) c t r))"
  by (simp add: writes_on_def tb_ok_def WriteRawBlock_def posix_unlimited Let_def)

lemma WriteBlock_on:
  "writes_on r \<Longrightarrow> writes_on (snd (snd (WriteBlock (PosixWritableFile name) b r)))"
  using WriteRawBlock_on [of r name] by (simp add: WriteBlock_def split_beta Let_def)

lemma Flush_on:
  assumes "writes_on r"
  shows "writes_on (table_Flush (PosixWritableFile name) r)"
proof -
  obtain handle block r1 where w: "WriteBlock (PosixWritableFile name) (tb_data_block r) r = (handle, block, r1)" by (cases "WriteBlock (PosixWritableFile name) (tb_data_block r) r")
  then have "f_limit (tb_file r1) = None" "tb_ok r1" using WriteBlock_on [OF assms, of name "tb_data_block r"] by (simp_all add: writes_on_def)
  then show ?thesis using assms w by (simp add: table_Flush_def writes_on_def tb_ok_def posix_unlimited Let_def)
qed

lemma Add_on:
  assumes "writes_on r"
  shows "writes_on (table_Add (PosixWritableFile name) k v r)"
  using assms Flush_on by (auto simp: table_Add_def writes_on_def tb_ok_def add_index_entry_def Let_def)

lemma Adds_on: "writes_on r \<Longrightarrow> writes_on (fold (\<lambda>(k, v). table_Add (PosixWritableFile name) k v) kvs r)"
  by (induction kvs arbitrary: r) (auto simp: Add_on)

lemma Finish_on:
  assumes "writes_on r"
  shows "status_ok (fst (table_Finish (PosixWritableFile name) r))"
proof -
  define r1 where "r1 = (table_Flush (PosixWritableFile name) r)\<lparr>tb_closed := True\<rparr>"
  obtain fh r2 where f: "finish_filter (PosixWritableFile name) r1 = (fh, r2)" by force
  obtain mh r3 where m: "finish_metaindex (PosixWritableFile name) fh r2 = (mh, r3)" by force
  obtain ih r4 where i: "finish_index (PosixWritableFile name) r3 = (ih, r4)" by force
  have on1: "writes_on r1" using Flush_on [OF assms] by (simp add: r1_def writes_on_def tb_ok_def)
  have on2: "writes_on r2"
  proof (cases "tb_filter_block r1")
    case None
    with f on1 show ?thesis by (simp add: finish_filter_def)
  next
    case (Some fb)
    obtain fb' contents where fin: "filter_Finish fb = (fb', contents)" by force
    have "writes_on (r1\<lparr>tb_filter_block := Some fb'\<rparr>)" using on1 by (simp add: writes_on_def tb_ok_def)
    from WriteRawBlock_on [OF this, of name contents kNoCompression] show ?thesis
      using f Some fin on1 by (simp add: finish_filter_def writes_on_def)
  qed
  have on3: "writes_on r3"
    using m on2 WriteBlock_on [OF on2, of name] by (auto simp: finish_metaindex_def writes_on_def [of r2] Let_def split_beta)
  have on4: "writes_on r4"
  proof -
    define r where "r = (if tb_pending_index_entry r3
      then add_index_entry (cmp_successor (opt_comparator (tb_options r3)) (tb_last_key r3)) r3 else r3)"
    have on: "writes_on r" using on3 by (simp add: r_def writes_on_def tb_ok_def add_index_entry_def)
    obtain handle block r' where w: "WriteBlock (PosixWritableFile name) (tb_index_block r) r = (handle, block, r')"
      by (cases "WriteBlock (PosixWritableFile name) (tb_index_block r) r")
    have "writes_on r'" using WriteBlock_on [OF on, of name "tb_index_block r"] w by simp
    moreover have "r4 = r'\<lparr>tb_index_block := block\<rparr>"
      using i on3 w by (simp add: finish_index_def writes_on_def [of r3] r_def [symmetric] Let_def)
    ultimately show ?thesis by (simp add: writes_on_def tb_ok_def)
  qed
  then have "tb_ok (finish_footer (PosixWritableFile name) \<lparr>ft_metaindex_handle = mh, ft_index_handle = ih\<rparr> r4)"
    by (simp add: finish_footer_def writes_on_def tb_ok_def posix_unlimited Let_def)
  then show ?thesis using f m i by (simp add: table_Finish_def r1_def [symmetric] tb_ok_def Let_def)
qed

lemma table_file_unlimited: "f_limit f = None \<Longrightarrow> status_ok (fst (table_file_of name options kvs f))"
  unfolding table_file_of_def by (rule Finish_on [OF Adds_on]) (simp add: writes_on_def tb_ok_def TableBuilder_new_def Let_def)

section \<open>An example\<close>

definition example_options :: TableOptions where
  "example_options = \<lparr>opt_comparator = InternalKeyComparator BytewiseComparator, opt_paranoid_checks = True, opt_block_size = 16,
     opt_block_restart_interval = 16, opt_compression = kSnappyCompression,
     opt_filter_policy = Some (InternalFilterPolicy (BloomFilterPolicy 10))\<rparr>"

definition example_entries :: "(slice \<times> slice) list" where
  "example_entries = [([97, 1, 2, 0, 0, 0, 0, 0, 0], [7]), ([98, 1, 3, 0, 0, 0, 0, 0, 0], [8, 9])]"

definition example_device :: FILE where
  "example_device = \<lparr>f_data = [], f_pos = 0, f_limit = None, f_eof = False, f_strerror = []\<rparr>"

lemma example_ok:
  "db_table_options example_options" "db_filter (opt_filter_policy example_options)" "f_data example_device = []"
  "sorted_wrt (\<lambda>a b. InternalKeyCompare BytewiseComparator (fst a) (fst b) < 0) example_entries"
proof -
  have "InternalKeyCompare BytewiseComparator [97, 1, 2, 0, 0, 0, 0, 0, 0] [98, 1, 3, 0, 0, 0, 0, 0, 0] < 0" by code_simp
  then show "sorted_wrt (\<lambda>a b. InternalKeyCompare BytewiseComparator (fst a) (fst b) < 0) example_entries" by (simp add: example_entries_def)
qed (auto simp: example_options_def example_device_def db_table_options_def stores_plain_def db_filter_def)

lemma example_chunks:
  assumes "concat chunks = example_entries" "[] \<notin> set chunks"
  shows "chunks = [example_entries] \<or> chunks = [[hd example_entries], tl example_entries]"
proof -
  have none: "xss = []" if "concat xss = []" "[] \<notin> set xss" for xss :: "(slice \<times> slice) list list"
    using that by (cases xss) auto
  show ?thesis
    using assms none by (cases chunks; cases "tl chunks") (auto simp: example_entries_def append_eq_Cons_conv Cons_eq_append_conv)
qed

lemma length_table_bytes:
  "length (table_bytes options chunks seps) = length (data_bytes (opt_block_restart_interval options) chunks)
     + (case opt_filter_policy options of None \<Rightarrow> 0
        | Some policy \<Rightarrow> length (filter_contents policy (opt_block_restart_interval options) chunks) + 5)
     + length (meta_contents options chunks) + length (index_contents options chunks seps) + 58"
  by (simp add: table_bytes_def body_bytes_def filter_bytes_def footer_length kEncodedLength_def kMaxEncodedLength_def split: option.splits)

lemma example_blocks:
  "length (block_contents 16 example_entries) = 35"
  "length (block_contents 16 [hd example_entries]) = 21"
  "length (block_contents 16 (tl example_entries)) = 22"
  by code_simp+

lemma example_filter:
  "length (snd (filter_Finish (add_blocks (InternalFilterPolicy (BloomFilterPolicy 10)) [(0, map fst example_entries), (40, [])]))) = 18"
  "length (snd (filter_Finish (add_blocks (InternalFilterPolicy (BloomFilterPolicy 10))
     [(0, [fst (hd example_entries)]), (26, map fst (tl example_entries)), (53, [])]))) = 18"
proof -
  let ?policy = "InternalFilterPolicy (BloomFilterPolicy 10)"
  have one: "length (snd (filter_Finish (add_blocks ?policy blocks))) = 18"
    if "sorted (map fst blocks)" "filters_at blocks = [map fst example_entries]" for blocks
  proof -
    have "length (snd (filter_Finish (add_blocks ?policy blocks))) = length (fp_CreateFilter ?policy (map fst example_entries) []) + 9"
      unfolding internal_bloom.finished_block [OF that(1)] that(2) filter_block_def
      by (simp add: Let_def filter_of_def example_entries_def offs_simps(2) [of "[]", simplified])
    then show ?thesis
      by (simp add: InternalFilterPolicy_def BloomFilterPolicy_def bloom_CreateFilter_length example_entries_def)
  qed
  show "length (snd (filter_Finish (add_blocks ?policy [(0, map fst example_entries), (40, [])]))) = 18"
    by (rule one) (simp_all add: filters_at_def keys_at_def filter_index_def example_entries_def)
  show "length (snd (filter_Finish (add_blocks ?policy [(0, [fst (hd example_entries)]), (26, map fst (tl example_entries)), (53, [])]))) = 18"
    by (rule one) (simp_all add: filters_at_def keys_at_def filter_index_def example_entries_def)
qed

lemma example_small_1:
  "length (table_bytes example_options [example_entries] [InternalFindShortSuccessor BytewiseComparator [98, 1, 3, 0, 0, 0, 0, 0, 0]]) < 2 ^ 32"
proof -
  have "length (block_contents 16 [(cstr ''filter.'' @ cstr (fp_Name (InternalFilterPolicy (BloomFilterPolicy 10))),
      handle_EncodeTo \<lparr>bh_offset = 40, bh_size = 18\<rparr> [])]) = 47" by code_simp
  moreover have "length (block_contents (Suc 0) [(InternalFindShortSuccessor BytewiseComparator [98, 1, 3, 0, 0, 0, 0, 0, 0],
      handle_EncodeTo \<lparr>bh_offset = 0, bh_size = 35\<rparr> [])]) = 22" by code_simp
  ultimately show ?thesis
    unfolding length_table_bytes
    by (simp add: example_options_def data_bytes_def example_blocks filter_contents_def filter_blocks_def chunk_handle_def
      meta_contents_def meta_entries_def index_contents_def index_of_def filter_handle_def example_filter)
qed

lemma example_small_2:
  "length (table_bytes example_options [[hd example_entries], tl example_entries]
     [InternalFindShortestSeparator BytewiseComparator [97, 1, 2, 0, 0, 0, 0, 0, 0] [98, 1, 3, 0, 0, 0, 0, 0, 0],
      InternalFindShortSuccessor BytewiseComparator [98, 1, 3, 0, 0, 0, 0, 0, 0]]) < 2 ^ 32"
proof -
  have "length (block_contents 16 [(cstr ''filter.'' @ cstr (fp_Name (InternalFilterPolicy (BloomFilterPolicy 10))),
      handle_EncodeTo \<lparr>bh_offset = 53, bh_size = 18\<rparr> [])]) = 47" by code_simp
  moreover have "length (block_contents (Suc 0)
      [(InternalFindShortestSeparator BytewiseComparator [97, 1, 2, 0, 0, 0, 0, 0, 0] [98, 1, 3, 0, 0, 0, 0, 0, 0],
        handle_EncodeTo \<lparr>bh_offset = 0, bh_size = 21\<rparr> []),
       (InternalFindShortSuccessor BytewiseComparator [98, 1, 3, 0, 0, 0, 0, 0, 0], handle_EncodeTo \<lparr>bh_offset = 26, bh_size = 22\<rparr> [])]) = 40"
    by code_simp
  ultimately show ?thesis
    unfolding length_table_bytes
    by (simp add: example_options_def data_bytes_def example_blocks filter_contents_def filter_blocks_def chunk_handle_def
      meta_contents_def meta_entries_def index_contents_def index_of_def filter_handle_def example_filter)
qed

lemma example_file:
  obtains s r where "table_file_of name example_options example_entries example_device = (s, r)" "status_ok s" "length (f_data (tb_file r)) < 2 ^ 32"
proof -
  obtain s r where t: "table_file_of name example_options example_entries example_device = (s, r)" by force
  have ok: "status_ok s" using table_file_unlimited [of example_device name example_options example_entries] t by (simp add: example_device_def)
  obtain chunks seps where w: "concat chunks = example_entries" "[] \<notin> set chunks" "length seps = length chunks"
    "separates (InternalKeyComparator BytewiseComparator) seps chunks []" "f_data (tb_file r) = table_bytes example_options chunks seps"
    using posix_table.table_written [OF _ _ _ t [unfolded table_file_of_def] ok] example_ok
    by (auto simp: example_device_def posix_table.usable_def db_table_options_def)
  from example_chunks [OF w(1,2)] have "length (f_data (tb_file r)) < 2 ^ 32"
  proof
    assume c: "chunks = [example_entries]"
    then have "seps = [InternalFindShortSuccessor BytewiseComparator [98, 1, 3, 0, 0, 0, 0, 0, 0]]"
      using w(3,4) by (cases seps) (auto simp: separates_def example_entries_def)
    then show ?thesis using w(5) c example_small_1 by simp
  next
    assume c: "chunks = [[hd example_entries], tl example_entries]"
    then have "seps = [InternalFindShortestSeparator BytewiseComparator [97, 1, 2, 0, 0, 0, 0, 0, 0] [98, 1, 3, 0, 0, 0, 0, 0, 0],
        InternalFindShortSuccessor BytewiseComparator [98, 1, 3, 0, 0, 0, 0, 0, 0]]"
      using w(3,4) by (cases seps; cases "tl seps") (auto simp: separates_def example_entries_def All_less_Suc)
    then show ?thesis using w(5) c example_small_2 by simp
  qed
  with t ok that show ?thesis by blast
qed

section \<open>Properties\<close>

text \<open>C12: A table that \<^verbatim>\<open>TableBuilder\<close> has written with status OK, from entries with increasing internal keys, with any block
  size, restart interval, filter policy and compression type of the enum, opens from a random access file with the same
  bytes and the size that the builder reports, with or without a block cache, with or without checksum verification; its
  iterator visits the entries in order forwards, backwards and from any target, and all these operations return. The capacity
  of a block cache is above 0 and does not wrap around when it is divided among the shards.\<close>

theorem table_roundtrip:
  assumes "f_data f = []" "db_table_options options"
    and "sorted_wrt (\<lambda>a b. InternalKeyCompare BytewiseComparator (fst a) (fst b) < 0) kvs"
    and "table_file_of name options kvs f = (s, r)" "status_ok s" "length (f_data (tb_file r)) < 2 ^ 32"
    and "readable_fd fd" "f_data (fd_file fd) = f_data (tb_file r)"
    and "cache = (if caching then Some ShardedLRU else None)" "caching \<longrightarrow> n \<noteq> 0 \<and> unat n + 15 < 2 ^ 64"
  shows "\<exists>t c. Table_Open (PosixRandomAccessFile name) cache options fd (tb_offset r) (NewLRUCache n) = Some (Status_OK, Some t, c)
    \<and> scan (table_Iterator (PosixRandomAccessFile name) cache t ro) (table_NewIterator t c) = Some kvs
    \<and> scan_back (table_Iterator (PosixRandomAccessFile name) cache t ro) (table_NewIterator t c) = Some (rev kvs)
    \<and> scan_from (table_Iterator (PosixRandomAccessFile name) cache t ro) target (table_NewIterator t c)
        = Some (dropWhile (\<lambda>e. InternalKeyCompare BytewiseComparator (fst e) target < 0) kvs)"
proof -
  obtain d where d: "pread_table.tf_good d" "concat (tf_chunks d) = kvs" "tf_options d = options" "tf_file d = fd"
    "tf_id d = (if caching then 1 else 0)" "tb_offset r = of_nat (length (f_data (fd_file fd)))"
    using built_file [OF assms(1-8), where cid = "if caching then 1 else 0"] .
  then obtain c where "Table_Open (PosixRandomAccessFile name) cache options fd (tb_offset r) (NewLRUCache n) = Some (Status_OK, Some (table_opened d), c)"
    "pread_table.coherent caching d c"
    using opened_file [OF d(1,5), of r n name] assms(9,10) d(3,4,6) by (auto simp: pread_table.cache_option_def)
  with pread_table.table_scans [OF d(1), of caching c name ro] d(2) assms(9) show ?thesis
    by (auto simp: pread_table.cache_option_def)
qed

theorem table_roundtrip_witness:
  "\<exists>r t c. snd (table_file_of [] example_options example_entries example_device) = r
    \<and> Table_Open (PosixRandomAccessFile []) (Some ShardedLRU) example_options \<lparr>fd_file = example_device\<lparr>f_data := f_data (tb_file r)\<rparr>, fd_temporary = True, fd_opens = True\<rparr>
        (tb_offset r) (NewLRUCache 8) = Some (Status_OK, Some t, c)
    \<and> scan_back (table_Iterator (PosixRandomAccessFile []) (Some ShardedLRU) t \<lparr>ro_verify_checksums = True, ro_fill_cache = True\<rparr>)
        (table_NewIterator t c) = Some (rev example_entries)"
proof -
  obtain s r where t: "table_file_of [] example_options example_entries example_device = (s, r)" "status_ok s" "length (f_data (tb_file r)) < 2 ^ 32"
    by (rule example_file)
  let ?fd = "\<lparr>fd_file = example_device\<lparr>f_data := f_data (tb_file r)\<rparr>, fd_temporary = True, fd_opens = True\<rparr>"
  have "readable_fd ?fd" "f_data (fd_file ?fd) = f_data (tb_file r)" using t(3) by (simp_all add: readable_fd_def example_device_def)
  from table_roundtrip [OF example_ok(3,1,4) t this, of "Some ShardedLRU" True 8] t(1) show ?thesis by fastforce
qed

text \<open>C13: In such a table, with the internal Bloom filter or none and with or without a block cache, any sequence of lookups
  returns with status OK; each gives the first entry that is not before its key, and leaves it out only if that entry is for
  another user key: the newest version of a user key that is visible at the sequence number of the lookup is always found. The
  capacity of a block cache is above 0 and does not wrap around when it is divided among the shards.\<close>

theorem table_get:
  assumes "f_data f = []" "db_table_options options" "db_filter (opt_filter_policy options)"
    and "sorted_wrt (\<lambda>a b. InternalKeyCompare BytewiseComparator (fst a) (fst b) < 0) kvs"
    and "table_file_of name options kvs f = (s, r)" "status_ok s" "length (f_data (tb_file r)) < 2 ^ 32"
    and "readable_fd fd" "f_data (fd_file fd) = f_data (tb_file r)"
    and "cache = (if caching then Some ShardedLRU else None)" "caching \<longrightarrow> n \<noteq> 0 \<and> unat n + 15 < 2 ^ 64"
  shows "\<exists>t c rs c'. Table_Open (PosixRandomAccessFile name) cache options fd (tb_offset r) (NewLRUCache n) = Some (Status_OK, Some t, c)
    \<and> InternalGets (PosixRandomAccessFile name) cache t ro ks c = Some (rs, c')
    \<and> list_all2 (\<lambda>k (s, saved). s = Status_OK \<and> lookup_result ExtractUserKey (InternalKeyComparator BytewiseComparator) kvs k saved) ks rs"
proof -
  obtain d where d: "pread_table.tf_good d" "concat (tf_chunks d) = kvs" "tf_options d = options" "tf_file d = fd"
    "tf_id d = (if caching then 1 else 0)" "tb_offset r = of_nat (length (f_data (fd_file fd)))"
    using built_file [OF assms(1,2,4-9), where cid = "if caching then 1 else 0"] .
  then obtain c where opens: "Table_Open (PosixRandomAccessFile name) cache options fd (tb_offset r) (NewLRUCache n) = Some (Status_OK, Some (table_opened d), c)"
    "pread_table.coherent caching d c"
    using opened_file [OF d(1,5), of r n name] assms(10,11) d(3,4,6) by (auto simp: pread_table.cache_option_def)
  from pread_table.lookups_ok [OF d(1) opens(2) internal_splits_users db_filters_users [OF assms(3), folded d(3)], of name ro ks] opens(1) assms(10) d(2) show ?thesis
    by (auto simp: pread_table.cache_option_def)
qed

theorem table_get_witness:
  "\<exists>r t c rs c'. snd (table_file_of [] example_options example_entries example_device) = r
    \<and> Table_Open (PosixRandomAccessFile []) (Some ShardedLRU) example_options \<lparr>fd_file = example_device\<lparr>f_data := f_data (tb_file r)\<rparr>, fd_temporary = True, fd_opens = True\<rparr>
        (tb_offset r) (NewLRUCache 8) = Some (Status_OK, Some t, c)
    \<and> InternalGets (PosixRandomAccessFile []) (Some ShardedLRU) t \<lparr>ro_verify_checksums = True, ro_fill_cache = True\<rparr>
        [[98, 1, 9, 0, 0, 0, 0, 0, 0], [98, 1, 9, 0, 0, 0, 0, 0, 0]] c = Some (rs, c')
    \<and> rs = [(Status_OK, Some (example_entries ! 1)), (Status_OK, Some (example_entries ! 1))]"
proof -
  obtain s r where t: "table_file_of [] example_options example_entries example_device = (s, r)" "status_ok s" "length (f_data (tb_file r)) < 2 ^ 32"
    by (rule example_file)
  let ?fd = "\<lparr>fd_file = example_device\<lparr>f_data := f_data (tb_file r)\<rparr>, fd_temporary = True, fd_opens = True\<rparr>"
  have fd: "readable_fd ?fd" "f_data (fd_file ?fd) = f_data (tb_file r)" using t(3) by (simp_all add: readable_fd_def example_device_def)
  have "InternalKeyCompare BytewiseComparator [97, 1, 2, 0, 0, 0, 0, 0, 0] [98, 1, 9, 0, 0, 0, 0, 0, 0] < 0"
    "\<not> InternalKeyCompare BytewiseComparator [98, 1, 3, 0, 0, 0, 0, 0, 0] [98, 1, 9, 0, 0, 0, 0, 0, 0] < 0"
    "ExtractUserKey [98, 1, 3, 0, 0, 0, 0, 0, 0] = ExtractUserKey [98, 1, 9, 0, 0, 0, 0, 0, 0]"
    by code_simp+
  then have found: "saved = Some (example_entries ! 1)"
    if "lookup_result ExtractUserKey (InternalKeyComparator BytewiseComparator) example_entries [98, 1, 9, 0, 0, 0, 0, 0, 0] saved" for saved
    using that by (simp add: lookup_result_def example_entries_def)
  from table_get [OF example_ok(3,1,2,4) t fd, where cache = "Some ShardedLRU" and caching = True and n = 8 and ks = "[[98, 1, 9, 0, 0, 0, 0, 0, 0], [98, 1, 9, 0, 0, 0, 0, 0, 0]]"] t(1) found
  show ?thesis by (fastforce simp: list_all2_Cons1)
qed

end
