(* ===== verification/Spec2Isabelle.thy ===== *)
theory Spec2Isabelle
  imports Pb_Encode_Props Pb_Decode_Errors Ldb_Cache_Correct Ldb_Log Ldb_Memtable Ldb_Filter_Block Ldb_Version_Builder Ldb_Table_Correct
begin

text \<open>
  A verification library for the C and C++ code that the folium application carries under \<^verbatim>\<open>src/ios/Pods\<close>: the
  protocol-buffer runtime nanopb (\<^verbatim>\<open>nanopb/\<close>) and the storage engine leveldb (\<^verbatim>\<open>leveldb-library/\<close>), on which the
  Firebase clients of the application keep their messages and their data.

  \<^bold>\<open>The program and its parts.\<close>
  nanopb encodes a C struct, described by a table of fields, into the wire format and decodes it back.
  leveldb stores keys with values. An update is put into a batch (\<^verbatim>\<open>WriteBatch\<close>), the batch is appended to a log
  (\<^verbatim>\<open>log::Writer\<close>) and then inserted into a memtable, a skip list of internal keys (user key, sequence number, type).
  After a crash the log is read back (\<^verbatim>\<open>log::Reader\<close>). A full memtable becomes a table file: blocks of sorted entries
  with prefix compression, filter blocks, an index. Which files a database has at which level is a version;
  changes are edits, which are logged and applied by a builder.

  \<^bold>\<open>nanopb.\<close>
  \<^item> \<open>Pb_Header\<close>, \<open>Pb_Common\<close>: the data of \<^verbatim>\<open>pb.h\<close> (field tables, type bits, extensions) and the field iterator of
    \<^verbatim>\<open>pb_common.c\<close>; \<open>pb_field_iter_find\<close> terminates and finds a field exactly if the table has its tag.
  \<^item> \<open>Pb_Encode\<close>: every function of \<^verbatim>\<open>pb_encode.c\<close>, streams with callbacks, arrays, sub-messages, extensions. \<open>Pb_Wire\<close> is the
    specification of the wire format as a function of the message; \<open>Pb_Encode_Correct\<close> proves in the locale
    \<open>byte_sink\<close> that the encoder refines it, and \<open>Pb_Encode_Props\<close> reads the results off for buffers and sizing streams.
  \<^item> \<open>Pb_Istream\<close>, \<open>Pb_Heap\<close>, \<open>Pb_Decode\<close>: every function of \<^verbatim>\<open>pb_decode.c\<close> with the memory of the message, the heap of
    pointer fields, callbacks, extensions, defaults, required fields and \<^verbatim>\<open>pb_release\<close>. \<open>Pb_Istream_Correct\<close> and
    \<open>Pb_Istream_Safe\<close> state the contracts of input streams (\<open>byte_source\<close>, \<open>total_source\<close>) and prove the readers over them;
    \<open>Pb_Decode_Safe\<close> shows that decoding static messages is total, \<open>Pb_Roundtrip\<close> and \<open>Pb_Roundtrip_Msg\<close> that an encoded
    message is decoded to itself, \<open>Pb_Required\<close> the bitmap of required fields, and \<open>Pb_Decode_Props\<close> and
    \<open>Pb_Decode_Errors\<close> hold the properties for callers, two faults among them.

  \<^bold>\<open>leveldb.\<close>
  \<^item> \<open>Varint\<close>, \<open>Ldb_Coding\<close> (\<^verbatim>\<open>util/coding\<close>, \<^verbatim>\<open>slice.h\<close>), \<open>Ldb_Status\<close> (\<^verbatim>\<open>status\<close>), \<open>Ldb_Crc32c\<close> (\<^verbatim>\<open>util/crc32c\<close>): round trips of all
    encodings, the four-table checksum equals the bitwise one at every address.
  \<^item> \<open>Ldb_Comparator\<close>, \<open>Ldb_Dbformat\<close> (\<^verbatim>\<open>util/comparator.cc\<close>, \<^verbatim>\<open>db/dbformat\<close>): the contract of a comparator as the locales
    \<open>cmp_order\<close> and \<open>key_order\<close>, interpreted on the byte-wise comparator and, in \<open>internal_order\<close>, on internal keys.
  \<^item> \<open>Ldb_Write_Batch\<close> (\<^verbatim>\<open>db/write_batch.cc\<close>): building, iterating, appending; any bytes are handled.
  \<^item> \<open>Ldb_File\<close> (\<^verbatim>\<open>env.h\<close>, \<^verbatim>\<open>util/env_posix.cc\<close>): sequential, random access and writable files as records of operations with
    contracts that the posix files satisfy, devices that fail included. \<open>Ldb_Log_Writer\<close>, \<open>Ldb_Log_Reader\<close>, \<open>Ldb_Log\<close>
    (\<^verbatim>\<open>db/log_writer.cc\<close>, \<^verbatim>\<open>db/log_reader.cc\<close>): records are read back, a log cut anywhere gives the whole records and no
    report, the reader ends on every file.
  \<^item> \<open>Ldb_Skiplist\<close>, \<open>Ldb_Memtable\<close> (\<^verbatim>\<open>db/skiplist.h\<close>, \<^verbatim>\<open>util/random.h\<close>, \<^verbatim>\<open>db/memtable.cc\<close>): the list refines a sorted list for
    any heights; \<^verbatim>\<open>Get\<close> finds the newest visible entry; a batch is inserted with consecutive sequence numbers.
  \<^item> \<open>Ldb_Bloom\<close>, \<open>Ldb_Filter_Block\<close> (\<^verbatim>\<open>util/hash.cc\<close>, \<^verbatim>\<open>util/bloom.cc\<close>, \<^verbatim>\<open>table/filter_block.cc\<close>): the locale \<open>filter_contract\<close> (no
    false negatives), interpreted on the Bloom filter and its wrapper for internal keys; filter blocks are read back.
  \<^item> \<open>Ldb_Iterator\<close> (\<^verbatim>\<open>iterator.h\<close>): the contract \<open>sorted_iterator\<close> with the scans of its clients. \<open>Ldb_Block\<close>,
    \<open>Ldb_Block_Correct\<close> (\<^verbatim>\<open>table/block_builder.cc\<close>, \<^verbatim>\<open>table/block.cc\<close>, \<^verbatim>\<open>table/iterator.cc\<close>): the iterator of a built block satisfies it.
  \<^item> \<open>Ldb_Cache\<close>, \<open>Ldb_Cache_Correct\<close> (\<^verbatim>\<open>include/leveldb/cache.h\<close>, \<^verbatim>\<open>util/cache.cc\<close>): the interface with its contract
    \<open>cache_contract\<close>, and the sharded LRU cache with its hash table, both lists and reference counts, at the integer
    widths of the code: charges, usage and capacity wrap around at 64 bits, reference counts and table sizes at 32, and
    \<open>handle_key\<close> is undefined where \<^verbatim>\<open>key()\<close> reads a pointer that was never set. No use after free, no lost or doubled
    deletion, and usage within the capacity or nothing left to evict hold for the capacities that leave a shard some
    room; \<open>cache_without_capacity\<close> shows what happens at the others.
  \<^item> \<open>Ldb_Format\<close>, \<open>Ldb_Two_Level\<close>, \<open>Ldb_Table_Builder\<close>, \<open>Ldb_Table\<close> (\<^verbatim>\<open>table/format\<close>, \<^verbatim>\<open>table/two_level_iterator.cc\<close>,
    \<^verbatim>\<open>table/iterator_wrapper.h\<close>, \<^verbatim>\<open>table/table_builder.cc\<close>, \<^verbatim>\<open>table/table.cc\<close>): random access files by \<^verbatim>\<open>pread\<close> and by
    \<^verbatim>\<open>mmap\<close> with the contract \<open>random_file\<close>, footers and block reads with checksums, and tables over them. In the locale
    \<open>two_level\<close> the two-level iterator is an iterator over the concatenated blocks. \<open>Ldb_Table_Write\<close> (locale
    \<open>table_writer\<close>) gives the layout of a built file, \<open>Ldb_Table_Read\<close> (locale \<open>table_reader\<close>) what a reader sees in
    it whatever the block cache has kept, and \<open>Ldb_Table_Correct\<close> interprets both on the POSIX files, the LRU cache and
    the Bloom filter. A block stays referenced in the source until its iterator is deleted; the model gives it back
    after copying it, which affects the order of evictions only.
  \<^item> \<open>Ldb_Version_Edit\<close>, \<open>Ldb_Version\<close>, \<open>Ldb_Version_Builder\<close> (\<^verbatim>\<open>db/version_edit.cc\<close>, parts of \<^verbatim>\<open>db/version_set.cc\<close>): edits are read
    back, the searches over sorted files agree with plain definitions, a new table is put at a safe level, and the
    builder gives what applying the edits one by one gives.

  \<^bold>\<open>Conventions.\<close> \<open>Prelude\<close> holds the machine integers (words of 8, 32 and 64 bits; \<^verbatim>\<open>size_t\<close> has 64 bits), memory with typed
  loads and stores, and shared lemmas. Assertions are not modelled, nor is the check between
  \<^verbatim>\<open>#ifndef NDEBUG\<close> and \<^verbatim>\<open>#endif\<close> in \<^verbatim>\<open>VersionSet::Builder::SaveTo\<close>: the definitions are the code as compiled with
  \<^verbatim>\<open>NDEBUG\<close>, which the Xcode configurations of this repository do not define. In a build without it a failing check stops
  the program, so there the statements are about the runs in which none fails. Numbers of keys in one filter and of files
  on one level are kept as natural numbers; the code holds them in 32-bit integers, and the two agree below 2^31. The value
  \<^const>\<open>None\<close> of an operation of option type stands for leaving the defined behaviour of the source (a read or write outside an
  object, a null call, a bad free), or for a loop that does not return; therefore statements of the form
  \<^verbatim>\<open>... = Some ...\<close> include termination and the absence of such accesses. Loops without a structural measure are either
  \<^verbatim>\<open>function\<close>s with a termination proof or \<^verbatim>\<open>partial_function (option)\<close>s. The only fuel is the nesting depth of
  sub-messages in nanopb; every property about it holds at every depth that covers the nesting of the message, or for all
  depths. Byte strings are lists; where the code keeps 32-bit lengths the properties assume the lengths fit, and a witness
  instantiates the assumptions. Each locale is interpreted on the model's definitions.

  \<^bold>\<open>Not modelled.\<close> The database object itself (\<^verbatim>\<open>db/db_impl.cc\<close>, \<^verbatim>\<open>db/repair.cc\<close>, \<^verbatim>\<open>db/c.cc\<close>, the writing of manifests
  and the picking of compactions in \<^verbatim>\<open>db/version_set.cc\<close>) schedules threads under mutexes and changes a file system.
  The merging iterator and the iterator of the database (\<^verbatim>\<open>table/merger.cc\<close>, \<^verbatim>\<open>db/db_iter.cc\<close>), the table cache and the
  arena (\<^verbatim>\<open>util/arena.cc\<close>) are left out. The rest of \<^verbatim>\<open>util/env_posix.cc\<close> is system calls. The Objective-C and Swift pods (Firebase, GoogleUtilities, GTM) and their headers are
  declarations of clients of remote services; the Flutter application and the runners are user interface and platform
  glue in other languages.
\<close>

end
